(* ===== verification/Prelude.thy ===== *)
theory Prelude
  imports Main "HOL-Library.Word"
begin

text \<open>
  The prelude of the development: how a C function that works on shared memory is
  written as a HOL value, and the two ways such a value is executed.

  A function body is a value of type \<open>('s, 'a) prog\<close>: a tree of atomic actions on the
  shared state \<open>'s\<close>. Each read, write, compare-and-swap or fetch-and-add of a shared
  location in the C source is one \<open>Act\<close>; the local computation between two of them
  is plain HOL. \<open>Crash\<close> stands for undefined behaviour of the C code (a NULL or wild
  dereference), \<open>Exit\<close> for a call of \<open>exit\<close>, and \<open>Spin\<close> for a loop whose
  iteration budget (the fuel of the loop's definition) is spent: the thread is still
  looping. The memory is sequentially consistent.

  \<^item> \<open>run\<close> executes one body alone, from its first action to its last (the solo
    semantics, for functional correctness).
  \<^item> \<open>exec\<close> interleaves several bodies, one atomic action at a time, as a list of
    thread numbers (the schedule) says (the concurrent semantics).
  \<^item> \<open>safe\<close> is the rely/guarantee proof rule for one body, and the locale
    \<open>rely_guarantee\<close> composes it over all the threads of an interleaved execution.
\<close>

section \<open>Bits of numbers\<close>

unbundle bit_operations_syntax

lemma bit_nat_less: "(t::nat) < 2 ^ k \<Longrightarrow> bit t n \<Longrightarrow> n < k"
  by (metis bit_take_bit_iff take_bit_nat_eq_self)

lemmas bit_nat_less16 = bit_nat_less [where k = 16, simplified]

section \<open>Programs of atomic actions\<close>

datatype ('s, 'a) prog =
    Ret 'a
  | Act "'s \<Rightarrow> 's \<times> ('s, 'a) prog"
  | Spin
  | Exit int
  | Crash

datatype ('s, 'a) outcome =
    Done 'a 's
  | Looping 's
  | Exited int 's
  | Crashed 's

named_theorems prog_simps "how the solo semantics executes each primitive"
named_theorems safe_intros "rely/guarantee rules, one per primitive"

primrec run :: "('s, 'a) prog \<Rightarrow> 's \<Rightarrow> ('s, 'a) outcome" where
  "run (Ret a) = (\<lambda>s. Done a s)"
| "run (Act f) = (\<lambda>s. let r = map_prod id run (f s) in snd r (fst r))"
| "run Spin = (\<lambda>s. Looping s)"
| "run (Exit n) = (\<lambda>s. Exited n s)"
| "run Crash = (\<lambda>s. Crashed s)"

lemma run_Act [simp]: "run (Act f) s = run (snd (f s)) (fst (f s))"
  by (cases "f s") simp

primrec bind :: "('s, 'a) prog \<Rightarrow> ('a \<Rightarrow> ('s, 'b) prog) \<Rightarrow> ('s, 'b) prog" where
  "bind (Ret a) = (\<lambda>k. k a)"
| "bind (Act f) = (\<lambda>k. Act (\<lambda>s. map_prod id (\<lambda>g. g k) (map_prod id bind (f s))))"
| "bind Spin = (\<lambda>k. Spin)"
| "bind (Exit n) = (\<lambda>k. Exit n)"
| "bind Crash = (\<lambda>k. Crash)"

fun bind_outcome :: "('s, 'a) outcome \<Rightarrow> ('a \<Rightarrow> ('s, 'b) prog) \<Rightarrow> ('s, 'b) outcome" where
  "bind_outcome (Done a s) k = run (k a) s"
| "bind_outcome (Looping s) k = Looping s"
| "bind_outcome (Exited n s) k = Exited n s"
| "bind_outcome (Crashed s) k = Crashed s"

lemma run_bind [simp]: "run (bind p k) s = bind_outcome (run p s) k"
proof (induction p arbitrary: s)
  case (Act f)
  show ?case
    using Act [of "f s" "snd (f s)" "fst (f s)"]
    by (cases "f s") (auto simp: snds.simps rangeI dest: sym intro: range_eqI)
qed auto

subsection \<open>The primitives\<close>

text \<open>
  Each takes the rest of the body as its continuation. \<open>ld\<close> reads, \<open>st\<close> writes,
  \<open>cas\<close> is \<open>__sync_bool_compare_and_swap\<close> (its first argument says whether the
  location holds the expected value), \<open>fetch\<close> is \<open>__sync_fetch_and_add\<close> and its
  kin. The variants ending in \<open>p\<close> go through a pointer that may be invalid: \<open>None\<close> is
  undefined behaviour.
\<close>

definition ld :: "('s \<Rightarrow> 'v) \<Rightarrow> ('v \<Rightarrow> ('s, 'a) prog) \<Rightarrow> ('s, 'a) prog" where
  "ld f k = Act (\<lambda>s. (s, k (f s)))"

definition st :: "('s \<Rightarrow> 's) \<Rightarrow> ('s, 'a) prog \<Rightarrow> ('s, 'a) prog" where
  "st g k = Act (\<lambda>s. (g s, k))"

definition cas :: "('s \<Rightarrow> bool) \<Rightarrow> ('s \<Rightarrow> 's) \<Rightarrow> (bool \<Rightarrow> ('s, 'a) prog) \<Rightarrow> ('s, 'a) prog" where
  "cas c u k = Act (\<lambda>s. if c s then (u s, k True) else (s, k False))"

definition fetch :: "('s \<Rightarrow> 'v) \<Rightarrow> ('s \<Rightarrow> 's) \<Rightarrow> ('v \<Rightarrow> ('s, 'a) prog) \<Rightarrow> ('s, 'a) prog" where
  "fetch f u k = Act (\<lambda>s. (u s, k (f s)))"

definition ldp :: "('s \<Rightarrow> 'v option) \<Rightarrow> ('v \<Rightarrow> ('s, 'a) prog) \<Rightarrow> ('s, 'a) prog" where
  "ldp f k = Act (\<lambda>s. case f s of None \<Rightarrow> (s, Crash) | Some v \<Rightarrow> (s, k v))"

definition stp :: "('s \<Rightarrow> 's option) \<Rightarrow> ('s, 'a) prog \<Rightarrow> ('s, 'a) prog" where
  "stp g k = Act (\<lambda>s. case g s of None \<Rightarrow> (s, Crash) | Some t \<Rightarrow> (t, k))"

definition rmwp :: "('s \<Rightarrow> ('v \<times> 's) option) \<Rightarrow> ('v \<Rightarrow> ('s, 'a) prog) \<Rightarrow> ('s, 'a) prog" where
  "rmwp f k = Act (\<lambda>s. case f s of None \<Rightarrow> (s, Crash) | Some (v, t) \<Rightarrow> (t, k v))"

text \<open>Compare-and-swap through a pointer: \<open>casp\<close> is \<open>__sync_bool_compare_and_swap\<close>, \<open>vcasp\<close> is
  \<open>__sync_val_compare_and_swap\<close>, which returns what the location held.\<close>

definition casp :: "('s \<Rightarrow> 'v option) \<Rightarrow> 'v \<Rightarrow> ('s \<Rightarrow> 's) \<Rightarrow> (bool \<Rightarrow> ('s, 'a) prog) \<Rightarrow> ('s, 'a) prog" where
  "casp f old u k = Act (\<lambda>s. case f s of None \<Rightarrow> (s, Crash)
     | Some v \<Rightarrow> if v = old then (u s, k True) else (s, k False))"

definition vcasp :: "('s \<Rightarrow> 'v option) \<Rightarrow> 'v \<Rightarrow> ('s \<Rightarrow> 's) \<Rightarrow> ('v \<Rightarrow> ('s, 'a) prog) \<Rightarrow> ('s, 'a) prog" where
  "vcasp f old u k = Act (\<lambda>s. case f s of None \<Rightarrow> (s, Crash)
     | Some v \<Rightarrow> if v = old then (u s, k v) else (s, k v))"

lemma run_casp [simp, prog_simps]:
  "run (casp f old u k) s = (case f s of None \<Rightarrow> Crashed s
     | Some v \<Rightarrow> if v = old then run (k True) (u s) else run (k False) s)"
  by (simp add: casp_def split: option.split)

lemma run_vcasp [simp, prog_simps]:
  "run (vcasp f old u k) s = (case f s of None \<Rightarrow> Crashed s
     | Some v \<Rightarrow> if v = old then run (k v) (u s) else run (k v) s)"
  by (simp add: vcasp_def split: option.split)

lemma run_ld [simp, prog_simps]: "run (ld f k) s = run (k (f s)) s"
  by (simp add: ld_def)

lemma run_st [simp, prog_simps]: "run (st g k) s = run k (g s)"
  by (simp add: st_def)

lemma run_cas [simp, prog_simps]:
  "run (cas c u k) s = (if c s then run (k True) (u s) else run (k False) s)"
  by (simp add: cas_def)

lemma run_fetch [simp, prog_simps]: "run (fetch f u k) s = run (k (f s)) (u s)"
  by (simp add: fetch_def)

lemma run_ldp [simp, prog_simps]:
  "run (ldp f k) s = (case f s of None \<Rightarrow> Crashed s | Some v \<Rightarrow> run (k v) s)"
  by (simp add: ldp_def split: option.split)

lemma run_stp [simp, prog_simps]:
  "run (stp g k) s = (case g s of None \<Rightarrow> Crashed s | Some t \<Rightarrow> run k t)"
  by (simp add: stp_def split: option.split)

lemma run_rmwp [simp, prog_simps]:
  "run (rmwp f k) s = (case f s of None \<Rightarrow> Crashed s | Some (v, t) \<Rightarrow> run (k v) t)"
  by (simp add: rmwp_def split: option.split prod.split)

text \<open>A call whose callee starts with a primitive starts with it.\<close>

lemma bind_prims:
  "bind (ld f k) h = ld f (\<lambda>v. bind (k v) h)" "bind (st g p) h = st g (bind p h)" "bind (ldp f' k) h = ldp f' (\<lambda>v. bind (k v) h)"
  "bind (stp g' p) h = stp g' (bind p h)" "bind (cas c u kb) h = cas c u (\<lambda>b. bind (kb b) h)"
  by (auto simp: ld_def st_def ldp_def stp_def cas_def fun_eq_iff split: option.split)

lemma bind_assoc: "bind (bind p f) g = bind p (\<lambda>x. bind (f x) g)"
proof (induction p)
  case (Act h)
  have "bind (bind (snd (h s)) f) g = bind (snd (h s)) (\<lambda>x. bind (f x) g)" for s
    using Act [of "h s" "snd (h s)"] by (simp add: snds.simps)
  then show ?case by (simp add: map_prod_def split_def fun_eq_iff)
qed simp_all

section \<open>Interleaved execution\<close>

type_synonym ('s, 'a) conf = "'s \<times> ('s, 'a) prog list"

fun step_of :: "('s, 'a) prog \<Rightarrow> 's \<Rightarrow> 's \<times> ('s, 'a) prog" where
  "step_of (Act f) s = f s"
| "step_of p s = (s, p)"

definition sched_step :: "nat \<Rightarrow> ('s, 'a) conf \<Rightarrow> ('s, 'a) conf" where
  "sched_step i c = (case c of (s, ts) \<Rightarrow>
     if i < length ts
     then (case step_of (ts ! i) s of (t, p) \<Rightarrow> (t, ts[i := p]))
     else (s, ts))"

primrec exec :: "nat list \<Rightarrow> ('s, 'a) conf \<Rightarrow> ('s, 'a) conf" where
  "exec [] c = c"
| "exec (i # is) c = exec is (sched_step i c)"

lemma exec_append [simp]: "exec (xs @ ys) c = exec ys (exec xs c)"
  by (induction xs arbitrary: c) auto

lemma sched_step_length [simp]: "length (snd (sched_step i c)) = length (snd c)"
  by (auto simp: sched_step_def split: prod.split)

lemma exec_length [simp]: "length (snd (exec is c)) = length (snd c)"
  by (induction "is" arbitrary: c) auto

text \<open>A thread that runs alone to its end, as part of a schedule.\<close>

lemma run_exec:
  "run p s = Done a t \<Longrightarrow> i < length ts \<Longrightarrow> ts ! i = p \<Longrightarrow> \<exists>n. exec (replicate n i) (s, ts) = (t, ts[i := Ret a])"
proof (induction p arbitrary: s ts)
  case (Ret x)
  have "exec (replicate 0 i) (s, ts) = (t, ts[i := Ret a])" using Ret by (simp, metis list_update_id)
  then show ?case by blast
next
  case (Act f)
  obtain u q where f: "f s = (u, q)" by fastforce
  then have "(u, q) \<in> range f" by (metis rangeI)
  from Act.IH [OF this, of q u "ts[i := q]"] Act.prems f obtain n where
    "exec (replicate n i) (u, ts[i := q]) = (t, ts[i := Ret a])" by (auto simp: snds.simps)
  moreover have "sched_step i (s, ts) = (u, ts[i := q])" using Act.prems f by (simp add: sched_step_def)
  ultimately have "exec (replicate (Suc n) i) (s, ts) = (t, ts[i := Ret a])" by simp
  then show ?case by blast
qed simp_all

text \<open>The same for the first part of a thread.\<close>

lemma run_exec_bind:
  "run p s = Done a t \<Longrightarrow> i < length ts \<Longrightarrow> ts ! i = bind p k \<Longrightarrow> \<exists>n. exec (replicate n i) (s, ts) = (t, ts[i := k a])"
proof (induction p arbitrary: s ts)
  case (Ret x)
  have "exec (replicate 0 i) (s, ts) = (t, ts[i := k a])" using Ret by (simp, metis list_update_id)
  then show ?case by blast
next
  case (Act f)
  obtain u q where f: "f s = (u, q)" by fastforce
  then have "(u, q) \<in> range f" by (metis rangeI)
  from Act.IH [OF this, of q u "ts[i := bind q k]"] Act.prems f obtain n where
    "exec (replicate n i) (u, ts[i := bind q k]) = (t, ts[i := k a])" by (auto simp: snds.simps)
  moreover have "sched_step i (s, ts) = (u, ts[i := bind q k])" using Act.prems f by (simp add: sched_step_def)
  ultimately have "exec (replicate (Suc n) i) (s, ts) = (t, ts[i := k a])" by simp
  then show ?case by blast
qed simp_all

section \<open>Rely/guarantee reasoning\<close>

text \<open>
  \<open>safe R G Q P p\<close>: started in a state where the assertion \<open>P\<close> holds, while every
  step of the other threads is in \<open>R\<close>, each action of \<open>p\<close> is in \<open>G\<close>, \<open>p\<close> never
  reaches \<open>Crash\<close> or \<open>Exit\<close>, and if it returns \<open>a\<close> then \<open>Q a\<close> holds. The
  assertion at each point of the body must be stable under \<open>R\<close>; after an action it may
  depend on the state in which the action was taken.
\<close>

definition rg_stable :: "('s \<Rightarrow> 's \<Rightarrow> bool) \<Rightarrow> ('s \<Rightarrow> bool) \<Rightarrow> bool" where
  "rg_stable R P \<longleftrightarrow> (\<forall>s t. P s \<longrightarrow> R s t \<longrightarrow> P t)"

inductive safe ::
  "('s \<Rightarrow> 's \<Rightarrow> bool) \<Rightarrow> ('s \<Rightarrow> 's \<Rightarrow> bool) \<Rightarrow> ('a \<Rightarrow> 's \<Rightarrow> bool) \<Rightarrow> ('s \<Rightarrow> bool) \<Rightarrow> ('s, 'a) prog \<Rightarrow> bool"
  for R G Q where
  safe_Ret: "rg_stable R P \<Longrightarrow> (\<And>s. P s \<Longrightarrow> Q a s) \<Longrightarrow> safe R G Q P (Ret a)"
| safe_Spin: "rg_stable R P \<Longrightarrow> safe R G Q P Spin"
| safe_absurd: "(\<And>s. \<not> P s) \<Longrightarrow> safe R G Q P p"
| safe_Act: "rg_stable R P \<Longrightarrow>
    (\<And>s. P s \<Longrightarrow> G s (fst (f s)) \<and> (\<exists>P'. P' (fst (f s)) \<and> safe R G Q P' (snd (f s)))) \<Longrightarrow>
    safe R G Q P (Act f)"

inductive_cases safe_RetE: "safe R G Q P (Ret a)"
inductive_cases safe_ActE: "safe R G Q P (Act f)"
inductive_cases safe_CrashE: "safe R G Q P Crash"
inductive_cases safe_ExitE: "safe R G Q P (Exit n)"

lemma safe_stable: "safe R G Q P p \<Longrightarrow> rg_stable R P"
  by (induction rule: safe.cases) (auto simp: rg_stable_def)

text \<open>One rule per primitive: the assertion before it, the step it makes, and the assertion the
  rest of the body starts from, which may depend on the value read.\<close>

lemma safe_ld [safe_intros]:
  assumes "rg_stable R P" and "\<And>s. P s \<Longrightarrow> G s s \<and> P' (f s) s" and "\<And>v. safe R G Q (P' v) (k v)"
  shows "safe R G Q P (ld f k)"
  unfolding ld_def using assms by (intro safe_Act) auto

lemma safe_st [safe_intros]:
  assumes "rg_stable R P" and "\<And>s. P s \<Longrightarrow> G s (g s) \<and> P' (g s)" and "safe R G Q P' k"
  shows "safe R G Q P (st g k)"
  unfolding st_def using assms by (intro safe_Act) auto

lemma safe_cas [safe_intros]:
  assumes "rg_stable R P"
    and "\<And>s. P s \<Longrightarrow> c s \<Longrightarrow> G s (u s) \<and> PT (u s)" and "\<And>s. P s \<Longrightarrow> \<not> c s \<Longrightarrow> G s s \<and> PF s"
    and "safe R G Q PT (k True)" and "safe R G Q PF (k False)"
  shows "safe R G Q P (cas c u k)"
  unfolding cas_def using assms by (intro safe_Act) auto

lemma safe_fetch [safe_intros]:
  assumes "rg_stable R P" and "\<And>s. P s \<Longrightarrow> G s (u s) \<and> P' (f s) (u s)" and "\<And>v. safe R G Q (P' v) (k v)"
  shows "safe R G Q P (fetch f u k)"
  unfolding fetch_def using assms by (intro safe_Act) auto

lemma safe_ldp [safe_intros]:
  assumes "rg_stable R P" and "\<And>s. P s \<Longrightarrow> \<exists>v. f s = Some v \<and> G s s \<and> P' v s"
    and "\<And>v. safe R G Q (P' v) (k v)"
  shows "safe R G Q P (ldp f k)"
  unfolding ldp_def
proof (rule safe_Act [OF assms(1)])
  fix s assume "P s"
  with assms(2) obtain v where "f s = Some v" "G s s" "P' v s" by blast
  with assms(3) [of v] show "G s (fst (case f s of None \<Rightarrow> (s, Crash) | Some v \<Rightarrow> (s, k v))) \<and>
    (\<exists>P'. P' (fst (case f s of None \<Rightarrow> (s, Crash) | Some v \<Rightarrow> (s, k v))) \<and>
      safe R G Q P' (snd (case f s of None \<Rightarrow> (s, Crash) | Some v \<Rightarrow> (s, k v))))" by auto
qed

lemma safe_stp [safe_intros]:
  assumes "rg_stable R P" and "\<And>s. P s \<Longrightarrow> \<exists>t. g s = Some t \<and> G s t \<and> P' t" and "safe R G Q P' k"
  shows "safe R G Q P (stp g k)"
  unfolding stp_def
proof (rule safe_Act [OF assms(1)])
  fix s assume "P s"
  with assms(2) obtain t where "g s = Some t" "G s t" "P' t" by blast
  with assms(3) show "G s (fst (case g s of None \<Rightarrow> (s, Crash) | Some t \<Rightarrow> (t, k))) \<and>
    (\<exists>P'. P' (fst (case g s of None \<Rightarrow> (s, Crash) | Some t \<Rightarrow> (t, k))) \<and>
      safe R G Q P' (snd (case g s of None \<Rightarrow> (s, Crash) | Some t \<Rightarrow> (t, k))))" by auto
qed

lemma safe_rmwp [safe_intros]:
  assumes "rg_stable R P" and "\<And>s. P s \<Longrightarrow> \<exists>v t. f s = Some (v, t) \<and> G s t \<and> P' v t"
    and "\<And>v. safe R G Q (P' v) (k v)"
  shows "safe R G Q P (rmwp f k)"
  unfolding rmwp_def
proof (rule safe_Act [OF assms(1)])
  fix s assume "P s"
  with assms(2) obtain v t where "f s = Some (v, t)" "G s t" "P' v t" by blast
  with assms(3) [of v] show "G s (fst (case f s of None \<Rightarrow> (s, Crash) | Some (v, t) \<Rightarrow> (t, k v))) \<and>
    (\<exists>P'. P' (fst (case f s of None \<Rightarrow> (s, Crash) | Some (v, t) \<Rightarrow> (t, k v))) \<and>
      safe R G Q P' (snd (case f s of None \<Rightarrow> (s, Crash) | Some (v, t) \<Rightarrow> (t, k v))))" by auto
qed

lemma safe_casp [safe_intros]:
  assumes "rg_stable R P" and "\<And>s. P s \<Longrightarrow> f s \<noteq> None"
    and "\<And>s. P s \<Longrightarrow> f s = Some old \<Longrightarrow> G s (u s) \<and> PT (u s)"
    and "\<And>s v. P s \<Longrightarrow> f s = Some v \<Longrightarrow> v \<noteq> old \<Longrightarrow> G s s \<and> PF s"
    and "safe R G Q PT (k True)" and "safe R G Q PF (k False)"
  shows "safe R G Q P (casp f old u k)"
  unfolding casp_def
proof (rule safe_Act [OF assms(1)])
  fix s assume "P s"
  with assms(2) obtain v where v: "f s = Some v" by blast
  with assms(3-) \<open>P s\<close> show "G s (fst (case f s of None \<Rightarrow> (s, Crash)
     | Some v \<Rightarrow> if v = old then (u s, k True) else (s, k False))) \<and>
    (\<exists>P'. P' (fst (case f s of None \<Rightarrow> (s, Crash)
     | Some v \<Rightarrow> if v = old then (u s, k True) else (s, k False))) \<and>
      safe R G Q P' (snd (case f s of None \<Rightarrow> (s, Crash)
     | Some v \<Rightarrow> if v = old then (u s, k True) else (s, k False))))" by (cases "v = old") auto
qed

text \<open>Facts that do not depend on the state, and values the assertion only claims to exist, are
  moved out of the assertion.\<close>

lemma safe_pure: "(\<phi> \<Longrightarrow> safe R G Q P p) \<Longrightarrow> safe R G Q (\<lambda>s. \<phi> \<and> P s) p"
  by (cases \<phi>) (auto intro: safe_absurd)

lemma safe_ex:
  assumes "\<And>x. safe R G Q (P x) p"
  shows "safe R G Q (\<lambda>s. \<exists>x. P x s) p"
proof -
  have st: "rg_stable R (\<lambda>s. \<exists>x. P x s)" using safe_stable [OF assms] by (auto simp: rg_stable_def)
  show ?thesis
  proof (cases p)
    case (Ret a)
    with assms st show ?thesis by (auto intro!: safe_Ret elim: safe_RetE)
  next
    case (Act f)
    show ?thesis
      unfolding Act
    proof (rule safe_Act [OF st])
      fix s assume "\<exists>x. P x s"
      then obtain x where "P x s" ..
      with assms [of x] Act show "G s (fst (f s)) \<and> (\<exists>P'. P' (fst (f s)) \<and> safe R G Q P' (snd (f s)))"
        by (auto elim: safe_ActE)
    qed
  next
    case Spin
    with st show ?thesis by (auto intro: safe_Spin)
  next
    case (Exit n)
    with assms show ?thesis by (auto intro!: safe_absurd elim: safe_ExitE)
  next
    case Crash
    with assms show ?thesis by (auto intro!: safe_absurd elim: safe_CrashE)
  qed
qed

lemma safe_pre:
  assumes "safe R G Q P p" and "rg_stable R P'" and "\<And>s. P' s \<Longrightarrow> P s"
  shows "safe R G Q P' p"
  using assms(1)
proof (cases rule: safe.cases)
  case safe_Ret
  with assms show ?thesis by (auto intro: safe.safe_Ret)
next
  case safe_Spin
  with assms show ?thesis by (auto intro: safe.safe_Spin)
next
  case safe_absurd
  with assms(3) show ?thesis by (blast intro: safe.safe_absurd)
next
  case safe_Act
  with assms show ?thesis by (auto intro: safe.safe_Act)
qed

text \<open>A call: the callee's postcondition is the precondition of the rest.\<close>

lemma safe_bind:
  assumes "safe R G M P p" and "\<And>a. safe R G Q (M a) (k a)"
  shows "safe R G Q P (bind p k)"
  using assms(1)
proof (induction rule: safe.induct)
  case (safe_Ret P a)
  then show ?case using assms(2) [of a] by (auto intro: safe_pre)
next
  case (safe_Act P f)
  show ?case
    unfolding bind.simps
  proof (rule safe.safe_Act [OF safe_Act.hyps(1)])
    fix s
    assume "P s"
    with safe_Act.IH [of s]
    show "G s (fst (map_prod id (\<lambda>g. g k) (map_prod id bind (f s)))) \<and>
       (\<exists>P'. P' (fst (map_prod id (\<lambda>g. g k) (map_prod id bind (f s)))) \<and>
         safe R G Q P' (snd (map_prod id (\<lambda>g. g k) (map_prod id bind (f s)))))"
      by (cases "f s") auto
  qed
qed (auto intro: safe.intros)

lemma safe_post:
  assumes "safe R G Q P p" and "\<And>a s. Q a s \<Longrightarrow> Q' a s"
  shows "safe R G Q' P p"
  using assms(1)
proof (induction rule: safe.induct)
  case (safe_Act P f)
  then show ?case by (intro safe.safe_Act) blast+
qed (auto intro: safe.intros assms(2))

subsection \<open>Composition over all threads\<close>

text \<open>
  The interface every concurrent component provides: for each thread number a rely and a
  guarantee, where the guarantee of one thread is within the rely of any other.
\<close>

locale rely_guarantee =
  fixes R :: "nat \<Rightarrow> 's \<Rightarrow> 's \<Rightarrow> bool" and G :: "nat \<Rightarrow> 's \<Rightarrow> 's \<Rightarrow> bool"
  assumes compatible: "i \<noteq> j \<Longrightarrow> G j s t \<Longrightarrow> R i s t"
begin

definition thread_ok :: "('a \<Rightarrow> 's \<Rightarrow> bool) \<Rightarrow> nat \<Rightarrow> 's \<Rightarrow> ('s, 'a) prog \<Rightarrow> bool" where
  "thread_ok Q i s p \<longleftrightarrow> (\<exists>P. P s \<and> safe (R i) (G i) Q P p)"

lemma thread_ok_env: "thread_ok Q i s p \<Longrightarrow> R i s t \<Longrightarrow> thread_ok Q i t p"
  unfolding thread_ok_def by (blast dest: safe_stable [unfolded rg_stable_def])

lemma thread_ok_step:
  assumes "thread_ok Q i s p"
  shows "(\<exists>f. p = Act f \<and> G i s (fst (step_of p s)) \<and> thread_ok Q i (fst (step_of p s)) (snd (step_of p s)))
       \<or> step_of p s = (s, p)"
proof -
  from assms obtain P where P: "P s" "safe (R i) (G i) Q P p" by (auto simp: thread_ok_def)
  show ?thesis
  proof (cases p)
    case (Act f)
    with P show ?thesis by (auto simp: thread_ok_def elim!: safe_ActE)
  qed auto
qed

lemma sched_step_ok:
  assumes ok: "\<And>i. i < length ts \<Longrightarrow> thread_ok (Q i) i s (ts ! i)"
    and step: "sched_step j (s, ts) = (s', ts')" and i: "i < length ts"
  shows "thread_ok (Q i) i s' (ts' ! i)"
proof (cases "j < length ts")
  case False
  with step ok i show ?thesis by (simp add: sched_step_def)
next
  case True
  from thread_ok_step [OF ok [OF True]] consider
      (act) f where "ts ! j = Act f" "G j s (fst (step_of (ts ! j) s))"
        "thread_ok (Q j) j (fst (step_of (ts ! j) s)) (snd (step_of (ts ! j) s))"
    | (idle) "step_of (ts ! j) s = (s, ts ! j)" by blast
  then show ?thesis
  proof cases
    case act
    have eq: "s' = fst (step_of (ts ! j) s)" "ts' = ts[j := snd (step_of (ts ! j) s)]"
      using step True by (auto simp: sched_step_def split: prod.splits)
    show ?thesis
    proof (cases "i = j")
      case True
      with act eq i show ?thesis by simp
    next
      case False
      with compatible [OF False act(2)] ok [OF i] eq show ?thesis by (auto intro: thread_ok_env)
    qed
  next
    case idle
    with step True ok i show ?thesis by (auto simp: sched_step_def)
  qed
qed

lemma exec_ok:
  assumes "\<And>i. i < length ts \<Longrightarrow> thread_ok (Q i) i s (ts ! i)"
    and "exec sch (s, ts) = (s', ts')" and "i < length ts"
  shows "thread_ok (Q i) i s' (ts' ! i)"
  using assms
proof (induction sch arbitrary: s ts i)
  case Nil
  then show ?case by simp
next
  case (Cons j sch)
  obtain s1 ts1 where c: "sched_step j (s, ts) = (s1, ts1)" by fastforce
  have len: "length ts1 = length ts" using sched_step_length [of j "(s, ts)"] c by simp
  show ?case
    by (rule Cons.IH [of ts1 s1 i])
      (use Cons.prems c len in \<open>auto intro: sched_step_ok\<close>)
qed

lemma exec_returned:
  assumes "\<And>i. i < length ts \<Longrightarrow> thread_ok (Q i) i s (ts ! i)"
    and "exec sch (s, ts) = (s', ts')" and "i < length ts" and "ts' ! i = Ret a"
  shows "Q i a s'"
  using exec_ok [OF assms(1-3)] assms(4)
  by (auto simp: thread_ok_def elim: safe_RetE)

lemma exec_no_crash:
  assumes "\<And>i. i < length ts \<Longrightarrow> thread_ok (Q i) i s (ts ! i)"
    and "exec sch (s, ts) = (s', ts')" and "i < length ts"
  shows "ts' ! i \<noteq> Crash" and "ts' ! i \<noteq> Exit n"
  using exec_ok [OF assms] by (fastforce simp: thread_ok_def elim: safe_CrashE safe_ExitE)+

end

end
