(* ===== verification/LockFreeAtomic.thy ===== *)
theory LockFreeAtomic
  imports Prelude
begin

text \<open>
  \<^verbatim>\<open>mayijin/LockFreeAtomic.c\<close>: a lock-free counter for \<open>N\<close> threads. The word
  \<open>Value\<close> names the handle that holds the counter (low 16 bits: its index; above: the
  version whose parity selects one of the handle's two slots). \<open>getAndIncrement\<close> reads the
  slot, writes the successor into the free slot of its own handle and swings \<open>Value\<close> to it
  with a compare-and-swap.

  The main result is the check that \<open>main\<close> prints: in every interleaving of the threads,
  once all have finished, no entry of \<open>ints\<close> is missed, as long as fewer than \<open>2 ^ 16\<close>
  increments are made (beyond that the 16-bit versions wrap and a stale compare-and-swap may
  succeed). \<open>hist\<close> is a history variable: the threads whose compare-and-swap succeeded, in
  order. It is only written, so it does not influence the run.
\<close>

unbundle bit_operations_syntax

section \<open>The model\<close>

definition lfa_N :: nat where "lfa_N = 100"

record lfa_Handle =
  hvalue :: "nat \<Rightarrow> 64 word"
  hversion :: "16 word"

record lfa_state =
  Value :: "64 word"
  handle :: "nat \<Rightarrow> lfa_Handle"
  ints :: "nat \<Rightarrow> 32 word"
  hist :: "nat list"

definition lfa_INDEX :: "64 word \<Rightarrow> 32 word" where
  "lfa_INDEX v = ucast (v AND 0xFFFF)"

text \<open>\<open>(1 << 32) - 1\<close> on \<open>int\<close>: the shift count is out of range; gcc folds \<open>1 << 32\<close> to 0,
  so the mask is \<open>(0 - 1) ^ 0xFFFF\<close>, sign-extended to 64 bits.\<close>

definition lfa_VERSION :: "64 word \<Rightarrow> 32 word" where
  "lfa_VERSION v = ucast (signed_drop_bit 16 (v AND 0xFFFFFFFFFFFF0000))"

definition lfa_next_version :: "16 word \<Rightarrow> 32 word" where
  "lfa_next_version v = (scast v :: 32 word) + 1"

definition lfa_new_Value :: "nat \<Rightarrow> 16 word \<Rightarrow> 64 word" where
  "lfa_new_Value tid v = scast ((of_nat tid :: 32 word) OR push_bit 16 (lfa_next_version v))"

definition lfa_set_slot :: "nat \<Rightarrow> nat \<Rightarrow> 64 word \<Rightarrow> lfa_state \<Rightarrow> lfa_state" where
  "lfa_set_slot tid b x s =
     s\<lparr>handle := (handle s)(tid := (handle s tid)\<lparr>hvalue := (hvalue (handle s tid))(b := x)\<rparr>)\<rparr>"

definition lfa_set_version :: "nat \<Rightarrow> 16 word \<Rightarrow> lfa_state \<Rightarrow> lfa_state" where
  "lfa_set_version tid v s = s\<lparr>handle := (handle s)(tid := (handle s tid)\<lparr>hversion := v\<rparr>)\<rparr>"

definition lfa_CAS_VALUE :: "nat \<Rightarrow> 64 word \<Rightarrow> 64 word \<Rightarrow> (bool \<Rightarrow> (lfa_state, 'a) prog) \<Rightarrow> (lfa_state, 'a) prog" where
  "lfa_CAS_VALUE tid cmp new k =
     cas (\<lambda>s. Value s = cmp) (\<lambda>s. s\<lparr>Value := new, hist := hist s @ [tid]\<rparr>) k"

fun lfa_getAndIncrement :: "nat \<Rightarrow> nat \<Rightarrow> (lfa_state, 32 word) prog" where
  "lfa_getAndIncrement 0 tid = Spin"
| "lfa_getAndIncrement (Suc fuel) tid =
    ld Value (\<lambda>Value1.
    ldp (\<lambda>s. if unat (lfa_INDEX Value1) < lfa_N
             then Some (hvalue (handle s (unat (lfa_INDEX Value1))) (unat (lfa_VERSION Value1 AND 1)))
             else None) (\<lambda>value.
    ld Value (\<lambda>Value2.
    if Value1 \<noteq> Value2 then lfa_getAndIncrement fuel tid
    else
      ld (\<lambda>s. hversion (handle s tid)) (\<lambda>version.
      st (lfa_set_slot tid (unat (lfa_next_version version AND 1)) (value + 1)) (
      lfa_CAS_VALUE tid Value1 (lfa_new_Value tid version) (\<lambda>ok.
      if ok then
        st (lfa_set_version tid (version + 1)) (Ret (ucast value))
      else lfa_getAndIncrement fuel tid))))))"

fun lfa_routine :: "nat \<Rightarrow> nat \<Rightarrow> nat \<Rightarrow> (lfa_state, unit) prog" where
  "lfa_routine fuel 0 tid = Ret ()"
| "lfa_routine fuel (Suc m) tid =
    bind (lfa_getAndIncrement fuel tid) (\<lambda>r.
    stp (\<lambda>s. if 0 \<le> sint r \<and> sint r < int lfa_N * 1000000
             then Some (s\<lparr>ints := (ints s)(nat (sint r) := 1)\<rparr>) else None) (
    lfa_routine fuel m tid))"

text \<open>The two variants the file keeps for comparison: there \<open>Value\<close> is the counter itself.\<close>

fun lfa_getAndIncrement2 :: "nat \<Rightarrow> nat \<Rightarrow> (lfa_state, 32 word) prog" where
  "lfa_getAndIncrement2 0 tid = Spin"
| "lfa_getAndIncrement2 (Suc fuel) tid =
    ld Value (\<lambda>value.
    cas (\<lambda>s. Value s = value) (\<lambda>s. s\<lparr>Value := value + 1\<rparr>) (\<lambda>ok.
    if ok then Ret (ucast value) else lfa_getAndIncrement2 fuel tid))"

definition lfa_getAndIncrement3 :: "nat \<Rightarrow> (lfa_state, 32 word) prog" where
  "lfa_getAndIncrement3 tid = fetch Value (\<lambda>s. s\<lparr>Value := Value s + 1\<rparr>) (\<lambda>v. Ret (ucast v))"

definition lfa_init :: lfa_state where
  "lfa_init = \<lparr>Value = 0, handle = (\<lambda>_. \<lparr>hvalue = (\<lambda>_. 0), hversion = 0\<rparr>), ints = (\<lambda>_. 0), hist = []\<rparr>"

text \<open>\<open>main\<close>: one \<open>routine\<close> per thread, and the count of entries of \<open>ints\<close> that are not 1.\<close>

definition lfa_threads :: "nat \<Rightarrow> nat \<Rightarrow> nat \<Rightarrow> (lfa_state, unit) prog list" where
  "lfa_threads fuel m n = map (lfa_routine fuel m) [0..<n]"

fun lfa_errTimes :: "nat \<Rightarrow> lfa_state \<Rightarrow> nat" where
  "lfa_errTimes 0 s = 0"
| "lfa_errTimes (Suc j) s = (if ints s j \<noteq> 1 then 1 else 0) + lfa_errTimes j s"

section \<open>The encoding of Value\<close>

definition lfa_enc :: "nat \<Rightarrow> 16 word \<Rightarrow> 64 word" where
  "lfa_enc t v = scast ((of_nat t :: 32 word) OR push_bit 16 (ucast v :: 32 word))"

lemma ucast_next_version: "(ucast (lfa_next_version v) :: 16 word) = v + 1"
proof -
  have "((k + 32768) mod 65536 - 32767) mod 4294967296 mod 65536 = (k + 1) mod (65536::int)" for k :: int
    by (simp add: mod_mod_cancel mod_diff_left_eq add.commute)
  then show ?thesis
    unfolding lfa_next_version_def
    by transfer (simp add: take_bit_eq_mod signed_take_bit_eq_take_bit_shift)
qed

lemma new_Value_enc: "lfa_new_Value t v = lfa_enc t (v + 1)"
proof -
  have "push_bit 16 x = push_bit 16 (ucast (ucast x :: 16 word))" for x :: "32 word"
    by (rule bit_word_eqI) (auto simp: bit_simps)
  from this [of "lfa_next_version v"] show ?thesis
    by (simp add: lfa_new_Value_def lfa_enc_def ucast_next_version)
qed

lemma masks16: "(0xFFFF :: 64 word) = mask 16" "(0xFFFFFFFFFFFF0000 :: 64 word) = NOT (mask 16)"
  by (simp_all add: mask_eq_exp_minus_1)

lemma INDEX_enc: "t < 65536 \<Longrightarrow> unat (lfa_INDEX (lfa_enc t v)) = t"
proof -
  assume t: "t < 65536"
  have "lfa_INDEX (lfa_enc t v) = of_nat t"
    unfolding lfa_INDEX_def lfa_enc_def masks16 using t
    by (intro bit_word_eqI) (auto simp: bit_simps dest: bit_nat_less16)
  with t show ?thesis by (simp add: unat_of_nat)
qed

lemma slot_parity: "unat ((ucast ((of_nat k :: 16 word) AND 1) :: 32 word)) = k mod 2"
proof -
  have "(of_nat k :: 16 word) AND 1 = of_nat (k mod 2)"
    by (metis and_one_eq of_nat_and_eq of_nat_1)
  then show ?thesis by (cases "k mod 2 = 0") (auto simp: mod_2_eq_odd)
qed

lemma VERSION_enc: "t < 65536 \<Longrightarrow> unat (lfa_VERSION (lfa_enc t (of_nat k)) AND 1) = k mod 2"
proof -
  assume t: "t < 65536"
  have "lfa_VERSION (lfa_enc t v) AND 1 = ucast (v AND 1)" for v
    unfolding lfa_VERSION_def lfa_enc_def masks16 using t
    by (intro bit_word_eqI) (auto simp: bit_simps dest: bit_nat_less16)
  then show ?thesis using slot_parity by simp
qed

lemma next_version_slot: "unat (lfa_next_version (of_nat k) AND 1) = Suc k mod 2"
proof -
  have "x AND 1 = ucast ((ucast x :: 16 word) AND 1)" for x :: "32 word"
    by (rule bit_word_eqI) (auto simp: bit_simps)
  from this [of "lfa_next_version (of_nat k)"] slot_parity [of "Suc k"] show ?thesis
    by (simp add: ucast_next_version add.commute)
qed

lemma enc_inject: "t < 65536 \<Longrightarrow> u < 65536 \<Longrightarrow> lfa_enc t v = lfa_enc u w \<Longrightarrow> t = u \<and> v = w"
proof -
  assume tu: "t < 65536" "u < 65536" and eq: "lfa_enc t v = lfa_enc u w"
  have "(ucast (drop_bit 16 (lfa_enc t v)) :: 16 word) = v" if "t < 65536" for t v
    unfolding lfa_enc_def using that
    by (intro bit_word_eqI) (auto simp: bit_simps dest: bit_nat_less16)
  with tu eq INDEX_enc show ?thesis by metis
qed

section \<open>Invariant, rely and guarantee\<close>

definition lfa_owner :: "nat list \<Rightarrow> nat" where
  "lfa_owner h = (if h = [] then 0 else last h)"

definition lfa_valof :: "nat list \<Rightarrow> 64 word" where
  "lfa_valof h = lfa_enc (lfa_owner h) (of_nat (count_list h (lfa_owner h)))"

definition lfa_inv :: "(nat \<Rightarrow> nat) \<Rightarrow> lfa_state \<Rightarrow> bool" where
  "lfa_inv b s \<longleftrightarrow> set (hist s) \<subseteq> {..<lfa_N} \<and> (\<forall>i. count_list (hist s) i \<le> b i) \<and> Value s = lfa_valof (hist s) \<and>
     (length (hist s) < 65536 \<longrightarrow>
       hvalue (handle s (lfa_owner (hist s))) (count_list (hist s) (lfa_owner (hist s)) mod 2)
         = of_nat (length (hist s)))"

definition lfa_rely :: "(nat \<Rightarrow> nat) \<Rightarrow> nat \<Rightarrow> lfa_state \<Rightarrow> lfa_state \<Rightarrow> bool" where
  "lfa_rely b i s t \<longleftrightarrow> (lfa_inv b s \<longrightarrow> lfa_inv b t) \<and> handle t i = handle s i \<and>
     (\<exists>xs. hist t = hist s @ xs \<and> i \<notin> set xs) \<and> (\<forall>p. ints s p = 1 \<longrightarrow> ints t p = 1)"

definition lfa_guar :: "(nat \<Rightarrow> nat) \<Rightarrow> nat \<Rightarrow> lfa_state \<Rightarrow> lfa_state \<Rightarrow> bool" where
  "lfa_guar b i s t \<longleftrightarrow> (lfa_inv b s \<longrightarrow> lfa_inv b t) \<and> (\<forall>j. j \<noteq> i \<longrightarrow> handle t j = handle s j) \<and>
     (hist t = hist s \<or> hist t = hist s @ [i]) \<and> (\<forall>p. ints s p = 1 \<longrightarrow> ints t p = 1)"

interpretation lfa: rely_guarantee "lfa_rely b" "lfa_guar b" for b
  by unfold_locales (auto simp: lfa_rely_def lfa_guar_def)

lemma owner_lt: "set h \<subseteq> {..<lfa_N} \<Longrightarrow> lfa_owner h < lfa_N"
proof (cases "h = []")
  case False
  assume "set h \<subseteq> {..<lfa_N}"
  with last_in_set [OF False] have "last h \<in> {..<lfa_N}" by blast
  with False show ?thesis by (simp add: lfa_owner_def)
qed (simp add: lfa_owner_def lfa_N_def)

text \<open>No ABA: within \<open>2 ^ 16\<close> increments \<open>Value\<close> never returns to an earlier word.\<close>

lemma valof_no_ABA:
  assumes "length (h @ xs) < 65536" and "set (h @ xs) \<subseteq> {..<lfa_N}"
    and "lfa_valof (h @ xs) = lfa_valof h"
  shows "xs = []"
proof (rule ccontr)
  assume ne: "xs \<noteq> []"
  have lt: "lfa_owner (h @ xs) < 65536" "lfa_owner h < 65536"
    using owner_lt [of "h @ xs"] owner_lt [of h] assms(2) by (auto simp: lfa_N_def)
  with assms(3) have own: "lfa_owner (h @ xs) = lfa_owner h"
    and cnt: "(of_nat (count_list (h @ xs) (lfa_owner h)) :: 16 word) = of_nat (count_list h (lfa_owner h))"
    unfolding lfa_valof_def by (metis enc_inject)+
  have le: "count_list zs t \<le> length zs" for zs and t :: nat by (induction zs) auto
  have lts: "count_list (h @ xs) (lfa_owner h) < 65536" "count_list h (lfa_owner h) < 65536"
    using le [of "h @ xs" "lfa_owner h"] le [of h "lfa_owner h"] assms(1) by (auto simp del: count_list_append)
  have "count_list (h @ xs) (lfa_owner h) = count_list h (lfa_owner h)"
    using arg_cong [OF cnt, of unat] lts by (simp add: unat_of_nat del: of_nat_add count_list_append)
  then have "count_list xs (lfa_owner h) = 0" by simp
  moreover have "lfa_owner h \<in> set xs" using ne own last_in_set [of xs]
    by (auto simp: lfa_owner_def split: if_splits)
  ultimately show False by (simp add: count_list_0_iff)
qed

definition lfa_idle :: "(nat \<Rightarrow> nat) \<Rightarrow> nat \<Rightarrow> nat \<Rightarrow> lfa_state \<Rightarrow> bool" where
  "lfa_idle b i c s \<longleftrightarrow> lfa_inv b s \<and> i < lfa_N \<and> hversion (handle s i) = of_nat c \<and>
     count_list (hist s) i = c \<and>
     (length (hist s) < 65536 \<longrightarrow> (\<forall>p < length (hist s). hist s ! p = i \<longrightarrow> ints s p = 1))"

definition lfa_seen :: "(nat \<Rightarrow> nat) \<Rightarrow> nat \<Rightarrow> nat \<Rightarrow> nat list \<Rightarrow> lfa_state \<Rightarrow> bool" where
  "lfa_seen b i c h0 s \<longleftrightarrow> lfa_idle b i c s \<and> (\<exists>xs. hist s = h0 @ xs)"

definition lfa_read :: "(nat \<Rightarrow> nat) \<Rightarrow> nat \<Rightarrow> nat \<Rightarrow> nat list \<Rightarrow> 64 word \<Rightarrow> lfa_state \<Rightarrow> bool" where
  "lfa_read b i c h0 v s \<longleftrightarrow> lfa_seen b i c h0 s \<and>
     (hist s = h0 \<longrightarrow> length h0 < 65536 \<longrightarrow> v = of_nat (length h0))"

definition lfa_checked :: "(nat \<Rightarrow> nat) \<Rightarrow> nat \<Rightarrow> nat \<Rightarrow> nat list \<Rightarrow> 64 word \<Rightarrow> lfa_state \<Rightarrow> bool" where
  "lfa_checked b i c h0 v s \<longleftrightarrow> lfa_seen b i c h0 s \<and>
     (length (hist s) < 65536 \<longrightarrow> v = of_nat (length h0))"

definition lfa_ready :: "(nat \<Rightarrow> nat) \<Rightarrow> nat \<Rightarrow> nat \<Rightarrow> nat list \<Rightarrow> 64 word \<Rightarrow> lfa_state \<Rightarrow> bool" where
  "lfa_ready b i c h0 v s \<longleftrightarrow> lfa_checked b i c h0 v s \<and> hvalue (handle s i) (Suc c mod 2) = v + 1"

definition lfa_won :: "(nat \<Rightarrow> nat) \<Rightarrow> nat \<Rightarrow> nat \<Rightarrow> nat \<Rightarrow> 64 word \<Rightarrow> lfa_state \<Rightarrow> bool" where
  "lfa_won b i c cv v s \<longleftrightarrow> lfa_inv b s \<and> i < lfa_N \<and> hversion (handle s i) = of_nat cv \<and>
     count_list (hist s) i = c \<and>
     (length (hist s) < 65536 \<longrightarrow> (\<exists>p < length (hist s). v = of_nat p \<and> hist s ! p = i \<and>
        (\<forall>q < length (hist s). hist s ! q = i \<longrightarrow> q \<noteq> p \<longrightarrow> ints s q = 1)))"

lemmas lfa_defs = lfa_idle_def lfa_seen_def lfa_read_def lfa_checked_def lfa_ready_def lfa_won_def

lemma nth_old: "p < length (h @ xs) \<Longrightarrow> (h @ xs) ! p = i \<Longrightarrow> i \<notin> set xs \<Longrightarrow> p < length h \<and> h ! p = i"
  by (metis nth_append nth_mem length_append add_diff_inverse_nat nat_add_left_cancel_less)

lemma rely_ext:
  assumes "lfa_rely b i s t"
  obtains xs where "hist t = hist s @ xs" "i \<notin> set xs"
  using assms by (auto simp: lfa_rely_def)

lemma idle_env:
  assumes "lfa_idle b i c s" and r: "lfa_rely b i s t"
  shows "lfa_idle b i c t"
proof -
  obtain xs where xs: "hist t = hist s @ xs" "i \<notin> set xs" using r by (rule rely_ext)
  have "ints t p = 1" if "length (hist t) < 65536" "p < length (hist t)" "hist t ! p = i" for p
    using nth_old [of p "hist s" xs i] that assms xs by (auto simp: lfa_idle_def lfa_rely_def)
  then show ?thesis using assms xs by (auto simp: lfa_idle_def lfa_rely_def count_list_0_iff)
qed

lemma seen_env: "lfa_seen b i c h0 s \<Longrightarrow> lfa_rely b i s t \<Longrightarrow> lfa_seen b i c h0 t"
  unfolding lfa_seen_def using idle_env by (metis append_assoc rely_ext)

lemma won_env:
  assumes w: "lfa_won b i c cv v s" and r: "lfa_rely b i s t"
  shows "lfa_won b i c cv v t"
proof -
  obtain xs where xs: "hist t = hist s @ xs" "i \<notin> set xs" using r by (rule rely_ext)
  have "\<exists>p < length (hist t). v = of_nat p \<and> hist t ! p = i \<and>
      (\<forall>q < length (hist t). hist t ! q = i \<longrightarrow> q \<noteq> p \<longrightarrow> ints t q = 1)" if "length (hist t) < 65536"
  proof -
    from w xs that obtain p where p: "p < length (hist s)" "v = of_nat p" "hist s ! p = i"
      "\<forall>q < length (hist s). hist s ! q = i \<longrightarrow> q \<noteq> p \<longrightarrow> ints s q = 1" by (auto simp: lfa_won_def)
    have "ints t q = 1" if "q < length (hist t)" "hist t ! q = i" "q \<noteq> p" for q
      using nth_old [of q "hist s" xs i] that p(4) xs r by (auto simp: lfa_rely_def)
    moreover have "p < length (hist t)" "hist t ! p = i" using p xs by (auto simp: nth_append)
    ultimately show ?thesis using p(2) by blast
  qed
  then show ?thesis using w r xs by (auto simp: lfa_won_def lfa_rely_def count_list_0_iff)
qed

lemma lfa_stable [intro]:
  "rg_stable (lfa_rely b i) (lfa_idle b i c)"
  "rg_stable (lfa_rely b i) (lfa_seen b i c h0)"
  "rg_stable (lfa_rely b i) (lfa_read b i c h0 v)"
  "rg_stable (lfa_rely b i) (lfa_checked b i c h0 v)"
  "rg_stable (lfa_rely b i) (lfa_ready b i c h0 v)"
  "rg_stable (lfa_rely b i) (lfa_won b i c cv v)"
proof -
  have ext: "lfa_rely b i s t \<Longrightarrow> \<exists>xs. hist t = hist s @ xs" for s t by (auto simp: lfa_rely_def)
  show "rg_stable (lfa_rely b i) (lfa_idle b i c)"
    unfolding rg_stable_def by (blast intro: idle_env)
  show "rg_stable (lfa_rely b i) (lfa_seen b i c h0)"
    unfolding rg_stable_def by (blast intro: seen_env)
  show "rg_stable (lfa_rely b i) (lfa_won b i c cv v)"
    unfolding rg_stable_def by (blast intro: won_env)
  show "rg_stable (lfa_rely b i) (lfa_read b i c h0 v)"
  proof (unfold rg_stable_def lfa_read_def, intro allI impI conjI; (elim conjE)?)
    fix s t assume *: "lfa_seen b i c h0 s" "lfa_rely b i s t"
    then show "lfa_seen b i c h0 t" by (rule seen_env)
    assume h: "hist s = h0 \<longrightarrow> length h0 < 65536 \<longrightarrow> v = of_nat (length h0)" "hist t = h0" "length h0 < 65536"
    obtain xs ys where "hist t = hist s @ xs" "hist s = h0 @ ys" using * ext [OF *(2)] by (auto simp: lfa_seen_def)
    with h(2) have "length ys + length xs = 0" using length_append [of h0 "ys @ xs"] by simp
    with \<open>hist s = h0 @ ys\<close> h(1,3) show "v = of_nat (length h0)" by simp
  qed
  show *: "rg_stable (lfa_rely b i) (lfa_checked b i c h0 v)"
  proof (unfold rg_stable_def lfa_checked_def, intro allI impI conjI; (elim conjE)?)
    fix s t assume *: "lfa_seen b i c h0 s" "lfa_rely b i s t"
    then show "lfa_seen b i c h0 t" by (rule seen_env)
    assume "length (hist s) < 65536 \<longrightarrow> v = of_nat (length h0)" "length (hist t) < 65536"
    then show "v = of_nat (length h0)" using ext [OF *(2)] by auto
  qed
  then show "rg_stable (lfa_rely b i) (lfa_ready b i c h0 v)"
    unfolding rg_stable_def lfa_ready_def by (auto simp: lfa_rely_def)
qed

section \<open>The counter is safe\<close>

lemma seen_inv: "lfa_seen b i c h0 s \<Longrightarrow> lfa_inv b s"
  by (auto simp: lfa_seen_def lfa_idle_def)

lemma inv_INDEX:
  assumes "lfa_inv b s" and "hist s = h0 @ xs" and "V = lfa_valof h0"
  shows "unat (lfa_INDEX V) = lfa_owner h0" and "lfa_owner h0 < lfa_N"
    and "unat (lfa_VERSION V AND 1) = count_list h0 (lfa_owner h0) mod 2"
proof -
  show lt: "lfa_owner h0 < lfa_N" using assms by (intro owner_lt) (auto simp: lfa_inv_def)
  then have "lfa_owner h0 < 65536" by (simp add: lfa_N_def)
  then show "unat (lfa_INDEX V) = lfa_owner h0"
    "unat (lfa_VERSION V AND 1) = count_list h0 (lfa_owner h0) mod 2"
    using assms(3) by (auto simp: lfa_valof_def INDEX_enc VERSION_enc)
qed

lemma seen_unchanged:
  assumes "lfa_seen b i c h0 s" and "Value s = lfa_valof h0" and "length (hist s) < 65536"
  shows "hist s = h0"
proof -
  from assms(1) obtain xs where xs: "hist s = h0 @ xs" by (auto simp: lfa_seen_def)
  have "xs = []"
    by (rule valof_no_ABA [of h0 xs])
      (use assms xs seen_inv [OF assms(1)] in \<open>auto simp: lfa_inv_def\<close>)
  with xs show ?thesis by simp
qed

text \<open>Writing the free slot of one's own handle keeps the invariant: the slot in use has the
  other parity.\<close>

lemma set_slot_ready:
  assumes "lfa_checked b i c h0 v s"
  shows "lfa_guar b i s (lfa_set_slot i (Suc c mod 2) (v + 1) s)"
    and "lfa_ready b i c h0 v (lfa_set_slot i (Suc c mod 2) (v + 1) s)"
proof -
  let ?t = "lfa_set_slot i (Suc c mod 2) (v + 1) s"
  have "c mod 2 \<noteq> Suc c mod 2" by (auto simp: mod_Suc)
  then have inv: "lfa_inv b ?t" if "lfa_inv b s" "count_list (hist s) i = c"
    using that by (auto simp: lfa_inv_def lfa_set_slot_def)
  with assms show "lfa_guar b i s ?t" "lfa_ready b i c h0 v ?t"
    by (auto simp: lfa_guar_def lfa_ready_def lfa_checked_def lfa_seen_def lfa_idle_def lfa_set_slot_def)
qed

lemma cas_won:
  assumes r: "lfa_ready b i c h0 v s" and V: "Value s = lfa_valof h0" and "c < b i"
  defines "t \<equiv> s\<lparr>Value := lfa_new_Value i (of_nat c), hist := hist s @ [i]\<rparr>"
  shows "lfa_guar b i s t" and "lfa_won b i (Suc c) c v t"
proof -
  from r have idle: "lfa_idle b i c s" and seen: "lfa_seen b i c h0 s"
    by (auto simp: lfa_ready_def lfa_checked_def lfa_seen_def)
  have same: "hist s = h0" if "length (hist s) < 65536" using seen_unchanged [OF seen V that] .
  have v: "v = of_nat (length (hist s))" if "length (hist s) < 65536"
    using r same [OF that] that by (auto simp: lfa_ready_def lfa_checked_def)
  have inv: "lfa_inv b t"
    using idle r v \<open>c < b i\<close> by (auto simp: lfa_inv_def t_def lfa_valof_def lfa_owner_def new_Value_enc
        lfa_idle_def lfa_ready_def add.commute)
  then show "lfa_guar b i s t" by (auto simp: lfa_guar_def t_def)
  have "length (hist t) < 65536 \<longrightarrow> (\<exists>p < length (hist t). v = of_nat p \<and> hist t ! p = i \<and>
        (\<forall>q < length (hist t). hist t ! q = i \<longrightarrow> q \<noteq> p \<longrightarrow> ints t q = 1))"
    using idle v by (auto intro!: exI [of _ "length (hist s)"] simp: t_def lfa_idle_def nth_append)
  with inv idle show "lfa_won b i (Suc c) c v t"
    by (simp add: lfa_won_def lfa_idle_def t_def)
qed

lemma set_version_won:
  assumes "lfa_won b i (Suc c) c v s"
  shows "lfa_guar b i s (lfa_set_version i (of_nat c + 1) s)"
    and "lfa_won b i (Suc c) (Suc c) v (lfa_set_version i (of_nat c + 1) s)"
  using assms by (auto simp: lfa_guar_def lfa_won_def lfa_set_version_def lfa_inv_def add.commute)

lemma guar_refl [simp]: "lfa_guar b i s s"
  by (simp add: lfa_guar_def)

definition lfa_got :: "(nat \<Rightarrow> nat) \<Rightarrow> nat \<Rightarrow> nat \<Rightarrow> 32 word \<Rightarrow> lfa_state \<Rightarrow> bool" where
  "lfa_got b i c r s \<longleftrightarrow> (\<exists>v. r = ucast v \<and> lfa_won b i c c v s)"

lemma seen_slot:
  assumes "lfa_seen b i c h0 s"
  defines "V \<equiv> lfa_valof h0"
  shows "unat (lfa_INDEX V) < lfa_N"
    and "lfa_read b i c h0 (hvalue (handle s (unat (lfa_INDEX V))) (unat (lfa_VERSION V AND 1))) s"
proof -
  from assms(1) obtain xs where xs: "lfa_inv b s" "hist s = h0 @ xs" by (auto simp: lfa_seen_def lfa_idle_def)
  note ix = inv_INDEX [OF xs refl, folded V_def]
  show "unat (lfa_INDEX V) < lfa_N" using ix by simp
  show "lfa_read b i c h0 (hvalue (handle s (unat (lfa_INDEX V))) (unat (lfa_VERSION V AND 1))) s"
    using assms(1) xs ix by (auto simp: lfa_read_def lfa_inv_def)
qed

lemma swap_safe:
  assumes retry: "\<And>h0. safe (lfa_rely b i) (lfa_guar b i) (lfa_got b i (Suc c)) (lfa_seen b i c h0) retry"
    and c: "c < b i"
  shows "safe (lfa_rely b i) (lfa_guar b i) (lfa_got b i (Suc c)) (lfa_ready b i c h0 v)
      (lfa_CAS_VALUE i (lfa_valof h0) (lfa_new_Value i (of_nat c)) (\<lambda>ok.
       if ok then st (lfa_set_version i (of_nat c + 1)) (Ret (ucast v)) else retry))"
  unfolding lfa_CAS_VALUE_def
proof (rule safe_cas [where PT = "lfa_won b i (Suc c) c v" and PF = "lfa_seen b i c h0"])
  have "safe (lfa_rely b i) (lfa_guar b i) (lfa_got b i (Suc c)) (lfa_won b i (Suc c) (Suc c) v) (Ret (ucast v))"
    by (intro safe_Ret) (auto simp: lfa_got_def)
  then show "safe (lfa_rely b i) (lfa_guar b i) (lfa_got b i (Suc c)) (lfa_won b i (Suc c) c v)
      (if True then st (lfa_set_version i (of_nat c + 1)) (Ret (ucast v)) else retry)"
    by (auto intro!: safe_st [where P' = "lfa_won b i (Suc c) (Suc c) v"] set_version_won)
  show "lfa_guar b i s (s\<lparr>Value := lfa_new_Value i (of_nat c), hist := hist s @ [i]\<rparr>) \<and>
      lfa_won b i (Suc c) c v (s\<lparr>Value := lfa_new_Value i (of_nat c), hist := hist s @ [i]\<rparr>)"
    if "lfa_ready b i c h0 v s" "Value s = lfa_valof h0" for s
    using cas_won [OF that c] by simp
  show "lfa_guar b i s s \<and> lfa_seen b i c h0 s" if "lfa_ready b i c h0 v s" for s
    using that by (simp add: lfa_ready_def lfa_checked_def)
  show "safe (lfa_rely b i) (lfa_guar b i) (lfa_got b i (Suc c)) (lfa_seen b i c h0)
      (if False then st (lfa_set_version i (of_nat c + 1)) (Ret (ucast v)) else retry)"
    using retry by simp
qed auto

lemma checked_seen: "lfa_seen b i c h0 s \<and> lfa_checked b i c h0 v s \<longleftrightarrow> lfa_checked b i c h0 v s"
  by (auto simp: lfa_checked_def)

lemma check_safe:
  assumes retry: "\<And>h0. safe (lfa_rely b i) (lfa_guar b i) (lfa_got b i (Suc c)) (lfa_seen b i c h0) retry"
    and c: "c < b i" and V: "V = lfa_valof h0"
  shows "safe (lfa_rely b i) (lfa_guar b i) (lfa_got b i (Suc c)) (lfa_read b i c h0 v)
    (ld Value (\<lambda>V2. if V \<noteq> V2 then retry
      else ld (\<lambda>s. hversion (handle s i)) (\<lambda>version.
        st (lfa_set_slot i (unat (lfa_next_version version AND 1)) (v + 1)) (
        lfa_CAS_VALUE i V (lfa_new_Value i version) (\<lambda>ok.
          if ok then st (lfa_set_version i (version + 1)) (Ret (ucast v)) else retry)))))"
    (is "safe _ _ _ _ (ld Value (\<lambda>V2. if V \<noteq> V2 then retry else ld ?ver ?k))")
proof (rule safe_ld [where P' = "\<lambda>V2 s. lfa_seen b i c h0 s \<and> (V = V2 \<longrightarrow> lfa_checked b i c h0 v s)"])
  fix s assume a: "lfa_read b i c h0 v s"
  then show "lfa_guar b i s s \<and> lfa_seen b i c h0 s \<and> (V = Value s \<longrightarrow> lfa_checked b i c h0 v s)"
    using seen_unchanged [of b i c h0 s] V by (auto simp: lfa_checked_def lfa_read_def)
next
  fix V2
  have "safe (lfa_rely b i) (lfa_guar b i) (lfa_got b i (Suc c)) (lfa_checked b i c h0 v) (ld ?ver ?k)"
  proof (rule safe_ld [where P' = "\<lambda>ver s. ver = of_nat c \<and> lfa_checked b i c h0 v s"]; (rule safe_pure)?)
    fix ver :: "16 word" assume ver: "ver = of_nat c"
    show "safe (lfa_rely b i) (lfa_guar b i) (lfa_got b i (Suc c)) (lfa_checked b i c h0 v) (?k ver)"
      unfolding ver V next_version_slot
      by (rule safe_st [where P' = "lfa_ready b i c h0 v"]) (auto intro: set_slot_ready swap_safe retry c)
  qed (auto simp: lfa_checked_def lfa_seen_def lfa_idle_def)
  then show "safe (lfa_rely b i) (lfa_guar b i) (lfa_got b i (Suc c))
      (\<lambda>s. lfa_seen b i c h0 s \<and> (V = V2 \<longrightarrow> lfa_checked b i c h0 v s))
      (if V \<noteq> V2 then retry else ld ?ver ?k)"
    using retry [of h0] by (cases "V = V2") (simp_all add: checked_seen)
qed auto

lemma getAndIncrement_safe:
  "c < b i \<Longrightarrow> safe (lfa_rely b i) (lfa_guar b i) (lfa_got b i (Suc c)) (lfa_idle b i c) (lfa_getAndIncrement fuel i)"
proof (induction fuel)
  case 0
  show ?case by (auto intro: safe_Spin)
next
  case (Suc fuel)
  have weaken: "safe (lfa_rely b i) (lfa_guar b i) (lfa_got b i (Suc c)) (lfa_seen b i c h0) (lfa_getAndIncrement fuel i)" for h0
    using Suc.IH [OF Suc.prems] by (rule safe_pre) (auto simp: lfa_seen_def)
  let ?first = "\<lambda>V s. \<exists>h0. V = lfa_valof h0 \<and> lfa_seen b i c h0 s"
  show ?case
    unfolding lfa_getAndIncrement.simps
  proof (rule safe_ld [where P' = ?first]; (intro safe_ex safe_pure)?)
    show "lfa_guar b i s s \<and> ?first (Value s) s" if "lfa_idle b i c s" for s
      using that by (auto simp: lfa_seen_def lfa_idle_def lfa_inv_def)
  next
    fix V h0 assume V: "V = lfa_valof h0"
    show "safe (lfa_rely b i) (lfa_guar b i) (lfa_got b i (Suc c)) (lfa_seen b i c h0)
      (ldp (\<lambda>s. if unat (lfa_INDEX V) < lfa_N
             then Some (hvalue (handle s (unat (lfa_INDEX V))) (unat (lfa_VERSION V AND 1)))
             else None) (\<lambda>value.
    ld Value (\<lambda>Value2.
    if V \<noteq> Value2 then lfa_getAndIncrement fuel i
    else
      ld (\<lambda>s. hversion (handle s i)) (\<lambda>version.
      st (lfa_set_slot i (unat (lfa_next_version version AND 1)) (value + 1)) (
      lfa_CAS_VALUE i V (lfa_new_Value i version) (\<lambda>ok.
      if ok then
        st (lfa_set_version i (version + 1)) (Ret (ucast value))
      else lfa_getAndIncrement fuel i))))))"
      (is "safe _ _ _ _ (ldp ?f ?k)")
    proof (rule safe_ldp [where P' = "lfa_read b i c h0"])
      fix s assume "lfa_seen b i c h0 s"
      then show "\<exists>v. ?f s = Some v \<and> lfa_guar b i s s \<and> lfa_read b i c h0 v s"
        using seen_slot [of b i c h0 s] V by auto
    next
      fix v
      show "safe (lfa_rely b i) (lfa_guar b i) (lfa_got b i (Suc c)) (lfa_read b i c h0 v) (?k v)"
        using V Suc.prems by (intro check_safe weaken)
    qed auto
  qed auto
qed


section \<open>The whole run\<close>

lemma bounded_hist:
  assumes "lfa_inv b s" and "(\<Sum>i<lfa_N. b i) < 65536"
  shows "length (hist s) < 65536"
proof -
  have "length (hist s) = (\<Sum>i<lfa_N. count_list (hist s) i)"
    using assms(1) by (intro sum_count_set [symmetric]) (auto simp: lfa_inv_def)
  also have "\<dots> \<le> (\<Sum>i<lfa_N. b i)"
    using assms(1) by (intro sum_mono) (auto simp: lfa_inv_def)
  finally show ?thesis using assms(2) by simp
qed

lemma got_store:
  assumes g: "lfa_got b i c r s" and b: "(\<Sum>i<lfa_N. b i) < 65536"
  defines "t \<equiv> s\<lparr>ints := (ints s)(nat (sint r) := 1)\<rparr>"
  shows "0 \<le> sint r \<and> sint r < int lfa_N * 1000000" and "lfa_guar b i s t" and "lfa_idle b i c t"
proof -
  obtain v where v: "r = ucast v" "lfa_won b i c c v s" using g by (auto simp: lfa_got_def)
  then have len: "length (hist s) < 65536" using bounded_hist [OF _ b] by (auto simp: lfa_won_def)
  with v obtain p where p: "p < length (hist s)" "v = of_nat p" "hist s ! p = i"
    "\<forall>q < length (hist s). hist s ! q = i \<longrightarrow> q \<noteq> p \<longrightarrow> ints s q = 1" by (auto simp: lfa_won_def)
  have "r = of_nat p" using v p len by (simp add: unsigned_of_nat take_bit_nat_eq_self)
  then have r: "sint r = int p"
    using p(1) len by (simp add: signed_of_nat signed_take_bit_int_eq_self)
  show "0 \<le> sint r \<and> sint r < int lfa_N * 1000000" using r p(1) len by (simp add: lfa_N_def)
  show "lfa_guar b i s t" by (simp add: lfa_guar_def t_def lfa_inv_def)
  have "lfa_inv b t" using v by (simp add: lfa_won_def lfa_inv_def t_def)
  with v r p show "lfa_idle b i c t" by (auto simp: lfa_idle_def lfa_won_def t_def)
qed

lemma got_stable: "rg_stable (lfa_rely b i) (lfa_got b i c r)"
  unfolding rg_stable_def lfa_got_def by (blast intro: won_env)

text \<open>A thread keeps, after each call, that all the entries it was given are set.\<close>

lemma routine_safe:
  assumes "(\<Sum>i<lfa_N. b i) < 65536" and "c + n \<le> b i"
  shows "safe (lfa_rely b i) (lfa_guar b i) (\<lambda>_. lfa_idle b i (c + n)) (lfa_idle b i c) (lfa_routine fuel n i)"
  using assms(2)
proof (induction n arbitrary: c)
  case 0
  show ?case by (auto intro: safe_Ret)
next
  case (Suc n)
  from Suc.prems have c: "c < b i" by simp
  show ?case
    unfolding lfa_routine.simps
  proof (rule safe_bind [OF getAndIncrement_safe [where b = b and i = i, OF c]])
    fix r
    have rest: "safe (lfa_rely b i) (lfa_guar b i) (\<lambda>_. lfa_idle b i (c + Suc n)) (lfa_idle b i (Suc c)) (lfa_routine fuel n i)"
      using Suc.IH [of "Suc c"] Suc.prems by simp
    show "safe (lfa_rely b i) (lfa_guar b i) (\<lambda>_. lfa_idle b i (c + Suc n)) (lfa_got b i (Suc c) r)
      (stp (\<lambda>s. if 0 \<le> sint r \<and> sint r < int lfa_N * 1000000
             then Some (s\<lparr>ints := (ints s)(nat (sint r) := 1)\<rparr>) else None) (lfa_routine fuel n i))"
      by (rule safe_stp [OF got_stable _ rest]) (auto simp: got_store [OF _ assms(1)])
  qed
qed

lemma init_idle: "i < lfa_N \<Longrightarrow> lfa_idle b i 0 lfa_init"
  by (simp add: lfa_idle_def lfa_inv_def lfa_init_def lfa_valof_def lfa_enc_def lfa_owner_def lfa_N_def)

definition lfa_budget :: "nat \<Rightarrow> nat \<Rightarrow> nat \<Rightarrow> nat" where
  "lfa_budget n m i = (if i < n then m else 0)"

lemma sum_budget: "n \<le> lfa_N \<Longrightarrow> (\<Sum>i<lfa_N. lfa_budget n m i) = n * m"
proof -
  assume "n \<le> lfa_N"
  then have "{..<lfa_N} \<inter> {i. i < n} = {..<n}" by auto
  then show ?thesis by (simp add: lfa_budget_def sum.If_cases)
qed

lemma threads_ok:
  assumes "n \<le> lfa_N" and "n * m < 65536" and "i < length (lfa_threads fuel m n)"
  shows "lfa.thread_ok (lfa_budget n m) (\<lambda>_. lfa_idle (lfa_budget n m) i m) i lfa_init (lfa_threads fuel m n ! i)"
proof -
  have i: "i < n" "i < lfa_N" using assms by (auto simp: lfa_threads_def)
  then have "safe (lfa_rely (lfa_budget n m) i) (lfa_guar (lfa_budget n m) i) (\<lambda>_. lfa_idle (lfa_budget n m) i (0 + m))
      (lfa_idle (lfa_budget n m) i 0) (lfa_routine fuel m i)"
    using assms by (intro routine_safe) (simp_all add: sum_budget, simp add: lfa_budget_def)
  with init_idle [OF i(2)] i show ?thesis unfolding lfa.thread_ok_def lfa_threads_def by auto
qed

lemma errTimes_0: "(\<And>j. j < n \<Longrightarrow> ints s j = 1) \<Longrightarrow> lfa_errTimes n s = 0"
  by (induction n) auto

text \<open>C3: whatever the interleaving, once all the threads have finished (and at most
  \<open>2 ^ 16 - 1\<close> increments were requested) \<open>main\<close> counts no error: the calls of
  \<open>getAndIncrement\<close> together returned each of \<open>0, \<dots>, n * m - 1\<close>.\<close>

theorem lfa_no_errors:
  assumes "n \<le> lfa_N" and "n * m < 65536"
    and "exec sch (lfa_init, lfa_threads fuel m n) = (s, ts)" and "\<forall>p \<in> set ts. p = Ret ()"
  shows "lfa_errTimes (n * m) s = 0"
proof (rule errTimes_0)
  let ?b = "lfa_budget n m"
  fix j assume j: "j < n * m"
  have len: "length ts = n" using exec_length [of sch "(lfa_init, lfa_threads fuel m n)"]
    unfolding assms(3) by (simp add: lfa_threads_def)
  have idle: "lfa_idle ?b i m s" if "i < n" for i
    by (rule lfa.exec_returned [where Q = "\<lambda>i _. lfa_idle ?b i m" and a = "()",
          OF threads_ok [OF assms(1,2)] assms(3)])
      (use assms(4) that len in \<open>auto simp: lfa_threads_def\<close>)
  show "ints s j = 1"
  proof (cases "n = 0")
    case False
    then have inv: "lfa_inv ?b s" using idle [of 0] by (simp add: lfa_idle_def)
    then have bnd: "length (hist s) < 65536"
      using bounded_hist [OF inv] assms(1,2) by (simp add: sum_budget)
    have sub: "set (hist s) \<subseteq> {..<n}"
    proof
      fix x assume "x \<in> set (hist s)"
      then have "count_list (hist s) x \<noteq> 0" by (simp add: count_list_0_iff)
      with inv show "x \<in> {..<n}" by (force simp: lfa_inv_def lfa_budget_def split: if_splits)
    qed
    then have "length (hist s) = (\<Sum>i<n. count_list (hist s) i)" by (intro sum_count_set [symmetric]) auto
    also have "\<dots> = (\<Sum>i<n. m)" using idle by (intro sum.cong) (auto simp: lfa_idle_def)
    finally have "j < length (hist s)" using j by simp
    moreover from this have "hist s ! j < n" using sub nth_mem by fastforce
    ultimately show ?thesis using idle bnd by (auto simp: lfa_idle_def)
  qed (use j in simp)
qed


lemma lfa_no_errors_witness:
  "lfa_errTimes (2 * 1) (fst (exec [1, 0, 0, 0, 0, 0, 0, 0, 0, 1, 1, 1, 1, 1, 1, 1, 1, 1, 1]
     (lfa_init, lfa_threads 2 1 2))) = 0"
proof -
  let ?sch = "[1, 0, 0, 0, 0, 0, 0, 0, 0, 1, 1, 1, 1, 1, 1, 1, 1, 1, 1] :: nat list"
  have "\<forall>p \<in> set (snd (exec ?sch (lfa_init, lfa_threads 2 1 2))). p = Ret ()"
    by (simp add: lfa_threads_def numeral_2_eq_2 sched_step_def ld_def st_def cas_def ldp_def stp_def
        lfa_CAS_VALUE_def lfa_init_def lfa_INDEX_def lfa_VERSION_def lfa_next_version_def lfa_new_Value_def
        lfa_set_slot_def lfa_set_version_def lfa_N_def)
  with lfa_no_errors [of 2 1 ?sch 2 "fst (exec ?sch (lfa_init, lfa_threads 2 1 2))"
      "snd (exec ?sch (lfa_init, lfa_threads 2 1 2))"]
  show ?thesis by (simp add: lfa_N_def)
qed

lemma valof_snoc: "lfa_valof (h @ [t]) = lfa_enc t (of_nat (count_list h t) + 1)"
  by (simp add: lfa_valof_def lfa_owner_def add.commute)

text \<open>Run alone, one iteration of the loop is enough: it returns the number of increments
  made so far and makes one more.\<close>

theorem lfa_solo:
  assumes "lfa_inv b s" and "tid < lfa_N" and "length (hist s) < 65536"
    and "hversion (handle s tid) = of_nat (count_list (hist s) tid)"
  shows "\<exists>t. run (lfa_getAndIncrement (Suc fuel) tid) s = Done (of_nat (length (hist s))) t \<and>
    hist t = hist s @ [tid] \<and> Value t = lfa_valof (hist t)"
proof -
  have V: "Value s = lfa_valof (hist s)" using assms(1) by (simp add: lfa_inv_def)
  note ix = inv_INDEX [OF assms(1), of "hist s" "[]", OF _ refl, simplified]
  have v: "hvalue (handle s (lfa_owner (hist s))) (count_list (hist s) (lfa_owner (hist s)) mod 2)
      = of_nat (length (hist s))" using assms(1,3) by (simp add: lfa_inv_def)
  show ?thesis using assms(3)
    by (simp add: V ix v lfa_CAS_VALUE_def lfa_set_slot_def lfa_set_version_def new_Value_enc
        valof_snoc assms(4) unsigned_of_nat take_bit_nat_eq_self)
qed

lemma lfa_solo_witness:
  "\<exists>t. run (lfa_getAndIncrement (Suc 0) 3) lfa_init = Done 0 t \<and> hist t = [3] \<and> Value t = lfa_valof (hist t)"
proof -
  have "lfa_inv (\<lambda>_. 0) lfa_init" "3 < lfa_N" using init_idle [of 3 "\<lambda>_. 0"]
    by (simp_all add: lfa_idle_def lfa_N_def)
  moreover have "hist lfa_init = []" "hversion (handle lfa_init 3) = 0" by (simp_all add: lfa_init_def)
  ultimately show ?thesis
    using lfa_solo [of "\<lambda>_. 0" lfa_init 3 0] by (simp del: lfa_getAndIncrement.simps)
qed

text \<open>The 16-bit versions are the limit of the algorithm: after \<open>2 ^ 16\<close> more increments by
  the thread that \<open>Value\<close> names, \<open>Value\<close> is the same word again, and a compare-and-swap that
  expects the old word succeeds although the counter has moved on.\<close>

theorem lfa_version_wraps:
  "lfa_valof (h @ replicate (2 ^ 16) (lfa_owner h)) = lfa_valof h"
proof -
  have c: "count_list (replicate n t) t = n" for n and t :: nat by (induction n) auto
  have "lfa_valof (h @ replicate n (lfa_owner h)) = lfa_enc (lfa_owner h) (of_nat (count_list h (lfa_owner h)) + of_nat n)" for n
  proof -
    have "lfa_owner (h @ replicate n (lfa_owner h)) = lfa_owner h"
      by (cases n; cases "h = []") (auto simp: lfa_owner_def last_append)
    then show ?thesis by (simp add: lfa_valof_def c)
  qed
  from this [of "2 ^ 16"] have "lfa_valof (h @ replicate (2 ^ 16) (lfa_owner h))
      = lfa_enc (lfa_owner h) (of_nat (count_list h (lfa_owner h)) + of_nat (2 ^ 16))" .
  moreover have "(of_nat (2 ^ 16) :: 16 word) = 0" by (simp add: word_of_nat_eq_0_iff)
  ultimately show ?thesis unfolding lfa_valof_def [of h] by (simp only: add_0_right)
qed

text \<open>The compare-and-swap and fetch-and-add variants run alone return the old counter.\<close>

theorem lfa_variants_solo:
  "run (lfa_getAndIncrement2 (Suc fuel) tid) s = run (lfa_getAndIncrement3 tid) s \<and>
   run (lfa_getAndIncrement3 tid) s = Done (ucast (Value s)) (s\<lparr>Value := Value s + 1\<rparr>)"
  by (simp_all add: lfa_getAndIncrement3_def)

end
