(* ===== verification/WaitFree.thy ===== *)
theory WaitFree
  imports Prelude
begin

text \<open>
  \<^verbatim>\<open>mayijin/WaitFreeAtomic.c\<close>: a counter whose threads help each other. \<open>Value\<close> names the handle
  and the version of the slot that holds the counter. A thread first tries one compare-and-swap;
  when that fails it publishes a request in the \<open>wrapper\<close> of its handle, and any thread may bind the
  request to \<open>Value\<close> (\<open>help\<close>), fill in the requester's slot and swing \<open>Value\<close> to it (\<open>helpTransfer\<close>,
  \<open>helpValueTransfer\<close>).
\<close>

unbundle bit_operations_syntax

section \<open>The words\<close>

definition wf_N :: nat where "wf_N = 100"

definition PSLY_VALUE_INDEX :: "64 word" where "PSLY_VALUE_INDEX = push_bit 15 1 - 1"
definition PSLY_VALUE_VERSION :: "64 word" where "PSLY_VALUE_VERSION = (push_bit 31 1 - 1) XOR (push_bit 15 1 - 1)"
definition PSLY_VALUE_INDEX2 :: "64 word" where "PSLY_VALUE_INDEX2 = (push_bit 46 1 - 1) XOR (push_bit 31 1 - 1)"
definition PSLY_VALUE_VERSION2 :: "64 word" where "PSLY_VALUE_VERSION2 = (push_bit 62 1 - 1) XOR (push_bit 46 1 - 1)"
definition PSLY_MAX_POSITIVE :: "64 word" where "PSLY_MAX_POSITIVE = push_bit 62 1 - 1"
definition PSLY_INTS :: "64 word" where "PSLY_INTS = push_bit 31 1 - 1"

text \<open>\<open>1 << 63\<close>, \<open>1 << 62\<close> and \<open>(1 << 16) - 1\<close>.\<close>

definition WF_PENDING :: "64 word" where "WF_PENDING = push_bit 63 1"
definition WF_DONE :: "64 word" where "WF_DONE = push_bit 62 1"
definition WF_VERSIONS :: "64 word" where "WF_VERSIONS = push_bit 16 1 - 1"

text \<open>The masked values are not negative, so the shifts bring in zeros.\<close>

definition wf_INDEX :: "64 word \<Rightarrow> 64 word" where "wf_INDEX v = v AND PSLY_VALUE_INDEX"
definition wf_INDEX2 :: "64 word \<Rightarrow> 64 word" where "wf_INDEX2 v = drop_bit 31 (v AND PSLY_VALUE_INDEX2)"
definition wf_VERSION :: "64 word \<Rightarrow> 64 word" where "wf_VERSION v = drop_bit 15 (v AND PSLY_VALUE_VERSION)"
definition wf_VERSION2 :: "64 word \<Rightarrow> 64 word" where "wf_VERSION2 v = drop_bit 46 (v AND PSLY_VALUE_VERSION2)"

definition wf_nextValue :: "64 word \<Rightarrow> 64 word" where
  "wf_nextValue value = wf_INDEX2 value OR (push_bit 15 (wf_VERSION2 value + 1) AND PSLY_VALUE_VERSION)"

section \<open>State\<close>

record wf_Handle =
  wh_value :: "64 word \<Rightarrow> 64 word"
  wh_version :: "64 word"
  wh_wrapper :: "64 word"
  wh_index :: "32 word"
  wh_steps :: "32 word"

record wf_state =
  w_Value :: "64 word"
  w_handle :: "nat \<Rightarrow> wf_Handle"
  w_ints :: "nat \<Rightarrow> 32 word"

text \<open>The array \<open>handle\<close> has \<open>N\<close> entries; outside it memory is not ours.\<close>

definition wf_at :: "nat \<Rightarrow> wf_state \<Rightarrow> wf_Handle option" where
  "wf_at i s = (if i < wf_N then Some (w_handle s i) else None)"

definition wf_upd :: "nat \<Rightarrow> (wf_Handle \<Rightarrow> wf_Handle) \<Rightarrow> wf_state \<Rightarrow> wf_state option" where
  "wf_upd i f s = (if i < wf_N then Some (s\<lparr>w_handle := (w_handle s)(i := f (w_handle s i))\<rparr>) else None)"

abbreviation rd_handle :: "(wf_Handle \<Rightarrow> 'v) \<Rightarrow> nat \<Rightarrow> ('v \<Rightarrow> (wf_state, 'a) prog) \<Rightarrow> (wf_state, 'a) prog" where
  "rd_handle f i k \<equiv> ldp (\<lambda>s. map_option f (wf_at i s)) k"

abbreviation st_handle :: "(wf_Handle \<Rightarrow> wf_Handle) \<Rightarrow> nat \<Rightarrow> (wf_state, 'a) prog \<Rightarrow> (wf_state, 'a) prog" where
  "st_handle f i k \<equiv> stp (wf_upd i f) k"

definition wf_CAS_VALUE :: "64 word \<Rightarrow> 64 word \<Rightarrow> (bool \<Rightarrow> (wf_state, 'a) prog) \<Rightarrow> (wf_state, 'a) prog" where
  "wf_CAS_VALUE cmp new k = cas (\<lambda>s. w_Value s = cmp) (\<lambda>s. s\<lparr>w_Value := new\<rparr>) k"

section \<open>Helping\<close>

text \<open>The slot of the requester is raised to the new count, unless it is there already.\<close>

fun wf_raise :: "nat \<Rightarrow> nat \<Rightarrow> 64 word \<Rightarrow> 64 word \<Rightarrow> (wf_state, 'a) prog \<Rightarrow> (wf_state, 'a) prog" where
  "wf_raise 0 h j value2 k = Spin"
| "wf_raise (Suc fuel) h j value2 k =
    rd_handle (\<lambda>x. wh_value x j) h (\<lambda>local.
    if local <s value2 then
      casp (\<lambda>s. map_option (\<lambda>x. wh_value x j) (wf_at h s)) local
        (\<lambda>s. the (wf_upd h (\<lambda>x. x\<lparr>wh_value := (wh_value x)(j := value2)\<rparr>) s)) (\<lambda>_. wf_raise fuel h j value2 k)
    else k)"

definition wf_helpValueTransfer :: "nat \<Rightarrow> nat \<Rightarrow> 64 word \<Rightarrow> (wf_state, 'a) prog \<Rightarrow> (wf_state, 'a) prog" where
  "wf_helpValueTransfer fuel h wrapper k =
    rd_handle (\<lambda>x. wh_value x (wf_VERSION wrapper AND 1)) (unat (wf_INDEX wrapper)) (\<lambda>v.
    let value2 = v + 1 in
    ld w_Value (\<lambda>value.
    if value AND PSLY_INTS \<noteq> wrapper AND PSLY_INTS \<or> wf_VERSION2 value \<noteq> wf_VERSION2 wrapper then k else
    let ver = (wf_VERSION2 wrapper + 1) AND (WF_VERSIONS) in
    wf_raise fuel h (ver AND 1) value2 (
    ld w_Value (\<lambda>value'.
    if value = value' then wf_CAS_VALUE value (wf_nextValue value) (\<lambda>_. k) else k))))"

definition wf_done :: "64 word \<Rightarrow> 64 word \<Rightarrow> bool" where
  "wf_done wrapper version \<longleftrightarrow> wrapper AND WF_DONE \<noteq> 0 \<or> version \<noteq> wf_VERSION2 wrapper"

definition wf_helpTransfer :: "nat \<Rightarrow> 64 word \<Rightarrow> (wf_state, 'a) prog \<Rightarrow> (wf_state, 'a) prog" where
  "wf_helpTransfer fuel value k =
    (let h = unat (wf_INDEX2 value); version = wf_VERSION2 value in
    rd_handle wh_wrapper h (\<lambda>wrapper.
    if wf_done wrapper version then k else
    if wrapper <s 0 then
      (let localWrap = (wrapper OR (value AND PSLY_INTS)) AND PSLY_MAX_POSITIVE in
      vcasp (\<lambda>s. map_option wh_wrapper (wf_at h s)) wrapper (\<lambda>s. the (wf_upd h (\<lambda>x. x\<lparr>wh_wrapper := localWrap\<rparr>) s)) (\<lambda>localWrap2.
      if localWrap2 = wrapper then wf_helpValueTransfer fuel h localWrap k
      else if wf_done localWrap2 version then k else wf_helpValueTransfer fuel h localWrap2 k))
    else wf_helpValueTransfer fuel h wrapper k))"

fun wf_help_loop :: "nat \<Rightarrow> nat \<Rightarrow> 64 word \<Rightarrow> 64 word \<Rightarrow> (64 word \<Rightarrow> (wf_state, 'a) prog) \<Rightarrow> (wf_state, 'a) prog" where
  "wf_help_loop 0 tid wrapper value k = Spin"
| "wf_help_loop (Suc fuel) tid wrapper value k =
    rd_handle wh_wrapper tid (\<lambda>wrapper'.
    if wrapper \<noteq> wrapper' then k wrapper' else
    let transfer = (\<lambda>value. wf_helpTransfer fuel value (ld w_Value (\<lambda>value. wf_help_loop fuel tid wrapper value k))) in
    if 0 \<le>s value then
      (let theValue = value OR WF_PENDING OR push_bit 46 (wf_VERSION2 wrapper) OR push_bit 31 (of_nat tid) in
      wf_CAS_VALUE value theValue (\<lambda>ok.
      if \<not> ok then ld w_Value (\<lambda>value. wf_help_loop fuel tid wrapper value k) else transfer theValue))
    else transfer value)"

definition wf_help :: "nat \<Rightarrow> nat \<Rightarrow> (wf_state, 'a) prog \<Rightarrow> (wf_state, 'a) prog" where
  "wf_help fuel tid k =
    rd_handle wh_wrapper tid (\<lambda>wrapper.
    if wrapper AND WF_DONE \<noteq> 0 then k else
    if wrapper <s 0 then
      ld w_Value (\<lambda>value.
      wf_help_loop fuel tid wrapper value (\<lambda>wrapper'.
      if wf_VERSION2 wrapper \<noteq> wf_VERSION2 wrapper' then k else wf_helpValueTransfer fuel tid wrapper' k))
    else wf_helpValueTransfer fuel tid wrapper k)"

section \<open>Incrementing\<close>

text \<open>The request of the thread itself: published, helped, taken back.\<close>

definition wf_slow :: "nat \<Rightarrow> nat \<Rightarrow> (wf_state, 32 word) prog" where
  "wf_slow fuel tid =
    rd_handle wh_version tid (\<lambda>version.
    st_handle (\<lambda>x. x\<lparr>wh_wrapper := WF_PENDING OR push_bit 46 version\<rparr>) tid (
    wf_help fuel tid (
    rd_handle wh_wrapper tid (\<lambda>wrapper.
    st_handle (\<lambda>x. x\<lparr>wh_wrapper := wrapper OR WF_DONE\<rparr>) tid (
    st_handle (\<lambda>x. x\<lparr>wh_version := (version + 1) AND (WF_VERSIONS)\<rparr>) tid (
    rd_handle wh_version tid (\<lambda>version.
    rd_handle (\<lambda>x. wh_value x (version AND 1)) tid (\<lambda>v. Ret (ucast (v - 1))))))))))"

text \<open>\<open>(++steps) & 7 == 0\<close> is \<open>(++steps) & (7 == 0)\<close> in C.\<close>

definition wf_steps_test :: "32 word \<Rightarrow> bool" where
  "wf_steps_test steps \<longleftrightarrow> steps AND (if (7 :: int) = 0 then 1 else 0) \<noteq> 0"

definition wf_index_mod :: "32 word \<Rightarrow> nat" where
  "wf_index_mod index = (let m = sgn (sint index) * (\<bar>sint index\<bar> mod int wf_N) in if m < 0 then wf_N else nat m)"

definition wf_help_next :: "nat \<Rightarrow> nat \<Rightarrow> (wf_state, 'a) prog \<Rightarrow> (wf_state, 'a) prog" where
  "wf_help_next fuel tid k =
    rd_handle wh_steps tid (\<lambda>steps.
    st_handle (\<lambda>x. x\<lparr>wh_steps := steps + 1\<rparr>) tid (
    if wf_steps_test (steps + 1) then
      rd_handle wh_index tid (\<lambda>index.
      wf_help fuel (wf_index_mod index) (
      st_handle (\<lambda>x. x\<lparr>wh_index := index + 1\<rparr>) tid k))
    else k))"

fun wf_attempts :: "nat \<Rightarrow> nat \<Rightarrow> nat \<Rightarrow> (wf_state, 32 word) prog" where
  "wf_attempts fuel tid 0 = wf_slow fuel tid"
| "wf_attempts fuel tid (Suc count) =
    ld w_Value (\<lambda>Value'.
    if 0 \<le>s Value' then
      rd_handle (\<lambda>x. wh_value x (wf_VERSION Value' AND 1)) (unat (wf_INDEX Value')) (\<lambda>value.
      rd_handle wh_version tid (\<lambda>version.
      st_handle (\<lambda>x. x\<lparr>wh_value := (wh_value x)((version + 1) AND 1 := value + 1)\<rparr>) tid (
      wf_CAS_VALUE Value' (of_nat tid OR push_bit 15 (version + 1)) (\<lambda>ok.
      if ok then
        st_handle (\<lambda>x. x\<lparr>wh_version := (version + 1) AND (WF_VERSIONS)\<rparr>) tid (
        wf_help_next fuel tid (Ret (ucast value)))
      else wf_attempts fuel tid count))))
    else wf_helpTransfer fuel Value' (wf_attempts fuel tid count))"

definition wf_getAndIncrement :: "nat \<Rightarrow> nat \<Rightarrow> (wf_state, 32 word) prog" where
  "wf_getAndIncrement fuel tid = wf_attempts fuel tid 1"

fun wf_getAndIncrement2 :: "nat \<Rightarrow> nat \<Rightarrow> (wf_state, 32 word) prog" where
  "wf_getAndIncrement2 0 tid = Spin"
| "wf_getAndIncrement2 (Suc fuel) tid =
    ld w_Value (\<lambda>value.
    cas (\<lambda>s. w_Value s = value) (\<lambda>s. s\<lparr>w_Value := value + 1\<rparr>) (\<lambda>ok.
    if ok then Ret (ucast value) else wf_getAndIncrement2 fuel tid))"

definition wf_getAndIncrement3 :: "nat \<Rightarrow> (wf_state, 32 word) prog" where
  "wf_getAndIncrement3 tid = fetch w_Value (\<lambda>s. s\<lparr>w_Value := w_Value s + 1\<rparr>) (\<lambda>v. Ret (ucast v))"

fun wf_routine :: "nat \<Rightarrow> nat \<Rightarrow> nat \<Rightarrow> (wf_state, unit) prog" where
  "wf_routine fuel 0 tid = Ret ()"
| "wf_routine fuel (Suc m) tid =
    bind (wf_getAndIncrement fuel tid) (\<lambda>r.
    stp (\<lambda>s. if 0 \<le> sint r \<and> sint r < int wf_N * 1000000 then Some (s\<lparr>w_ints := (w_ints s)(nat (sint r) := 1)\<rparr>) else None) (
    wf_routine fuel m tid))"

text \<open>\<open>main\<close> before it starts the threads.\<close>

definition wf_start :: wf_state where
  "wf_start = \<lparr>w_Value = 0, w_handle = (\<lambda>_. \<lparr>wh_value = (\<lambda>_. 0), wh_version = 0, wh_wrapper = WF_DONE, wh_index = 0, wh_steps = 0\<rparr>),
     w_ints = (\<lambda>_. 0)\<rparr>"


section \<open>Fields\<close>

lemma low_ones: "push_bit k 1 - 1 = (mask k :: 64 word)"
  by (simp add: mask_eq_exp_minus_1 push_bit_of_1)

lemma bit_wf_masks [bit_simps]:
  "bit PSLY_VALUE_INDEX n \<longleftrightarrow> n < 15"
  "bit PSLY_VALUE_VERSION n \<longleftrightarrow> 15 \<le> n \<and> n < 31"
  "bit PSLY_VALUE_INDEX2 n \<longleftrightarrow> 31 \<le> n \<and> n < 46"
  "bit PSLY_VALUE_VERSION2 n \<longleftrightarrow> 46 \<le> n \<and> n < 62"
  "bit PSLY_MAX_POSITIVE n \<longleftrightarrow> n < 62"
  "bit PSLY_INTS n \<longleftrightarrow> n < 31"
  "bit WF_VERSIONS n \<longleftrightarrow> n < 16"
  "bit WF_PENDING n \<longleftrightarrow> n = 63"
  "bit WF_DONE n \<longleftrightarrow> n = 62"
  unfolding PSLY_VALUE_INDEX_def PSLY_VALUE_VERSION_def PSLY_VALUE_INDEX2_def PSLY_VALUE_VERSION2_def PSLY_MAX_POSITIVE_def PSLY_INTS_def
    WF_VERSIONS_def WF_PENDING_def WF_DONE_def low_ones bit_xor_iff bit_mask_iff bit_push_bit_iff bit_1_iff possible_bit_word
  by auto

lemma sign_bit: "0 \<le>s x \<longleftrightarrow> \<not> bit x 63" "x <s 0 \<longleftrightarrow> bit x 63" for x :: "64 word"
  using bit_last_iff [of x] by (auto simp: word_sle_eq word_sless_alt)

lemma bit62: "x AND WF_DONE \<noteq> 0 \<longleftrightarrow> bit x 62" for x :: "64 word"
  unfolding WF_DONE_def by (simp only: push_bit_of_1 and_exp_eq_0_iff_not_bit not_not)

lemma bits_of_nat: "n < 2 ^ k \<Longrightarrow> bit (of_nat n :: 64 word) j \<Longrightarrow> j < k"
proof -
  assume n: "n < 2 ^ k" and "bit (of_nat n :: 64 word) j"
  then have "bit n j" by (simp add: bit_of_nat_iff)
  moreover have "take_bit k n = n" using n by (simp add: take_bit_nat_eq_self)
  ultimately show "j < k" by (metis bit_take_bit_iff)
qed

text \<open>Words whose bits lie below \<open>k\<close>.\<close>

definition below :: "nat \<Rightarrow> 64 word \<Rightarrow> bool" where
  "below k x \<longleftrightarrow> (\<forall>n. bit x n \<longrightarrow> n < k)"

lemma belowD: "below k x \<Longrightarrow> bit x n \<Longrightarrow> n < k"
  by (simp add: below_def)

lemma below_nat: "n < 2 ^ k \<Longrightarrow> below k (of_nat n)"
  by (simp add: below_def bits_of_nat)

lemma below_mask: "below 16 (x AND WF_VERSIONS)"
  by (simp add: below_def bit_simps)

lemma below_take: "below k x \<longleftrightarrow> take_bit k x = x"
proof
  assume "below k x" then show "take_bit k x = x" by (intro bit_word_eqI) (auto simp: bit_simps dest: belowD)
next
  assume "take_bit k x = x" then show "below k x" by (metis below_def bit_take_bit_iff)
qed

lemma below_succ: "below 16 x \<Longrightarrow> below 17 (x + 1)"
proof -
  assume "below 16 x"
  then have "unat (take_bit 16 x) = unat x" by (simp add: below_take)
  then have "take_bit 16 (unat x) = unat x" by (simp only: unsigned_take_bit_eq)
  then have x: "unat x < 65536" using take_bit_nat_less_exp [of 16 "unat x"] by simp
  have "x + 1 = of_nat (unat x + 1)" by simp
  then show ?thesis using below_nat [of "unat x + 1" 17] x by (simp add: add.commute)
qed

text \<open>A thread's \<open>Value\<close> on the fast path; \<open>x\<close> may have a 17th bit.\<close>

lemma fast_value:
  assumes "below 15 T"
  shows "wf_INDEX (T OR push_bit 15 x) = T" "wf_VERSION (T OR push_bit 15 x) = x AND (WF_VERSIONS)"
  unfolding wf_INDEX_def wf_VERSION_def using assms
  by (auto intro!: bit_word_eqI simp: bit_simps dest: belowD)

lemma parity_mask: "(x AND (WF_VERSIONS)) AND 1 = x AND 1" for x :: "64 word"
  by (rule bit_word_eqI) (auto simp: bit_simps)

text \<open>The words of the slow path: the request \<open>R\<close>, \<open>Value\<close> with the request bound to it, the request
  answered, the next \<open>Value\<close>.\<close>

definition request :: "64 word \<Rightarrow> 64 word" where "request v = WF_PENDING OR push_bit 46 v"
definition bound_value :: "64 word \<Rightarrow> 64 word \<Rightarrow> 64 word \<Rightarrow> 64 word" where
  "bound_value V v T = V OR WF_PENDING OR push_bit 46 v OR push_bit 31 T"
definition answered :: "64 word \<Rightarrow> 64 word \<Rightarrow> 64 word" where "answered V v = V OR push_bit 46 v"

lemmas slow_words = request_def bound_value_def answered_def wf_INDEX_def wf_VERSION_def wf_INDEX2_def wf_VERSION2_def

lemma slow_fields:
  assumes "below 31 V" and "below 16 v" and "below 15 T"
  shows "wf_VERSION2 (request v) = v" "bit (request v) 63" "\<not> bit (request v) 62"
    "wf_INDEX2 (bound_value V v T) = T" "wf_VERSION2 (bound_value V v T) = v" "bound_value V v T AND PSLY_INTS = V"
    "wf_INDEX (answered V v) = wf_INDEX V" "wf_VERSION (answered V v) = wf_VERSION V" "answered V v AND PSLY_INTS = V"
    "wf_VERSION2 (answered V v) = v" "bit (bound_value V v T) 63"
    "(request v OR (bound_value V v T AND PSLY_INTS)) AND PSLY_MAX_POSITIVE = answered V v"
    "\<not> bit (answered V v) 63" "\<not> bit (answered V v) 62" "\<not> bit V 63" "bit (answered V v OR WF_DONE) 62"
  unfolding slow_words using assms
  by (auto intro!: bit_word_eqI simp: bit_simps dest: belowD) (drule (1) belowD, simp)+

section \<open>A thread that runs alone\<close>

text \<open>The counter stands at \<open>c\<close>, no request is bound to \<open>Value\<close>.\<close>

definition counted :: "nat \<Rightarrow> 64 word \<Rightarrow> bool" where
  "counted c w \<longleftrightarrow> (\<exists>d \<le> c. w = of_nat d)"

lemma counted_Suc: "counted c w \<Longrightarrow> counted (Suc c) w" "counted (Suc c) (of_nat c + 1)"
proof -
  show "counted c w \<Longrightarrow> counted (Suc c) w" unfolding counted_def using le_SucI by blast
  show "counted (Suc c) (of_nat c + 1)" unfolding counted_def by (intro exI [of _ "Suc c"]) (simp add: add.commute)
qed

lemma counted_less: "counted c w \<Longrightarrow> c + 1 < 2 ^ 62 \<Longrightarrow> w <s of_nat c + 1 \<and> \<not> of_nat c + 1 <s (of_nat c + 1 :: 64 word)"
proof -
  assume "counted c w" and c: "c + 1 < 2 ^ 62"
  then obtain d where d: "w = of_nat d" "d \<le> c" by (auto simp: counted_def)
  have "sint (of_nat k :: 64 word) = int k" if "k \<le> c + 1" for k
    using that c by (simp add: signed_of_nat signed_take_bit_int_eq_self)
  from this [of d] this [of "c + 1"] d show ?thesis by (simp add: word_sless_alt add.commute)
qed

definition wf_now :: "wf_state \<Rightarrow> 64 word" where
  "wf_now s = wh_value (w_handle s (unat (wf_INDEX (w_Value s)))) (wf_VERSION (w_Value s) AND 1)"

definition wf_holds :: "nat \<Rightarrow> wf_state \<Rightarrow> bool" where
  "wf_holds c s \<longleftrightarrow> \<not> bit (w_Value s) 63 \<and> unat (wf_INDEX (w_Value s)) < wf_N \<and> wf_now s = of_nat c \<and> c < 2 ^ 62 \<and>
     wf_VERSION (w_Value s) AND 1 = wh_version (w_handle s (unat (wf_INDEX (w_Value s)))) AND 1 \<and>
     (\<forall>i < wf_N. below 16 (wh_version (w_handle s i)) \<and> (\<forall>j. counted c (wh_value (w_handle s i) j)))"

lemma wf_start_holds: "wf_holds 0 wf_start"
  by (simp add: wf_holds_def wf_start_def wf_now_def wf_INDEX_def wf_VERSION_def wf_N_def below_def counted_def)

lemma of_tid: "tid < wf_N \<Longrightarrow> below 15 (of_nat tid) \<and> unat (of_nat tid :: 64 word) = tid"
  by (simp add: below_nat wf_N_def unat_of_nat)

lemma wf_steps_never: "\<not> wf_steps_test steps"
  by (simp add: wf_steps_test_def)

lemma other_parity: "(v + 1) AND 1 \<noteq> v AND (1 :: 64 word)"
proof
  assume "(v + 1) AND 1 = v AND 1"
  then have "even ((v + 1) AND 1) = even (v AND 1)" by (simp only:)
  then have "even (v + 1) = even v" by (simp only: even_and_iff odd_one simp_thms)
  then show False by simp
qed

lemma wf_fast_run:
  assumes "wf_holds c s" and "c + 1 < 2 ^ 62" and "tid < wf_N"
  shows "\<exists>t. run (wf_attempts fuel tid (Suc n)) s = Done (of_nat c) t \<and> wf_holds (c + 1) t \<and>
    w_Value t = of_nat tid OR push_bit 15 (wh_version (w_handle s tid) + 1) \<and>
    (\<forall>i. wh_wrapper (w_handle t i) = wh_wrapper (w_handle s i) \<and>
      wh_version (w_handle t i) = (if i = tid then (wh_version (w_handle s tid) + 1) AND WF_VERSIONS else wh_version (w_handle s i)))"
proof -
  from assms(1) have h: "\<not> bit (w_Value s) 63" "unat (wf_INDEX (w_Value s)) < wf_N" "wf_now s = of_nat c"
    "\<forall>i < wf_N. below 16 (wh_version (w_handle s i)) \<and> (\<forall>j. counted c (wh_value (w_handle s i) j))" by (auto simp: wf_holds_def)
  let ?v = "wh_version (w_handle s tid)" and ?T = "of_nat tid :: 64 word"
  let ?h = "(w_handle s tid)\<lparr>wh_value := (wh_value (w_handle s tid))((?v + 1) AND 1 := of_nat c + 1), wh_version := (?v + 1) AND WF_VERSIONS,
    wh_steps := wh_steps (w_handle s tid) + 1\<rparr>"
  let ?t = "s\<lparr>w_Value := ?T OR push_bit 15 (?v + 1), w_handle := (w_handle s)(tid := ?h)\<rparr>"
  note T = of_tid [OF assms(3)]
  note f = fast_value [of ?T "?v + 1"]
  have "run (wf_attempts fuel tid (Suc n)) s = Done (ucast (of_nat c :: 64 word)) ?t"
    using h(1-3) assms(3) by (simp add: sign_bit wf_at_def wf_upd_def wf_CAS_VALUE_def wf_help_next_def wf_steps_never wf_now_def)
  moreover have "(ucast (of_nat c :: 64 word) :: 32 word) = of_nat c" by (rule bit_word_eqI) (simp add: bit_simps)
  moreover have "wf_holds (c + 1) ?t"
    unfolding wf_holds_def
  proof (intro conjI allI impI)
    have "below 17 (?v + 1)" using h(4) assms(3) below_succ by blast
    then show "\<not> bit (w_Value ?t) 63" using T belowD [of 15 ?T 63] belowD [of 17 "?v + 1" 48] by (auto simp: bit_or_iff bit_push_bit_iff)
    show "unat (wf_INDEX (w_Value ?t)) < wf_N" using f T assms(3) by simp
    show "wf_now ?t = of_nat (c + 1)" using f T by (simp add: wf_now_def parity_mask)
    show "wf_VERSION (w_Value ?t) AND 1 = wh_version (w_handle ?t (unat (wf_INDEX (w_Value ?t)))) AND 1" using f T by (simp add: parity_mask)
    fix i assume i: "i < wf_N"
    show "below 16 (wh_version (w_handle ?t i))" using h(4) i by (simp add: below_mask)
    fix j show "counted (c + 1) (wh_value (w_handle ?t i) j)" using h(4) i counted_Suc by auto
  qed (use assms(2) in simp)
  ultimately show ?thesis by auto
qed


section \<open>The slow path\<close>

lemma wf_raise_run:
  assumes "counted c (wh_value (w_handle s h) j)" and "c + 1 < 2 ^ 62" and "h < wf_N" and "2 \<le> fuel"
  shows "run (wf_raise fuel h j (of_nat c + 1) k) s =
    run k (s\<lparr>w_handle := (w_handle s)(h := (w_handle s h)\<lparr>wh_value := (wh_value (w_handle s h))(j := of_nat c + 1)\<rparr>)\<rparr>)"
proof -
  from assms(4) obtain f where "fuel = 2 + f" using le_Suc_ex by blast
  then have "fuel = Suc (Suc f)" by simp
  with counted_less [OF assms(1,2)] assms(3) show ?thesis by (simp add: wf_at_def wf_upd_def)
qed

text \<open>The request of thread \<open>tid\<close>, from its publication on: bound to \<open>Value\<close>, answered, \<open>Value\<close> swung.\<close>

definition requested :: "nat \<Rightarrow> wf_state \<Rightarrow> wf_state" where
  "requested tid s = s\<lparr>w_handle := (w_handle s)(tid := (w_handle s tid)\<lparr>wh_wrapper := request (wh_version (w_handle s tid))\<rparr>)\<rparr>"

definition fulfilled :: "nat \<Rightarrow> nat \<Rightarrow> wf_state \<Rightarrow> wf_state" where
  "fulfilled c tid s = (let v = wh_version (w_handle s tid) in
     s\<lparr>w_Value := of_nat tid OR push_bit 15 ((v + 1) AND WF_VERSIONS),
       w_handle := (w_handle s)(tid := (w_handle s tid)\<lparr>wh_wrapper := answered (w_Value s) v,
         wh_value := (wh_value (w_handle s tid))((v + 1) AND 1 := of_nat c + 1)\<rparr>)\<rparr>)"

lemma wf_nextValue_bound:
  assumes "below 31 V" and "below 16 v" and "below 15 T"
  shows "wf_nextValue (bound_value V v T) = T OR push_bit 15 ((v + 1) AND WF_VERSIONS)"
  unfolding wf_nextValue_def slow_fields(4,5) [OF assms] by (rule bit_word_eqI) (auto simp: bit_simps)

lemma wf_swap: "s\<lparr>w_handle := a, w_Value := b\<rparr> = s\<lparr>w_Value := b, w_handle := a\<rparr>"
  by simp

lemma wf_transfer_run:
  assumes "wf_holds c s" and "c + 1 < 2 ^ 62" and "tid < wf_N" and "below 31 (w_Value s)" and "2 \<le> fuel"
  defines "v \<equiv> wh_version (w_handle s tid)"
  shows "run (wf_helpTransfer fuel (bound_value (w_Value s) v (of_nat tid)) k) ((requested tid s)\<lparr>w_Value := bound_value (w_Value s) v (of_nat tid)\<rparr>) =
    run k (fulfilled c tid s)"
proof -
  let ?V = "w_Value s" and ?T = "of_nat tid :: 64 word"
  from assms(1,3) have h: "unat (wf_INDEX ?V) < wf_N" "wf_now s = of_nat c" "below 16 v" "counted c (wh_value (w_handle s tid) ((v + 1) AND 1))"
    by (auto simp: wf_holds_def v_def)
  note T = of_tid [OF assms(3)]
  note f = slow_fields [OF assms(4) h(3) T [THEN conjunct1]]
  note r = wf_raise_run [OF _ assms(2,3,5)]
  have now: "wh_value (w_handle s (unat (wf_INDEX ?V))) (wf_VERSION ?V AND 1) = of_nat c" using h(2) by (simp add: wf_now_def)
  have d: "\<not> wf_done (request v) v" using f(1,3) by (simp add: wf_done_def bit62)
  show ?thesis
    unfolding wf_helpTransfer_def Let_def f(4,5) T [THEN conjunct2]
    using assms(3) h(1,4) now d f by (cases "unat (wf_INDEX ?V) = tid") (simp_all add: wf_swap wf_at_def wf_upd_def requested_def v_def [symmetric] sign_bit wf_helpValueTransfer_def Let_def parity_mask r
      wf_CAS_VALUE_def wf_nextValue_bound [OF assms(4) h(3) T [THEN conjunct1]] fulfilled_def)
qed


lemma fulfilled_holds:
  assumes "wf_holds c s" and "c + 1 < 2 ^ 62" and "tid < wf_N"
  shows "wf_holds (c + 1) ((fulfilled c tid s)\<lparr>w_handle := (w_handle (fulfilled c tid s))
      (tid := (w_handle (fulfilled c tid s) tid)\<lparr>wh_wrapper := w, wh_version := (wh_version (w_handle s tid) + 1) AND WF_VERSIONS\<rparr>)\<rparr>)"
    (is "wf_holds _ ?t")
proof -
  let ?v = "wh_version (w_handle s tid)" and ?T = "of_nat tid :: 64 word"
  from assms(1) have h: "\<forall>i < wf_N. below 16 (wh_version (w_handle s i)) \<and> (\<forall>j. counted c (wh_value (w_handle s i) j))"
    by (auto simp: wf_holds_def)
  note T = of_tid [OF assms(3)]
  note f = fast_value [OF T [THEN conjunct1], of "(?v + 1) AND WF_VERSIONS"]
  have V: "w_Value ?t = ?T OR push_bit 15 ((?v + 1) AND WF_VERSIONS)" by (simp add: fulfilled_def Let_def)
  have H: "w_handle ?t i = (if i = tid then (w_handle s tid)\<lparr>wh_wrapper := w, wh_version := (?v + 1) AND WF_VERSIONS,
      wh_value := (wh_value (w_handle s tid))((?v + 1) AND 1 := of_nat c + 1)\<rparr> else w_handle s i)" for i
    by (simp add: fulfilled_def Let_def)
  show ?thesis
    unfolding wf_holds_def
  proof (intro conjI allI impI)
    show "\<not> bit (w_Value ?t) 63"
      using T belowD [of 15 ?T 63] unfolding V by (auto simp: bit_or_iff bit_and_iff bit_push_bit_iff bit_wf_masks)
    show "unat (wf_INDEX (w_Value ?t)) < wf_N" using T assms(3) unfolding V f by simp
    show "wf_now ?t = of_nat (c + 1)" using T unfolding wf_now_def V f H by (simp add: parity_mask)
    show "wf_VERSION (w_Value ?t) AND 1 = wh_version (w_handle ?t (unat (wf_INDEX (w_Value ?t)))) AND 1"
      using T unfolding V f H by (simp add: parity_mask)
    fix i assume i: "i < wf_N"
    show "below 16 (wh_version (w_handle ?t i))" using h i unfolding H by (simp add: below_mask)
    fix j show "counted (c + 1) (wh_value (w_handle ?t i) j)" using h i counted_Suc unfolding H by auto
  qed (use assms(2) in simp)
qed

text \<open>Afterwards \<open>Value\<close> no longer names the slot the answer was computed from.\<close>

lemma fulfilled_moved:
  assumes "wf_holds c s" and "tid < wf_N"
  shows "w_Value (fulfilled c tid s) AND PSLY_INTS \<noteq> w_Value s"
proof
  let ?T = "of_nat tid :: 64 word" and ?v = "wh_version (w_handle s tid)"
  note T = of_tid [OF assms(2)]
  have U: "w_Value (fulfilled c tid s) = ?T OR push_bit 15 ((?v + 1) AND WF_VERSIONS)" by (simp add: fulfilled_def Let_def)
  assume "w_Value (fulfilled c tid s) AND PSLY_INTS = w_Value s"
  moreover have "w_Value (fulfilled c tid s) AND PSLY_INTS = w_Value (fulfilled c tid s)"
    unfolding U using T by (intro bit_word_eqI) (auto simp: bit_or_iff bit_and_iff bit_push_bit_iff bit_wf_masks dest: belowD)
  ultimately have V: "w_Value s = ?T OR push_bit 15 ((?v + 1) AND WF_VERSIONS)" using U by simp
  have "wf_VERSION (w_Value s) AND 1 = wh_version (w_handle s (unat (wf_INDEX (w_Value s)))) AND 1" using assms(1) by (simp add: wf_holds_def)
  then have "(?v + 1) AND 1 = ?v AND 1"
    using T unfolding V fast_value [OF T [THEN conjunct1]] by (simp add: parity_mask)
  then show False using other_parity by blast
qed

lemma wf_help_run:
  assumes "wf_holds c s" and "c + 1 < 2 ^ 62" and "tid < wf_N" and "below 31 (w_Value s)" and "4 \<le> fuel"
  shows "run (wf_help fuel tid k) (requested tid s) = run k (fulfilled c tid s)"
proof -
  let ?V = "w_Value s" and ?T = "of_nat tid :: 64 word" and ?v = "wh_version (w_handle s tid)" and ?u = "fulfilled c tid s"
  obtain n where "fuel = 4 + n" using assms(5) le_Suc_ex by blast
  then have fu: "fuel = Suc (Suc (Suc (Suc n)))" by simp
  from assms(1,3) have h: "below 16 ?v" "unat (wf_INDEX ?V) < wf_N" by (auto simp: wf_holds_def)
  note T = of_tid [OF assms(3)]
  note f = slow_fields [OF assms(4) h(1) T [THEN conjunct1]]
  have U: "wh_wrapper (w_handle ?u tid) = answered ?V ?v" by (simp add: fulfilled_def Let_def)
  have R: "wh_wrapper (w_handle (requested tid s) tid) = request ?v" "w_Value (requested tid s) = ?V" by (simp_all add: requested_def)
  have ne: "request ?v \<noteq> answered ?V ?v" using f(2,13) by metis
  have hv: "run (wf_helpValueTransfer m tid (answered ?V ?v) k) ?u = run k ?u" for m
    using h(2) fulfilled_moved [OF assms(1,3)] f(7-9) by (simp add: wf_helpValueTransfer_def wf_at_def)
  have b: "?V OR (WF_PENDING OR (push_bit 46 ?v OR push_bit 31 ?T)) = bound_value ?V ?v ?T" by (simp add: bound_value_def or.assoc)
  note tr = wf_transfer_run [OF assms(1-4)]
  have loop: "run (wf_help_loop (Suc (Suc (Suc (Suc n)))) tid (request ?v) ?V h) (requested tid s) = run (h (answered ?V ?v)) ?u" for h
    using assms(3) f R U ne
    by (simp add: tr wf_at_def sign_bit Let_def wf_CAS_VALUE_def or.assoc b)
  show ?thesis
    unfolding wf_help_def fu using assms(3) f(1-3,10) R by (simp add: wf_at_def bit62 sign_bit loop hv del: wf_help_loop.simps)
qed

lemma wf_slow_run:
  assumes "wf_holds c s" and "c + 1 < 2 ^ 62" and "tid < wf_N" and "below 31 (w_Value s)" and "4 \<le> fuel"
  shows "\<exists>t. run (wf_slow fuel tid) s = Done (of_nat c) t \<and> wf_holds (c + 1) t"
proof -
  let ?v = "wh_version (w_handle s tid)" and ?u = "fulfilled c tid s"
  let ?t = "?u\<lparr>w_handle := (w_handle ?u)(tid := (w_handle ?u tid)\<lparr>wh_wrapper := answered (w_Value s) ?v OR WF_DONE, wh_version := (?v + 1) AND WF_VERSIONS\<rparr>)\<rparr>"
  have U: "wh_wrapper (w_handle ?u tid) = answered (w_Value s) ?v" "wh_value (w_handle ?u tid) ((?v + 1) AND 1) = of_nat c + 1"
    by (simp_all add: fulfilled_def Let_def)
  have "run (wf_slow fuel tid) s = Done (ucast (of_nat c :: 64 word)) ?t"
    unfolding wf_slow_def using assms(3) U
    by (simp add: wf_help_run [OF assms] wf_at_def wf_upd_def requested_def [symmetric] request_def [symmetric] parity_mask)
  moreover have "(ucast (of_nat c :: 64 word) :: 32 word) = of_nat c" by (rule bit_word_eqI) (simp add: bit_simps)
  ultimately show ?thesis using fulfilled_holds [OF assms(1-3)] by simp
qed


section \<open>What the counter promises\<close>

fun wf_calls :: "nat \<Rightarrow> nat list \<Rightarrow> (wf_state, 32 word list) prog" where
  "wf_calls fuel [] = Ret []"
| "wf_calls fuel (tid # tids) = bind (wf_getAndIncrement fuel tid) (\<lambda>v. bind (wf_calls fuel tids) (\<lambda>vs. Ret (v # vs)))"

lemma of_nat_bound: "unat (of_nat n :: 64 word) \<le> n"
  by (simp add: unsigned_of_nat)

text \<open>As long as no more than \<open>2 ^ 16 - 1\<close> calls were made, no version has wrapped.\<close>

definition wf_young :: "nat \<Rightarrow> wf_state \<Rightarrow> bool" where
  "wf_young c s \<longleftrightarrow> (c < 2 ^ 16 \<longrightarrow> below 31 (w_Value s) \<and> (\<forall>i. unat (wh_version (w_handle s i)) \<le> c))"

lemma wf_young_step:
  assumes "wf_young c s" and "tid < wf_N" and V: "w_Value t = of_nat tid OR push_bit 15 (wh_version (w_handle s tid) + 1)"
    and v: "\<forall>i. wh_version (w_handle t i) = (if i = tid then (wh_version (w_handle s tid) + 1) AND WF_VERSIONS else wh_version (w_handle s i))"
  shows "wf_young (c + 1) t"
  unfolding wf_young_def
proof
  assume c: "c + 1 < 2 ^ 16"
  let ?v = "wh_version (w_handle s tid)"
  from c assms(1) have "\<And>i. unat (wh_version (w_handle s i)) \<le> c" by (simp add: wf_young_def)
  moreover from this [of tid] have "?v + 1 = of_nat (unat ?v + 1)" "unat ?v + 1 \<le> c + 1" by simp_all
  moreover from this c have "below 16 (?v + 1)" using below_nat [of "unat ?v + 1" 16] by (simp add: add.commute)
  moreover from this have "(?v + 1) AND WF_VERSIONS = ?v + 1" by (intro bit_word_eqI) (auto simp: bit_and_iff bit_wf_masks dest: belowD)
  moreover have "unat (?v + 1) \<le> c + 1" using calculation(2,3) of_nat_bound [of "unat ?v + 1"] by (simp add: add.commute)
  moreover have "below 31 (of_nat tid OR push_bit 15 (?v + 1))"
    using of_tid [OF assms(2)] calculation(4) by (auto simp: below_def bit_or_iff bit_push_bit_iff)
  ultimately show "below 31 (w_Value t) \<and> (\<forall>i. unat (wh_version (w_handle t i)) \<le> c + 1)" using V v by (auto simp: le_SucI)
qed

lemma wf_calls_run:
  "wf_holds c s \<Longrightarrow> c + length tids < 2 ^ 62 \<Longrightarrow> set tids \<subseteq> {..<wf_N} \<Longrightarrow>
    \<exists>t. run (wf_calls fuel tids) s = Done (map of_nat [c..<c + length tids]) t \<and> wf_holds (c + length tids) t \<and>
      (wf_young c s \<longrightarrow> wf_young (c + length tids) t)"
proof (induction tids arbitrary: c s)
  case (Cons tid tids)
  then have "c + 1 < 2 ^ 62" and tid: "tid < wf_N" by auto
  from wf_fast_run [OF Cons.prems(1) this, of fuel 0] wf_young_step [OF _ tid, of c s] obtain u where
    u: "run (wf_getAndIncrement fuel tid) s = Done (of_nat c) u" "wf_holds (c + 1) u" "wf_young c s \<longrightarrow> wf_young (c + 1) u"
    unfolding wf_getAndIncrement_def by (metis One_nat_def)
  have "c + 1 + length tids < 2 ^ 62" "set tids \<subseteq> {..<wf_N}" using Cons.prems(2,3) by auto
  from Cons.IH [OF u(2) this] obtain t where
    t: "run (wf_calls fuel tids) u = Done (map of_nat [c + 1..<c + 1 + length tids]) t" "wf_holds (c + 1 + length tids) t"
      "wf_young (c + 1) u \<longrightarrow> wf_young (c + 1 + length tids) t" by blast
  have "[c..<c + length (tid # tids)] = c # [c + 1..<c + 1 + length tids]" by (simp add: upt_rec)
  with u t show ?case by simp
qed simp

lemma wf_start_young: "wf_young 0 wf_start"
  by (simp add: wf_young_def wf_start_def below_def)

text \<open>C36: calls of \<open>getAndIncrement\<close> of \<^verbatim>\<open>mayijin/WaitFreeAtomic.c\<close> one after the other, by any threads in any
  order and however often the 16-bit versions wrap, return 0, 1, 2 and so on.\<close>

theorem wf_counts:
  assumes "length tids < 2 ^ 62" and "set tids \<subseteq> {..<wf_N}"
  shows "\<exists>t. run (wf_calls fuel tids) wf_start = Done (map of_nat [0..<length tids]) t"
  using wf_calls_run [OF wf_start_holds _ assms(2), of fuel] assms(1) by auto

theorem wf_counts_witness:
  "\<exists>t. run (wf_calls 0 (replicate 70000 5)) wf_start = Done (map of_nat [0..<70000]) t"
  using wf_counts [of "replicate 70000 5" 0] by (simp add: wf_N_def del: upt_conv_Cons)

text \<open>C23: a thread whose attempt failed publishes a request, and helping it always ends: run alone after
  any calls that wrapped no version, the slow path answers the request with the current count and
  moves the counter on by one, so that the next calls go on from there.\<close>

theorem wf_slow_answers:
  assumes "length tids < 2 ^ 16" and "set tids \<union> set later \<subseteq> {..<wf_N}" and "length later < 2 ^ 61" and "tid < wf_N" and "4 \<le> fuel"
  shows "\<exists>t. run (bind (wf_calls fuel tids) (\<lambda>vs. bind (wf_slow fuel tid) (\<lambda>v. bind (wf_calls fuel later) (\<lambda>ws. Ret (vs @ v # ws))))) wf_start =
    Done (map of_nat [0..<length tids + 1 + length later]) t"
proof -
  let ?n = "length tids"
  from wf_calls_run [OF wf_start_holds, of tids fuel] wf_start_young assms obtain t where
    t: "run (wf_calls fuel tids) wf_start = Done (map of_nat [0..<?n]) t" "wf_holds ?n t" "wf_young ?n t" by auto
  have "below 31 (w_Value t)" using t(3) assms(1) by (simp add: wf_young_def)
  from wf_slow_run [OF t(2) _ assms(4) this assms(5)] assms(1) obtain u where
    u: "run (wf_slow fuel tid) t = Done (of_nat ?n) u" "wf_holds (?n + 1) u" by auto
  from wf_calls_run [OF u(2), of later fuel] assms obtain w where
    w: "run (wf_calls fuel later) u = Done (map of_nat [?n + 1..<?n + 1 + length later]) w" by auto
  have "[0..<?n + 1 + length later] = [0..<?n] @ [?n..<?n + (1 + length later)]"
    using upt_add_eq_append [of 0 ?n "1 + length later"] by (simp only: add.assoc)
  also have "[?n..<?n + (1 + length later)] = ?n # [?n + 1..<?n + 1 + length later]" by (simp add: upt_conv_Cons del: upt_Suc)
  finally have "[0..<?n + 1 + length later] = [0..<?n] @ ?n # [?n + 1..<?n + 1 + length later]" .
  with t(1) u(1) w show ?thesis by simp
qed

theorem wf_slow_answers_witness:
  "\<exists>t. run (bind (wf_calls 4 [3, 5, 3]) (\<lambda>vs. bind (wf_slow 4 7) (\<lambda>v. bind (wf_calls 4 [7, 99]) (\<lambda>ws. Ret (vs @ v # ws))))) wf_start =
    Done (map of_nat [0..<length [3, 5, 3 :: nat] + 1 + length [7, 99 :: nat]]) t"
  by (rule wf_slow_answers) (simp_all add: wf_N_def)

section \<open>A version that wraps\<close>

text \<open>\<open>Value\<close> has bit 31 set: a request bound to it by an even thread names the next thread.\<close>

lemma stuck_loop:
  assumes "tid < wf_N" and "wf_INDEX2 value = of_nat j" and "j < wf_N" and "bit (wh_wrapper (w_handle s j)) 62"
    and "wh_wrapper (w_handle s tid) = wrapper" and "w_Value s = value" and "bit value 63"
  shows "run (wf_help_loop fuel tid wrapper value k) s = Looping s"
proof (induction fuel)
  case (Suc fuel)
  have "unat (of_nat j :: 64 word) = j" using assms(3) of_tid by blast
  with Suc assms show ?case by (simp add: wf_at_def sign_bit wf_helpTransfer_def wf_done_def bit62 Let_def)
qed simp


lemma stuck_value:
  assumes "below 31 V" and "below 16 v" and "tid < wf_N" and "even tid"
  shows "wf_INDEX2 ((V OR push_bit 31 1) OR WF_PENDING OR push_bit 46 v OR push_bit 31 (of_nat tid)) = of_nat (tid + 1)"
    "bit ((V OR push_bit 31 1) OR WF_PENDING OR push_bit 46 v OR push_bit 31 (of_nat tid)) 63"
proof -
  have e: "of_nat (tid + 1) = (1 :: 64 word) OR of_nat tid"
  proof -
    have "(1 :: 64 word) OR of_nat tid = 1 + of_nat tid"
      using assms(4) by (intro disjunctive_add [symmetric]) (auto simp: bit_1_iff bit_of_nat_iff bit_0)
    then show ?thesis by simp
  qed
  show "wf_INDEX2 ((V OR push_bit 31 1) OR WF_PENDING OR push_bit 46 v OR push_bit 31 (of_nat tid)) = of_nat (tid + 1)"
    unfolding e wf_INDEX2_def using assms(1) of_tid [OF assms(3)]
    by (intro bit_word_eqI) (auto simp: bit_or_iff bit_and_iff bit_push_bit_iff bit_drop_bit_eq bit_wf_masks bit_1_iff dest: belowD)
  show "bit ((V OR push_bit 31 1) OR WF_PENDING OR push_bit 46 v OR push_bit 31 (of_nat tid)) 63"
    by (simp add: bit_or_iff bit_wf_masks)
qed

text \<open>C20: \<open>getAndIncrement\<close> builds the new \<open>Value\<close> from \<open>version + 1\<close> without cutting it to 16 bits. After the
  increment that wraps a thread's version, bit 31 of \<open>Value\<close> is set; a thread with an even number whose
  attempt fails then binds its request to the handle after its own, which has none when its thread is idle, and
  run alone it is never answered: the slow path does not return, however long it runs.\<close>

theorem wf_slow_stuck:
  assumes "wf_holds c s" and "c + 1 < 2 ^ 62" and "p < wf_N" and "wh_version (w_handle s p) = 65535"
    and "tid < wf_N" and "even tid" and "bit (wh_wrapper (w_handle s (tid + 1))) 62"
  shows "\<exists>t. run (bind (wf_getAndIncrement fuel p) (\<lambda>_. wf_slow fuel tid)) s = Looping t"
proof -
  from wf_fast_run [OF assms(1-3), of fuel 0] obtain t where
    t: "run (wf_getAndIncrement fuel p) s = Done (of_nat c) t" "wf_holds (c + 1) t" "w_Value t = of_nat p OR push_bit 15 65536"
      "bit (wh_wrapper (w_handle t (tid + 1))) 62"
    using assms(4,7) by (auto simp: wf_getAndIncrement_def)
  let ?v = "wh_version (w_handle t tid)" and ?V = "w_Value t"
  have v: "below 16 ?v" using t(2) assms(5) by (simp add: wf_holds_def)
  have V: "?V = of_nat p OR push_bit 31 1" "\<not> bit ?V 63" using t(2,3) by (simp_all add: wf_holds_def)
  have "below 31 (of_nat p)" using of_tid [OF assms(3)] by (auto simp: below_def)
  note B = stuck_value [OF this v assms(5,6), folded V(1)]
  let ?B = "?V OR WF_PENDING OR push_bit 46 ?v OR push_bit 31 (of_nat tid)"
  let ?r = "(requested tid t)\<lparr>w_Value := ?B\<rparr>"
  have j: "tid + 1 < wf_N" using assms(5,6) by (auto simp: wf_N_def elim!: evenE)
  have "below 31 0" "below 15 0" by (simp_all add: below_def)
  from slow_fields(1-3) [OF this(1) v this(2)] have f: "wf_VERSION2 (request ?v) = ?v" "bit (request ?v) 63" "\<not> bit (request ?v) 62" .
  have loop: "run (wf_help_loop n tid (request ?v) ?B k) ?r = Looping ?r" for n and k :: "64 word \<Rightarrow> (wf_state, 32 word) prog"
    by (rule stuck_loop [OF assms(5) B(1) j]) (use t(4) B(2) in \<open>simp_all add: requested_def\<close>)
  have "\<exists>u. run (wf_help_loop n tid (request ?v) ?V k) (requested tid t) = Looping u" for n and k :: "64 word \<Rightarrow> (wf_state, 32 word) prog"
  proof (cases n)
    case (Suc m)
    have "unat (of_nat (tid + 1) :: 64 word) = tid + 1" using j of_tid by blast
    then have "run (wf_helpTransfer m ?B h) ?r = run h ?r" for h :: "(wf_state, 32 word) prog"
      unfolding wf_helpTransfer_def Let_def B(1) using j t(4) by (simp add: wf_at_def wf_done_def bit62 requested_def)
    then show ?thesis
      using Suc assms(5) f V(2) loop by (simp add: wf_at_def sign_bit Let_def wf_CAS_VALUE_def requested_def)
  qed simp
  moreover have "wh_wrapper (w_handle (requested tid t) tid) = request ?v" "w_Value (requested tid t) = ?V" by (simp_all add: requested_def)
  ultimately have "\<exists>u. run (wf_slow fuel tid) t = Looping u"
    unfolding wf_slow_def wf_help_def using assms(5) f
    by (simp add: wf_at_def wf_upd_def requested_def [symmetric] request_def [symmetric] bit62 sign_bit del: wf_help_loop.simps)
  with t(1) show ?thesis by simp
qed


definition before_wrap :: wf_state where
  "before_wrap = \<lparr>w_Value = 1 OR push_bit 15 65535, w_handle = (\<lambda>_. \<lparr>wh_value = (\<lambda>_. 0), wh_version = 0, wh_wrapper = WF_DONE, wh_index = 0, wh_steps = 0\<rparr>)
     (1 := \<lparr>wh_value = (\<lambda>j. if j = 1 then 65535 else 65534), wh_version = 65535, wh_wrapper = WF_DONE, wh_index = 0, wh_steps = 65535\<rparr>), w_ints = (\<lambda>_. 0)\<rparr>"

lemma before_wrap_holds: "wf_holds 65535 before_wrap"
proof -
  have "below 16 (of_nat 65535)" by (rule below_nat) simp
  then have v: "below 16 0" "below 16 65535" by (simp_all add: below_def)
  have w: "counted 65535 0" "counted 65535 65534" "counted 65535 65535"
    unfolding counted_def by (rule exI [of _ 0], simp) (rule exI [of _ 65534], simp, rule exI [of _ 65535], simp)
  show ?thesis
    using v w by (simp add: wf_holds_def before_wrap_def wf_now_def wf_INDEX_def wf_VERSION_def PSLY_VALUE_INDEX_def PSLY_VALUE_VERSION_def wf_N_def)
qed

theorem wf_slow_stuck_witness:
  "\<exists>t. run (bind (wf_getAndIncrement 1000 1) (\<lambda>_. wf_slow 1000 2)) before_wrap = Looping t"
  by (rule wf_slow_stuck [OF before_wrap_holds]) (simp_all add: wf_N_def before_wrap_def WF_DONE_def)

end
