(* ===== verification/RecordPool.thy ===== *)
theory RecordPool
  imports Prelude
begin

text \<open>
  The pool of \<open>Record\<close>s that every list implementation of the repository allocates from:
  the macro \<^verbatim>\<open>DEFINE_RESOURCE\<close> of \<^verbatim>\<open>mayijin/lockfreePro.c\<close>, for any \<open>idxNum\<close> (bits of an
  index) and \<open>arrNum\<close> (bits of an array number). There are \<open>2 ^ arrNum\<close> arrays of
  \<open>2 ^ idxNum\<close> records; the free records of an array form a linked FIFO queue over the
  array's indices (a Michael-Scott queue whose first element is the next record to hand out and
  whose last one always stays). The words \<open>head\<close>, \<open>tail\<close> and \<open>next\<close> carry an index in their
  low bits and a version above it; in \<open>next\<close> the bit above the index marks the last element.

  A \<open>Record*\<close> is a pair of an array number and an index (\<open>psly_Records[array] + index\<close>);
  dereferencing it is undefined when the array is not allocated. \<open>plog\<close> is a history
  variable of each queue: which thread took or returned which record, in order.
\<close>

section \<open>The data\<close>

type_synonym loc = "nat \<times> nat"

record rec =
  r_next :: "32 word"
  r_self :: "32 word"
  r_nextRecord :: "64 word"
  r_pointer :: "64 word"

datatype pool_event = Taken nat nat | Returned nat nat

record 'c pool =
  Records :: "nat \<Rightarrow> (nat \<Rightarrow> rec) option"
  qhead :: "nat \<Rightarrow> 32 word"
  qtail :: "nat \<Rightarrow> 32 word"
  recordTake :: 'c
  plog :: "nat \<Rightarrow> pool_event list"

definition rget :: "loc \<Rightarrow> ('c, 'z) pool_scheme \<Rightarrow> rec option" where
  "rget l s = map_option (\<lambda>arr. arr (snd l)) (Records s (fst l))"

definition rset :: "loc \<Rightarrow> (rec \<Rightarrow> rec) \<Rightarrow> ('c, 'z) pool_scheme \<Rightarrow> ('c, 'z) pool_scheme" where
  "rset l f s = (case Records s (fst l) of None \<Rightarrow> s
     | Some arr \<Rightarrow> s\<lparr>Records := (Records s)(fst l \<mapsto> arr(snd l := f (arr (snd l))))\<rparr>)"

text \<open>Reading and writing a field of a record.\<close>

definition rd :: "(rec \<Rightarrow> 'v) \<Rightarrow> loc \<Rightarrow> ('v \<Rightarrow> (('c, 'z) pool_scheme, 'a) prog) \<Rightarrow> (('c, 'z) pool_scheme, 'a) prog" where
  "rd fld l k = ldp (\<lambda>s. map_option fld (rget l s)) k"

definition wr :: "(rec \<Rightarrow> rec) \<Rightarrow> loc \<Rightarrow> (('c, 'z) pool_scheme, 'a) prog \<Rightarrow> (('c, 'z) pool_scheme, 'a) prog" where
  "wr f l k = stp (\<lambda>s. if Records s (fst l) = None then None else Some (rset l f s)) k"

section \<open>The words\<close>

definition IDXBIT :: "nat \<Rightarrow> 32 word" where
  "IDXBIT idxNum = push_bit idxNum 1 - 1"

definition ARRBITR :: "nat \<Rightarrow> 32 word" where
  "ARRBITR arrNum = push_bit arrNum 1 - 1"

definition ARRBIT :: "nat \<Rightarrow> nat \<Rightarrow> 32 word" where
  "ARRBIT idxNum arrNum = push_bit idxNum (push_bit arrNum 1 - 1)"

definition NEXTTAILBIT :: "nat \<Rightarrow> 32 word" where
  "NEXTTAILBIT idxNum = push_bit idxNum (push_bit 1 1 - 1)"

definition NEXTVERSIONBIT :: "nat \<Rightarrow> 32 word" where
  "NEXTVERSIONBIT idxNum = NOT 0 XOR (push_bit idxNum (push_bit 1 1 - 1) OR (push_bit idxNum 1 - 1))"

definition NEXTVERSIONONE :: "nat \<Rightarrow> 32 word" where
  "NEXTVERSIONONE idxNum = 1 + (push_bit idxNum (push_bit 1 1 - 1) OR (push_bit idxNum 1 - 1))"

definition TAILVERSIONBIT :: "nat \<Rightarrow> 32 word" where
  "TAILVERSIONBIT idxNum = NOT 0 XOR (push_bit idxNum 1 - 1)"

definition TAILVERSIONONE :: "nat \<Rightarrow> 32 word" where
  "TAILVERSIONONE idxNum = 1 + (push_bit idxNum 1 - 1)"

definition HEADVERSIONBIT :: "nat \<Rightarrow> 32 word" where
  "HEADVERSIONBIT idxNum = NOT 0 XOR (push_bit idxNum 1 - 1)"

definition HEADVERSIONONE :: "nat \<Rightarrow> 32 word" where
  "HEADVERSIONONE idxNum = 1 + (push_bit idxNum 1 - 1)"

text \<open>The new value of \<open>tail\<close>, \<open>head\<close> and \<open>next\<close>: the version plus one and the index of \<open>w\<close>.\<close>

definition bump_tail :: "nat \<Rightarrow> 32 word \<Rightarrow> 32 word \<Rightarrow> 32 word" where
  "bump_tail n tailIndex w =
     (((tailIndex AND TAILVERSIONBIT n) + TAILVERSIONONE n) AND TAILVERSIONBIT n) OR (w AND IDXBIT n)"

definition bump_head :: "nat \<Rightarrow> 32 word \<Rightarrow> 32 word \<Rightarrow> 32 word" where
  "bump_head n headIndex w =
     (((headIndex AND HEADVERSIONBIT n) + HEADVERSIONONE n) AND HEADVERSIONBIT n) OR (w AND IDXBIT n)"

definition bump_next :: "nat \<Rightarrow> 32 word \<Rightarrow> 32 word \<Rightarrow> 32 word" where
  "bump_next n nextIndex w =
     (((nextIndex AND NEXTVERSIONBIT n) + NEXTVERSIONONE n) AND NEXTVERSIONBIT n) OR (w AND IDXBIT n)"

definition idx_Record :: "nat \<Rightarrow> nat \<Rightarrow> 32 word \<Rightarrow> loc" where
  "idx_Record n arrNum index =
     (unat (drop_bit n (index AND ARRBIT n arrNum)), unat (index AND IDXBIT n))"

section \<open>The operations\<close>

text \<open>The inner loop of \<open>get_Record\<close> on one array: the first record of its queue, or \<open>None\<close> when
  only the last one is left (the \<open>break\<close>). \<open>retry\<close> says whether a lost compare-and-swap on
  \<open>head\<close> goes round again (it does in this file).\<close>

fun try_queue :: "nat \<Rightarrow> nat \<Rightarrow> bool \<Rightarrow> nat \<Rightarrow> nat \<Rightarrow> (('c, 'z) pool_scheme, loc option) prog" where
  "try_queue 0 n retry tid array = Spin"
| "try_queue (Suc fuel) n retry tid array =
    ld (\<lambda>s. qhead s array) (\<lambda>headIndex.
    let indexHead = headIndex AND IDXBIT n; head = (array, unat indexHead) in
    ld (\<lambda>s. qtail s array) (\<lambda>tailIndex.
    let indexTail = tailIndex AND IDXBIT n in
    rd r_next head (\<lambda>nextIndex.
    ld (\<lambda>s. qhead s array) (\<lambda>headIndex2.
    if headIndex = headIndex2 then
      if indexHead = indexTail then
        if nextIndex AND NEXTTAILBIT n = NEXTTAILBIT n then Ret None
        else
          cas (\<lambda>s. qtail s array = tailIndex)
              (\<lambda>s. s\<lparr>qtail := (qtail s)(array := bump_tail n tailIndex nextIndex)\<rparr>) (\<lambda>_.
          try_queue fuel n retry tid array)
      else
        cas (\<lambda>s. qhead s array = headIndex)
            (\<lambda>s. s\<lparr>qhead := (qhead s)(array := bump_head n headIndex nextIndex),
                  plog := (plog s)(array := plog s array @ [Taken tid (unat indexHead)])\<rparr>) (\<lambda>ok.
        if ok then Ret (Some head)
        else if retry then try_queue fuel n retry tid array
        else Ret None)
    else try_queue fuel n retry tid array))))"

fun take_arrays :: "nat \<Rightarrow> nat \<Rightarrow> nat \<Rightarrow> nat \<Rightarrow> nat \<Rightarrow> ((32 word, 'z) pool_scheme, loc option) prog" where
  "take_arrays fuel n arrNum tid 0 = Ret None"
| "take_arrays fuel n arrNum tid (Suc i) =
    fetch recordTake (\<lambda>s. s\<lparr>recordTake := recordTake s + 1\<rparr>) (\<lambda>take.
    bind (try_queue fuel n True tid (unat (take AND ARRBITR arrNum))) (\<lambda>r.
    case r of Some head \<Rightarrow> Ret (Some head) | None \<Rightarrow> take_arrays fuel n arrNum tid i))"

fun scan_arrays :: "nat \<Rightarrow> nat \<Rightarrow> bool \<Rightarrow> nat \<Rightarrow> nat list \<Rightarrow> (('c, 'z) pool_scheme, loc option) prog" where
  "scan_arrays fuel n retry tid [] = Ret None"
| "scan_arrays fuel n retry tid (array # arrays) =
    bind (try_queue fuel n retry tid array) (\<lambda>r.
    case r of Some head \<Rightarrow> Ret (Some head) | None \<Rightarrow> scan_arrays fuel n retry tid arrays)"

definition get_Record :: "nat \<Rightarrow> nat \<Rightarrow> nat \<Rightarrow> nat \<Rightarrow> ((32 word, 'z) pool_scheme, loc option) prog" where
  "get_Record fuel n arrNum tid =
    bind (take_arrays fuel n arrNum tid (2 ^ arrNum)) (\<lambda>r.
    case r of Some head \<Rightarrow> Ret (Some head) | None \<Rightarrow> scan_arrays fuel n True tid [0..<2 ^ arrNum])"

text \<open>The loop of \<open>return_Record\<close>: link the record behind the last one, then move \<open>tail\<close>.\<close>

definition set_next :: "loc \<Rightarrow> 32 word \<Rightarrow> ('c, 'z) pool_scheme \<Rightarrow> ('c, 'z) pool_scheme" where
  "set_next l w = rset l (\<lambda>r. r\<lparr>r_next := w\<rparr>)"

fun link_queue :: "nat \<Rightarrow> nat \<Rightarrow> nat \<Rightarrow> nat \<Rightarrow> 32 word \<Rightarrow> (('c, 'z) pool_scheme, unit) prog" where
  "link_queue 0 n tid array self = Spin"
| "link_queue (Suc fuel) n tid array self =
    ld (\<lambda>s. qtail s array) (\<lambda>tailIndex.
    let tail = (array, unat (tailIndex AND IDXBIT n)) in
    rd r_next tail (\<lambda>nextIndex.
    ld (\<lambda>s. qtail s array) (\<lambda>tailIndex2.
    if tailIndex = tailIndex2 then
      if nextIndex AND NEXTTAILBIT n = NEXTTAILBIT n then
        casp (\<lambda>s. map_option r_next (rget tail s)) nextIndex
             (\<lambda>s. set_next tail (bump_next n nextIndex self)
               (s\<lparr>plog := (plog s)(array := plog s array @ [Returned tid (unat (self AND IDXBIT n))])\<rparr>)) (\<lambda>ok.
        if ok then
          cas (\<lambda>s. qtail s array = tailIndex)
              (\<lambda>s. s\<lparr>qtail := (qtail s)(array := bump_tail n tailIndex self)\<rparr>) (\<lambda>_. Ret ())
        else link_queue fuel n tid array self)
      else
        cas (\<lambda>s. qtail s array = tailIndex)
            (\<lambda>s. s\<lparr>qtail := (qtail s)(array := bump_tail n tailIndex nextIndex)\<rparr>) (\<lambda>_.
        link_queue fuel n tid array self)
    else link_queue fuel n tid array self)))"

definition return_Record :: "nat \<Rightarrow> nat \<Rightarrow> nat \<Rightarrow> nat \<Rightarrow> loc \<Rightarrow> (('c, 'z) pool_scheme, unit) prog" where
  "return_Record fuel n arrNum tid l =
    rd r_next l (\<lambda>local.
    wr (\<lambda>r. r\<lparr>r_next := local OR NEXTTAILBIT n\<rparr>) l (
    rd r_self l (\<lambda>self.
    let array = unat (signed_drop_bit n self AND ARRBITR arrNum) in
    link_queue fuel n tid array self)))"

text \<open>The arrays as \<open>INIT_RESOURCE\<close> fills them, before any thread runs, and the count
  \<open>UNINIT_RESOURCE\<close> makes of the free records of an array.\<close>

definition init_rec :: "nat \<Rightarrow> nat \<Rightarrow> nat \<Rightarrow> rec" where
  "init_rec n i j =
    (if j < 2 ^ n - 1
     then \<lparr>r_next = of_nat (j + 1), r_self = push_bit n (of_nat i) OR of_nat j,
           r_nextRecord = (if j mod 2 = 1 then 39415 else 39419), r_pointer = 0\<rparr>
     else \<lparr>r_next = NEXTTAILBIT n, r_self = push_bit n (of_nat i) OR (push_bit n 1 - 1),
           r_nextRecord = 39415, r_pointer = 0\<rparr>)"

definition init_pool :: "nat \<Rightarrow> nat \<Rightarrow> ('c, 'z) pool_scheme \<Rightarrow> ('c, 'z) pool_scheme" where
  "init_pool n m s = s\<lparr>
     Records := (\<lambda>i. if i < 2 ^ m then Some (init_rec n i) else Records s i),
     qhead := (\<lambda>i. if i < 2 ^ m then 0 else qhead s i),
     qtail := (\<lambda>i. if i < 2 ^ m then push_bit n 1 - 1 else qtail s i)\<rparr>"

fun count_queue :: "nat \<Rightarrow> nat \<Rightarrow> (nat \<Rightarrow> rec) \<Rightarrow> nat \<Rightarrow> nat \<Rightarrow> nat option" where
  "count_queue 0 n arr f t = None"
| "count_queue (Suc fuel) n arr f t =
    (if f \<noteq> t then map_option Suc (count_queue fuel n arr (unat (r_next (arr f) AND IDXBIT n)) t)
     else Some 1)"

fun count_free :: "nat \<Rightarrow> ('c, 'z) pool_scheme \<Rightarrow> nat list \<Rightarrow> nat option" where
  "count_free n s [] = Some 0"
| "count_free n s (i # is) = (case Records s i of None \<Rightarrow> None | Some arr \<Rightarrow>
    (case count_queue (2 ^ n) n arr (unat (qhead s i AND IDXBIT n)) (unat (qtail s i AND IDXBIT n)) of
       None \<Rightarrow> None | Some c \<Rightarrow> map_option ((+) c) (count_free n s is)))"


section \<open>Bits of the words\<close>

named_theorems pool_words "the index and tail bits of the three kinds of words"

lemma masks [pool_words]:
  "IDXBIT n = mask n" "NEXTTAILBIT n = push_bit n 1"
  "TAILVERSIONBIT n = NOT (mask n)" "HEADVERSIONBIT n = NOT (mask n)"
  "NEXTVERSIONBIT n = NOT (mask (Suc n))"
proof -
  show m: "IDXBIT n = mask n" by (simp add: IDXBIT_def mask_eq_exp_minus_1 push_bit_eq_mult)
  show "NEXTTAILBIT n = push_bit n 1" by (simp add: NEXTTAILBIT_def push_bit_eq_mult)
  show "TAILVERSIONBIT n = NOT (mask n)" "HEADVERSIONBIT n = NOT (mask n)"
    using m by (simp_all add: TAILVERSIONBIT_def HEADVERSIONBIT_def IDXBIT_def)
  have "push_bit n (1 :: 32 word) OR mask n = mask (Suc n)"
    by (rule bit_word_eqI) (auto simp: bit_simps)
  then show "NEXTVERSIONBIT n = NOT (mask (Suc n))"
    using m by (simp add: NEXTVERSIONBIT_def IDXBIT_def push_bit_eq_mult)
qed

abbreviation ofs :: "nat \<Rightarrow> 32 word \<Rightarrow> nat" where
  "ofs n w \<equiv> unat (w AND IDXBIT n)"

abbreviation is_last :: "nat \<Rightarrow> 32 word \<Rightarrow> bool" where
  "is_last n w \<equiv> w AND NEXTTAILBIT n = NEXTTAILBIT n"

lemma is_last_bit: "n < 32 \<Longrightarrow> is_last n w \<longleftrightarrow> bit w n"
proof
  assume "n < 32" "is_last n w"
  moreover have "bit (NEXTTAILBIT n) n" using \<open>n < 32\<close> by (simp add: masks bit_simps)
  ultimately have "bit (w AND NEXTTAILBIT n) n" by simp
  then show "bit w n" by (simp only: bit_and_iff)
next
  assume "bit w n"
  then show "is_last n w" by (intro bit_word_eqI) (auto simp: masks bit_simps)
qed

lemma bump_idx [simp]:
  "bump_tail n v w AND IDXBIT n = w AND IDXBIT n"
  "bump_head n v w AND IDXBIT n = w AND IDXBIT n"
  "bump_next n v w AND IDXBIT n = w AND IDXBIT n"
  by (rule bit_word_eqI; auto simp: bump_tail_def bump_head_def bump_next_def masks bit_simps)+

lemma bump_next_not_last [simp]: "n < 31 \<Longrightarrow> \<not> is_last n (bump_next n v w)"
  by (subst is_last_bit) (auto simp: bump_next_def masks bit_simps)

lemma or_last [simp]:
  "(w OR NEXTTAILBIT n) AND IDXBIT n = w AND IDXBIT n" "n < 32 \<Longrightarrow> is_last n (w OR NEXTTAILBIT n)"
  by (rule bit_word_eqI; auto simp: masks bit_simps) (subst is_last_bit; auto simp: masks bit_simps)

lemma ofs_lt: "n < 32 \<Longrightarrow> ofs n w < 2 ^ n"
proof -
  assume "n < 32"
  have "ofs n w = take_bit n (unat w)" by (simp add: masks take_bit_eq_mask [symmetric] unsigned_take_bit_eq)
  then show ?thesis by simp
qed

text \<open>The \<open>self\<close> word of a record and what the code reads off it.\<close>

definition self_word :: "nat \<Rightarrow> loc \<Rightarrow> 32 word" where
  "self_word n l = push_bit n (of_nat (fst l)) OR of_nat (snd l)"

lemma self_ofs: "n < 32 \<Longrightarrow> snd l < 2 ^ n \<Longrightarrow> ofs n (self_word n l) = snd l"
proof -
  assume n: "n < 32" "snd l < 2 ^ n"
  have b: "bit (snd l) k \<Longrightarrow> k < n" for k using n(2) by (rule bit_nat_less)
  have "self_word n l AND IDXBIT n = of_nat (snd l)" using n
    by (intro bit_word_eqI) (auto simp: self_word_def masks bit_simps dest: b)
  moreover have "snd l < 2 ^ 32" using n
    by (meson less_le_trans less_imp_le_nat one_le_numeral power_increasing)
  ultimately show ?thesis by (simp add: unsigned_of_nat take_bit_nat_eq_self)
qed

lemma self_array:
  assumes "n + m < 32" and "fst l < 2 ^ m" and "snd l < 2 ^ n"
  shows "unat (signed_drop_bit n (self_word n l) AND ARRBITR m) = fst l"
    and "unat (drop_bit n (self_word n l AND ARRBIT n m)) = fst l"
proof -
  have m: "ARRBITR m = mask m" "ARRBIT n m = push_bit n (mask m)"
    by (simp_all add: ARRBITR_def ARRBIT_def mask_eq_exp_minus_1 push_bit_eq_mult)
  have b: "bit (fst l) k \<Longrightarrow> k < m" "bit (snd l) k \<Longrightarrow> k < n" for k
    using assms by (auto intro: bit_nat_less)
  have 1: "signed_drop_bit n (self_word n l) AND ARRBITR m = of_nat (fst l)"
    unfolding m using assms(1)
    by (intro bit_word_eqI) (auto simp: self_word_def bit_simps min_def dest: b)
  have 2: "drop_bit n (self_word n l AND ARRBIT n m) = of_nat (fst l)"
    unfolding m using assms(1)
    by (intro bit_word_eqI) (auto simp: self_word_def bit_simps dest: b)
  have "fst l < 2 ^ 32" using assms
    by (meson less_le_trans add_leE less_imp_le_nat one_le_numeral power_increasing)
  then show "unat (signed_drop_bit n (self_word n l) AND ARRBITR m) = fst l"
    "unat (drop_bit n (self_word n l AND ARRBIT n m)) = fst l"
    unfolding 1 2 by (simp_all add: unsigned_of_nat take_bit_nat_eq_self)
qed

lemma idx_self:
  "n + m < 32 \<Longrightarrow> fst l < 2 ^ m \<Longrightarrow> snd l < 2 ^ n \<Longrightarrow> idx_Record n m (self_word n l) = l"
  by (simp only: idx_Record_def self_array self_ofs prod_eq_iff fst_conv snd_conv)


section \<open>The free records of an array as a list\<close>

fun linked :: "nat \<Rightarrow> (nat \<Rightarrow> rec) \<Rightarrow> nat list \<Rightarrow> bool" where
  "linked n arr [] = False"
| "linked n arr [x] = is_last n (r_next (arr x))"
| "linked n arr (x # y # q) =
    (\<not> is_last n (r_next (arr x)) \<and> ofs n (r_next (arr x)) = y \<and> linked n arr (y # q))"

text \<open>\<open>tail\<close> is at the last element or, when \<open>lag\<close> allows for a thread that stalled between linking
  a record and moving \<open>tail\<close>, at the one before.\<close>

definition free_queue :: "bool \<Rightarrow> nat \<Rightarrow> nat \<Rightarrow> nat list \<Rightarrow> ('c, 'z) pool_scheme \<Rightarrow> bool" where
  "free_queue lag n a q s \<longleftrightarrow> (\<exists>arr. Records s a = Some arr \<and> linked n arr q \<and> distinct q \<and>
     (\<forall>x \<in> set q. x < 2 ^ n) \<and> ofs n (qhead s a) = hd q \<and>
     (ofs n (qtail s a) = last q \<or> lag \<and> 2 \<le> length q \<and> ofs n (qtail s a) = last (butlast q)) \<and>
     (\<forall>j < 2 ^ n. r_self (arr j) = self_word n (a, j)))"

definition pool_ok :: "bool \<Rightarrow> nat \<Rightarrow> nat \<Rightarrow> (nat \<Rightarrow> nat list) \<Rightarrow> ('c, 'z) pool_scheme \<Rightarrow> bool" where
  "pool_ok lag n M Q s \<longleftrightarrow> (\<forall>a < M. free_queue lag n a (Q a) s)"

lemma linked_nonempty: "linked n arr q \<Longrightarrow> q \<noteq> []"
  by (cases q) auto

lemma linked_cong: "(\<And>x. x \<in> set q \<Longrightarrow> r_next (arr x) = r_next (arr' x)) \<Longrightarrow> linked n arr q = linked n arr' q"
  by (induction n arr q rule: linked.induct) auto

lemma linked_last: "linked n arr q \<Longrightarrow> is_last n (r_next (arr (last q)))"
  by (induction n arr q rule: linked.induct) auto

lemma linked_middle:
  "linked n arr q \<Longrightarrow> 2 \<le> length q \<Longrightarrow>
    \<not> is_last n (r_next (arr (last (butlast q)))) \<and> ofs n (r_next (arr (last (butlast q)))) = last q"
  by (induction n arr q rule: linked.induct) (auto simp: neq_Nil_conv)

lemma linked_snoc:
  assumes "linked n arr q" and "distinct q" and "x \<notin> set q" and "is_last n (r_next (arr x))"
    and "\<not> is_last n w" and "ofs n w = x"
  shows "linked n (arr(last q := (arr (last q))\<lparr>r_next := w\<rparr>)) (q @ [x])"
  using assms by (induction n arr q rule: linked.induct) auto

lemma distinct_last_butlast: "distinct q \<Longrightarrow> 2 \<le> length q \<Longrightarrow> last (butlast q) \<noteq> last q \<and> last (butlast q) \<in> set q"
  by (cases q rule: rev_cases; cases "butlast q" rule: rev_cases) (auto simp: butlast_append)

section \<open>Taking and returning, alone\<close>

lemma try_queue_empty:
  "free_queue lag n a [x] s \<Longrightarrow> run (try_queue (Suc fuel) n retry tid a) s = Done None s"
  by (auto simp: free_queue_def rd_def rget_def Let_def word_unat_eq_iff)

text \<open>What neither operation touches: the state outside the pool, and every field of every record
  but \<open>next\<close>.\<close>

definition pool_rest :: "('c :: zero, 'z) pool_scheme \<Rightarrow> ('c :: zero, 'z) pool_scheme" where
  "pool_rest s = s\<lparr>Records := Map.empty, recordTake := 0, qhead := \<lambda>_. 0, qtail := \<lambda>_. 0, plog := \<lambda>_. []\<rparr>"

definition pool_frame :: "('c :: zero, 'z) pool_scheme \<Rightarrow> ('c :: zero, 'z) pool_scheme \<Rightarrow> bool" where
  "pool_frame s t \<longleftrightarrow> pool_rest t = pool_rest s \<and>
     (\<forall>l. map_option (\<lambda>r. r\<lparr>r_next := 0\<rparr>) (rget l t) = map_option (\<lambda>r. r\<lparr>r_next := 0\<rparr>) (rget l s))"

lemma pool_rest_simps [simp]:
  "pool_rest (s\<lparr>Records := x\<rparr>) = pool_rest s" "pool_rest (s\<lparr>recordTake := y\<rparr>) = pool_rest s"
  "pool_rest (s\<lparr>qhead := h\<rparr>) = pool_rest s" "pool_rest (s\<lparr>qtail := w\<rparr>) = pool_rest s"
  "pool_rest (s\<lparr>plog := lg\<rparr>) = pool_rest s"
  by (simp_all add: pool_rest_def)

lemma pool_rest_more: "pool_rest s = pool_rest t \<Longrightarrow> pool.more s = pool.more t"
  by (drule arg_cong [where f = pool.more]) (simp add: pool_rest_def)

lemma pool_frame_refl [simp]: "pool_frame s s"
  by (simp add: pool_frame_def)

lemma pool_frameI: "pool_rest t = pool_rest s \<Longrightarrow> Records t = Records s \<Longrightarrow> pool_frame s t"
  by (simp add: pool_frame_def rget_def)

lemma pool_frame_trans: "pool_frame s t \<Longrightarrow> pool_frame t u \<Longrightarrow> pool_frame s u"
  by (simp add: pool_frame_def)

lemma pool_frame_rget: "pool_frame s t \<Longrightarrow> rget l s = Some r \<Longrightarrow> \<exists>w. rget l t = Some (r\<lparr>r_next := w\<rparr>)"
proof -
  assume "pool_frame s t" "rget l s = Some r"
  then obtain r' where r': "rget l t = Some r'" "r'\<lparr>r_next := 0\<rparr> = r\<lparr>r_next := 0\<rparr>"
    unfolding pool_frame_def by (metis (no_types, lifting) map_option_eq_Some)
  then have "r' = r\<lparr>r_next := r_next r'\<rparr>" by (cases r, cases r') simp
  with r' show ?thesis by metis
qed

text \<open>Only array \<open>a\<close> changes, and not the counter.\<close>

definition others :: "nat \<Rightarrow> ('c, 'z) pool_scheme \<Rightarrow> ('c, 'z) pool_scheme \<Rightarrow> bool" where
  "others a s t \<longleftrightarrow> recordTake t = recordTake s \<and> (\<forall>b. b \<noteq> a \<longrightarrow> Records t b = Records s b \<and> qhead t b = qhead s b \<and> qtail t b = qtail s b)"

lemma others_trans: "others a s t \<Longrightarrow> others a t u \<Longrightarrow> others a s u"
  by (simp add: others_def)

lemma others_free: "others a s t \<Longrightarrow> b \<noteq> a \<Longrightarrow> free_queue lag n b q t = free_queue lag n b q s"
  by (simp add: others_def free_queue_def)

text \<open>The first iteration may have to help a stalled thread by moving \<open>tail\<close>.\<close>

lemma try_queue_take_direct:
  assumes "free_queue lag n a (x # y # q) s" and "ofs n (qtail s a) \<noteq> x"
  shows "\<exists>h. run (try_queue (Suc fuel) n retry tid a) s
    = Done (Some (a, x)) (s\<lparr>qhead := (qhead s)(a := h), plog := (plog s)(a := plog s a @ [Taken tid x])\<rparr>)
    \<and> ofs n h = y"
proof -
  from assms obtain arr where arr: "Records s a = Some arr" "ofs n (r_next (arr x)) = y" "ofs n (qhead s a) = x"
    by (auto simp: free_queue_def)
  with assms(2) show ?thesis
    by (intro exI [of _ "bump_head n (qhead s a) (r_next (arr x))"]) (auto simp: rd_def rget_def Let_def word_unat_eq_iff)
qed

lemma try_queue_help:
  assumes "free_queue lag n a (x # y # q) s" and "ofs n (qtail s a) = x"
  shows "\<exists>w. run (try_queue (Suc fuel) n retry tid a) s
    = run (try_queue fuel n retry tid a) (s\<lparr>qtail := (qtail s)(a := w)\<rparr>) \<and> ofs n w = y \<and> q = []"
proof -
  from assms obtain arr where arr: "Records s a = Some arr" "ofs n (r_next (arr x)) = y" "ofs n (qhead s a) = x"
      "\<not> is_last n (r_next (arr x))" "distinct (x # y # q)"
      "x = last (x # y # q) \<or> x = last (butlast (x # y # q))"
    by (auto simp: free_queue_def)
  have "q = []" using arr(5,6) by (cases q rule: rev_cases) (auto simp: butlast_append split: if_splits)
  with arr assms(2) show ?thesis
    by (intro exI [of _ "bump_tail n (qtail s a) (r_next (arr x))"])
      (auto simp: rd_def rget_def Let_def word_unat_eq_iff)
qed

lemma free_queue_tl:
  assumes "free_queue lag n a (x # y # q) s" and "ofs n h = y" and "ofs n tw = ofs n (qtail s a) \<or> ofs n tw = last (y # q)"
    and "ofs n tw \<noteq> x"
  shows "free_queue lag n a (y # q) (s\<lparr>recordTake := rt, qhead := (qhead s)(a := h), qtail := (qtail s)(a := tw), plog := lg\<rparr>)"
  using assms by (cases q) (auto simp: free_queue_def split: if_splits)

lemma try_queue_take:
  assumes "free_queue lag n a (x # y # q) s"
  shows "\<exists>t. run (try_queue (Suc (Suc fuel)) n retry tid a) s = Done (Some (a, x)) t \<and> pool_frame s t \<and>
    free_queue lag n a (y # q) t \<and> others a s t"
proof (cases "ofs n (qtail s a) = x")
  case False
  obtain h where h: "run (try_queue (Suc (Suc fuel)) n retry tid a) s = Done (Some (a, x))
      (s\<lparr>qhead := (qhead s)(a := h), plog := (plog s)(a := plog s a @ [Taken tid x])\<rparr>)" "ofs n h = y"
    using try_queue_take_direct [OF assms False] by blast
  let ?t = "s\<lparr>qhead := (qhead s)(a := h), plog := (plog s)(a := plog s a @ [Taken tid x])\<rparr>"
  have "free_queue lag n a (y # q) ?t"
    using free_queue_tl [OF assms h(2), where tw = "qtail s a" and rt = "recordTake s" and lg = "plog ?t"] False by simp
  moreover have "pool_frame s ?t" by (rule pool_frameI) simp_all
  ultimately show ?thesis using h by (auto simp: others_def)
next
  case True
  obtain w where w: "run (try_queue (Suc (Suc fuel)) n retry tid a) s
      = run (try_queue (Suc fuel) n retry tid a) (s\<lparr>qtail := (qtail s)(a := w)\<rparr>)" "ofs n w = y" "q = []"
    using try_queue_help [OF assms True] by blast
  let ?s = "s\<lparr>qtail := (qtail s)(a := w)\<rparr>"
  have fq: "free_queue lag n a (x # y # q) ?s" "y \<noteq> x" using assms w(2,3) by (auto simp: free_queue_def)
  obtain h where h: "run (try_queue (Suc fuel) n retry tid a) ?s = Done (Some (a, x))
      (?s\<lparr>qhead := (qhead ?s)(a := h), plog := (plog ?s)(a := plog ?s a @ [Taken tid x])\<rparr>)" "ofs n h = y"
    using try_queue_take_direct [OF fq(1), of fuel retry tid] w fq(2) by auto
  let ?t = "?s\<lparr>qhead := (qhead ?s)(a := h), plog := (plog ?s)(a := plog ?s a @ [Taken tid x])\<rparr>"
  have "free_queue lag n a (y # q) ?t"
    using free_queue_tl [OF fq(1) h(2), where tw = w and rt = "recordTake s" and lg = "plog ?t"] fq(2) w(2,3)
    by (simp add: free_queue_def)
  moreover have "pool_frame s ?t" by (rule pool_frameI) simp_all
  ultimately show ?thesis using h w by (auto simp: others_def)
qed

lemma free_queue_update [simp]:
  "free_queue lag n a q (s\<lparr>recordTake := rt\<rparr>) = free_queue lag n a q s"
  by (simp add: free_queue_def)

definition took :: "nat \<Rightarrow> (nat \<Rightarrow> nat list) \<Rightarrow> loc \<Rightarrow> (nat \<Rightarrow> nat list) \<Rightarrow> bool" where
  "took M Q l Q' \<longleftrightarrow> fst l < M \<and> 2 \<le> length (Q (fst l)) \<and> snd l = hd (Q (fst l)) \<and>
     Q' = Q(fst l := List.tl (Q (fst l)))"

lemma try_queue_solo:
  assumes "pool_ok lag n M Q s" and "a < M"
  shows "(length (Q a) = 1 \<and> run (try_queue (Suc (Suc fuel)) n retry tid a) s = Done None s) \<or>
    (\<exists>t Q'. run (try_queue (Suc (Suc fuel)) n retry tid a) s = Done (Some (a, hd (Q a))) t \<and> took M Q (a, hd (Q a)) Q' \<and>
      pool_ok lag n M Q' t \<and> pool_frame s t \<and> others a s t)"
proof -
  have fq: "free_queue lag n a (Q a) s" using assms by (simp add: pool_ok_def)
  then consider x where "Q a = [x]" | x y q where "Q a = x # y # q"
    by (metis free_queue_def linked_nonempty list.exhaust)
  then show ?thesis
  proof cases
    case 1
    with fq try_queue_empty [of lag n a x s "Suc fuel" retry tid] show ?thesis by simp
  next
    case 2
    from try_queue_take [OF fq [unfolded 2], of fuel retry tid] obtain t where
      t: "run (try_queue (Suc (Suc fuel)) n retry tid a) s = Done (Some (a, x)) t" "pool_frame s t"
        "free_queue lag n a (y # q) t" "others a s t" by blast
    with assms have "pool_ok lag n M (Q(a := y # q)) t" by (auto simp: pool_ok_def others_free)
    with t 2 assms show ?thesis
      by (intro disjI2 exI [of _ t] exI [of _ "Q(a := y # q)"]) (simp add: took_def)
  qed
qed

lemma take_arrays_solo:
  assumes "pool_ok lag n (2 ^ m) Q s" and "2 \<le> fuel" and "m < 32"
  shows "\<exists>r t. run (take_arrays fuel n m tid i) s = Done r t \<and> pool_frame s t \<and>
    (case r of None \<Rightarrow> pool_ok lag n (2 ^ m) Q t | Some l \<Rightarrow> (\<exists>Q'. took (2 ^ m) Q l Q' \<and> pool_ok lag n (2 ^ m) Q' t))"
  using assms(1)
proof (induction i arbitrary: s)
  case 0
  then show ?case by simp
next
  case (Suc i)
  obtain f where f: "fuel = Suc (Suc f)" using assms(2) by (metis Suc_le_D numeral_2_eq_2 Suc_le_mono)
  let ?s = "s\<lparr>recordTake := recordTake s + 1\<rparr>" and ?a = "unat (recordTake s AND ARRBITR m)"
  have a: "?a < 2 ^ m" using ofs_lt [OF assms(3), of "recordTake s"] by (simp add: ARRBITR_def IDXBIT_def)
  have ok: "pool_ok lag n (2 ^ m) Q ?s" using Suc.prems by (simp add: pool_ok_def)
  have fr: "pool_frame s ?s" by (rule pool_frameI) simp_all
  from try_queue_solo [OF ok a, of f True tid] show ?case
    unfolding f [symmetric]
  proof
    assume "length (Q ?a) = 1 \<and> run (try_queue fuel n True tid ?a) ?s = Done None ?s"
    with Suc.IH [OF ok] show ?thesis by (auto intro: pool_frame_trans [OF fr])
  next
    assume "\<exists>t Q'. run (try_queue fuel n True tid ?a) ?s = Done (Some (?a, hd (Q ?a))) t \<and>
      took (2 ^ m) Q (?a, hd (Q ?a)) Q' \<and> pool_ok lag n (2 ^ m) Q' t \<and> pool_frame ?s t \<and> others ?a ?s t"
    then show ?thesis by (force intro: pool_frame_trans [OF fr])
  qed
qed

lemma scan_arrays_solo:
  assumes "pool_ok lag n M Q s" and "2 \<le> fuel" and "set as \<subseteq> {..<M}"
  shows "\<exists>r t. run (scan_arrays fuel n retry tid as) s = Done r t \<and> pool_frame s t \<and>
    (case r of None \<Rightarrow> t = s \<and> (\<forall>a \<in> set as. length (Q a) = 1)
     | Some l \<Rightarrow> (\<exists>Q'. took M Q l Q' \<and> pool_ok lag n M Q' t \<and> others (fst l) s t))"
  using assms(1,3)
proof (induction "as")
  case Nil
  then show ?case by simp
next
  case (Cons a "as")
  obtain f where f: "fuel = Suc (Suc f)" using assms(2) by (metis Suc_le_D numeral_2_eq_2 Suc_le_mono)
  from Cons.prems have a: "a < M" by simp
  from try_queue_solo [OF Cons.prems(1) a, of f retry tid] Cons.IH Cons.prems show ?case
    unfolding f [symmetric] by (fastforce split: option.splits)
qed

lemma get_Record_run:
  assumes "pool_ok lag n (2 ^ m) Q s" and "2 \<le> fuel" and "m < 32"
  shows "\<exists>r t. run (get_Record fuel n m tid) s = Done r t \<and> pool_frame s t \<and>
    (case r of None \<Rightarrow> pool_ok lag n (2 ^ m) Q t \<and> (\<forall>a < 2 ^ m. length (Q a) = 1)
     | Some l \<Rightarrow> (\<exists>Q'. took (2 ^ m) Q l Q' \<and> pool_ok lag n (2 ^ m) Q' t))"
proof -
  from take_arrays_solo [OF assms, of tid "2 ^ m"] obtain r t where
    rt: "run (take_arrays fuel n m tid (2 ^ m)) s = Done r t" "pool_frame s t"
      "case r of None \<Rightarrow> pool_ok lag n (2 ^ m) Q t | Some l \<Rightarrow> (\<exists>Q'. took (2 ^ m) Q l Q' \<and> pool_ok lag n (2 ^ m) Q' t)" by blast
  show ?thesis
  proof (cases r)
    case None
    with rt(3) have ok: "pool_ok lag n (2 ^ m) Q t" by simp
    have "set [0..<2 ^ m] \<subseteq> {..<2 ^ m :: nat}" by auto
    from scan_arrays_solo [OF ok assms(2) this, of True tid] rt None show ?thesis
      by (force simp: get_Record_def split: option.splits intro: pool_frame_trans)
  next
    case (Some l)
    with rt show ?thesis by (auto simp: get_Record_def)
  qed
qed

lemma rget_rset [simp]: "rget l (rset l' f s) = (if l = l' then map_option f (rget l s) else rget l s)"
  by (auto simp: rget_def rset_def prod_eq_iff split: option.splits)

lemma rset_simps [simp]:
  "qhead (rset l f s) = qhead s" "qtail (rset l f s) = qtail s" "recordTake (rset l f s) = recordTake s"
  "plog (rset l f s) = plog s" "pool.more (rset l f s) = pool.more s"
  by (simp_all add: rset_def split: option.split)

lemma pool_rest_rset [simp]: "pool_rest (rset l f s) = pool_rest s"
  by (simp add: rset_def split: option.split)

lemma rset_Records: "Records s (fst l) = Some arr \<Longrightarrow> Records (rset l f s) = (Records s)(fst l \<mapsto> arr(snd l := f (arr (snd l))))"
  by (simp add: rset_def)

lemma pool_frame_set_next: "pool_rest t = pool_rest s \<Longrightarrow> Records t = Records s \<Longrightarrow> pool_frame s (set_next l w t)"
proof -
  assume a: "pool_rest t = pool_rest s" "Records t = Records s"
  have r: "rget k t = rget k s" for k using a by (simp add: rget_def)
  show ?thesis using a by (simp add: pool_frame_def set_next_def r option.map_comp comp_def)
qed

lemma link_queue_direct:
  assumes "free_queue lag n a q s" and "ofs n (qtail s a) = last q" and "x \<notin> set q" and "x < 2 ^ n" and "n < 31"
    and "rget (a, x) s = Some r" and "is_last n (r_next r)" and "ofs n self = x"
  shows "\<exists>t. run (link_queue (Suc fuel) n tid a self) s = Done () t \<and> free_queue lag n a (q @ [x]) t \<and>
    pool_frame s t \<and> others a s t"
proof -
  from assms(1) obtain arr where arr: "Records s a = Some arr" "linked n arr q" "distinct q" "\<forall>x \<in> set q. x < 2 ^ n"
      "ofs n (qhead s a) = hd q" "\<forall>j < 2 ^ n. r_self (arr j) = self_word n (a, j)"
    by (auto simp: free_queue_def)
  have x: "is_last n (r_next (arr x))" using assms(6,7) arr(1) by (simp add: rget_def)
  have q: "q \<noteq> []" using arr(2) by (rule linked_nonempty)
  let ?w = "bump_next n (r_next (arr (last q))) self"
  let ?t = "set_next (a, last q) ?w (s\<lparr>plog := (plog s)(a := plog s a @ [Returned tid x])\<rparr>)"
  let ?u = "?t\<lparr>qtail := (qtail ?t)(a := bump_tail n (qtail s a) self)\<rparr>"
  have 1: "run (link_queue (Suc fuel) n tid a self) s = Done () ?u"
    using linked_last [OF arr(2)] arr(1) assms(2,8) by (simp add: rd_def rget_def Let_def set_next_def)
  have 2: "Records ?u = (Records s)(a \<mapsto> arr(last q := (arr (last q))\<lparr>r_next := ?w\<rparr>))"
    using arr(1) by (simp add: set_next_def rset_Records)
  have 3: "linked n (arr(last q := (arr (last q))\<lparr>r_next := ?w\<rparr>)) (q @ [x])"
    by (rule linked_snoc [OF arr(2,3) assms(3) x]) (use assms(5,8) in simp_all)
  have 4: "free_queue lag n a (q @ [x]) ?u"
    unfolding free_queue_def 2 using 3 arr(3-6) assms(3,4,8) q by (auto simp: set_next_def)
  have 5: "pool_frame s ?u"
    using pool_frame_set_next [of "s\<lparr>plog := (plog s)(a := plog s a @ [Returned tid x])\<rparr>" s "(a, last q)" ?w]
    by (rule pool_frame_trans [where t = ?t]) (auto intro: pool_frameI)
  have 6: "others a s ?u" unfolding others_def 2 by (simp add: set_next_def)
  show ?thesis using 1 4 5 6 by blast
qed

lemma link_queue_help:
  assumes "free_queue lag n a q s" and "ofs n (qtail s a) \<noteq> last q"
  shows "\<exists>w. run (link_queue (Suc fuel) n tid a self) s =
      run (link_queue fuel n tid a self) (s\<lparr>qtail := (qtail s)(a := w)\<rparr>) \<and> ofs n w = last q"
proof -
  from assms obtain arr where arr: "Records s a = Some arr" "linked n arr q"
      "2 \<le> length q" "ofs n (qtail s a) = last (butlast q)"
    by (auto simp: free_queue_def)
  with linked_middle [OF arr(2,3)] show ?thesis
    by (intro exI [of _ "bump_tail n (qtail s a) (r_next (arr (last (butlast q))))"]) (simp add: rd_def rget_def Let_def)
qed

lemma link_queue_solo:
  assumes "free_queue lag n a q s" and "x \<notin> set q" and "x < 2 ^ n" and "n < 31"
    and "rget (a, x) s = Some r" and "is_last n (r_next r)" and "ofs n self = x"
  shows "\<exists>t. run (link_queue (Suc (Suc fuel)) n tid a self) s = Done () t \<and> free_queue lag n a (q @ [x]) t \<and>
    pool_frame s t \<and> others a s t"
proof (cases "ofs n (qtail s a) = last q")
  case True
  show ?thesis by (rule link_queue_direct [OF assms(1) True assms(2-7)])
next
  case False
  then obtain w where w: "run (link_queue (Suc (Suc fuel)) n tid a self) s =
      run (link_queue (Suc fuel) n tid a self) (s\<lparr>qtail := (qtail s)(a := w)\<rparr>)" "ofs n w = last q"
    using link_queue_help [OF assms(1)] by blast
  let ?s = "s\<lparr>qtail := (qtail s)(a := w)\<rparr>"
  have fq: "free_queue lag n a q ?s" using assms(1) w(2) by (auto simp: free_queue_def)
  have "pool_frame s ?s" "others a s ?s"
    by (auto intro: pool_frameI simp: others_def)
  moreover have "\<exists>t. run (link_queue (Suc fuel) n tid a self) ?s = Done () t \<and> free_queue lag n a (q @ [x]) t \<and>
    pool_frame ?s t \<and> others a ?s t"
    by (rule link_queue_direct [OF fq _ assms(2-4) _ assms(6,7)]) (use w(2) assms(5) in \<open>simp_all add: rget_def\<close>)
  ultimately show ?thesis unfolding w(1) by (meson pool_frame_trans others_trans)
qed

lemma return_Record_run:
  assumes "pool_ok lag n M Q s" and "fst l < M" and "M \<le> 2 ^ m" and "snd l < 2 ^ n" and "snd l \<notin> set (Q (fst l))"
    and "n + m < 32" and "n < 31" and "2 \<le> fuel"
  shows "\<exists>t. run (return_Record fuel n m tid l) s = Done () t \<and> pool_frame s t \<and>
    pool_ok lag n M (Q(fst l := Q (fst l) @ [snd l])) t \<and> others (fst l) s t"
proof -
  obtain a x where l: "l = (a, x)" by fastforce
  obtain f where f: "fuel = Suc (Suc f)" using assms(8) by (metis Suc_le_D numeral_2_eq_2 Suc_le_mono)
  have fq: "free_queue lag n a (Q a) s" using assms(1,2) l by (simp add: pool_ok_def)
  then obtain arr where arr: "Records s a = Some arr" "linked n arr (Q a)"
      "\<forall>j < 2 ^ n. r_self (arr j) = self_word n (a, j)" by (auto simp: free_queue_def)
  let ?r = "(arr x)\<lparr>r_next := r_next (arr x) OR NEXTTAILBIT n\<rparr>"
  let ?s = "rset (a, x) (\<lambda>r. r\<lparr>r_next := r_next (arr x) OR NEXTTAILBIT n\<rparr>) s"
  have rec: "Records ?s = (Records s)(a \<mapsto> arr(x := ?r))" using rset_Records [of s "(a, x)"] arr(1) by simp
  have lk: "linked n (arr(x := ?r)) (Q a)" using arr(2) assms(5) l by (subst linked_cong [of _ _ arr]) auto
  have fs: "others a s ?s" unfolding others_def rec by simp
  have fa: "free_queue lag n a (Q a) ?s"
    using fq arr(1) lk unfolding free_queue_def rec by auto
  have am: "a < 2 ^ m" using assms(2,3) l by simp
  have self: "r_self (arr x) = self_word n (a, x)" using arr(3) assms(4) l by simp
  have ar: "unat (signed_drop_bit n (r_self (arr x)) AND ARRBITR m) = a" "ofs n (r_self (arr x)) = x"
    using self_array(1) [OF assms(6), of "(a, x)"] self_ofs [of n "(a, x)"] assms(4-7) am self l by simp_all
  have fr: "pool_frame s ?s"
    using pool_frame_set_next [of s s "(a, x)"] by (simp add: set_next_def)
  obtain t where t: "run (link_queue fuel n tid a (r_self (arr x))) ?s = Done () t"
      "free_queue lag n a (Q a @ [x]) t" "pool_frame ?s t" "others a ?s t"
    using link_queue_solo [OF fa, of x ?r "r_self (arr x)" f tid] assms(4,5,7) l ar(2) arr(1) f
    by (auto simp: rget_def rec)
  have "run (return_Record fuel n m tid l) s = Done () t"
    using t(1) ar(1) arr(1) rec by (simp add: return_Record_def rd_def wr_def rget_def l Let_def)
  moreover have "pool_ok lag n M (Q(a := Q a @ [x])) t"
    using assms(1) t(2) others_free [OF others_trans [OF fs t(4)]] by (auto simp: pool_ok_def)
  ultimately show ?thesis using t(3) fr l others_trans [OF fs t(4)] by (auto intro: pool_frame_trans)
qed

section \<open>Initialisation and the final count\<close>

lemma ofs_of_nat [simp]: "n < 32 \<Longrightarrow> j < 2 ^ n \<Longrightarrow> ofs n (of_nat j) = j"
  using self_ofs [of n "(0, j)"] by (simp add: self_word_def)

lemma not_last_of_nat: "n < 32 \<Longrightarrow> j < 2 ^ n \<Longrightarrow> \<not> is_last n (of_nat j)"
  by (subst is_last_bit) (auto simp: bit_simps dest: bit_nat_less)

lemma word_pred_mask: "push_bit n 1 - 1 = (mask n :: 32 word)"
  by (simp add: mask_eq_exp_minus_1 push_bit_eq_mult)

lemma of_nat_pred_mask: "(of_nat (2 ^ n - 1) :: 32 word) = mask n"
  by (simp add: mask_eq_exp_minus_1 of_nat_diff)

lemma init_rec_self: "j < 2 ^ n \<Longrightarrow> r_self (init_rec n i j) = self_word n (i, j)"
proof (cases "j < 2 ^ n - 1")
  case False
  assume "j < 2 ^ n"
  with False have "j = 2 ^ n - 1" by simp
  then show ?thesis by (simp add: init_rec_def self_word_def word_pred_mask of_nat_pred_mask)
qed (simp add: init_rec_def self_word_def)

lemma linked_upt: "j < 2 ^ n \<Longrightarrow> n < 32 \<Longrightarrow> linked n (init_rec n i) [j..<2 ^ n]"
proof (induction "2 ^ n - 1 - j" arbitrary: j)
  case 0
  then have "j = 2 ^ n - 1" by simp
  then have "[j..<2 ^ n] = [2 ^ n - 1]" by (metis "0.prems"(1) Suc_pred' less_nat_zero_code not_gr_zero upt_rec upt_conv_Nil order.refl power_eq_0_iff zero_neq_numeral)
  then show ?case by (simp add: init_rec_def)
next
  case (Suc k)
  then have j: "Suc j < 2 ^ n" "linked n (init_rec n i) [Suc j..<2 ^ n]" by simp_all
  then have "[j..<2 ^ n] = j # Suc j # [Suc (Suc j)..<2 ^ n]" "[Suc j..<2 ^ n] = Suc j # [Suc (Suc j)..<2 ^ n]"
    by (simp_all add: upt_conv_Cons)
  moreover have "ofs n (1 + of_nat j) = Suc j" "\<not> is_last n (1 + of_nat j)"
    using ofs_of_nat [of n "Suc j"] not_last_of_nat [of n "Suc j"] j(1) Suc.prems(2) by simp_all
  ultimately show ?case using j by (simp add: init_rec_def less_diff_conv)
qed

lemma ofs_pred [simp]: "n < 32 \<Longrightarrow> ofs n (2 ^ n - 1) = 2 ^ n - 1"
  using ofs_of_nat [of n "2 ^ n - 1"] by (simp add: of_nat_diff)

lemma init_pool_lists: "n < 32 \<Longrightarrow> pool_ok lag n (2 ^ m) (\<lambda>_. [0..<2 ^ n]) (init_pool n m s)"
proof -
  assume n: "n < 32"
  then show ?thesis using linked_upt [of 0 n]
    by (auto simp: pool_ok_def free_queue_def init_pool_def init_rec_self hd_upt last_upt)
qed

lemma count_queue_length:
  "linked n arr q \<Longrightarrow> distinct q \<Longrightarrow> length q \<le> fuel \<Longrightarrow> count_queue fuel n arr (hd q) (last q) = Some (length q)"
proof (induction n arr q arbitrary: fuel rule: linked.induct)
  case (2 n arr x)
  then show ?case by (cases fuel) auto
next
  case (3 n arr x y q)
  then obtain f where "fuel = Suc f" by (cases fuel) auto
  with 3 show ?case by auto
qed simp

lemma length_le_distinct: "distinct q \<Longrightarrow> \<forall>x \<in> set q. x < b \<Longrightarrow> length q \<le> (b :: nat)"
  using card_mono [of "{..<b}" "set q"] by (auto simp: distinct_card subset_iff)

lemma count_free_sum:
  assumes "\<And>a. a \<in> set as \<Longrightarrow> free_queue False n a (Q a) s"
  shows "count_free n s as = Some (\<Sum>a\<leftarrow>as. length (Q a))"
  using assms
proof (induction "as")
  case (Cons a "as")
  from Cons.prems [of a] obtain arr where arr: "Records s a = Some arr" "linked n arr (Q a)" "distinct (Q a)"
      "\<forall>x \<in> set (Q a). x < 2 ^ n" "ofs n (qhead s a) = hd (Q a)" "ofs n (qtail s a) = last (Q a)"
    by (auto simp: free_queue_def)
  with count_queue_length [OF arr(2,3) length_le_distinct [OF arr(3,4)]] Cons show ?case by simp
qed simp

lemma count_free_run:
  assumes "pool_ok False n (2 ^ m) Q s"
  shows "count_free n s [0..<2 ^ m] = Some (\<Sum>a\<leftarrow>[0..<2 ^ m]. length (Q a))"
  by (rule count_free_sum) (use assms in \<open>auto simp: pool_ok_def\<close>)

section \<open>What the pool promises\<close>

text \<open>C6: \<open>get_Record\<close> run alone always returns. When it returns \<open>NULL\<close> every array is down to its
  last record; otherwise the record is the oldest free one of its array, it leaves that array's
  queue and no other, the rest of the pool stays well formed, and no field but \<open>next\<close> of any
  record is written, also when \<open>tail\<close> lags because another thread stalled inside
  \<open>return_Record\<close>. Two turns of the inner loop are enough.\<close>

theorem get_Record_ok:
  assumes "pool_ok lag n (2 ^ m) Q s" and "2 \<le> fuel" and "m < 32"
  shows "\<exists>r t. run (get_Record fuel n m tid) s = Done r t \<and> pool_frame s t \<and>
    (case r of None \<Rightarrow> pool_ok lag n (2 ^ m) Q t \<and> (\<forall>a < 2 ^ m. length (Q a) = 1)
     | Some l \<Rightarrow> (\<exists>Q'. took (2 ^ m) Q l Q' \<and> pool_ok lag n (2 ^ m) Q' t))"
  using assms by (rule get_Record_run)

definition empty_pool :: "32 word pool" where
  "empty_pool = \<lparr>Records = Map.empty, qhead = \<lambda>_. 0, qtail = \<lambda>_. 0, recordTake = 0, plog = \<lambda>_. []\<rparr>"

theorem get_Record_ok_witness:
  "\<exists>r t. run (get_Record 2 2 1 0) (init_pool 2 1 empty_pool) = Done r t \<and>
    pool_frame (init_pool 2 1 empty_pool) t"
  using get_Record_ok [OF init_pool_lists [where lag = False and n = 2 and m = 1 and s = empty_pool], where fuel = 2 and tid = 0] by auto

text \<open>C10: \<open>return_Record\<close> run alone on a record that is not free appends it to the queue of the array
  its \<open>self\<close> word names, and touches no other queue and no field but \<open>next\<close>.\<close>

theorem return_Record_ok:
  assumes "pool_ok lag n (2 ^ m) Q s" and "fst l < 2 ^ m" and "snd l < 2 ^ n" and "snd l \<notin> set (Q (fst l))"
    and "n + m < 32" and "n < 31" and "2 \<le> fuel"
  shows "\<exists>t. run (return_Record fuel n m tid l) s = Done () t \<and> pool_frame s t \<and>
    pool_ok lag n (2 ^ m) (Q(fst l := Q (fst l) @ [snd l])) t"
  using return_Record_run [OF assms(1,2) order.refl assms(3-)] by blast

theorem return_Record_ok_witness:
  "\<exists>l s t. run (get_Record 2 2 1 0) (init_pool 2 1 empty_pool) = Done (Some l) s \<and>
     run (return_Record 2 2 1 0 l) s = Done () t \<and> pool_frame s t"
proof -
  have "\<not> length [0..<2 ^ 2] = 1" by simp
  with get_Record_run [OF init_pool_lists [where lag = False and n = 2 and m = 1 and s = empty_pool], of 2 0] obtain l s Q' where
    s: "run (get_Record 2 2 1 0) (init_pool 2 1 empty_pool) = Done (Some l) s" "took (2 ^ 1) (\<lambda>_. [0..<2 ^ 2]) l Q'"
      "pool_ok False 2 (2 ^ 1) Q' s"
    by (fastforce split: option.splits)
  have "fst l < 2 ^ 1" "snd l < 2 ^ 2" "snd l \<notin> set (Q' (fst l))"
    using s(2) by (auto simp: took_def upt_rec)
  from return_Record_ok [OF s(3) this, of 2 0] s(1) show ?thesis by auto
qed

text \<open>\<open>INIT_RESOURCE\<close> establishes the invariant with every record of every array free, in index
  order.\<close>

theorem init_pool_ok: "n < 32 \<Longrightarrow> pool_ok lag n (2 ^ m) (\<lambda>_. [0..<2 ^ n]) (init_pool n m s)"
  by (rule init_pool_lists)

theorem init_pool_ok_witness: "pool_ok False 16 (2 ^ 6) (\<lambda>_. [0..<2 ^ 16]) (init_pool 16 6 empty_pool)"
  by (rule init_pool_ok) simp

text \<open>C35: A record that was taken and is given back goes to the end of its queue: after
  \<open>get_Record\<close> and \<open>return_Record\<close> the array's queue is rotated by one and nothing is lost.\<close>

theorem get_return_rotates:
  assumes "pool_ok lag n (2 ^ m) Q s" and "2 \<le> fuel" and "n + m < 32" and "n < 31" and "a < 2 ^ m" and "2 \<le> length (Q a)"
  shows "\<exists>b t. b < 2 ^ m \<and>
    run (bind (get_Record fuel n m tid) (\<lambda>r. case r of None \<Rightarrow> Crash | Some l \<Rightarrow> return_Record fuel n m tid l)) s
      = Done () t \<and> pool_ok lag n (2 ^ m) (Q(b := rotate1 (Q b))) t"
proof -
  from get_Record_run [OF assms(1,2), of tid] assms(3,5,6) obtain l t Q' where
    t: "run (get_Record fuel n m tid) s = Done (Some l) t" "took (2 ^ m) Q l Q'" "pool_ok lag n (2 ^ m) Q' t"
    by (fastforce split: option.splits)
  obtain x q where q: "Q (fst l) = x # q" "snd l = x" "fst l < 2 ^ m" "Q' = Q(fst l := q)"
    using t(2) by (cases "Q (fst l)") (auto simp: took_def)
  have "free_queue lag n (fst l) (x # q) s" using assms(1) q by (auto simp: pool_ok_def)
  then have "x \<notin> set q" "x < 2 ^ n" by (auto simp: free_queue_def)
  with return_Record_run [OF t(3) _ order.refl, of l fuel tid] q assms(2-4) t(1) show ?thesis
    by (intro exI [of _ "fst l"]) auto
qed

theorem get_return_rotates_witness:
  "\<exists>b t. b < 2 ^ 1 \<and>
    run (bind (get_Record 2 2 1 0) (\<lambda>r. case r of None \<Rightarrow> Crash | Some l \<Rightarrow> return_Record 2 2 1 0 l))
      (init_pool 2 1 empty_pool)
      = Done () t \<and> pool_ok False 2 (2 ^ 1) ((\<lambda>_. [0..<2 ^ 2])(b := rotate1 [0..<2 ^ 2])) t"
  using get_return_rotates [OF init_pool_lists [where lag = False and n = 2 and m = 1 and s = empty_pool], where fuel = 2 and tid = 0 and a = 0] by simp

text \<open>The count \<open>UNINIT_RESOURCE\<close> compares with the number of records ever made is the number
  of free records, when no thread is stalled inside \<open>return_Record\<close> (\<open>tail\<close> at the last one).\<close>

theorem count_free_ok:
  assumes "pool_ok False n (2 ^ m) Q s"
  shows "count_free n s [0..<2 ^ m] = Some (\<Sum>a\<leftarrow>[0..<2 ^ m]. length (Q a))"
  using assms by (rule count_free_run)

theorem count_free_ok_witness: "count_free 2 (init_pool 2 1 empty_pool) [0..<2 ^ 1] = Some 8"
proof -
  have "count_free 2 (init_pool 2 1 empty_pool) [0..<2 ^ 1] = Some (\<Sum>a\<leftarrow>[0..<2 ^ 1]. length [0..<2 ^ 2])"
    by (rule count_free_ok [OF init_pool_lists]) simp
  then show ?thesis by (simp add: sum_list_triv)
qed

end
