(* ===== verification/Layout.thy ===== *)
theory Layout
  imports RecordPool
begin

text \<open>
  The word \<open>nextRecord\<close> of a list record packs four fields, from the top: a reference
  count (\<open>refNum\<close> bits, 0 means logically deleted), the version of the record itself
  (\<open>NODEBITS\<close>, changed when the record is reused), the version of the link (\<open>NEXTBITS\<close>,
  changed when the successor changes) and the place of the successor (array number and index).
  The widths are the parameters of the macro \<^verbatim>\<open>DEFINE_RESOURCE\<close> of \<^verbatim>\<open>mayijin/lockfreePro.c\<close>;
  the constants and the three functions that compute new words are translated as they stand
  and then shown to do on the fields what their names say.

  The word is a \<open>long\<close>, but an \<open>int\<close> in the oldest files. Both are 64-bit words here: an \<open>int\<close> is
  kept as its 32 bits below 32 zeros, and \<open>width\<close> is the width of the type. What is computed from
  such a word is cut to \<open>width\<close> bits by the masks of the code, which do not reach beyond
  them, and by \<open>sub_REFONE\<close>, the subtraction of \<open>__sync_sub_and_fetch\<close>.
\<close>

unbundle bit_operations_syntax

section \<open>The constants\<close>

record layout =
  width :: nat
  refNum :: nat
  idxNum :: nat
  arrNum :: nat

definition ARRIDXBITL :: "layout \<Rightarrow> 64 word" where
  "ARRIDXBITL L = scast (((push_bit (idxNum L) 1 - 1) OR push_bit (idxNum L) (push_bit (arrNum L) 1 - 1)) :: 32 word)"

definition REFCBITSI :: "layout \<Rightarrow> 32 word" where
  "REFCBITSI L = push_bit (refNum L) 1 - 1"

definition RECBW :: "layout \<Rightarrow> nat" where
  "RECBW L = width L - refNum L"

definition REFCBITS :: "layout \<Rightarrow> 64 word" where
  "REFCBITS L = take_bit (width L) (push_bit (width L - refNum L) (- 1))"

definition REFONE :: "layout \<Rightarrow> 64 word" where
  "REFONE L = push_bit (width L - refNum L) 1"

definition DELETED :: "64 word" where
  "DELETED = 0"

definition NODEB :: "layout \<Rightarrow> nat" where
  "NODEB L = (width L - refNum L - arrNum L - idxNum L) div 2"

definition NODEBITS :: "layout \<Rightarrow> 64 word" where
  "NODEBITS L = (push_bit (width L - refNum L) 1 - 1)
     XOR signed_drop_bit (NODEB L) (push_bit (width L - refNum L) 1 - 1)"

definition NODEONE :: "layout \<Rightarrow> 64 word" where
  "NODEONE L = ((NODEBITS L - 1) AND NODEBITS L) XOR NODEBITS L"

definition NEXTBITS :: "layout \<Rightarrow> 64 word" where
  "NEXTBITS L = (NODEONE L - 1) XOR signed_drop_bit (NODEB L) (NODEONE L - 1)"

definition NEXTONE :: "layout \<Rightarrow> 64 word" where
  "NEXTONE L = ((NEXTBITS L - 1) AND NEXTBITS L) XOR NEXTBITS L"

definition NEXTTT :: "layout \<Rightarrow> 64 word" where
  "NEXTTT L = NEXTBITS L OR
     scast ((push_bit (idxNum L) (push_bit (arrNum L) 1 - 1) OR (push_bit (idxNum L) 1 - 1)) :: 32 word)"

text \<open>The new word of a record: its link changed, its count plus one, and the word of a record
  put to use. \<open>self\<close> is the \<open>self\<close> word of the successor.\<close>

definition nxtAddrV :: "layout \<Rightarrow> 64 word \<Rightarrow> 32 word \<Rightarrow> 64 word" where
  "nxtAddrV L old self = (old AND REFCBITS L) OR (old AND NODEBITS L) OR
     ((old + NEXTONE L) AND NEXTBITS L) OR (scast self AND ARRIDXBITL L)"

definition plusRecord :: "layout \<Rightarrow> 64 word \<Rightarrow> 64 word" where
  "plusRecord L old = ((old + REFONE L) AND REFCBITS L) OR (old AND NODEBITS L) OR
     (old AND NEXTBITS L) OR (old AND ARRIDXBITL L)"

definition newNext :: "layout \<Rightarrow> 64 word \<Rightarrow> 32 word \<Rightarrow> 64 word" where
  "newNext L old self = REFONE L OR ((old + NODEONE L) AND NODEBITS L) OR
     (old AND NEXTBITS L) OR (scast self AND ARRIDXBITL L)"

definition sub_REFONE :: "layout \<Rightarrow> 64 word \<Rightarrow> 64 word" where
  "sub_REFONE L old = take_bit (width L) (old - REFONE L)"

text \<open>The count as the operations return it, \<open>(w >> RECBW) & REFCBITS_\<close> converted to \<open>int\<close>, and
  the record a word links to, \<open>idx_Record(w)\<close>.\<close>

definition count_of :: "layout \<Rightarrow> 64 word \<Rightarrow> int" where
  "count_of L w = sint (ucast (signed_drop_bit (RECBW L) w AND scast (REFCBITSI L)) :: 32 word)"

definition loc_of :: "layout \<Rightarrow> 64 word \<Rightarrow> loc" where
  "loc_of L w = idx_Record (idxNum L) (arrNum L) (ucast w)"

section \<open>The fields\<close>

definition layout_ok :: "layout \<Rightarrow> bool" where
  "layout_ok L \<longleftrightarrow> 0 < refNum L \<and> refNum L < 32 \<and> idxNum L + arrNum L < 32 \<and>
     0 < idxNum L \<and> idxNum L < 31 \<and> refNum L + arrNum L + idxNum L + 2 \<le> width L \<and> (width L = 32 \<or> width L = 64)"

lemma layout_pos:
  assumes "layout_ok L"
  shows "0 < NODEB L" "arrNum L + idxNum L + 2 * NODEB L \<le> RECBW L" "RECBW L < 64" "0 < RECBW L" "RECBW L + refNum L = width L" "width L \<le> 64"
  using assms by (auto simp: layout_ok_def NODEB_def RECBW_def)

lemma lowest_bit:
  assumes "0 < w" and "a + w \<le> 64"
  shows "((push_bit a (mask w) - 1) AND push_bit a (mask w)) XOR push_bit a (mask w) = (push_bit a 1 :: 64 word)"
proof -
  obtain v where v: "w = Suc v" using assms(1) by (cases w) auto
  have 1: "push_bit a (mask w) = push_bit (Suc a) (mask v) OR (push_bit a 1 :: 64 word)"
    unfolding v by (rule bit_word_eqI) (auto simp: bit_simps simp del: push_bit_Suc)
  also have "\<dots> = push_bit (Suc a) (mask v) + push_bit a 1"
    by (rule disjunctive_add [symmetric]) (auto simp: bit_simps simp del: push_bit_Suc)
  finally have "push_bit a (mask w) - 1 = push_bit (Suc a) (mask v) + (mask a :: 64 word)"
    by (simp add: mask_eq_exp_minus_1 push_bit_eq_mult)
  also have "\<dots> = push_bit (Suc a) (mask v) OR mask a"
    by (rule disjunctive_add) (auto simp: bit_simps simp del: push_bit_Suc)
  finally have 2: "push_bit a (mask w) - 1 = push_bit (Suc a) (mask v) OR (mask a :: 64 word)" .
  show ?thesis unfolding 2 unfolding v
    by (rule bit_word_eqI) (auto simp: bit_simps simp del: push_bit_Suc)
qed

lemma high_part: "w \<le> p \<Longrightarrow> p < 64 \<Longrightarrow> mask p XOR signed_drop_bit w (mask p) = (push_bit (p - w) (mask w) :: 64 word)"
  by (rule bit_word_eqI) (auto simp: bit_simps min_def)

named_theorems layout_bits "the masks as bit ranges"

lemma fields [layout_bits]:
  assumes "layout_ok L"
  shows "NODEBITS L = push_bit (RECBW L - NODEB L) (mask (NODEB L))"
    and "NODEONE L = push_bit (RECBW L - NODEB L) 1"
    and "NEXTBITS L = push_bit (RECBW L - 2 * NODEB L) (mask (NODEB L))"
    and "NEXTONE L = push_bit (RECBW L - 2 * NODEB L) 1"
proof -
  note p = layout_pos [OF assms]
  have m: "push_bit k 1 - 1 = (mask k :: 64 word)" for k
    by (simp add: mask_eq_exp_minus_1 push_bit_eq_mult)
  show 1: "NODEBITS L = push_bit (RECBW L - NODEB L) (mask (NODEB L))"
    unfolding NODEBITS_def RECBW_def [symmetric] m using p by (intro high_part) auto
  show 2: "NODEONE L = push_bit (RECBW L - NODEB L) 1"
    unfolding NODEONE_def 1 using p by (intro lowest_bit) auto
  have "RECBW L - NODEB L - NODEB L = RECBW L - 2 * NODEB L" by simp
  then show 3: "NEXTBITS L = push_bit (RECBW L - 2 * NODEB L) (mask (NODEB L))"
    unfolding NEXTBITS_def 2 m using p high_part [of "NODEB L" "RECBW L - NODEB L"] by auto
  show "NEXTONE L = push_bit (RECBW L - 2 * NODEB L) 1"
    unfolding NEXTONE_def 3 using p by (intro lowest_bit) auto
qed

lemma more_fields [layout_bits]:
  assumes "layout_ok L"
  shows "REFCBITS L = push_bit (RECBW L) (mask (refNum L))" and "REFONE L = push_bit (RECBW L) 1"
    and "ARRIDXBITL L = mask (arrNum L + idxNum L)"
    and "NEXTTT L = NEXTBITS L OR ARRIDXBITL L"
proof -
  note p = layout_pos [OF assms]
  have "i < width L \<longleftrightarrow> i - RECBW L < refNum L" if "RECBW L \<le> i" for i using p(5) that by arith
  then show "REFCBITS L = push_bit (RECBW L) (mask (refNum L))"
    unfolding REFCBITS_def RECBW_def [symmetric] using p by (intro bit_word_eqI) (auto simp: bit_simps)
  show "REFONE L = push_bit (RECBW L) 1" by (simp add: REFONE_def RECBW_def)
  have "(push_bit (idxNum L) 1 - 1) OR push_bit (idxNum L) (push_bit (arrNum L) 1 - 1) = (mask (arrNum L + idxNum L) :: 32 word)"
    unfolding word_pred_mask by (rule bit_word_eqI) (auto simp: bit_simps)
  moreover have "scast (mask (arrNum L + idxNum L) :: 32 word) = (mask (arrNum L + idxNum L) :: 64 word)"
    using assms by (intro bit_word_eqI) (auto simp: bit_simps layout_ok_def min_def)
  ultimately show "ARRIDXBITL L = mask (arrNum L + idxNum L)" by (simp only: ARRIDXBITL_def)
  show "NEXTTT L = NEXTBITS L OR ARRIDXBITL L"
    by (simp only: NEXTTT_def ARRIDXBITL_def or.commute)
qed

definition refc :: "layout \<Rightarrow> 64 word \<Rightarrow> nat" where
  "refc L w = unat (take_bit (refNum L) (drop_bit (RECBW L) w))"

lemma refc_div: "refc L w = unat w div 2 ^ RECBW L mod 2 ^ refNum L"
proof -
  have "take_bit 64 (unat w) = unat w" using unsigned_less [of w, where ?'a = nat] by (simp add: take_bit_nat_eq_self)
  then have "unat (drop_bit (RECBW L) w) = drop_bit (RECBW L) (unat w)"
    using unsigned_drop_bit_eq [of "RECBW L" w, where ?'a = nat] by simp
  then have "refc L w = take_bit (refNum L) (drop_bit (RECBW L) (unat w))" by (simp only: refc_def unsigned_take_bit_eq)
  then show ?thesis by (simp add: drop_bit_eq_div take_bit_eq_mod)
qed

lemma two_64: "layout_ok L \<Longrightarrow> (2 :: nat) ^ RECBW L * 2 ^ refNum L dvd 2 ^ 64"
  by (subst power_add [symmetric]) (simp only: layout_pos le_imp_power_dvd)

lemma refc_lt: "layout_ok L \<Longrightarrow> refc L w < 2 ^ refNum L"
  by (simp add: refc_div)

lemma refc_cong:
  assumes "\<And>i. RECBW L \<le> i \<Longrightarrow> i < RECBW L + refNum L \<Longrightarrow> i < 64 \<Longrightarrow> bit v i = bit w i"
  shows "refc L v = refc L w"
proof -
  have "i < refNum L \<Longrightarrow> bit v (RECBW L + i) = bit w (RECBW L + i)" for i
    using assms [of "RECBW L + i"] bit_imp_le_length [of v "RECBW L + i"] bit_imp_le_length [of w "RECBW L + i"]
    by fastforce
  then show ?thesis
    unfolding refc_def by (intro arg_cong [where f = unat] bit_word_eqI) (auto simp: bit_simps)
qed

lemma deleted_iff: "layout_ok L \<Longrightarrow> w AND REFCBITS L = DELETED \<longleftrightarrow> refc L w = 0"
proof -
  assume ok: "layout_ok L"
  have "w AND REFCBITS L = push_bit (RECBW L) (take_bit (refNum L) (drop_bit (RECBW L) w))"
    unfolding layout_bits(5) [OF ok] by (rule bit_word_eqI) (auto simp: bit_simps)
  moreover have "drop_bit (RECBW L) (push_bit (RECBW L) (take_bit (refNum L) (drop_bit (RECBW L) w))) = take_bit (refNum L) (drop_bit (RECBW L) w)"
    using layout_pos [OF ok] by (intro bit_word_eqI) (auto simp: bit_simps dest: bit_imp_le_length)
  ultimately show ?thesis by (metis DELETED_def drop_bit_of_0 push_bit_of_0 refc_def unsigned_0 unsigned_eq_0_iff)
qed

lemma unat_push_one: "k < 64 \<Longrightarrow> unat (push_bit k 1 :: 64 word) = 2 ^ k"
proof -
  assume k: "k < 64"
  have "push_bit k 1 = (of_nat (2 ^ k) :: 64 word)" by (simp add: push_bit_eq_mult)
  moreover have "(2 :: nat) ^ k < 2 ^ 64" using k by (intro power_strict_increasing) auto
  then have "unat (of_nat (2 ^ k) :: 64 word) = 2 ^ k"
    by (simp only: unsigned_of_nat take_bit_nat_eq_self len_num0 len_bit0 len_num1) (simp add: k)
  ultimately show ?thesis by (simp only:)
qed

lemma unat_REFONE: "layout_ok L \<Longrightarrow> unat (REFONE L) = 2 ^ RECBW L"
  by (simp only: layout_bits(6) unat_push_one layout_pos)

lemma div_mod_field: "B * N dvd M \<Longrightarrow> x mod M div B mod N = x div B mod (N :: nat)"
proof (cases "B = 0")
  case False
  have "y mod (B * N) div B = y div B mod N" for y
    using False by (simp add: mod_mult2_eq)
  moreover assume "B * N dvd M"
  then have "x mod M mod (B * N) = x mod (B * N)" by (rule mod_mod_cancel)
  ultimately show ?thesis by metis
qed simp

lemma refc_plus_one:
  assumes "layout_ok L"
  shows "refc L (w + REFONE L) = (if refc L w < 2 ^ refNum L - 1 then refc L w + 1 else 0)"
proof -
  let ?B = "2 ^ RECBW L :: nat" and ?N = "2 ^ refNum L :: nat"
  have "unat (w + REFONE L) = (unat w + ?B) mod 2 ^ 64"
    using unat_REFONE [OF assms] by (simp add: unat_word_ariths)
  then have "refc L (w + REFONE L) = (unat w + ?B) div ?B mod ?N"
    by (simp only: refc_div div_mod_field [OF two_64 [OF assms]])
  also have "(unat w + ?B) div ?B = Suc (unat w div ?B)" by (subst div_add_self2) simp_all
  finally have "refc L (w + REFONE L) = (if Suc (refc L w) = ?N then 0 else Suc (refc L w))"
    by (simp add: mod_Suc refc_div)
  moreover have "Suc (refc L w) \<le> ?N" using refc_lt [OF assms, of w] by simp
  ultimately show ?thesis by (cases "Suc (refc L w) = ?N") auto
qed

lemma refc_minus_one:
  assumes "layout_ok L" and "0 < refc L w"
  shows "refc L (w - REFONE L) = refc L w - 1"
proof -
  let ?B = "2 ^ RECBW L :: nat" and ?q = "unat w div 2 ^ RECBW L"
  have q: "0 < ?q" using assms(2) unfolding refc_div by (metis gr0I mod_0 less_irrefl)
  then have "?B \<le> unat w" by (metis div_less less_numeral_extra(3) not_less)
  then have "unat (w - REFONE L) = unat w - ?B"
    using unat_REFONE [OF assms(1)] by (subst unat_sub) (auto simp: word_le_nat_alt)
  moreover obtain c where "unat w = ?B + c" using \<open>?B \<le> unat w\<close> le_Suc_ex by blast
  then have "(unat w - ?B) div ?B = ?q - 1"
    by (simp only: diff_add_inverse) (subst div_add_self1, simp_all)
  moreover have "(?q - 1) mod 2 ^ refNum L = ?q mod 2 ^ refNum L - 1"
    using q assms(2) unfolding refc_div by (cases ?q) (auto simp: mod_Suc split: if_splits)
  ultimately show ?thesis by (simp only: refc_div)
qed

section \<open>What the functions do on the fields\<close>

lemma loc_of_cong:
  assumes "layout_ok L" and "\<And>i. i < arrNum L + idxNum L \<Longrightarrow> bit v i = bit w i"
  shows "loc_of L v = loc_of L w"
proof -
  have a: "ucast v AND ARRBIT (idxNum L) (arrNum L) = (ucast w AND ARRBIT (idxNum L) (arrNum L) :: 32 word)"
    unfolding ARRBIT_def word_pred_mask by (rule bit_word_eqI) (auto simp: bit_simps assms(2))
  have b: "ucast v AND IDXBIT (idxNum L) = (ucast w AND IDXBIT (idxNum L) :: 32 word)"
    unfolding masks by (rule bit_word_eqI) (auto simp: bit_simps assms(2))
  show ?thesis by (simp only: loc_of_def idx_Record_def a b)
qed

lemma bit_scast32: "i < 32 \<Longrightarrow> bit (scast (x :: 32 word) :: 64 word) i = bit x i"
  by (cases "i = 31") (auto simp: bit_simps min_def)

lemma loc_of_scast: "layout_ok L \<Longrightarrow> loc_of L (scast self) = idx_Record (idxNum L) (arrNum L) self"
proof -
  assume ok: "layout_ok L"
  have "(ucast (scast self :: 64 word) :: 32 word) = self"
    by (rule bit_word_eqI) (simp add: bit_scast32 bit_ucast_iff)
  then show ?thesis by (simp only: loc_of_def)
qed

definition is_loc :: "layout \<Rightarrow> loc \<Rightarrow> bool" where
  "is_loc L l \<longleftrightarrow> fst l < 2 ^ arrNum L \<and> snd l < 2 ^ idxNum L"

lemma loc_of_self: "layout_ok L \<Longrightarrow> is_loc L l \<Longrightarrow> loc_of L (scast (self_word (idxNum L) l)) = l"
  by (simp add: loc_of_scast idx_self is_loc_def layout_ok_def)

lemma loc_of_inj:
  assumes "layout_ok L" and "loc_of L v = loc_of L w"
  shows "v AND ARRIDXBITL L = w AND ARRIDXBITL L"
proof -
  have "bit v i = bit w i" if i: "i < arrNum L + idxNum L" for i
  proof (cases "i < idxNum L")
    case True
    from assms(2) have "ucast v AND IDXBIT (idxNum L) = (ucast w AND IDXBIT (idxNum L) :: 32 word)"
      unfolding loc_of_def idx_Record_def by (simp only: prod.inject word_unat_eq_iff)
    then have "bit (ucast v AND IDXBIT (idxNum L) :: 32 word) i = bit (ucast w AND IDXBIT (idxNum L) :: 32 word) i"
      by simp
    with True assms(1) show ?thesis by (simp add: masks bit_simps layout_ok_def)
  next
    case False
    from assms(2) have "drop_bit (idxNum L) (ucast v AND ARRBIT (idxNum L) (arrNum L))
        = (drop_bit (idxNum L) (ucast w AND ARRBIT (idxNum L) (arrNum L)) :: 32 word)"
      unfolding loc_of_def idx_Record_def by (simp only: prod.inject word_unat_eq_iff)
    then have "bit (drop_bit (idxNum L) (ucast v AND ARRBIT (idxNum L) (arrNum L)) :: 32 word) (i - idxNum L)
        = bit (drop_bit (idxNum L) (ucast w AND ARRBIT (idxNum L) (arrNum L)) :: 32 word) (i - idxNum L)"
      by (simp only:)
    moreover have "i - idxNum L < 32" "i - idxNum L < arrNum L" using False i assms(1) by (auto simp: layout_ok_def)
    ultimately show ?thesis using False i assms(1) unfolding ARRBIT_def word_pred_mask
      by (simp add: bit_simps layout_ok_def)
  qed
  then show ?thesis unfolding layout_bits(7) [OF assms(1)] by (intro bit_word_eqI) (auto simp: bit_simps)
qed

lemma loc_of_eq_iff:
  assumes "layout_ok L" and "is_loc L l"
  shows "v AND ARRIDXBITL L = scast (self_word (idxNum L) l) AND ARRIDXBITL L \<longleftrightarrow> loc_of L v = l"
proof
  assume "v AND ARRIDXBITL L = scast (self_word (idxNum L) l) AND ARRIDXBITL L"
  then have "bit (v AND mask (arrNum L + idxNum L)) i = bit (scast (self_word (idxNum L) l) AND mask (arrNum L + idxNum L) :: 64 word) i" for i
    by (simp only: layout_bits(7) [OF assms(1)])
  moreover have "bit (mask (arrNum L + idxNum L) :: 64 word) i" if "i < arrNum L + idxNum L" for i
    using that assms(1) by (auto simp: bit_simps layout_ok_def)
  ultimately have "loc_of L v = loc_of L (scast (self_word (idxNum L) l))"
    by (intro loc_of_cong [OF assms(1)]) (metis bit_and_iff)
  then show "loc_of L v = l" by (simp only: loc_of_self [OF assms])
next
  assume "loc_of L v = l"
  then show "v AND ARRIDXBITL L = scast (self_word (idxNum L) l) AND ARRIDXBITL L"
    by (intro loc_of_inj [OF assms(1)]) (simp only: loc_of_self [OF assms])
qed

text \<open>A new link leaves the count and the record's version, and points to the new successor.\<close>

lemma nxtAddrV_fields:
  assumes "layout_ok L"
  shows "refc L (nxtAddrV L old self) = refc L old"
    and "nxtAddrV L old self AND NODEBITS L = old AND NODEBITS L"
    and "loc_of L (nxtAddrV L old self) = idx_Record (idxNum L) (arrNum L) self"
proof -
  note p = layout_pos [OF assms] and b = layout_bits [OF assms]
  show "refc L (nxtAddrV L old self) = refc L old"
    unfolding nxtAddrV_def b using p by (intro refc_cong) (auto simp: bit_simps)
  show "nxtAddrV L old self AND NODEBITS L = old AND NODEBITS L"
    unfolding nxtAddrV_def b using p by (intro bit_word_eqI) (auto simp: bit_simps)
  have "loc_of L (nxtAddrV L old self) = loc_of L (scast self)"
    unfolding nxtAddrV_def b using p by (intro loc_of_cong [OF assms]) (auto simp: bit_simps)
  then show "loc_of L (nxtAddrV L old self) = idx_Record (idxNum L) (arrNum L) self"
    by (simp only: loc_of_scast [OF assms])
qed

text \<open>Counting up wraps from the largest count to \<open>DELETED\<close>; nothing else changes.\<close>

lemma plusRecord_fields:
  assumes "layout_ok L"
  shows "refc L (plusRecord L old) = (if refc L old < 2 ^ refNum L - 1 then refc L old + 1 else 0)"
    and "plusRecord L old AND NODEBITS L = old AND NODEBITS L"
    and "plusRecord L old AND NEXTTT L = old AND NEXTTT L"
    and "loc_of L (plusRecord L old) = loc_of L old"
proof -
  note p = layout_pos [OF assms] and b = layout_bits [OF assms]
  have "refc L (plusRecord L old) = refc L (old + REFONE L)"
    unfolding plusRecord_def b using p by (intro refc_cong) (auto simp: bit_simps)
  then show "refc L (plusRecord L old) = (if refc L old < 2 ^ refNum L - 1 then refc L old + 1 else 0)"
    by (simp only: refc_plus_one [OF assms])
  show "plusRecord L old AND NODEBITS L = old AND NODEBITS L"
    "plusRecord L old AND NEXTTT L = old AND NEXTTT L"
    unfolding plusRecord_def b using p by (intro bit_word_eqI; auto simp: bit_simps)+
  show "loc_of L (plusRecord L old) = loc_of L old"
    unfolding plusRecord_def b using p by (intro loc_of_cong [OF assms]) (auto simp: bit_simps)
qed

text \<open>The word of a record put to use counts one and links to the successor.\<close>

lemma newNext_fields:
  assumes "layout_ok L"
  shows "refc L (newNext L old self) = 1"
    and "newNext L old self AND NODEBITS L = (old + NODEONE L) AND NODEBITS L"
    and "loc_of L (newNext L old self) = idx_Record (idxNum L) (arrNum L) self"
proof -
  note p = layout_pos [OF assms] and b = layout_bits [OF assms]
  have "refc L (newNext L old self) = refc L (REFONE L)"
    unfolding newNext_def b using p by (intro refc_cong) (auto simp: bit_simps)
  also have "\<dots> = 1" using assms by (simp add: refc_div unat_REFONE [OF assms] layout_ok_def)
  finally show "refc L (newNext L old self) = 1" .
  show "newNext L old self AND NODEBITS L = (old + NODEONE L) AND NODEBITS L"
    unfolding newNext_def b using p by (intro bit_word_eqI) (auto simp: bit_simps)
  have "loc_of L (newNext L old self) = loc_of L (scast self)"
    unfolding newNext_def b using p by (intro loc_of_cong [OF assms]) (auto simp: bit_simps)
  then show "loc_of L (newNext L old self) = idx_Record (idxNum L) (arrNum L) self"
    by (simp only: loc_of_scast [OF assms])
qed

text \<open>\<open>__sync_sub_and_fetch\<close> of \<open>REFONE\<close> counts down and keeps the three lower fields.\<close>

lemma sub_REFONE_low:
  assumes "layout_ok L" and "i < RECBW L"
  shows "bit (sub_REFONE L w) i = bit w i"
proof -
  have B: "uint (REFONE L) = 2 ^ RECBW L"
    using unat_REFONE [OF assms(1)] by (metis of_nat_numeral of_nat_power uint_nat)
  have "(2 :: int) ^ RECBW L dvd 2 ^ 64"
    using layout_pos [OF assms(1)] by (intro le_imp_power_dvd) simp
  then have "uint (w - REFONE L) mod 2 ^ RECBW L = (uint w - 2 ^ RECBW L) mod 2 ^ RECBW L"
    using B by (simp add: uint_word_ariths mod_mod_cancel)
  then have "take_bit (RECBW L) (uint (w - REFONE L)) = take_bit (RECBW L) (uint w)"
    unfolding take_bit_eq_mod by (metis minus_mod_self2)
  then have "bit (take_bit (RECBW L) (uint (w - REFONE L))) i = bit (take_bit (RECBW L) (uint w)) i" by (simp only:)
  then have "bit (w - REFONE L) i = bit w i" using assms(2) by (simp add: bit_take_bit_iff bit_unsigned_iff)
  then show ?thesis using assms(2) layout_pos(5) [OF assms(1)] by (simp add: sub_REFONE_def bit_take_bit_iff)
qed

lemma sub_REFONE_fields:
  assumes "layout_ok L"
  shows "sub_REFONE L w AND NODEBITS L = w AND NODEBITS L"
    and "sub_REFONE L w AND NEXTTT L = w AND NEXTTT L"
    and "loc_of L (sub_REFONE L w) = loc_of L w"
    and "0 < refc L w \<Longrightarrow> refc L (sub_REFONE L w) = refc L w - 1"
proof -
  note p = layout_pos [OF assms] and b = layout_bits(1,3,7,8) [OF assms]
  show "sub_REFONE L w AND NODEBITS L = w AND NODEBITS L" "sub_REFONE L w AND NEXTTT L = w AND NEXTTT L"
    unfolding b using p sub_REFONE_low [OF assms] by (intro bit_word_eqI; auto simp: bit_simps)+
  show "loc_of L (sub_REFONE L w) = loc_of L w"
    using p by (intro loc_of_cong [OF assms] sub_REFONE_low [OF assms]) auto
  have "refc L (sub_REFONE L w) = refc L (w - REFONE L)"
    using p(5) by (intro refc_cong) (simp add: sub_REFONE_def bit_take_bit_iff)
  then show "0 < refc L w \<Longrightarrow> refc L (sub_REFONE L w) = refc L w - 1" by (simp only: refc_minus_one [OF assms])
qed

lemma count_of_refc: "layout_ok L \<Longrightarrow> count_of L w = int (refc L w)"
proof -
  assume ok: "layout_ok L"
  let ?c = "take_bit (refNum L) (drop_bit (RECBW L) w)"
  have 1: "signed_drop_bit (RECBW L) w AND scast (REFCBITSI L) = ?c"
    using ok layout_pos [OF ok] unfolding REFCBITSI_def word_pred_mask
    by (intro bit_word_eqI) (auto simp: bit_simps layout_ok_def min_def dest: bit_imp_le_length)
  have "refc L w < 2 ^ 31"
    using refc_lt [OF ok, of w] power_increasing [of "refNum L" 31 "2 :: nat"] ok by (simp add: layout_ok_def)
  then have "int (unat ?c) < int (2 ^ 31)" unfolding refc_def of_nat_less_iff .
  then have "uint ?c < 2 ^ 31" by (simp only: uint_nat of_nat_power of_nat_numeral)
  moreover from this have "signed_take_bit 31 (uint ?c) = uint ?c"
    by (intro signed_take_bit_int_eq_self) (auto intro: order_trans [OF _ uint_ge_0])
  ultimately have "sint (ucast ?c :: 32 word) = uint ?c"
    by (simp add: sint_uint unsigned_ucast_eq take_bit_int_eq_self)
  then show ?thesis unfolding count_of_def 1 by (simp add: refc_def)
qed

section \<open>The layouts in use\<close>

definition layout_pro :: layout where
  "layout_pro = \<lparr>width = 64, refNum = 16, idxNum = 16, arrNum = 6\<rparr>"

definition layout_map :: layout where
  "layout_map = \<lparr>width = 64, refNum = 16, idxNum = 16, arrNum = 4\<rparr>"

lemma layout_instances [simp]: "layout_ok layout_pro" "layout_ok layout_map"
  by (simp_all add: layout_ok_def layout_pro_def layout_map_def)



text \<open>\<open>plusRecord\<close> does not check for the largest count: at \<open>2 ^ refNum - 1\<close> the new count is 0, the
  value that marks a deleted record.\<close>

theorem plusRecord_wraps:
  assumes "layout_ok L" and "refc L w = 2 ^ refNum L - 1"
  shows "plusRecord L w AND REFCBITS L = DELETED"
  using assms by (simp add: deleted_iff plusRecord_fields)

theorem plusRecord_wraps_witness:
  "plusRecord layout_pro (REFCBITS layout_pro) AND REFCBITS layout_pro = DELETED"
proof -
  have "drop_bit 48 (REFCBITS layout_pro) = mask 16"
    unfolding layout_bits(5) [OF layout_instances(1)] by (rule bit_word_eqI) (auto simp: bit_simps layout_pro_def RECBW_def)
  then have "refc layout_pro (REFCBITS layout_pro) = 2 ^ refNum layout_pro - 1"
    by (simp add: refc_def layout_pro_def RECBW_def mask_eq_exp_minus_1)
  from plusRecord_wraps [OF layout_instances(1) this] show ?thesis .
qed

end
