(* ===== verification/RecordList.thy ===== *)
theory RecordList
  imports Layout
begin

text \<open>
  The sorted lock-free list with reference counts: \<open>psly_handle_records\<close> of
  \<^verbatim>\<open>mayijin/lockfreePro.c\<close>. Each key of the list is a record; its \<open>nextRecord\<close> word carries
  the count, and count 0 marks it deleted. \<open>RECORD\<close> counts a key up (inserting it with count
  one), \<open>REMOVE\<close> counts it down (and unlinks it at zero), \<open>SEARCH\<close> returns the count.

  The loop is written over an environment: the list, the operation, the pool operations it
  calls, how it restarts when \<open>prev\<close> has been changed under it, and what it notes when it
  advances. The two files that share this loop differ only in these. The \<open>goto KeepPrev\<close> and
  \<open>continue\<close> of the C code are calls of \<open>kp\<close>, the loop itself.
\<close>

unbundle bit_operations_syntax

section \<open>Local variables and environment\<close>

datatype flag = RECORD | SEARCH | REMOVE

record locals =
  v_my :: "loc option"
  v_localN :: "64 word"
  v_removed :: bool
  v_prev :: loc
  v_prevNext :: "64 word"
  v_curr :: loc

record 's env =
  e_layout :: layout
  e_head :: loc
  e_tail :: loc
  e_pointer :: "64 word"
  e_flag :: flag
  e_get :: "('s, loc option) prog"
  e_return :: "loc \<Rightarrow> ('s, unit) prog"
  e_restart :: "locals \<Rightarrow> (locals \<Rightarrow> ('s, int) prog) \<Rightarrow> ('s, int) prog"
  e_note :: "locals \<Rightarrow> ('s, int) prog \<Rightarrow> ('s, int) prog"

section \<open>The loop\<close>

text \<open>The tests on a word read again: the record was reused or deleted (\<open>stale\<close>), or its link changed
  (\<open>moved\<close>).\<close>

definition stale :: "layout \<Rightarrow> 64 word \<Rightarrow> 64 word \<Rightarrow> bool" where
  "stale L old New \<longleftrightarrow> old AND NODEBITS L \<noteq> New AND NODEBITS L \<or> New AND REFCBITS L = DELETED"

definition moved :: "layout \<Rightarrow> 64 word \<Rightarrow> 64 word \<Rightarrow> bool" where
  "moved L old New \<longleftrightarrow> old AND NEXTTT L \<noteq> New AND NEXTTT L"

definition goto_New :: "layout \<Rightarrow> 64 word \<Rightarrow> locals \<Rightarrow> locals" where
  "goto_New L New v = v\<lparr>v_prevNext := New, v_curr := loc_of L New\<rparr>"

definition set_nextRecord :: "64 word \<Rightarrow> rec \<Rightarrow> rec" where
  "set_nextRecord w r = r\<lparr>r_nextRecord := w\<rparr>"

definition set_pointer :: "64 word \<Rightarrow> rec \<Rightarrow> rec" where
  "set_pointer w r = r\<lparr>r_pointer := w\<rparr>"

text \<open>\<open>__sync_val_compare_and_swap(&l->nextRecord, old, new)\<close>.\<close>

definition vcas_next :: "loc \<Rightarrow> 64 word \<Rightarrow> 64 word \<Rightarrow> (64 word \<Rightarrow> (('c, 'z) pool_scheme, 'a) prog) \<Rightarrow> (('c, 'z) pool_scheme, 'a) prog" where
  "vcas_next l old new k = vcasp (\<lambda>s. map_option r_nextRecord (rget l s)) old (rset l (set_nextRecord new)) k"

text \<open>Giving back the records between \<open>prev\<close> and \<open>curr\<close> that were just unlinked.\<close>

fun reclaim :: "nat \<Rightarrow> ('c, 'z) pool_scheme env \<Rightarrow> loc \<Rightarrow> 64 word \<Rightarrow> (('c, 'z) pool_scheme, int) prog \<Rightarrow> (('c, 'z) pool_scheme, int) prog" where
  "reclaim 0 e cur local k = Spin"
| "reclaim (Suc fuel) e cur local k =
    rd r_self cur (\<lambda>self.
    if local AND ARRIDXBITL (e_layout e) \<noteq> scast self AND ARRIDXBITL (e_layout e) then
      let first = loc_of (e_layout e) local in
      wr (set_pointer 0) first (
      rd r_nextRecord first (\<lambda>local'.
      bind (e_return e first) (\<lambda>_.
      reclaim fuel e cur local' k)))
    else k)"

text \<open>The compare-and-swap loop on \<open>prev->nextRecord\<close> that links \<open>append\<close> (\<open>app\<close>) behind \<open>prev\<close>.\<close>

fun append_loop :: "(locals \<Rightarrow> (('c, 'z) pool_scheme, int) prog) \<Rightarrow> nat \<Rightarrow> nat \<Rightarrow> ('c, 'z) pool_scheme env \<Rightarrow> loc \<Rightarrow> locals \<Rightarrow> (('c, 'z) pool_scheme, int) prog" where
  "append_loop kp fuel 0 e app v = Spin"
| "append_loop kp fuel (Suc n) e app v =
    rd r_self app (\<lambda>self.
    vcas_next (v_prev v) (v_prevNext v) (nxtAddrV (e_layout e) (v_prevNext v) self) (\<lambda>prevBefore.
    if prevBefore = v_prevNext v then
      reclaim fuel e (v_curr v) (v_prevNext v) (Ret (if e_flag e = RECORD then 1 else 0))
    else
      let New = prevBefore in
      if stale (e_layout e) (v_prevNext v) New then e_restart e v kp
      else if moved (e_layout e) (v_prevNext v) New then kp (goto_New (e_layout e) New v)
      else append_loop kp fuel n e app (v\<lparr>v_prevNext := New\<rparr>)))"

definition link_my :: "(locals \<Rightarrow> (('c, 'z) pool_scheme, int) prog) \<Rightarrow> nat \<Rightarrow> ('c, 'z) pool_scheme env \<Rightarrow> loc \<Rightarrow> locals \<Rightarrow> (('c, 'z) pool_scheme, int) prog" where
  "link_my kp fuel e l v =
    rd r_self (v_curr v) (\<lambda>self.
    wr (set_nextRecord (newNext (e_layout e) (v_localN v) self)) l (
    append_loop kp fuel fuel e l v))"

text \<open>The part marked \<open>CasAppend\<close>: a record of its own for \<open>RECORD\<close>, \<open>curr\<close> itself for \<open>REMOVE\<close>.
  \<open>get_Record\<close> may return \<open>NULL\<close>, which the code dereferences.\<close>

definition cas_append :: "(locals \<Rightarrow> (('c, 'z) pool_scheme, int) prog) \<Rightarrow> nat \<Rightarrow> ('c, 'z) pool_scheme env \<Rightarrow> locals \<Rightarrow> (('c, 'z) pool_scheme, int) prog" where
  "cas_append kp fuel e v =
    (if e_flag e = RECORD then
      (case v_my v of
        None \<Rightarrow>
          bind (e_get e) (\<lambda>r. case r of None \<Rightarrow> Crash | Some l \<Rightarrow>
          rd r_nextRecord l (\<lambda>localN.
          wr (set_pointer (e_pointer e)) l (
          link_my kp fuel e l (v\<lparr>v_my := Some l, v_localN := localN\<rparr>))))
      | Some l \<Rightarrow> link_my kp fuel e l v)
    else append_loop kp fuel fuel e (v_curr v) v)"

text \<open>The compare-and-swap loop that counts a found record up.\<close>

fun plus_loop :: "(locals \<Rightarrow> (('c, 'z) pool_scheme, int) prog) \<Rightarrow> nat \<Rightarrow> ('c, 'z) pool_scheme env \<Rightarrow> loc \<Rightarrow> 64 word \<Rightarrow> locals \<Rightarrow> (('c, 'z) pool_scheme, int) prog" where
  "plus_loop kp 0 e found foundNext v = Spin"
| "plus_loop kp (Suc n) e found foundNext v =
    (let refNuM = plusRecord (e_layout e) foundNext in
    vcas_next found foundNext refNuM (\<lambda>prevBefore.
    if prevBefore = foundNext then
      (case v_my v of
        None \<Rightarrow> Ret (count_of (e_layout e) refNuM)
      | Some l \<Rightarrow> wr (set_nextRecord (v_localN v)) l (
          bind (e_return e l) (\<lambda>_. Ret (count_of (e_layout e) refNuM))))
    else
      let New = prevBefore in
      if foundNext AND NODEBITS (e_layout e) \<noteq> New AND NODEBITS (e_layout e) then
        rd r_nextRecord (v_prev v) (\<lambda>New.
        if stale (e_layout e) (v_prevNext v) New then e_restart e v kp
        else kp (goto_New (e_layout e) New v))
      else if New AND REFCBITS (e_layout e) = DELETED then kp (v\<lparr>v_curr := loc_of (e_layout e) New\<rparr>)
      else plus_loop kp n e found New v))"

text \<open>The key is found at \<open>curr\<close>, whose word is \<open>currNext\<close>.\<close>

definition at_key :: "(locals \<Rightarrow> (('c, 'z) pool_scheme, int) prog) \<Rightarrow> nat \<Rightarrow> ('c, 'z) pool_scheme env \<Rightarrow> 64 word \<Rightarrow> locals \<Rightarrow> (('c, 'z) pool_scheme, int) prog" where
  "at_key kp fuel e currNext v =
    (if v_removed v then Ret 0
     else if e_flag e = REMOVE then
       rmwp (\<lambda>s. map_option (\<lambda>r. (sub_REFONE (e_layout e) (r_nextRecord r),
                  rset (v_curr v) (set_nextRecord (sub_REFONE (e_layout e) (r_nextRecord r))) s)) (rget (v_curr v) s)) (\<lambda>refNuM.
       if refNuM AND REFCBITS (e_layout e) \<noteq> DELETED then Ret (count_of (e_layout e) refNuM)
       else kp (v\<lparr>v_removed := True, v_curr := loc_of (e_layout e) refNuM\<rparr>))
     else plus_loop kp fuel e (v_curr v) currNext v)"

text \<open>\<open>curr\<close> is before the key or at it; \<open>currNext\<close> is the word read from it with its key.\<close>

definition pass_or_hit :: "(locals \<Rightarrow> (('c, 'z) pool_scheme, int) prog) \<Rightarrow> nat \<Rightarrow> ('c, 'z) pool_scheme env \<Rightarrow> 64 word \<Rightarrow> 64 word \<Rightarrow> locals \<Rightarrow> (('c, 'z) pool_scheme, int) prog" where
  "pass_or_hit kp fuel e currKey currNext v =
    (if e_flag e = SEARCH \<and> currKey = e_pointer e then Ret (count_of (e_layout e) currNext)
     else
       rd r_nextRecord (v_curr v) (\<lambda>New.
       if currNext AND NODEBITS (e_layout e) \<noteq> New AND NODEBITS (e_layout e) then
         rd r_nextRecord (v_prev v) (\<lambda>New.
         if stale (e_layout e) (v_prevNext v) New then e_restart e v kp
         else kp (goto_New (e_layout e) New v))
       else
         let currNext = New in
         if currNext AND REFCBITS (e_layout e) = DELETED then kp (v\<lparr>v_curr := loc_of (e_layout e) currNext\<rparr>)
         else if currKey \<noteq> e_pointer e then
           e_note e v (kp (v\<lparr>v_prev := v_curr v, v_prevNext := currNext, v_curr := loc_of (e_layout e) currNext\<rparr>))
         else at_key kp fuel e currNext v))"

definition loop_body :: "(locals \<Rightarrow> (('c, 'z) pool_scheme, int) prog) \<Rightarrow> nat \<Rightarrow> ('c, 'z) pool_scheme env \<Rightarrow> locals \<Rightarrow> (('c, 'z) pool_scheme, int) prog" where
  "loop_body kp fuel e v =
    rd r_nextRecord (v_curr v) (\<lambda>currNext.
    rd r_pointer (v_curr v) (\<lambda>currKey.
    rd r_nextRecord (v_prev v) (\<lambda>New.
    if stale (e_layout e) (v_prevNext v) New then e_restart e v kp
    else if moved (e_layout e) (v_prevNext v) New then kp (goto_New (e_layout e) New v)
    else
      let v = v\<lparr>v_prevNext := New\<rparr> in
      if v_curr v = e_tail e \<or> sint (e_pointer e) < sint currKey then
        if e_flag e = SEARCH then Ret 0
        else if e_flag e = REMOVE then
          rd r_self (v_curr v) (\<lambda>self.
          if v_prevNext v AND ARRIDXBITL (e_layout e) = scast self AND ARRIDXBITL (e_layout e) then Ret 0
          else cas_append kp fuel e v)
        else cas_append kp fuel e v
      else pass_or_hit kp fuel e currKey currNext v)))"

fun keep_prev :: "nat \<Rightarrow> nat \<Rightarrow> ('c, 'z) pool_scheme env \<Rightarrow> locals \<Rightarrow> (('c, 'z) pool_scheme, int) prog" where
  "keep_prev 0 fuel e v = Spin"
| "keep_prev (Suc n) fuel e v = loop_body (keep_prev n fuel e) fuel e v"

definition handle_records :: "nat \<Rightarrow> ('c, 'z) pool_scheme env \<Rightarrow> (('c, 'z) pool_scheme, int) prog" where
  "handle_records fuel e =
    rd r_nextRecord (e_head e) (\<lambda>prevNext.
    keep_prev fuel fuel e
      \<lparr>v_my = None, v_localN = 0, v_removed = False, v_prev = e_head e, v_prevNext = prevNext,
       v_curr = loc_of (e_layout e) prevNext\<rparr>)"

text \<open>In this file the loop restarts at the head, and notes nothing.\<close>

definition restart_head :: "layout \<Rightarrow> loc \<Rightarrow> locals \<Rightarrow> (locals \<Rightarrow> (('c, 'z) pool_scheme, int) prog) \<Rightarrow> (('c, 'z) pool_scheme, int) prog" where
  "restart_head L head v kp =
    rd r_nextRecord head (\<lambda>prevNext.
    kp (v\<lparr>v_prev := head, v_prevNext := prevNext, v_curr := loc_of L prevNext\<rparr>))"

section \<open>What the loop needs of the record pool\<close>

text \<open>\<open>ok b F s\<close>: the pool is well formed, the records of \<open>F\<close> are free, and the next \<open>b\<close> calls of
  \<open>get\<close> will not fail. \<open>keeps N s t\<close>: the state outside the pool is the same, and so is every
  record outside \<open>N\<close>, but for its queue link.\<close>

locale record_pool =
  fixes L :: layout
    and get :: "(('c, 'z) pool_scheme, loc option) prog"
    and ret :: "loc \<Rightarrow> (('c, 'z) pool_scheme, unit) prog"
    and ok :: "nat \<Rightarrow> loc set \<Rightarrow> ('c, 'z) pool_scheme \<Rightarrow> bool"
    and keeps :: "loc set \<Rightarrow> ('c, 'z) pool_scheme \<Rightarrow> ('c, 'z) pool_scheme \<Rightarrow> bool"
  assumes layout: "layout_ok L"
    and ok_less: "ok (Suc b) F s \<Longrightarrow> ok b F s"
    and ok_self: "ok b F s \<Longrightarrow> is_loc L l \<Longrightarrow> rget l s = Some r \<Longrightarrow> r_self r = self_word (idxNum L) l"
    and ok_rset: "ok b F s \<Longrightarrow> (\<And>r. r_next (f r) = r_next r \<and> r_self (f r) = r_self r) \<Longrightarrow> ok b F (rset l f s)"
    and keeps_refl: "keeps {} s s"
    and keeps_mono: "keeps N s t \<Longrightarrow> N \<subseteq> M \<Longrightarrow> keeps M s t"
    and keeps_trans: "keeps N s t \<Longrightarrow> keeps N t u \<Longrightarrow> keeps N s u"
    and keeps_rset: "keeps {l} s (rset l f s)"
    and keeps_rget: "keeps N s t \<Longrightarrow> is_loc L l \<Longrightarrow> l \<notin> N \<Longrightarrow> rget l s = Some r \<Longrightarrow> \<exists>w. rget l t = Some (r\<lparr>r_next := w\<rparr>)"
    and get_ok: "ok (Suc b) F s \<Longrightarrow> \<exists>l t. run get s = Done (Some l) t \<and> keeps {} s t \<and>
      l \<in> F \<and> is_loc L l \<and> rget l t \<noteq> None \<and> ok b (F - {l}) t"
    and ret_ok: "ok b F s \<Longrightarrow> is_loc L l \<Longrightarrow> l \<notin> F \<Longrightarrow> rget l s \<noteq> None \<Longrightarrow>
      \<exists>t. run (ret l) s = Done () t \<and> keeps {} s t \<and> ok b (insert l F) t"

section \<open>The list as a sequence of entries\<close>

type_synonym entry = "loc \<times> 64 word \<times> nat"

definition view :: "loc \<Rightarrow> ('c, 'z) pool_scheme \<Rightarrow> (64 word \<times> 64 word) option" where
  "view l s = map_option (\<lambda>r. (r_nextRecord r, r_pointer r)) (rget l s)"

abbreviation locs :: "entry list \<Rightarrow> loc set" where
  "locs es \<equiv> fst ` set es"

abbreviation key_of :: "entry \<Rightarrow> int" where
  "key_of x \<equiv> sint (fst (snd x))"

abbreviation count :: "entry \<Rightarrow> nat" where
  "count x \<equiv> snd (snd x)"

text \<open>The entries (record, key, count) met from \<open>l\<close> up to \<open>l'\<close>.\<close>

fun seg :: "layout \<Rightarrow> ('c, 'z) pool_scheme \<Rightarrow> loc \<Rightarrow> entry list \<Rightarrow> loc \<Rightarrow> bool" where
  "seg L s l [] l' = (l = l')"
| "seg L s l ((x, k, c) # es) l' =
    (x = l \<and> (\<exists>w. view l s = Some (w, k) \<and> refc L w = c \<and> seg L s (loc_of L w) es l'))"

text \<open>A chain starts with the head, which is never deleted; behind it the keys strictly increase.\<close>

definition chain :: "layout \<Rightarrow> ('c, 'z) pool_scheme \<Rightarrow> loc \<Rightarrow> entry list \<Rightarrow> bool" where
  "chain L s z es \<longleftrightarrow> es \<noteq> [] \<and> 0 < count (hd es) \<and> seg L s (fst (hd es)) es z \<and>
     distinct (z # map fst es) \<and> (\<forall>l \<in> insert z (locs es). is_loc L l) \<and> view z s \<noteq> None \<and>
     sorted_wrt (<) (map key_of (List.tl es))"

definition list_ok :: "layout \<Rightarrow> ('c, 'z) pool_scheme \<Rightarrow> loc \<Rightarrow> loc \<Rightarrow> entry list \<Rightarrow> bool" where
  "list_ok L s h z es \<longleftrightarrow> (\<exists>k c. chain L s z ((h, k, c) # es))"

text \<open>The abstract value of a list: the count of each key.\<close>

definition cnt :: "entry list \<Rightarrow> 64 word \<Rightarrow> nat" where
  "cnt es k = sum_list (map (\<lambda>x. if fst (snd x) = k then count x else 0) es)"

definition op_count :: "flag \<Rightarrow> nat \<Rightarrow> nat" where
  "op_count f c = (case f of RECORD \<Rightarrow> c + 1 | SEARCH \<Rightarrow> c | REMOVE \<Rightarrow> c - 1)"

text \<open>How many records an operation may take from the pool: only \<open>RECORD\<close> takes one.\<close>

definition need :: "flag \<Rightarrow> nat \<Rightarrow> nat" where
  "need f b = (if f = RECORD then Suc b else b)"

lemma need_simps [simp]: "need RECORD b = Suc b" "need SEARCH b = b" "need REMOVE b = b"
  by (simp_all add: need_def)

lemma view_rset [simp]:
  "view l (rset l' (set_nextRecord w) s) = (if l = l' then map_option (\<lambda>(_, p). (w, p)) (view l s) else view l s)"
  "view l (rset l' (set_pointer p) s) = (if l = l' then map_option (\<lambda>(w, _). (w, p)) (view l s) else view l s)"
  by (auto simp: view_def set_nextRecord_def set_pointer_def option.map_comp comp_def)

lemma view_None: "view l s = None \<longleftrightarrow> rget l s = None"
  by (simp add: view_def)

lemma seg_append: "seg L s l (es @ fs) l' \<longleftrightarrow> (\<exists>m. seg L s l es m \<and> seg L s m fs l')"
  by (induction L s l es l' rule: seg.induct) auto

lemma seg_cong: "(\<And>x. x \<in> locs es \<Longrightarrow> view x t = view x s) \<Longrightarrow> seg L s l es l' = seg L t l es l'"
proof (induction L s l es l' rule: seg.induct)
  case (2 L s l x k c es l')
  then show ?case by (cases "x = l") (auto simp: image_iff)
qed simp

lemma seg_fst: "seg L s l es l' \<Longrightarrow> es \<noteq> [] \<Longrightarrow> fst (hd es) = l"
  by (cases es) auto

lemma seg_view: "seg L s l es l' \<Longrightarrow> x \<in> locs es \<Longrightarrow> view x s \<noteq> None"
  by (induction L s l es l' rule: seg.induct) auto

lemma cnt_simps [simp]:
  "cnt [] k = 0" "cnt (es @ fs) k = cnt es k + cnt fs k"
  "cnt ((x, k', c) # es) k = (if k' = k then c else 0) + cnt es k"
  by (simp_all add: cnt_def)

lemma cnt_other: "(\<And>x. x \<in> set es \<Longrightarrow> fst (snd x) \<noteq> k \<or> count x = 0) \<Longrightarrow> cnt es k = 0"
proof (induction es)
  case (Cons x es)
  then show ?case by (cases x) force
qed simp

text \<open>Changing the word of the last entry of a segment.\<close>

lemma seg_relink:
  assumes "seg L s l (es @ [(x, k, c)]) m" and "x \<notin> locs es"
    and "view x t = Some (w, k)" and "\<And>y. y \<in> locs es \<Longrightarrow> view y t = view y s"
  shows "seg L t l (es @ [(x, k, refc L w)]) (loc_of L w)"
proof -
  from assms(1) have x: "seg L s l es x" by (auto simp: seg_append)
  then have "seg L t l es x" using seg_cong [of es t s L l x] assms(4) by blast
  with assms(3) show ?thesis unfolding seg_append by (intro exI [of _ x]) simp
qed

lemma seg_rset [simp]:
  "x \<notin> locs es \<Longrightarrow> seg L (rset x (set_nextRecord w) s) l es l' = seg L s l es l'"
  "x \<notin> locs es \<Longrightarrow> seg L (rset x (set_pointer p) s) l es l' = seg L s l es l'"
  by (rule seg_cong; auto)+

text \<open>Where the loop is: \<open>prev\<close> is the entry \<open>(x, k, c)\<close>, the entries \<open>ds\<close> behind it are deleted,
  \<open>curr\<close> is the first of the rest, and everything up to \<open>prev\<close> is below the key.\<close>

definition start :: "entry list \<Rightarrow> loc \<Rightarrow> loc" where
  "start es z = (case es of [] \<Rightarrow> z | x # _ \<Rightarrow> fst x)"

definition position :: "layout \<Rightarrow> ('c, 'z) pool_scheme \<Rightarrow> loc \<Rightarrow> int \<Rightarrow> entry list \<Rightarrow> entry \<Rightarrow> entry list \<Rightarrow> entry list \<Rightarrow> 'l locals_scheme \<Rightarrow> bool" where
  "position L s z K pre x ds rst v \<longleftrightarrow> chain L s z (pre @ x # ds @ rst) \<and> 0 < count x \<and>
     (\<forall>d \<in> set ds. count d = 0) \<and> v_prev v = fst x \<and> view (fst x) s = Some (v_prevNext v, fst (snd x)) \<and>
     v_curr v = start rst z \<and> (\<forall>y \<in> set (List.tl (pre @ [x])). key_of y < K)"

lemma sorted_insert:
  "sorted_wrt (<) xs \<Longrightarrow> sorted_wrt (<) zs \<Longrightarrow> \<forall>a \<in> set xs. a < K \<Longrightarrow> \<forall>b \<in> set zs. K < b \<Longrightarrow>
    ys = [] \<or> ys = [K] \<Longrightarrow> sorted_wrt (<) (xs @ ys @ (zs :: int list))"
  by (auto simp: sorted_wrt_append dest: less_trans)

lemma seg_start: "seg L s l es z \<Longrightarrow> l = start es z"
  by (cases es) (auto simp: start_def)

lemma positionD:
  assumes "position L s z K pre (x, k, c) ds rst v"
  shows "seg L s (fst (hd (pre @ [(x, k, c)]))) (pre @ [(x, k, c)]) (loc_of L (v_prevNext v))"
    and "seg L s (loc_of L (v_prevNext v)) ds (v_curr v)" and "seg L s (v_curr v) rst z"
    and "refc L (v_prevNext v) = c"
proof -
  from assms have "seg L s (fst (hd (pre @ [(x, k, c)]))) ((pre @ [(x, k, c)]) @ ds @ rst) z"
    unfolding position_def chain_def by (cases pre) auto
  then obtain m m' where m: "seg L s (fst (hd (pre @ [(x, k, c)]))) (pre @ [(x, k, c)]) m" "seg L s m ds m'" "seg L s m' rst z"
    unfolding seg_append [of L s _ "pre @ [(x, k, c)]"] seg_append [of L s _ ds] by blast
  moreover have "m' = v_curr v" using seg_start [OF m(3)] assms by (simp add: position_def)
  moreover have "m = loc_of L (v_prevNext v) \<and> refc L (v_prevNext v) = c"
    using m(1) assms by (auto simp: seg_append position_def)
  ultimately show "seg L s (fst (hd (pre @ [(x, k, c)]))) (pre @ [(x, k, c)]) (loc_of L (v_prevNext v))"
    "seg L s (loc_of L (v_prevNext v)) ds (v_curr v)" "seg L s (v_curr v) rst z" "refc L (v_prevNext v) = c"
    by simp_all
qed

lemma position_locals [simp]:
  "position L s z K pre x ds rst (v\<lparr>v_my := m\<rparr>) = position L s z K pre x ds rst v"
  "position L s z K pre x ds rst (v\<lparr>v_localN := n\<rparr>) = position L s z K pre x ds rst v"
  "position L s z K pre x ds rst (v\<lparr>v_removed := b\<rparr>) = position L s z K pre x ds rst v"
  by (simp_all add: position_def)

section \<open>The loop run alone\<close>

lemma run_rd [simp]: "run (rd f l k) s = (case rget l s of None \<Rightarrow> Crashed s | Some r \<Rightarrow> run (k (f r)) s)"
  by (simp add: rd_def split: option.split)

lemma run_wr [simp]: "run (wr f l k) s = (case rget l s of None \<Rightarrow> Crashed s | Some r \<Rightarrow> run k (rset l f s))"
  by (simp add: wr_def rget_def split: option.split)

lemma run_vcas_next [simp]: "run (vcas_next l old new k) s = (case rget l s of None \<Rightarrow> Crashed s
    | Some r \<Rightarrow> if r_nextRecord r = old then run (k old) (rset l (set_nextRecord new) s) else run (k (r_nextRecord r)) s)"
  by (simp add: vcas_next_def split: option.split)

lemma view_Some: "view l s = Some (w, k) \<longleftrightarrow> (\<exists>r. rget l s = Some r \<and> r_nextRecord r = w \<and> r_pointer r = k)"
  by (auto simp: view_def)

lemma set_fields [simp]:
  "r_next (set_nextRecord w r) = r_next r" "r_self (set_nextRecord w r) = r_self r"
  "r_next (set_pointer w r) = r_next r" "r_self (set_pointer w r) = r_self r"
  by (simp_all add: set_nextRecord_def set_pointer_def)

lemma list_length:
  assumes "list_ok L s h z es"
  shows "length es + 2 \<le> 2 ^ (arrNum L + idxNum L)"
proof -
  let ?U = "{..<2 ^ arrNum L} \<times> {..<2 ^ idxNum L} :: loc set"
  from assms obtain k c where ch: "chain L s z ((h, k, c) # es)" by (auto simp: list_ok_def)
  have d: "distinct (h # z # map fst es)" using ch by (auto simp: chain_def)
  have "\<forall>l \<in> insert z (locs ((h, k, c) # es)). is_loc L l" using ch by (simp add: chain_def)
  then have "set (h # z # map fst es) \<subseteq> ?U" by (auto simp: is_loc_def mem_Times_iff dest: bspec)
  then have "card (set (h # z # map fst es)) \<le> card ?U" by (intro card_mono) auto
  then show ?thesis unfolding distinct_card [OF d] by (simp add: card_cartesian_product power_add)
qed

context record_pool
begin

lemma keeps_view: "keeps N s t \<Longrightarrow> is_loc L l \<Longrightarrow> l \<notin> N \<Longrightarrow> view l s \<noteq> None \<Longrightarrow> view l t = view l s"
  using keeps_rget [of N s t l] by (fastforce simp: view_def)

lemma seg_keeps: "keeps N s t \<Longrightarrow> seg L s l es l' \<Longrightarrow> locs es \<inter> N = {} \<Longrightarrow> \<forall>x \<in> locs es. is_loc L x \<Longrightarrow> seg L t l es l'"
proof -
  assume a: "keeps N s t" "seg L s l es l'" "locs es \<inter> N = {}" "\<forall>x \<in> locs es. is_loc L x"
  then have "view x t = view x s" if "x \<in> locs es" for x
    using that by (intro keeps_view [OF a(1)] seg_view [OF a(2)]) auto
  with a(2) show ?thesis by (metis seg_cong)
qed

lemma keeps_rset_in: "keeps N s t \<Longrightarrow> l \<in> N \<Longrightarrow> keeps N s (rset l f t)"
  by (rule keeps_trans, assumption, rule keeps_mono [OF keeps_rset]) simp

lemma at_self:
  assumes "ok b F s" and "is_loc L l" and "rget l s = Some r"
  shows "w AND ARRIDXBITL L = scast (r_self r) AND ARRIDXBITL L \<longleftrightarrow> loc_of L w = l"
  unfolding ok_self [OF assms] by (rule loc_of_eq_iff [OF layout assms(2)])

lemma ok_set:
  assumes "ok b F s"
  shows "ok b F (rset l (set_nextRecord w) s)" and "ok b F (rset l (set_pointer p) s)"
  by (rule ok_rset [OF assms]; simp)+

lemma reclaim_run:
  assumes "ok b F s" and "seg L s (loc_of L w) ds c" and "locs ds \<inter> F = {}" and "distinct (c # map fst ds)"
    and "\<forall>x \<in> insert c (locs ds). is_loc L x" and "view c s \<noteq> None" and "length ds < fuel"
    and e: "e_layout e = L" "e_return e = ret"
  shows "\<exists>t. run (reclaim fuel e c w k) s = run k t \<and> ok b (F \<union> locs ds) t \<and> keeps (locs ds) s t"
  using assms(1-7)
proof (induction ds arbitrary: w s F fuel)
  case Nil
  then obtain f r where f: "fuel = Suc f" "rget c s = Some r" by (cases fuel) (auto simp: view_def)
  with Nil at_self [OF Nil.prems(1) _ f(2), of w] e show ?case by (auto intro: keeps_refl)
next
  case (Cons d ds)
  obtain x k0 n where d: "d = (x, k0, n)" by (cases d)
  from Cons.prems(7) obtain f where f: "fuel = Suc f" by (cases fuel) auto
  from Cons.prems(6) obtain rc where rc: "rget c s = Some rc" by (auto simp: view_def)
  from Cons.prems(2) d obtain w' where w': "loc_of L w = x" "view x s = Some (w', k0)" "seg L s (loc_of L w') ds c"
    by auto
  then obtain r where r: "rget x s = Some r" "r_nextRecord r = w'" by (auto simp: view_Some)
  have nx: "w AND ARRIDXBITL L \<noteq> scast (r_self rc) AND ARRIDXBITL L"
    using at_self [OF Cons.prems(1) _ rc, of w] Cons.prems(4,5) w'(1) d by auto
  let ?s = "rset x (set_pointer 0) s"
  have x: "is_loc L x" "x \<notin> F" "x \<notin> locs ds" using Cons.prems(3,4,5) d by auto
  have "rget x ?s \<noteq> None" using r by simp
  from ret_ok [OF ok_set(2) [OF Cons.prems(1)] x(1,2) this] obtain t1 where
    t1: "run (ret x) ?s = Done () t1" "keeps {} ?s t1" "ok b (insert x F) t1" by blast
  have k1: "keeps {x} s t1" using keeps_trans [OF keeps_rset [of x s "set_pointer 0"] keeps_mono [OF t1(2)]] by simp
  have "\<exists>t. run (reclaim f e c w' k) t1 = run k t \<and> ok b (insert x F \<union> locs ds) t \<and> keeps (locs ds) t1 t"
  proof (rule Cons.IH [OF t1(3)])
    show "seg L t1 (loc_of L w') ds c" using x Cons.prems(5) by (intro seg_keeps [OF k1 w'(3)]) auto
    show "view c t1 \<noteq> None" using keeps_view [OF k1, of c] Cons.prems(4,5,6) d by auto
  qed (use Cons.prems d f x in auto)
  then obtain t where t: "run (reclaim f e c w' k) t1 = run k t" "ok b (F \<union> locs (d # ds)) t" "keeps (locs ds) t1 t"
    by (auto simp: d)
  have "keeps (locs (d # ds)) s t"
    by (rule keeps_trans [OF keeps_mono [OF k1] keeps_mono [OF t(3)]]) (auto simp: d)
  moreover have "run (reclaim fuel e c w k) s = run k t"
    using f e rc nx w'(1) r t1(1) t(1) by (simp add: Let_def set_pointer_def)
  ultimately show ?case using t(2) by blast
qed

lemma append_run:
  assumes ok: "ok b F s" and pos: "position L s z K pre (x, k, c) ds rst v"
    and app: "seg L s app (mid @ rst) z" "is_loc L app" "rget app s \<noteq> None"
    and dj: "x \<notin> locs mid" "locs mid \<inter> locs ds = {}" "locs ds \<inter> F = {}" "\<forall>l \<in> locs mid. is_loc L l"
    and e: "e_layout e = L" "e_return e = ret" and len: "length ds < fuel"
  shows "\<exists>t. run (append_loop kp fuel (Suc n) e app v) s = Done (if e_flag e = RECORD then 1 else 0) t \<and>
    ok b (F \<union> locs ds) t \<and> keeps (insert x (locs ds)) s t \<and>
    seg L t (fst (hd (pre @ [(x, k, c)]))) (pre @ (x, k, c) # mid @ rst) z"
proof -
  let ?h = "fst (hd (pre @ [(x, k, c)]))"
  note pd = positionD [OF pos]
  from pos have ch: "chain L s z (pre @ (x, k, c) # ds @ rst)" "v_prev v = x" "view x s = Some (v_prevNext v, k)"
    by (auto simp: position_def)
  then have dist: "distinct (z # map fst (pre @ (x, k, c) # ds @ rst))" and
    il: "\<forall>l \<in> insert z (locs (pre @ (x, k, c) # ds @ rst)). is_loc L l" and vz: "view z s \<noteq> None"
    unfolding chain_def by blast+
  obtain ra where ra: "rget app s = Some ra" using app(3) by blast
  let ?w = "nxtAddrV L (v_prevNext v) (r_self ra)"
  let ?s = "rset x (set_nextRecord ?w) s"
  have self: "r_self ra = self_word (idxNum L) app" by (rule ok_self [OF ok app(2) ra])
  have w: "refc L ?w = c" "loc_of L ?w = app"
    using pd(4) loc_of_self [OF layout app(2)]
    by (simp_all add: nxtAddrV_fields [OF layout] self loc_of_scast [OF layout])
  have "seg L ?s ?h (pre @ [(x, k, refc L ?w)]) (loc_of L ?w)"
    by (rule seg_relink [OF pd(1)]) (use ch(3) dist in auto)
  then have 1: "seg L ?s ?h (pre @ [(x, k, c)]) app" by (simp only: w)
  have 2: "seg L ?s app (mid @ rst) z" "seg L ?s (loc_of L (v_prevNext v)) ds (v_curr v)"
    using app(1) pd(2) dist dj(1) by (subst seg_rset; auto)+
  have cur: "is_loc L (v_curr v)" "v_curr v \<notin> locs ds" "view (v_curr v) ?s \<noteq> None"
    using pos dist il vz seg_view [OF pd(3)] by (cases rst; auto simp: position_def start_def)+
  have "\<exists>t. run (reclaim fuel e (v_curr v) (v_prevNext v) (Ret (if e_flag e = RECORD then 1 else 0))) ?s
      = run (Ret (if e_flag e = RECORD then 1 else 0)) t \<and> ok b (F \<union> locs ds) t \<and> keeps (locs ds) ?s t"
    by (rule reclaim_run [OF ok_set(1) [OF ok] 2(2) dj(3) _ _ cur(3) len e]) (use cur dist il in auto)
  then obtain t where t: "run (reclaim fuel e (v_curr v) (v_prevNext v) (Ret (if e_flag e = RECORD then 1 else 0))) ?s
      = Done (if e_flag e = RECORD then 1 else 0) t" "ok b (F \<union> locs ds) t" "keeps (locs ds) ?s t"
    unfolding run.simps by blast
  have "keeps (insert x (locs ds)) s t"
    by (rule keeps_trans [OF keeps_mono [OF keeps_rset] keeps_mono [OF t(3)]]) auto
  moreover have "run (append_loop kp fuel (Suc n) e app v) s = Done (if e_flag e = RECORD then 1 else 0) t"
    using t(1) ra ch(2,3) e(1) by (auto simp: view_Some)
  moreover have "seg L t ?h ((pre @ [(x, k, c)]) @ mid @ rst) z"
  proof (rule seg_keeps [OF t(3)])
    show "seg L ?s ?h ((pre @ [(x, k, c)]) @ mid @ rst) z" using 1 2(1) by (simp only: seg_append) blast
  qed (use dist il dj in auto)
  ultimately show ?thesis using t(2) by auto
qed

lemma chain_keeps:
  assumes "keeps N s t" and "chain L s z es" and "insert z (locs es) \<inter> N = {}"
  shows "chain L t z es"
proof -
  from assms(2) have c: "seg L s (fst (hd es)) es z" "\<forall>l \<in> insert z (locs es). is_loc L l" "view z s \<noteq> None"
    by (simp_all add: chain_def)
  have "seg L t (fst (hd es)) es z" using assms(3) c by (intro seg_keeps [OF assms(1) c(1)]) auto
  moreover have "view z t = view z s" using assms(3) c by (intro keeps_view [OF assms(1)]) auto
  ultimately show ?thesis using assms(2) by (simp add: chain_def)
qed

lemma position_keeps:
  assumes "keeps N s t" and "position L s z K pre x ds rst v" and "insert z (locs (pre @ x # ds @ rst)) \<inter> N = {}"
  shows "position L t z K pre x ds rst v"
proof -
  from assms(2) have p: "chain L s z (pre @ x # ds @ rst)" "view (fst x) s = Some (v_prevNext v, fst (snd x))"
    by (simp_all add: position_def)
  have "chain L t z (pre @ x # ds @ rst)" by (rule chain_keeps [OF assms(1) p(1) assms(3)])
  moreover have "view (fst x) t = view (fst x) s"
    using p assms(3) by (intro keeps_view [OF assms(1)]) (auto simp: chain_def)
  ultimately show ?thesis using assms(2) by (simp add: position_def)
qed

lemma position_curr:
  assumes "position L s z K pre x ds rst v"
  shows "v_curr v \<in> insert z (locs rst)" and "is_loc L (v_curr v)" and "rget (v_curr v) s \<noteq> None"
proof -
  from assms have c: "seg L s (v_curr v) rst z" "v_curr v = start rst z"
      "\<forall>l \<in> insert z (locs (pre @ x # ds @ rst)). is_loc L l" "view z s \<noteq> None"
    using positionD(3) [of L s z K pre "fst x" "fst (snd x)" "snd (snd x)" ds rst v]
    by (simp_all add: position_def chain_def)
  then show "v_curr v \<in> insert z (locs rst)" by (cases rst) (auto simp: start_def)
  with c show "is_loc L (v_curr v)" by (auto dest: bspec)
  show "rget (v_curr v) s \<noteq> None" using c seg_view [OF c(1)] by (cases rst) (auto simp: start_def view_None)
qed

lemma chain_insert:
  assumes "position L s z K pre (x, k, c) ds rst v" and "rst \<noteq> [] \<Longrightarrow> K < key_of (hd rst)"
    and "seg L t (fst (hd (pre @ [(x, k, c)]))) (pre @ (x, k, c) # mid @ rst) z" and "view z t \<noteq> None"
    and "mid = [] \<or> (\<exists>l w n. mid = [(l, w, n)] \<and> sint w = K \<and> is_loc L l \<and> l \<notin> insert z (locs (pre @ (x, k, c) # ds @ rst)))"
  shows "chain L t z (pre @ (x, k, c) # mid @ rst)"
proof -
  have ch: "chain L s z (pre @ (x, k, c) # ds @ rst)" "0 < c" "\<forall>y \<in> set (List.tl (pre @ [(x, k, c)])). key_of y < K"
    using assms(1) by (auto simp: position_def)
  have hd: "hd (pre @ (x, k, c) # mid @ rst) = hd (pre @ [(x, k, c)])"
      "hd (pre @ (x, k, c) # ds @ rst) = hd (pre @ [(x, k, c)])" by (cases pre; simp)+
  have so: "sorted_wrt (<) (map key_of (List.tl (pre @ [(x, k, c)]) @ ds @ rst))"
      "\<forall>y \<in> set (List.tl (pre @ [(x, k, c)])). key_of y < K"
    using ch(1,3) by (cases pre; simp add: chain_def)+
  have rs: "\<forall>y \<in> set rst. K < key_of y"
    using assms(2) so(1) by (cases rst) (auto simp: sorted_wrt_append)
  have "sorted_wrt (<) (map key_of (List.tl (pre @ [(x, k, c)]) @ mid @ rst))"
    unfolding map_append
    by (rule sorted_insert [where K = K]) (use so rs assms(5) in \<open>auto simp: sorted_wrt_append dest: bspec\<close>)
  moreover have "List.tl (pre @ (x, k, c) # mid @ rst) = List.tl (pre @ [(x, k, c)]) @ mid @ rst" by (cases pre) simp_all
  moreover have D: "distinct (z # map fst (pre @ (x, k, c) # ds @ rst))"
    and I: "\<forall>l \<in> insert z (locs (pre @ (x, k, c) # ds @ rst)). is_loc L l" and "0 < count (hd (pre @ [(x, k, c)]))"
    using ch(1) unfolding chain_def hd by blast+
  moreover from assms(5) have "distinct (z # map fst (pre @ (x, k, c) # mid @ rst))"
  proof (elim disjE exE conjE)
    assume "mid = []"
    with D show ?thesis by auto
  next
    fix l w n assume "mid = [(l, w, n)]" "l \<notin> insert z (locs (pre @ (x, k, c) # ds @ rst))"
    with D show ?thesis by (simp add: image_Un) blast
  qed
  moreover from assms(5) have "\<forall>l \<in> insert z (locs (pre @ (x, k, c) # mid @ rst)). is_loc L l"
    using I by (elim disjE exE conjE) (simp_all add: ball_Un image_Un)
  ultimately show ?thesis
    using assms(3,4) unfolding chain_def hd by (simp del: append.simps)
qed

text \<open>A sweep without an insertion: \<open>REMOVE\<close> links \<open>curr\<close> behind \<open>prev\<close>.\<close>

lemma finish_remove:
  assumes ok: "ok b F s" and pos: "position L s z K pre (x, k, c) ds rst v"
    and K: "rst \<noteq> [] \<Longrightarrow> K < key_of (hd rst)" and dj: "locs ds \<inter> F = {}"
    and e: "e_layout e = L" "e_return e = ret" "e_flag e = REMOVE" and len: "length ds < fuel"
  shows "\<exists>t. run (cas_append kp fuel e v) s = Done 0 t \<and> ok b (F \<union> locs ds) t \<and>
    keeps (insert x (locs ds)) s t \<and> chain L t z (pre @ (x, k, c) # rst)"
proof -
  obtain f where f: "fuel = Suc f" using len by (cases fuel) auto
  note cur = position_curr [OF pos]
  have z: "is_loc L z" "view z s \<noteq> None" "z \<noteq> x" "z \<notin> locs ds" using pos by (auto simp: position_def chain_def)
  obtain t where t: "run (append_loop kp fuel (Suc f) e (v_curr v) v) s = Done (if e_flag e = RECORD then 1 else 0) t"
      "ok b (F \<union> locs ds) t" "keeps (insert x (locs ds)) s t"
      "seg L t (fst (hd (pre @ [(x, k, c)]))) (pre @ (x, k, c) # [] @ rst) z"
    using append_run [OF ok pos _ cur(2,3), of "[]" e fuel kp f] positionD(3) [OF pos] dj e len by auto
  have "view z t \<noteq> None" using keeps_view [OF t(3), of z] z by auto
  from chain_insert [OF pos K t(4) this] have "chain L t z (pre @ (x, k, c) # rst)" by simp
  with t e f show ?thesis by (auto simp: cas_append_def)
qed

lemma finish_record:
  assumes ok: "ok (Suc b) F s" and pos: "position L s z (sint key) pre (x, k, c) ds rst v"
    and K: "rst \<noteq> [] \<Longrightarrow> sint key < key_of (hd rst)" and dj: "insert z (locs (pre @ (x, k, c) # ds @ rst)) \<inter> F = {}"
    and e: "e_layout e = L" "e_return e = ret" "e_get e = get" "e_flag e = RECORD" "e_pointer e = key"
    and len: "length ds < fuel" and my: "v_my v = None"
  shows "\<exists>l t. run (cas_append kp fuel e v) s = Done 1 t \<and> l \<in> F \<and> ok b (F - {l} \<union> locs ds) t \<and>
    keeps (insert l (insert x (locs ds))) s t \<and> chain L t z (pre @ (x, k, c) # (l, key, 1) # rst)"
proof -
  obtain f where f: "fuel = Suc f" using len by (cases fuel) auto
  from get_ok [OF ok] obtain l s1 r1 where g: "run get s = Done (Some l) s1" "keeps {} s s1"
    and l: "l \<in> F" "is_loc L l" "rget l s1 = Some r1" "ok b (F - {l}) s1" by blast
  let ?s2 = "rset l (set_pointer key) s1"
  have k2: "keeps {l} s ?s2" by (rule keeps_rset_in) (use keeps_mono [OF g(2)] in auto)
  have lf: "l \<notin> insert z (locs (pre @ (x, k, c) # ds @ rst))" using dj l(1) by auto
  have p2: "position L ?s2 z (sint key) pre (x, k, c) ds rst v" by (rule position_keeps [OF k2 pos]) (use lf in auto)
  obtain rc where rc: "rget (v_curr v) ?s2 = Some rc" using position_curr(3) [OF p2] by auto
  have o2: "ok b (F - {l}) ?s2" by (rule ok_set(2) [OF l(4)])
  have self: "r_self rc = self_word (idxNum L) (v_curr v)" by (rule ok_self [OF o2 position_curr(2) [OF p2] rc])
  let ?w = "newNext L (r_nextRecord r1) (r_self rc)"
  let ?s3 = "rset l (set_nextRecord ?w) ?s2"
  let ?v = "v\<lparr>v_my := Some l, v_localN := r_nextRecord r1\<rparr>"
  have k3: "keeps {l} s ?s3" by (rule keeps_rset_in [OF k2]) simp
  have p3: "position L ?s3 z (sint key) pre (x, k, c) ds rst v" by (rule position_keeps [OF k3 pos]) (use lf in auto)
  then have p3': "position L ?s3 z (sint key) pre (x, k, c) ds rst ?v" by simp
  have w: "refc L ?w = 1" "loc_of L ?w = v_curr v"
    using loc_of_self [OF layout position_curr(2) [OF p2]]
    by (simp_all add: newNext_fields [OF layout] self loc_of_scast [OF layout])
  have "view l ?s3 = Some (?w, key)" using l(3) by (simp add: view_def set_nextRecord_def set_pointer_def)
  then have app: "seg L ?s3 l ([(l, key, 1)] @ rst) z" using positionD(3) [OF p3] w by simp
  obtain t where t: "run (append_loop kp fuel (Suc f) e l ?v) ?s3 = Done (if e_flag e = RECORD then 1 else 0) t"
      "ok b (F - {l} \<union> locs ds) t" "keeps (insert x (locs ds)) ?s3 t"
      "seg L t (fst (hd (pre @ [(x, k, c)]))) (pre @ (x, k, c) # [(l, key, 1)] @ rst) z"
    using append_run [OF ok_set(1) [OF o2] p3' app l(2), of e fuel kp f] lf dj e len l(2,3) by auto
  have kt: "keeps (insert l (insert x (locs ds))) s t"
    by (rule keeps_trans [OF keeps_mono [OF k3] keeps_mono [OF t(3)]]) auto
  have z: "is_loc L z" "view z s \<noteq> None" "z \<noteq> x" "z \<notin> locs ds" "z \<noteq> l" using pos lf by (auto simp: position_def chain_def)
  have "view z t \<noteq> None" using keeps_view [OF kt, of z] z by auto
  from chain_insert [OF pos K t(4) this] lf l(2) have "chain L t z (pre @ (x, k, c) # (l, key, 1) # rst)" by simp
  moreover have "run (cas_append kp fuel e v) s = Done 1 t"
    using t(1) g(1) l(3) e f my rc by (simp add: cas_append_def link_my_def)
  ultimately show ?thesis using t(2) kt l(1) by blast
qed

lemma run_body:
  assumes ok: "ok b F s" and pos: "position L s z K pre (x, k, c) ds rst v"
    and e: "e_layout e = L" "e_tail e = z" "sint (e_pointer e) = K"
    and cur: "rget (v_curr v) s = Some r"
  shows "run (loop_body kp fuel e v) s =
    (if rst = [] \<or> K < sint (r_pointer r) then
       (if e_flag e = SEARCH \<or> e_flag e = REMOVE \<and> ds = [] then Done 0 s else run (cas_append kp fuel e v) s)
     else run (pass_or_hit kp fuel e (r_pointer r) (r_nextRecord r) v) s)"
proof -
  note pd = positionD [OF pos] and pc = position_curr [OF pos]
  from pos have v: "v_prev v = x" "view x s = Some (v_prevNext v, k)" "0 < c" "v_curr v = start rst z"
      "distinct (z # map fst (pre @ (x, k, c) # ds @ rst))"
    by (simp_all add: position_def chain_def)
  have c: "v_prevNext v AND REFCBITS L \<noteq> DELETED" using pd(4) v(3) by (simp add: deleted_iff [OF layout])
  have end_iff: "v_curr v = z \<longleftrightarrow> rst = []" using v(4,5) by (cases rst) (auto simp: start_def)
  have "loc_of L (v_prevNext v) = v_curr v \<longleftrightarrow> ds = []"
  proof (cases ds)
    case Nil
    with pd(2) show ?thesis by simp
  next
    case (Cons d ds')
    with pd(2) have "loc_of L (v_prevNext v) = fst d" by (cases d) auto
    moreover have "fst d \<notin> insert z (locs rst)" using v(5) Cons by simp blast
    then have "fst d \<noteq> v_curr v" by (rule contrapos_nn) (use pc(1) in simp)
    ultimately show ?thesis using Cons by simp
  qed
  then have same: "v_prevNext v AND ARRIDXBITL L = scast (r_self r) AND ARRIDXBITL L \<longleftrightarrow> ds = []"
    using at_self [OF ok pc(2) cur] by simp
  have id: "v\<lparr>v_prevNext := v_prevNext v\<rparr> = v" by simp
  obtain rp where rp: "rget x s = Some rp" "r_nextRecord rp = v_prevNext v" using v(2) by (auto simp: view_Some)
  show ?thesis
    using cur rp c e v(1) by (auto simp: loop_body_def stale_def moved_def Let_def id end_iff same)
qed

end

lemma seg_update:
  assumes "seg L s l (A @ (x, k, n) # B) l'" and "x \<notin> locs A" and "x \<notin> locs B"
    and "view x s = Some (w0, k)" and "loc_of L w = loc_of L w0"
  shows "seg L (rset x (set_nextRecord w) s) l (A @ (x, k, refc L w) # B) l'"
  using assms by (auto simp: seg_append)

lemma chain_update:
  assumes "chain L s z (A @ (x, k, n) # B)" and "A \<noteq> []"
    and "view x s = Some (w0, k)" and "loc_of L w = loc_of L w0"
  shows "chain L (rset x (set_nextRecord w) s) z (A @ (x, k, refc L w) # B)"
proof -
  have hd: "hd (A @ (x, k, m) # B) = hd A" "map key_of (List.tl (A @ (x, k, m) # B)) = map key_of (List.tl A @ (x, k, n) # B)" for m
    using assms(2) by simp_all
  from assms(1) have "seg L s (fst (hd A)) (A @ (x, k, n) # B) z" "x \<notin> locs A" "x \<notin> locs B" "z \<noteq> x"
    unfolding chain_def hd by auto
  from seg_update [OF this(1-3) assms(3,4)] \<open>z \<noteq> x\<close> assms(1) show ?thesis
    unfolding chain_def hd by auto
qed

lemma tl_whole: "List.tl (pre @ x # es) = List.tl (pre @ [x]) @ es" "hd (pre @ x # es) = hd (pre @ [x])"
  by (cases pre; simp)+

lemma cnt_deleted: "\<forall>d \<in> set ds. count d = 0 \<Longrightarrow> cnt ds k = 0"
  by (rule cnt_other) simp

lemma cnt_above: "sorted_wrt (<) (map key_of rst) \<Longrightarrow> (rst \<noteq> [] \<Longrightarrow> sint key < key_of (hd rst)) \<Longrightarrow> cnt rst key = 0"
  by (cases rst) (fastforce intro!: cnt_other)+

lemma cnt_below: "\<forall>y \<in> set es. key_of y < sint key \<Longrightarrow> cnt es key = 0"
  by (rule cnt_other) auto

context record_pool
begin

definition outcome :: "nat \<Rightarrow> loc set \<Rightarrow> ('c, 'z) pool_scheme \<Rightarrow> loc \<Rightarrow> entry list \<Rightarrow> (64 word \<Rightarrow> nat) \<Rightarrow> ('c, 'z) pool_scheme \<Rightarrow> bool" where
  "outcome b F s z es g t \<longleftrightarrow> (\<exists>es' F'. chain L t z es' \<and> hd es' = hd es \<and> ok b F' t \<and>
     locs es' \<union> F' = locs es \<union> F \<and> locs es' \<inter> F' = {} \<and>
     keeps (locs es \<union> F) s t \<and> cnt (List.tl es') = g)"

lemma ok_need: "ok (need f b) F s \<Longrightarrow> ok b F s"
  by (auto simp: need_def intro: ok_less split: if_splits)

lemma loop_end:
  assumes ok: "ok (need (e_flag e) b) F s" and pos: "position L s z (sint key) pre (x, k, c) ds rst v"
    and K: "rst \<noteq> [] \<Longrightarrow> sint key < key_of (hd rst)" and dj: "insert z (locs (pre @ (x, k, c) # ds @ rst)) \<inter> F = {}"
    and e: "e_layout e = L" "e_return e = ret" "e_get e = get" "e_pointer e = key"
    and len: "length ds < fuel" and my: "v_my v = None"
  defines "es \<equiv> pre @ (x, k, c) # ds @ rst" and "d \<equiv> if e_flag e = RECORD then 1 else 0"
  shows "\<exists>t. (if e_flag e = SEARCH \<or> e_flag e = REMOVE \<and> ds = [] then Done 0 s else run (cas_append kp fuel e v) s)
      = Done (int d) t \<and> outcome b F s z es ((cnt (List.tl es))(key := cnt (List.tl es) key + d)) t"
proof -
  have ch: "chain L s z es" and zero: "\<forall>d \<in> set ds. count d = 0" using pos by (simp_all add: position_def es_def)
  then have dist: "distinct (map fst es)" by (simp add: chain_def)
  define U D where OD: "U = insert x (locs pre \<union> locs rst)" "D = locs ds"
  have dO: "D \<inter> U = {}" using dist unfolding es_def OD by auto
  have dF: "F \<inter> U = {}" "F \<inter> D = {}" using dj unfolding OD by (auto simp: image_Un)
  have lo: "locs (pre @ (x, k, c) # rst) = U" "locs es = U \<union> D" by (auto simp: es_def OD)
  have cn: "cnt (List.tl es) j = cnt (List.tl (pre @ [(x, k, c)])) j + cnt rst j" for j
    by (simp add: es_def tl_whole(1) [of pre _ "ds @ rst"] cnt_deleted [OF zero])
  consider "e_flag e = SEARCH \<or> e_flag e = REMOVE \<and> ds = []" | "e_flag e = REMOVE" "ds \<noteq> []" | "e_flag e = RECORD"
    by (cases "e_flag e") auto
  then show ?thesis
  proof cases
    case 1
    then have "d = 0" by (auto simp: d_def)
    moreover have "keeps (locs es \<union> F) s s" by (rule keeps_mono [OF keeps_refl]) simp
    ultimately show ?thesis using 1 ok_need [OF ok] ch dj unfolding outcome_def
      by (intro exI [of _ s] conjI exI [of _ es] exI [of _ F]) (auto simp: es_def)
  next
    case 2
    from finish_remove [OF ok_need [OF ok] pos K _ e(1,2) 2(1) len, of kp] dj obtain t where
      t: "run (cas_append kp fuel e v) s = Done 0 t" "ok b (F \<union> locs ds) t"
        "keeps (insert x (locs ds)) s t" "chain L t z (pre @ (x, k, c) # rst)" by auto
    have "cnt (List.tl (pre @ (x, k, c) # rst)) = cnt (List.tl es)"
      by (rule ext) (simp add: cn tl_whole(1) [of pre _ rst])
    moreover have "keeps (locs es \<union> F) s t" by (rule keeps_mono [OF t(3)]) (auto simp: es_def)
    moreover have "locs (pre @ (x, k, c) # rst) \<union> (F \<union> locs ds) = locs es \<union> F"
      unfolding lo OD(2) [symmetric] by blast
    moreover have "locs (pre @ (x, k, c) # rst) \<inter> (F \<union> locs ds) = {}"
      using dO dF unfolding lo OD(2) [symmetric] by blast
    moreover have "hd (pre @ (x, k, c) # rst) = hd es"
      unfolding es_def tl_whole(2) [of pre _ rst] tl_whole(2) [of pre _ "ds @ rst"] ..
    ultimately have "outcome b F s z es (cnt (List.tl es)) t" unfolding outcome_def using t(2,4)
      by (intro exI [of _ "pre @ (x, k, c) # rst"] exI [of _ "F \<union> locs ds"]) simp
    with t(1) 2 show ?thesis by (auto simp: d_def)
  next
    case 3
    from finish_record [OF ok [unfolded 3 need_simps] pos K dj e(1,2,3) 3 e(4) len my, of kp] obtain l t where
      t: "run (cas_append kp fuel e v) s = Done 1 t" "l \<in> F" "ok b (F - {l} \<union> locs ds) t"
        "keeps (insert l (insert x (locs ds))) s t" "chain L t z (pre @ (x, k, c) # (l, key, 1) # rst)" by blast
    have ll: "locs (pre @ (x, k, c) # (l, key, 1) # rst) = insert l U" by (auto simp: OD)
    have "cnt (List.tl (pre @ (x, k, c) # (l, key, 1) # rst)) = (cnt (List.tl es))(key := cnt (List.tl es) key + 1)"
      by (rule ext) (simp add: cn tl_whole(1) [of pre _ "_ # rst"])
    moreover have "keeps (locs es \<union> F) s t" by (rule keeps_mono [OF t(4)]) (use t(2) in \<open>auto simp: es_def\<close>)
    moreover have "locs (pre @ (x, k, c) # (l, key, 1) # rst) \<union> (F - {l} \<union> locs ds) = locs es \<union> F"
      using t(2) unfolding ll lo(2) OD(2) [symmetric] by blast
    moreover have "locs (pre @ (x, k, c) # (l, key, 1) # rst) \<inter> (F - {l} \<union> locs ds) = {}"
      using t(2) dO dF unfolding ll OD(2) [symmetric] by blast
    moreover have "hd (pre @ (x, k, c) # (l, key, 1) # rst) = hd es"
      unfolding es_def tl_whole(2) [of pre _ "_ # rst"] tl_whole(2) [of pre _ "ds @ rst"] ..
    ultimately have "outcome b F s z es ((cnt (List.tl es))(key := cnt (List.tl es) key + 1)) t"
      unfolding outcome_def using t(3,5)
      by (intro exI [of _ "pre @ (x, k, c) # (l, key, 1) # rst"] exI [of _ "F - {l} \<union> locs ds"]) simp
    with t(1) 3 show ?thesis by (auto simp: d_def)
  qed
qed

lemma cnt_position:
  assumes "position L s z (sint key) pre x ds rst v"
  shows "cnt (List.tl (pre @ x # ds @ rst)) key = cnt rst key"
  using assms unfolding tl_whole(1) [of pre x "ds @ rst"] by (simp add: position_def cnt_deleted cnt_below)

lemma outcome_cong:
  assumes "outcome b F s' z es' g t" and "keeps (locs es \<union> F) s s'" and "locs es' = locs es" and "hd es' = hd es"
  shows "outcome b F s z es g t"
proof -
  from assms(1) obtain es1 F1 where o: "chain L t z es1" "hd es1 = hd es'" "ok b F1 t" "locs es1 \<union> F1 = locs es' \<union> F"
      "locs es1 \<inter> F1 = {}" "keeps (locs es' \<union> F) s' t" "cnt (List.tl es1) = g"
    unfolding outcome_def by blast
  have "keeps (locs es \<union> F) s t" using keeps_trans [OF assms(2)] o(6) assms(3) by simp
  with o assms(3,4) show ?thesis unfolding outcome_def by (intro exI [of _ es1] exI [of _ F1]) simp
qed

lemma position_skip:
  assumes "position L s z K pre x ds ((l, k, 0) # rst) v"
  shows "position L s z K pre x (ds @ [(l, k, 0)]) rst (v\<lparr>v_curr := start rst z\<rparr>)"
  using assms by (simp add: position_def)

lemma position_pass:
  assumes "position L s z K pre x ds ((l, k, n) # rst) v" and "sint k < K" and "0 < n" and "view l s = Some (w, k)"
  shows "position L s z K (pre @ x # ds) (l, k, n) [] rst (v\<lparr>v_prev := l, v_prevNext := w, v_curr := start rst z\<rparr>)"
proof -
  from assms(1) have ch: "chain L s z (pre @ x # ds @ (l, k, n) # rst)" by (simp add: position_def)
  then have "sorted_wrt (<) (map key_of (List.tl (pre @ [x]) @ ds @ (l, k, n) # rst))"
    unfolding chain_def tl_whole(1) [of pre x "ds @ (l, k, n) # rst"] by blast
  then have "\<forall>y \<in> set (List.tl (pre @ [x]) @ ds). key_of y < K"
    using assms(2) by (force simp: sorted_wrt_append)
  moreover have "List.tl ((pre @ x # ds) @ [(l, k, n)]) = List.tl (pre @ [x]) @ ds @ [(l, k, n)]"
    using tl_whole(1) [of pre x "ds @ [(l, k, n)]"] by simp
  ultimately have "\<forall>y \<in> set (List.tl ((pre @ x # ds) @ [(l, k, n)])). key_of y < K"
    using assms(2) by (simp add: ball_Un)
  with ch assms(3,4) show ?thesis unfolding position_def by simp
qed

lemma position_rest:
  assumes "position L s z K pre x ds ((l, k, n) # rst) v"
  shows "\<exists>w. view l s = Some (w, k) \<and> refc L w = n \<and> v_curr v = l \<and> start rst z = loc_of L w"
    and "rst \<noteq> [] \<Longrightarrow> sint k < key_of (hd rst)"
    and "l \<notin> locs (pre @ x # ds)" and "l \<notin> locs rst" and "l \<noteq> z" and "l \<noteq> fst x" and "is_loc L l"
proof -
  have "seg L s (v_curr v) ((l, k, n) # rst) z"
    using positionD(3) [of L s z K pre "fst x" "fst (snd x)" "snd (snd x)" "ds" "(l, k, n) # rst" v] assms by simp
  moreover from this have "seg L s (loc_of L (fst (the (view l s)))) rst z" by auto
  ultimately show "\<exists>w. view l s = Some (w, k) \<and> refc L w = n \<and> v_curr v = l \<and> start rst z = loc_of L w"
    using seg_start by fastforce
  have ch: "chain L s z (pre @ x # ds @ (l, k, n) # rst)" using assms by (simp add: position_def)
  then have "sorted_wrt (<) (map key_of (List.tl (pre @ [x]) @ ds @ (l, k, n) # rst))"
    unfolding chain_def tl_whole(1) [of pre x "ds @ (l, k, n) # rst"] by blast
  then show "rst \<noteq> [] \<Longrightarrow> sint k < key_of (hd rst)" by (cases rst) (simp_all add: sorted_wrt_append)
  from ch have "distinct (z # map fst (pre @ x # ds @ (l, k, n) # rst))" "is_loc L l"
    by (simp_all add: chain_def)
  then show "l \<notin> locs (pre @ x # ds)" "l \<notin> locs rst" "l \<noteq> z" "l \<noteq> fst x" "is_loc L l"
    by (simp_all add: image_Un) blast+
qed

lemma position_cnt:
  assumes "position L s z (sint key) pre x ds ((l, key, n) # rst) v"
  shows "cnt (List.tl (pre @ x # ds @ (l, key, m) # rst)) = (cnt (List.tl (pre @ x # ds @ (l, key, n) # rst)))(key := m)"
proof
  fix j
  have "cnt rst key = 0"
    using assms position_rest(2) [OF assms] unfolding position_def chain_def tl_whole(1) [of pre x "ds @ (l, key, n) # rst"]
    by (intro cnt_above) (auto simp: sorted_wrt_append)
  moreover have "cnt (List.tl (pre @ [x])) key = 0" "cnt ds key = 0"
    using assms by (simp_all add: position_def cnt_below cnt_deleted)
  ultimately show "cnt (List.tl (pre @ x # ds @ (l, key, m) # rst)) j
      = ((cnt (List.tl (pre @ x # ds @ (l, key, n) # rst)))(key := m)) j"
    unfolding tl_whole(1) [of pre x "ds @ (l, key, n) # rst"] tl_whole(1) [of pre x "ds @ (l, key, m) # rst"] by simp
qed

text \<open>Changing the count of the entry at the key.\<close>

lemma hit_update:
  assumes ok: "ok b F s" and pos: "position L s z (sint key) pre x ds ((l, key, n) # rst) v"
    and dj: "insert z (locs (pre @ x # ds @ (l, key, n) # rst)) \<inter> F = {}"
    and w: "view l s = Some (w0, key)" "loc_of L w = loc_of L w0" "refc L w = m"
  shows "outcome b F s z (pre @ x # ds @ (l, key, n) # rst)
      ((cnt (List.tl (pre @ x # ds @ (l, key, n) # rst)))(key := m)) (rset l (set_nextRecord w) s)"
    and "chain L (rset l (set_nextRecord w) s) z (pre @ x # ds @ (l, key, m) # rst)"
    and "keeps (locs (pre @ x # ds @ (l, key, n) # rst) \<union> F) s (rset l (set_nextRecord w) s)"
proof -
  have "chain L s z ((pre @ x # ds) @ (l, key, n) # rst)" using pos by (simp add: position_def)
  from chain_update [OF this _ w(1,2)] w(3)
  show ch: "chain L (rset l (set_nextRecord w) s) z (pre @ x # ds @ (l, key, m) # rst)" by simp
  show ke: "keeps (locs (pre @ x # ds @ (l, key, n) # rst) \<union> F) s (rset l (set_nextRecord w) s)"
    by (rule keeps_mono [OF keeps_rset]) simp
  have lo: "locs (pre @ x # ds @ (l, key, m) # rst) = locs (pre @ x # ds @ (l, key, n) # rst)" by simp
  have "hd (pre @ x # ds @ (l, key, m) # rst) = hd (pre @ x # ds @ (l, key, n) # rst)"
    unfolding tl_whole(2) [of pre x "ds @ (l, key, n) # rst"] tl_whole(2) [of pre x "ds @ (l, key, m) # rst"] ..
  moreover have "locs (pre @ x # ds @ (l, key, m) # rst) \<inter> F = {}" using dj unfolding lo by blast
  ultimately show "outcome b F s z (pre @ x # ds @ (l, key, n) # rst)
      ((cnt (List.tl (pre @ x # ds @ (l, key, n) # rst)))(key := m)) (rset l (set_nextRecord w) s)"
    unfolding outcome_def using ch ke ok_set(1) [OF ok] position_cnt [OF pos, of m] lo
    by (intro exI [of _ "pre @ x # ds @ (l, key, m) # rst"] exI [of _ F]) simp
qed

text \<open>The environment of a call: the list from \<open>h\<close> to \<open>z\<close>, this pool, and a note that touches nothing
  of the pool.\<close>

definition env_ok :: "('c, 'z) pool_scheme env \<Rightarrow> loc \<Rightarrow> 64 word \<Rightarrow> bool" where
  "env_ok e z key \<longleftrightarrow> e_layout e = L \<and> e_return e = ret \<and> e_get e = get \<and> e_tail e = z \<and> e_pointer e = key \<and>
     (\<forall>v k s b F. ok b F s \<longrightarrow> (\<exists>t. run (e_note e v k) s = run k t \<and> keeps {} s t \<and> ok b F t))"

lemma hit_run:
  assumes ok: "ok (need (e_flag e) b) F s" and pos: "position L s z (sint key) pre x ds ((l, key, n) # rst) v"
    and dj: "insert z (locs (pre @ x # ds @ (l, key, n) # rst)) \<inter> F = {}" and e: "env_ok e z key"
    and len: "Suc (length ds) < fuel" and my: "v_my v = None" and rem: "\<not> v_removed v" and f: "e_flag e \<noteq> SEARCH"
    and n: "0 < n" "e_flag e = RECORD \<Longrightarrow> n < 2 ^ refNum L - 1" and w: "view l s = Some (w, key)"
  defines "es \<equiv> pre @ x # ds @ (l, key, n) # rst"
  shows "\<exists>t. run (at_key (keep_prev (Suc m) fuel e) fuel e w v) s = Done (int (op_count (e_flag e) n)) t \<and>
    outcome b F s z es ((cnt (List.tl es))(key := op_count (e_flag e) n)) t"
proof -
  note pr = position_rest [OF pos]
  from pr(1) w have cur: "v_curr v = l" "refc L w = n" "start rst z = loc_of L w" by auto
  obtain r where r: "rget l s = Some r" "r_nextRecord r = w" using w by (auto simp: view_Some)
  have le: "e_layout e = L" "e_tail e = z" "e_pointer e = key" "e_return e = ret" "e_get e = get"
    using e by (simp_all add: env_ok_def)
  show ?thesis
  proof (cases "e_flag e")
    case RECORD
    obtain f where fu: "fuel = Suc f" using len by (cases fuel) auto
    have p: "refc L (plusRecord L w) = n + 1" "loc_of L (plusRecord L w) = loc_of L w"
      using plusRecord_fields(1,4) [OF layout, of w] n(2) [OF RECORD] cur(2) by auto
    have "run (at_key (keep_prev (Suc m) fuel e) fuel e w v) s = Done (int (n + 1)) (rset l (set_nextRecord (plusRecord L w)) s)"
      using r cur rem RECORD my le fu p(1) by (simp add: at_key_def Let_def count_of_refc [OF layout])
    with hit_update(1) [OF ok_need [OF ok] pos dj w p(2,1)] RECORD show ?thesis by (auto simp: op_count_def es_def)
  next
    case REMOVE
    let ?w = "sub_REFONE L w" and ?s = "rset l (set_nextRecord (sub_REFONE L w)) s"
    have p: "refc L ?w = n - 1" "loc_of L ?w = loc_of L w"
      using n(1) cur(2) sub_REFONE_fields(3,4) [OF layout, of w] by auto
    note up = hit_update [OF ok_need [OF ok] pos dj w p(2,1)]
    show ?thesis
    proof (cases "n = 1")
      case False
      then have "?w AND REFCBITS L \<noteq> DELETED" using p(1) n(1) by (simp add: deleted_iff [OF layout])
      then have "run (at_key (keep_prev (Suc m) fuel e) fuel e w v) s = Done (int (n - 1)) ?s"
        using r cur rem REMOVE le p(1) by (simp add: at_key_def count_of_refc [OF layout])
      with up(1) REMOVE show ?thesis by (auto simp: op_count_def es_def)
    next
      case True
      let ?es = "pre @ x # (ds @ [(l, key, 0)]) @ rst" and ?v = "v\<lparr>v_removed := True, v_curr := start rst z\<rparr>"
      have "?w AND REFCBITS L = DELETED" using p(1) True by (simp add: deleted_iff [OF layout])
      then have rn: "run (at_key (keep_prev (Suc m) fuel e) fuel e w v) s = run (keep_prev (Suc m) fuel e ?v) ?s"
        using r cur rem REMOVE le p(2) by (simp add: at_key_def)
      have "view (fst x) ?s = view (fst x) s" using pr(6) by simp
      then have "position L ?s z (sint key) pre x ds ((l, key, 0) # rst) v"
        using pos up(2) True by (simp add: position_def start_def)
      then have p1: "position L ?s z (sint key) pre x (ds @ [(l, key, 0)]) rst (v\<lparr>v_curr := start rst z\<rparr>)"
        by (rule position_skip)
      then have p2: "position L ?s z (sint key) pre x (ds @ [(l, key, 0)]) rst ?v" by (simp add: position_def)
      have o2: "ok (need (e_flag e) b) F ?s" by (rule ok_set(1) [OF ok])
      obtain rc where rc: "rget (v_curr ?v) ?s = Some rc"
        using position_curr(3) [OF p2] by auto
      have dj2: "insert z (locs ?es) \<inter> F = {}" using dj by simp
      obtain x1 x2 x3 where x: "x = (x1, x2, x3)" by (cases x)
      have K: "rst \<noteq> [] \<Longrightarrow> sint key < key_of (hd rst)" by (rule pr(2))
      have "rst = [] \<or> sint key < sint (r_pointer rc)"
      proof (cases rst)
        case (Cons y rst')
        obtain y1 y2 y3 where y: "y = (y1, y2, y3)" by (cases y)
        have "\<exists>w. view y1 ?s = Some (w, y2) \<and> v_curr ?v = y1"
          using position_rest(1) [OF p2 [unfolded Cons y]] unfolding Cons y by blast
        moreover have "view (v_curr ?v) ?s = Some (r_nextRecord rc, r_pointer rc)"
          using rc by (simp only: view_def option.map)
        ultimately have "r_pointer rc = y2" by (metis option.inject prod.inject)
        with K Cons y show ?thesis by auto
      qed simp
      then have rb: "run (keep_prev (Suc m) fuel e ?v) ?s = (if e_flag e = SEARCH \<or> e_flag e = REMOVE \<and> ds @ [(l, key, 0)] = []
          then Done 0 ?s else run (cas_append (keep_prev m fuel e) fuel e ?v) ?s)"
        using run_body [OF o2 p2 [unfolded x] le(1,2) _ rc, of "keep_prev m fuel e" fuel] le(3) by simp
      obtain t where t: "run (keep_prev (Suc m) fuel e ?v) ?s = Done 0 t"
          "outcome b F ?s z ?es (cnt (List.tl ?es)) t"
        using loop_end [OF o2 p2 [unfolded x] K _ le(1,4,5,3), of fuel "keep_prev m fuel e"] dj2 len my REMOVE
        unfolding rb x by auto
      have "cnt (List.tl ?es) = (cnt (List.tl es))(key := 0)"
        unfolding es_def using position_cnt [OF pos, of 0] by simp
      moreover have "outcome b F s z es (cnt (List.tl ?es)) t"
      proof (rule outcome_cong [OF t(2)])
        show "keeps (locs es \<union> F) s ?s" using up(3) by (simp only: es_def)
        show "hd ?es = hd es" unfolding es_def by (cases pre) simp_all
      qed (simp add: es_def)
      ultimately show ?thesis using rn t(1) True REMOVE by (auto simp: op_count_def)
    qed
  qed (use f in simp)
qed

lemma end_run:
  assumes ok: "ok (need (e_flag e) b) F s" and pos: "position L s z (sint key) pre x ds rst v"
    and K: "rst \<noteq> [] \<Longrightarrow> sint key < key_of (hd rst)"
    and dj: "insert z (locs (pre @ x # ds @ rst)) \<inter> F = {}" and e: "env_ok e z key"
    and len: "length ds < fuel" and my: "v_my v = None"
    and cur: "rget (v_curr v) s = Some r" "rst = [] \<or> sint key < sint (r_pointer r)"
  defines "es \<equiv> pre @ x # ds @ rst"
  shows "\<exists>t. run (loop_body kp fuel e v) s = Done (int (op_count (e_flag e) (cnt (List.tl es) key))) t \<and>
    outcome b F s z es ((cnt (List.tl es))(key := op_count (e_flag e) (cnt (List.tl es) key))) t"
proof -
  obtain x1 x2 x3 where x: "x = (x1, x2, x3)" by (cases x)
  have le: "e_layout e = L" "e_tail e = z" "e_pointer e = key" "e_return e = ret" "e_get e = get"
    using e by (simp_all add: env_ok_def)
  have so: "sorted_wrt (<) (map key_of rst)"
    using pos unfolding position_def chain_def tl_whole(1) [of pre x "ds @ rst"] by (simp add: sorted_wrt_append)
  have "cnt (List.tl es) key = 0"
    unfolding es_def cnt_position [OF pos] by (rule cnt_above [OF so K])
  then have op: "op_count (e_flag e) (cnt (List.tl es) key) = cnt (List.tl es) key + (if e_flag e = RECORD then 1 else 0)"
    by (simp add: op_count_def split: flag.split)
  have "run (loop_body kp fuel e v) s = (if e_flag e = SEARCH \<or> e_flag e = REMOVE \<and> ds = []
      then Done 0 s else run (cas_append kp fuel e v) s)"
    using run_body [OF ok pos [unfolded x] le(1,2) _ cur(1), of kp fuel] le(3) cur(2) by auto
  with loop_end [OF ok pos [unfolded x] K dj [unfolded x] le(1,4,5,3) len my, of kp]
  show ?thesis unfolding op unfolding es_def x by (simp add: \<open>cnt (List.tl es) key = 0\<close> [unfolded es_def x])
qed

lemma loop_run:
  assumes ok: "ok (need (e_flag e) b) F s" and pos: "position L s z (sint key) pre x ds rst v"
    and dj: "insert z (locs (pre @ x # ds @ rst)) \<inter> F = {}" and e: "env_ok e z key"
    and len: "length (pre @ x # ds @ rst) < fuel" "length rst + 1 < n" and my: "v_my v = None" and rem: "\<not> v_removed v"
    and max: "e_flag e = RECORD \<Longrightarrow> cnt (List.tl (pre @ x # ds @ rst)) key < 2 ^ refNum L - 1"
  defines "es \<equiv> pre @ x # ds @ rst"
  shows "\<exists>t. run (keep_prev n fuel e v) s = Done (int (op_count (e_flag e) (cnt (List.tl es) key))) t \<and>
    outcome b F s z es ((cnt (List.tl es))(key := op_count (e_flag e) (cnt (List.tl es) key))) t"
  using ok pos dj len my rem max unfolding es_def
proof (induction rst arbitrary: n s pre x ds v)
  case Nil
  then obtain m where n: "n = Suc m" by (cases n) auto
  obtain r where "rget (v_curr v) s = Some r" using position_curr(3) [OF Nil.prems(2)] by auto
  from end_run [OF Nil.prems(1,2) _ Nil.prems(3) e _ Nil.prems(6) this, of fuel "keep_prev m fuel e"] Nil.prems(4)
  show ?case by (simp add: n fun_upd_def)
next
  case (Cons y rst)
  obtain m where n: "n = Suc (Suc m)" using Cons.prems(5) by (cases n; cases "n - 1") auto
  obtain x1 x2 x3 where x: "x = (x1, x2, x3)" by (cases x)
  obtain l k c where y: "y = (l, k, c)" by (cases y)
  have le: "e_layout e = L" "e_tail e = z" "e_pointer e = key" "e_return e = ret" "e_get e = get"
    and nt: "\<And>v k s b F. ok b F s \<Longrightarrow> \<exists>t. run (e_note e v k) s = run k t \<and> keeps {} s t \<and> ok b F t"
    using e by (simp_all add: env_ok_def)
  have pos: "position L s z (sint key) pre x ds ((l, k, c) # rst) v" using Cons.prems(2) by (simp add: y)
  note pr = position_rest [OF pos]
  obtain w where w: "view l s = Some (w, k)" "refc L w = c" "v_curr v = l" "start rst z = loc_of L w" using pr(1) by blast
  obtain r where r: "rget l s = Some r" "r_nextRecord r = w" "r_pointer r = k" using w(1) by (auto simp: view_Some)
  have cur: "rget (v_curr v) s = Some r" using r(1) w(3) by simp
  show ?case
  proof (cases "sint key < sint k")
    case True
    have "(y # rst) \<noteq> [] \<Longrightarrow> sint key < key_of (hd (y # rst))" using True y by simp
    from end_run [OF Cons.prems(1,2) this Cons.prems(3) e _ Cons.prems(6) cur, of fuel "keep_prev (Suc m) fuel e"]
      True r(3) Cons.prems(4)
    show ?thesis by (simp add: n y fun_upd_def)
  next
    case False
    have body: "run (keep_prev n fuel e v) s = run (pass_or_hit (keep_prev (Suc m) fuel e) fuel e k w v) s"
      using run_body [OF Cons.prems(1) Cons.prems(2) [unfolded x] le(1,2) _ cur, of "keep_prev (Suc m) fuel e" fuel]
        False r(2,3) le(3) by (simp add: n)
    have same: "pre @ x # (ds @ [(l, k, c)]) @ rst = pre @ x # ds @ y # rst"
      "(pre @ x # ds) @ (l, k, c) # [] @ rst = pre @ x # ds @ y # rst" by (simp_all add: y)
    consider (found) "e_flag e = SEARCH" "k = key" | (deleted) "\<not> (e_flag e = SEARCH \<and> k = key)" "c = 0"
      | (pass) "k \<noteq> key" "0 < c" | (hit) "e_flag e \<noteq> SEARCH" "k = key" "0 < c" by auto
    then show ?thesis
    proof cases
      case found
      have "cnt (List.tl (pre @ x # ds @ y # rst)) key = c"
        using position_cnt [OF pos [unfolded found(2)], of c] unfolding y found(2) by (metis fun_upd_same)
      moreover have "outcome b F s z (pre @ x # ds @ y # rst) (cnt (List.tl (pre @ x # ds @ y # rst))) s"
        using ok_need [OF Cons.prems(1)] Cons.prems(3) pos unfolding outcome_def
        by (intro exI [of _ "pre @ x # ds @ y # rst"] exI [of _ F])
          (simp add: position_def y keeps_mono [OF keeps_refl])
      moreover from calculation(1) have "(\<lambda>a. if a = key then c else cnt (List.tl (pre @ x # ds @ y # rst)) a)
          = cnt (List.tl (pre @ x # ds @ y # rst))" by auto
      ultimately show ?thesis using body found w(2)
        by (simp add: pass_or_hit_def le op_count_def count_of_refc [OF layout])
    next
      case deleted
      have "run (keep_prev n fuel e v) s = run (keep_prev (Suc m) fuel e (v\<lparr>v_curr := start rst z\<rparr>)) s"
        using body deleted r w by (simp add: pass_or_hit_def le deleted_iff [OF layout])
      with Cons.IH [OF Cons.prems(1) position_skip [OF pos [unfolded deleted(2)]], of "Suc m"] Cons.prems(3-8)
      show ?thesis unfolding same(1) [unfolded deleted(2)] by (simp add: n y deleted(2) fun_upd_def)
    next
      case pass
      then have lt: "sint k < sint key" using False by (metis linorder_less_linear signed_word_eqI)
      let ?v = "v\<lparr>v_prev := l, v_prevNext := w, v_curr := start rst z\<rparr>"
      obtain t where t: "run (e_note e v (keep_prev (Suc m) fuel e ?v)) s = run (keep_prev (Suc m) fuel e ?v) t"
          "keeps {} s t" "ok (need (e_flag e) b) F t" using nt [OF Cons.prems(1)] by blast
      have "run (keep_prev n fuel e v) s = run (keep_prev (Suc m) fuel e ?v) t"
        using body pass r w t(1) by (simp add: pass_or_hit_def le deleted_iff [OF layout])
      moreover have "position L t z (sint key) (pre @ x # ds) (l, k, c) [] rst ?v"
        by (rule position_keeps [OF t(2) position_pass [OF pos lt pass(2) w(1)]]) simp
      from Cons.IH [OF t(3) this, of "Suc m"] Cons.prems(3-8)
      obtain u where "run (keep_prev (Suc m) fuel e ?v) t = Done (int (op_count (e_flag e) (cnt (List.tl (pre @ x # ds @ y # rst)) key))) u"
          "outcome b F t z (pre @ x # ds @ y # rst)
            ((cnt (List.tl (pre @ x # ds @ y # rst)))(key := op_count (e_flag e) (cnt (List.tl (pre @ x # ds @ y # rst)) key))) u"
        unfolding same(2) by (auto simp: n y fun_upd_def)
      moreover note outcome_cong [OF this(2) keeps_mono [OF t(2)] refl refl]
      ultimately show ?thesis by (auto simp: fun_upd_def)
    next
      case hit
      have c: "cnt (List.tl (pre @ x # ds @ y # rst)) key = c"
        using position_cnt [OF pos [unfolded hit(2)], of c] unfolding y hit(2) by (metis fun_upd_same)
      have "run (keep_prev n fuel e v) s = run (at_key (keep_prev (Suc m) fuel e) fuel e w v) s"
        using body hit r w by (simp add: pass_or_hit_def le deleted_iff [OF layout])
      with hit_run [OF Cons.prems(1) pos [unfolded hit(2)] _ e _ Cons.prems(6,7) hit(1,3) _ w(1) [unfolded hit(2)], of fuel m]
        Cons.prems(3,4,8) c hit(2)
      show ?thesis by (simp add: y fun_upd_def)
    qed
  qed
qed

text \<open>A call of \<open>psly_handle_records\<close> on a well-formed list: the result, the new counts, and where the
  records are.\<close>

definition list_outcome :: "nat \<Rightarrow> loc set \<Rightarrow> ('c, 'z) pool_scheme \<Rightarrow> loc \<Rightarrow> loc \<Rightarrow> entry list \<Rightarrow> (64 word \<Rightarrow> nat) \<Rightarrow> ('c, 'z) pool_scheme \<Rightarrow> bool" where
  "list_outcome b F s h z es g t \<longleftrightarrow> (\<exists>es' F'. list_ok L t h z es' \<and> ok b F' t \<and> locs es' \<union> F' = locs es \<union> F \<and>
     insert h (insert z (locs es')) \<inter> F' = {} \<and>
     keeps (insert h (locs es \<union> F)) s t \<and> cnt es' = g)"

lemma handle_run:
  assumes ok: "ok (need (e_flag e) b) F s" and li: "list_ok L s h z es" and dj: "insert h (insert z (locs es)) \<inter> F = {}"
    and e: "env_ok e z key" "e_head e = h" and fuel: "2 ^ (arrNum L + idxNum L) \<le> fuel"
    and max: "e_flag e = RECORD \<Longrightarrow> cnt es key < 2 ^ refNum L - 1"
  shows "\<exists>t. run (handle_records fuel e) s = Done (int (op_count (e_flag e) (cnt es key))) t \<and>
    list_outcome b F s h z es ((cnt es)(key := op_count (e_flag e) (cnt es key))) t"
proof -
  obtain k c where ch: "chain L s z ((h, k, c) # es)" using li by (auto simp: list_ok_def)
  then obtain w where w: "view h s = Some (w, k)" "refc L w = c" "seg L s (loc_of L w) es z" "0 < c"
    by (auto simp: chain_def)
  have lay: "e_layout e = L" using e(1) by (simp add: env_ok_def)
  let ?v = "\<lparr>v_my = None, v_localN = 0, v_removed = False, v_prev = h, v_prevNext = w, v_curr = loc_of L w\<rparr>"
  have pos: "position L s z (sint key) [] (h, k, c) [] es ?v"
    using ch w(1,4) seg_start [OF w(3)] by (simp add: position_def)
  have len: "length es + 2 \<le> fuel" using list_length [OF li] fuel by simp
  obtain r where "rget h s = Some r" "r_nextRecord r = w" using w(1) by (auto simp: view_Some)
  then have "run (handle_records fuel e) s = run (keep_prev fuel fuel e ?v) s"
    by (simp add: handle_records_def e(2) lay)
  moreover have "\<exists>t. run (keep_prev fuel fuel e ?v) s = Done (int (op_count (e_flag e) (cnt (List.tl ([] @ (h, k, c) # [] @ es)) key))) t \<and>
    outcome b F s z ([] @ (h, k, c) # [] @ es) ((cnt (List.tl ([] @ (h, k, c) # [] @ es)))
      (key := op_count (e_flag e) (cnt (List.tl ([] @ (h, k, c) # [] @ es)) key))) t"
    by (rule loop_run [OF ok pos _ e(1)]) (use dj len max in auto)
  ultimately obtain t where t: "run (handle_records fuel e) s = Done (int (op_count (e_flag e) (cnt es key))) t"
      "outcome b F s z ((h, k, c) # es) ((cnt es)(key := op_count (e_flag e) (cnt es key))) t" by auto
  from t(2) obtain es1 F' where o: "chain L t z es1" "hd es1 = (h, k, c)" "ok b F' t"
      "locs es1 \<union> F' = insert h (locs es) \<union> F" "locs es1 \<inter> F' = {}" "keeps (insert h (locs es \<union> F)) s t"
      "cnt (List.tl es1) = (cnt es)(key := op_count (e_flag e) (cnt es key))"
    unfolding outcome_def by auto
  then obtain es' where es': "es1 = (h, k, c) # es'" by (cases es1) (auto simp: chain_def)
  have "h \<notin> locs es'" "z \<notin> locs es" "h \<noteq> z" "z \<notin> locs es'" "h \<notin> locs es" using o(1) ch by (auto simp: chain_def es')
  then have "insert h (insert z (locs es')) \<inter> F' = {}" "locs es' \<union> F' = locs es \<union> F"
    using o(4,5) dj unfolding es' by auto
  with o es' have "list_outcome b F s h z es ((cnt es)(key := op_count (e_flag e) (cnt es key))) t"
    unfolding list_outcome_def list_ok_def by (intro exI [of _ es'] exI [of _ F']) auto
  with t(1) show ?thesis by blast
qed

end

end
