(* ===== verification/RecordMap.thy ===== *)
theory RecordMap
  imports RecordList
begin

text \<open>
  The map of \<open>listNum\<close> sorted lists: \<open>psly_record\<close>, \<open>psly_remove\<close> and \<open>psly_search\<close> choose a
  list by the low bits of the key and call \<open>psly_handle_records\<close> on it. This theory holds what
  the two files that have such a map share: the array \<open>map.lists\<close>, the loop that creates the
  lists, and the proof that the map counts its keys, for any record pool and any choice of the
  list. The main programs are in the theories that import it.
\<close>

record 'c map_pool = "'c pool" +
  lists :: "nat \<Rightarrow> (loc \<times> loc) option"

definition on_list :: "nat \<Rightarrow> (loc \<Rightarrow> loc \<Rightarrow> ('c, 'z) map_pool_scheme env) \<Rightarrow> nat \<Rightarrow> (('c, 'z) map_pool_scheme, int) prog" where
  "on_list fuel mk i = ldp (\<lambda>s. lists s i) (\<lambda>(h, z). handle_records fuel (mk h z))"

text \<open>Two records per list, the head's word pointing to the tail.\<close>

fun init_lists :: "layout \<Rightarrow> (('c, 'z) map_pool_scheme, loc option) prog \<Rightarrow> nat list \<Rightarrow> (('c, 'z) map_pool_scheme, unit) prog" where
  "init_lists L get [] = Ret ()"
| "init_lists L get (i # is) =
    bind get (\<lambda>r. case r of None \<Rightarrow> Crash | Some head \<Rightarrow>
    bind get (\<lambda>r. case r of None \<Rightarrow> Crash | Some tail \<Rightarrow>
    rd r_nextRecord head (\<lambda>old.
    rd r_self tail (\<lambda>self.
    wr (set_nextRecord (newNext L old self)) head (
    st (\<lambda>s. s\<lparr>lists := (lists s)(i \<mapsto> (head, tail))\<rparr>) (
    init_lists L get is))))))"

lemma rget_lists [simp]: "rget l (s\<lparr>lists := x\<rparr>) = rget l s" "view l (s\<lparr>lists := x\<rparr>) = view l s"
  by (simp_all add: rget_def view_def)

lemma seg_lists [simp]: "seg L (s\<lparr>lists := x\<rparr>) l es z = seg L s l es z"
  by (rule seg_cong) simp

lemma chain_lists [simp]: "chain L (s\<lparr>lists := x\<rparr>) z es = chain L s z es"
  by (simp add: chain_def)

section \<open>The map\<close>

definition nodes :: "('c, 'z) map_pool_scheme \<Rightarrow> (nat \<Rightarrow> entry list) \<Rightarrow> nat \<Rightarrow> loc set" where
  "nodes s E i = (case lists s i of None \<Rightarrow> {} | Some (h, z) \<Rightarrow> insert h (insert z (locs (E i))))"

text \<open>The lists \<open>I\<close> are well formed with the entries \<open>E\<close>, their records are disjoint from each other
  and from the free records \<open>F\<close>.\<close>

definition lists_ok :: "layout \<Rightarrow> (loc set \<Rightarrow> ('c, 'z) map_pool_scheme \<Rightarrow> bool) \<Rightarrow> nat set \<Rightarrow> loc set \<Rightarrow> (nat \<Rightarrow> entry list) \<Rightarrow> ('c, 'z) map_pool_scheme \<Rightarrow> bool" where
  "lists_ok L ok I F E s \<longleftrightarrow> ok F s \<and>
     (\<forall>i \<in> I. \<exists>h z. lists s i = Some (h, z) \<and> list_ok L s h z (E i)) \<and>
     (\<forall>i \<in> I. nodes s E i \<inter> F = {}) \<and>
     (\<forall>i \<in> I. \<forall>j \<in> I. i \<noteq> j \<longrightarrow> nodes s E i \<inter> nodes s E j = {})"

text \<open>The abstract value of the map: the count of each key.\<close>

definition mcnt :: "(64 word \<Rightarrow> nat) \<Rightarrow> (nat \<Rightarrow> entry list) \<Rightarrow> 64 word \<Rightarrow> nat" where
  "mcnt bucket E k = cnt (E (bucket k)) k"

text \<open>A sequence of calls, one after the other, with their results; and what a counter of keys
  returns for it.\<close>

fun script :: "(flag \<Rightarrow> 64 word \<Rightarrow> ('s, int) prog) \<Rightarrow> (flag \<times> 64 word) list \<Rightarrow> ('s, int list) prog" where
  "script opn [] = Ret []"
| "script opn ((f, p) # ops) = bind (opn f p) (\<lambda>r. bind (script opn ops) (\<lambda>rs. Ret (r # rs)))"

fun counter :: "(flag \<times> 64 word) list \<Rightarrow> (64 word \<Rightarrow> nat) \<Rightarrow> int list" where
  "counter [] g = []"
| "counter ((f, p) # ops) g = int (op_count f (g p)) # counter ops (g(p := op_count f (g p)))"

fun counter_end :: "(flag \<times> 64 word) list \<Rightarrow> (64 word \<Rightarrow> nat) \<Rightarrow> 64 word \<Rightarrow> nat" where
  "counter_end [] g = g"
| "counter_end ((f, p) # ops) g = counter_end ops (g(p := op_count f (g p)))"

definition inserts :: "(flag \<times> 64 word) list \<Rightarrow> nat" where
  "inserts ops = length (filter (\<lambda>x. fst x = RECORD) ops)"

lemma inserts_simps [simp]: "inserts [] = 0" "inserts ((f, p) # ops) = need f (inserts ops)"
  by (simp_all add: inserts_def need_def)

lemma inserts_le: "inserts ops \<le> length ops"
  by (simp add: inserts_def)

locale record_map = record_pool L get ret ok keeps
  for L :: layout
    and get :: "(('c, 'z) map_pool_scheme, loc option) prog"
    and ret :: "loc \<Rightarrow> (('c, 'z) map_pool_scheme, unit) prog"
    and ok :: "nat \<Rightarrow> loc set \<Rightarrow> ('c, 'z) map_pool_scheme \<Rightarrow> bool"
    and keeps :: "loc set \<Rightarrow> ('c, 'z) map_pool_scheme \<Rightarrow> ('c, 'z) map_pool_scheme \<Rightarrow> bool" +
  fixes bucket :: "64 word \<Rightarrow> nat" and listNum :: nat
  assumes keeps_lists: "keeps N s t \<Longrightarrow> lists t = lists s"
    and ok_lists: "ok b F s \<Longrightarrow> ok b F (s\<lparr>lists := x\<rparr>)"
    and bucket_lt: "bucket k < listNum"
begin

lemma list_ok_keeps:
  assumes "keeps N s t" and "list_ok L s h z es" and "insert h (insert z (locs es)) \<inter> N = {}"
  shows "list_ok L t h z es"
proof -
  from assms(2) obtain k c where ch: "chain L s z ((h, k, c) # es)" by (auto simp: list_ok_def)
  have "insert z (locs ((h, k, c) # es)) = insert h (insert z (locs es))" by auto
  then have "insert z (locs ((h, k, c) # es)) \<inter> N = {}" by (simp only: assms(3))
  then have "chain L t z ((h, k, c) # es)" by (rule chain_keeps [OF assms(1) ch])
  then show ?thesis unfolding list_ok_def by (intro exI)
qed

lemma map_step:
  assumes mo: "lists_ok L P {..<listNum} F E s" and b: "b < listNum" and hz: "lists s b = Some (h, z)"
    and o: "list_ok L t h z es'" "P' F' t" "locs es' \<union> F' = locs (E b) \<union> F" "insert h (insert z (locs es')) \<inter> F' = {}"
      "keeps (insert h (locs (E b) \<union> F)) s t"
  shows "lists_ok L P' {..<listNum} F' (E(b := es')) t \<and> lists t = lists s \<and>
    (\<Union>i<listNum. nodes t (E(b := es')) i) \<union> F' = (\<Union>i<listNum. nodes s E i) \<union> F"
proof -
  let ?E = "E(b := es')"
  note ls = keeps_lists [OF o(5)]
  have nb: "nodes s E b = insert h (insert z (locs (E b)))" "nodes t ?E b = insert h (insert z (locs es'))"
    by (simp_all add: nodes_def hz ls)
  have no: "nodes t ?E i = nodes s E i" if "i \<noteq> b" for i using that by (simp add: nodes_def ls split: option.split)
  have dis: "nodes s E i \<inter> insert h (locs (E b) \<union> F) = {}" "nodes s E i \<inter> nodes t ?E b = {}" "nodes s E i \<inter> F' = {}"
    if "i < listNum" "i \<noteq> b" for i
  proof -
    have "nodes s E i \<inter> insert h (insert z (locs (E b))) = {}" "nodes s E i \<inter> F = {}"
      using mo b that unfolding lists_ok_def nb(1) [symmetric] by blast+
    then show "nodes s E i \<inter> insert h (locs (E b) \<union> F) = {}" "nodes s E i \<inter> nodes t ?E b = {}" "nodes s E i \<inter> F' = {}"
      using o(3) unfolding nb by blast+
  qed
  have "lists_ok L P' {..<listNum} F' ?E t"
    unfolding lists_ok_def
  proof (intro conjI ballI impI)
    show "P' F' t" by (rule o(2))
    show "\<exists>h z. lists t i = Some (h, z) \<and> list_ok L t h z (?E i)" if "i \<in> {..<listNum}" for i
    proof (cases "i = b")
      case True
      with hz o(1) ls show ?thesis by simp
    next
      case False
      from mo that obtain h' z' where i: "lists s i = Some (h', z')" "list_ok L s h' z' (E i)"
        unfolding lists_ok_def by blast
      have "insert h' (insert z' (locs (E i))) \<inter> insert h (locs (E b) \<union> F) = {}"
        using dis(1) [of i] that False i(1) by (simp add: nodes_def)
      from list_ok_keeps [OF o(5) i(2) this] i(1) False ls show ?thesis by simp
    qed
    show "nodes t ?E i \<inter> F' = {}" if "i \<in> {..<listNum}" for i
      using dis(3) [of i] no [of i] o(4) that nb(2) by (cases "i = b") auto
    show "nodes t ?E i \<inter> nodes t ?E j = {}" if ij: "i \<in> {..<listNum}" "j \<in> {..<listNum}" "i \<noteq> j" for i j
    proof -
      consider "i = b" "j \<noteq> b" | "i \<noteq> b" "j = b" | "i \<noteq> b" "j \<noteq> b" using ij(3) by blast
      then show ?thesis
      proof cases
        case 1
        with dis(2) [of j] ij no show ?thesis by (metis Int_commute lessThan_iff)
      next
        case 2
        with dis(2) [of i] ij no show ?thesis by (metis lessThan_iff)
      next
        case 3
        with mo ij no show ?thesis unfolding lists_ok_def by metis
      qed
    qed
  qed
  moreover have "(\<Union>i<listNum. nodes t ?E i) \<union> F' = (\<Union>i<listNum. nodes s E i) \<union> F"
  proof -
    have s: "{..<listNum} = insert b ({..<listNum} - {b})" using b by blast
    have "(\<Union>i\<in>{..<listNum} - {b}. nodes t ?E i) = (\<Union>i\<in>{..<listNum} - {b}. nodes s E i)"
      using no by auto
    moreover have "nodes t ?E b \<union> F' = nodes s E b \<union> F" unfolding nb using o(3) by blast
    ultimately show ?thesis by (subst (1 2) s) (simp only: UN_insert; blast)
  qed
  ultimately show ?thesis using ls by blast
qed

text \<open>A call that leaves the list of the key as \<open>psly_handle_records\<close> does is a step of the counter.\<close>

lemma list_step:
  assumes mo: "lists_ok L (ok (need f b)) {..<listNum} F E s"
    and opn: "\<And>h z. lists s (bucket key) = Some (h, z) \<Longrightarrow> ok (need f b) F s \<Longrightarrow> list_ok L s h z (E (bucket key)) \<Longrightarrow>
      insert h (insert z (locs (E (bucket key)))) \<inter> F = {} \<Longrightarrow>
      \<exists>t. run opn s = Done (int (op_count f (cnt (E (bucket key)) key))) t \<and>
        list_outcome b F s h z (E (bucket key)) ((cnt (E (bucket key)))(key := op_count f (cnt (E (bucket key)) key))) t"
  shows "\<exists>t E' F'. run opn s = Done (int (op_count f (mcnt bucket E key))) t \<and> lists_ok L (ok b) {..<listNum} F' E' t \<and>
    mcnt bucket E' = (mcnt bucket E)(key := op_count f (mcnt bucket E key)) \<and> lists t = lists s \<and>
    (\<Union>i<listNum. nodes t E' i) \<union> F' = (\<Union>i<listNum. nodes s E i) \<union> F"
proof -
  let ?b = "bucket key"
  have b: "?b \<in> {..<listNum}" using bucket_lt by simp
  from mo b obtain h z where hz: "lists s ?b = Some (h, z)" "list_ok L s h z (E ?b)"
    unfolding lists_ok_def by blast
  have ok: "ok (need f b) F s" using mo by (simp add: lists_ok_def)
  have "nodes s E ?b \<inter> F = {}" using mo b unfolding lists_ok_def by blast
  with hz(1) have dj: "insert h (insert z (locs (E ?b))) \<inter> F = {}" by (simp add: nodes_def)
  from opn [OF hz(1) ok hz(2) dj] obtain t where t: "run opn s = Done (int (op_count f (cnt (E ?b) key))) t"
      "list_outcome b F s h z (E ?b) ((cnt (E ?b))(key := op_count f (cnt (E ?b) key))) t" by blast
  from t(2) obtain es' F' where o: "list_ok L t h z es'" "ok b F' t" "locs es' \<union> F' = locs (E ?b) \<union> F"
      "insert h (insert z (locs es')) \<inter> F' = {}" "keeps (insert h (locs (E ?b) \<union> F)) s t"
      "cnt es' = (cnt (E ?b))(key := op_count f (cnt (E ?b) key))"
    unfolding list_outcome_def by blast
  have "mcnt bucket (E(?b := es')) = (mcnt bucket E)(key := op_count f (mcnt bucket E key))"
    by (rule ext) (auto simp: mcnt_def o(6))
  moreover have "run opn s = Done (int (op_count f (mcnt bucket E key))) t"
    using t(1) by (simp add: mcnt_def)
  ultimately show ?thesis using map_step [OF mo bucket_lt hz(1) o(1) _ o(3-5), of "ok b"] o(2) by blast
qed

lemma map_run:
  assumes mo: "lists_ok L (ok (need f b)) {..<listNum} F E s" and e: "\<And>h z. env_ok (mk h z) z key \<and> e_head (mk h z) = h \<and> e_flag (mk h z) = f"
    and fuel: "2 ^ (arrNum L + idxNum L) \<le> fuel"
    and max: "f = RECORD \<Longrightarrow> mcnt bucket E key < 2 ^ refNum L - 1"
  shows "\<exists>t E' F'. run (on_list fuel mk (bucket key)) s = Done (int (op_count f (mcnt bucket E key))) t \<and> lists_ok L (ok b) {..<listNum} F' E' t \<and>
    mcnt bucket E' = (mcnt bucket E)(key := op_count f (mcnt bucket E key)) \<and> lists t = lists s \<and>
    (\<Union>i<listNum. nodes t E' i) \<union> F' = (\<Union>i<listNum. nodes s E i) \<union> F"
proof (rule list_step [OF mo])
  fix h z
  assume a: "lists s (bucket key) = Some (h, z)" "ok (need f b) F s" "list_ok L s h z (E (bucket key))"
    "insert h (insert z (locs (E (bucket key)))) \<inter> F = {}"
  from handle_run [where e = "mk h z" and key = key and b = b, OF _ a(3,4) _ _ fuel] a(1,2) e [of h z] max
  show "\<exists>t. run (on_list fuel mk (bucket key)) s = Done (int (op_count f (cnt (E (bucket key)) key))) t \<and>
      list_outcome b F s h z (E (bucket key)) ((cnt (E (bucket key)))(key := op_count f (cnt (E (bucket key)) key))) t"
    by (simp add: mcnt_def on_list_def)
qed

lemma lists_ok_keeps:
  assumes "lists_ok L (ok b') I F E s" and "keeps N s t" and "N \<subseteq> F" and "F' \<subseteq> F" and "ok b F' t"
  shows "lists_ok L (ok b) I F' E t"
proof -
  note ls = keeps_lists [OF assms(2)]
  have no: "nodes t E i = nodes s E i" for i by (simp add: nodes_def ls)
  have "\<exists>h z. lists t i = Some (h, z) \<and> list_ok L t h z (E i)" if i: "i \<in> I" for i
  proof -
    from assms(1) i obtain h z where hz: "lists s i = Some (h, z)" "list_ok L s h z (E i)"
      unfolding lists_ok_def by blast
    have "nodes s E i \<inter> F = {}" using assms(1) i unfolding lists_ok_def by blast
    then have "insert h (insert z (locs (E i))) \<inter> N = {}" using assms(3) hz(1) unfolding nodes_def by simp blast
    from list_ok_keeps [OF assms(2) hz(2) this] hz(1) ls show ?thesis by simp
  qed
  then show ?thesis using assms unfolding lists_ok_def no by blast
qed

text \<open>One turn of the loop that creates the lists: the two records it takes, whatever word \<open>w\<close> with
  a positive count it links them with.\<close>

lemma init_step:
  assumes m: "lists_ok L (ok (Suc (Suc b))) I F E s" and i: "i \<notin> I" "E i = []"
  shows "\<exists>h z s1 s2 rh rz. run get s = Done (Some h) s1 \<and> run get s1 = Done (Some z) s2 \<and>
    h \<in> F \<and> z \<in> F - {h} \<and> is_loc L h \<and> is_loc L z \<and> keeps {} s s2 \<and> rget h s2 = Some rh \<and> rget z s2 = Some rz \<and>
    r_self rz = self_word (idxNum L) z \<and>
    (\<forall>w t. t = (rset h (set_nextRecord w) s2)\<lparr>lists := (lists s2)(i \<mapsto> (h, z))\<rparr> \<and> 0 < refc L w \<and> loc_of L w = z \<longrightarrow>
       lists_ok L (ok b) (insert i I) (F - {h} - {z}) E t \<and>
       (\<Union>j\<in>insert i I. nodes t E j) \<union> (F - {h} - {z}) = (\<Union>j\<in>I. nodes s E j) \<union> F)"
proof -
  have ok: "ok (Suc (Suc b)) F s" using m by (simp add: lists_ok_def)
  from get_ok [OF ok] obtain h s1 where
    h: "run get s = Done (Some h) s1" "keeps {} s s1" "h \<in> F" "is_loc L h" "rget h s1 \<noteq> None" "ok (Suc b) (F - {h}) s1" by blast
  from get_ok [OF h(6)] obtain z s2 where
    z: "run get s1 = Done (Some z) s2" "keeps {} s1 s2" "z \<in> F - {h}" "is_loc L z" "rget z s2 \<noteq> None" "ok b (F - {h} - {z}) s2"
    by blast
  let ?F = "F - {h} - {z}"
  have "view h s2 \<noteq> None" using keeps_view [OF z(2) h(4)] h(5) by (simp add: view_None)
  then obtain rh where rh: "rget h s2 = Some rh" by (auto simp: view_def)
  obtain rz where rz: "rget z s2 = Some rz" using z(5) by blast
  have self: "r_self rz = self_word (idxNum L) z" by (rule ok_self [OF z(6) z(4) rz])
  have k2: "keeps {} s s2" by (rule keeps_trans [OF h(2) z(2)])
  have "lists_ok L (ok b) (insert i I) ?F E t \<and> (\<Union>j\<in>insert i I. nodes t E j) \<union> ?F = (\<Union>j\<in>I. nodes s E j) \<union> F"
    if t: "t = (rset h (set_nextRecord w) s2)\<lparr>lists := (lists s2)(i \<mapsto> (h, z))\<rparr>" and w: "0 < refc L w" "loc_of L w = z" for w t
  proof -
    let ?s3 = "rset h (set_nextRecord w) s2"
    have k3: "keeps {h} s ?s3" by (rule keeps_rset_in [OF keeps_mono [OF k2]]) simp_all
    have o3: "ok b ?F ?s3" by (rule ok_set(1) [OF z(6)])
    have l3: "lists_ok L (ok b) I ?F E ?s3" by (rule lists_ok_keeps [OF m k3 _ _ o3]) (use h(3) in auto)
    have lt: "lists t = (lists ?s3)(i \<mapsto> (h, z))" using keeps_lists [OF keeps_rset [of h s2]] by (simp add: t)
    have "chain L ?s3 z [(h, r_pointer rh, refc L w)]"
      using rh rz z(3,4) h(4) w by (auto simp: chain_def view_def set_nextRecord_def)
    then have li: "list_ok L ?s3 h z []" unfolding list_ok_def by blast
    have no: "nodes t E j = nodes ?s3 E j" if "j \<noteq> i" for j using that by (simp add: nodes_def lt)
    have ni: "nodes t E i = {h, z}" using i(2) by (simp add: nodes_def lt)
    have hF: "nodes ?s3 E j \<inter> F = {}" if "j \<in> I" for j
      using m that keeps_lists [OF k3] unfolding lists_ok_def nodes_def by simp
    have "lists_ok L (ok b) (insert i I) ?F E t"
      unfolding lists_ok_def
    proof (intro conjI ballI impI)
      show "ok b ?F t" unfolding t by (rule ok_lists [OF o3])
      show "\<exists>h' z'. lists t j = Some (h', z') \<and> list_ok L t h' z' (E j)" if "j \<in> insert i I" for j
      proof (cases "j = i")
        case True
        with li i(2) show ?thesis by (simp add: list_ok_def lt) (simp add: t)
      next
        case False
        with that l3 show ?thesis by (auto simp: lists_ok_def list_ok_def lt) (simp add: t)
      qed
      show "nodes t E j \<inter> ?F = {}" if "j \<in> insert i I" for j
        using that ni no [of j] hF [of j] by (cases "j = i") auto
      show "nodes t E j \<inter> nodes t E k = {}" if jk: "j \<in> insert i I" "k \<in> insert i I" "j \<noteq> k" for j k
      proof -
        consider "j = i" "k \<in> I" "k \<noteq> i" | "k = i" "j \<in> I" "j \<noteq> i" | "j \<in> I" "k \<in> I" "j \<noteq> i" "k \<noteq> i" using jk by blast
        then show ?thesis
        proof cases
          case 1
          with ni no [of k] hF [of k] h(3) z(3) show ?thesis by auto
        next
          case 2
          with ni no [of j] hF [of j] h(3) z(3) show ?thesis by auto
        next
          case 3
          with l3 no jk(3) show ?thesis unfolding lists_ok_def by metis
        qed
      qed
    qed
    moreover have "nodes t E j = nodes s E j" if "j \<in> I" for j
    proof -
      have "j \<noteq> i" using that i(1) by blast
      moreover have "nodes ?s3 E j = nodes s E j" by (simp add: nodes_def keeps_lists [OF k3])
      ultimately show ?thesis using no by simp
    qed
    then have "(\<Union>j\<in>I. nodes t E j) = (\<Union>j\<in>I. nodes s E j)" by (intro SUP_cong refl)
    ultimately show ?thesis using ni h(3) z(3) by auto
  qed
  then show ?thesis using h(1,3,4) z(1,3,4) k2 rh rz self by blast
qed

lemma init_run:
  assumes "lists_ok L (ok (b + 2 * length is)) I F E s" and "set is \<inter> I = {}" and "distinct is"
    and "\<forall>i \<in> set is. E i = []"
  shows "\<exists>t F'. run (init_lists L get is) s = Done () t \<and> lists_ok L (ok b) (I \<union> set is) F' E t \<and>
    (\<Union>j\<in>I \<union> set is. nodes t E j) \<union> F' = (\<Union>j\<in>I. nodes s E j) \<union> F"
  using assms
proof (induction "is" arbitrary: s I F)
  case Nil
  then show ?case by auto
next
  case (Cons i "is")
  from Cons.prems init_step [of "b + 2 * length is" I F E s i] obtain h z s1 s2 rh rz where
    g: "run get s = Done (Some h) s1" "run get s1 = Done (Some z) s2" "is_loc L z" "rget h s2 = Some rh" "rget z s2 = Some rz"
      "r_self rz = self_word (idxNum L) z" "keeps {} s s2" and
    st: "\<And>w t. t = (rset h (set_nextRecord w) s2)\<lparr>lists := (lists s2)(i \<mapsto> (h, z))\<rparr> \<and> 0 < refc L w \<and> loc_of L w = z \<Longrightarrow>
       lists_ok L (ok (b + 2 * length is)) (insert i I) (F - {h} - {z}) E t \<and>
       (\<Union>j\<in>insert i I. nodes t E j) \<union> (F - {h} - {z}) = (\<Union>j\<in>I. nodes s E j) \<union> F" by auto
  let ?w = "newNext L (r_nextRecord rh) (r_self rz)"
  let ?t = "(rset h (set_nextRecord ?w) s2)\<lparr>lists := (lists s2)(i \<mapsto> (h, z))\<rparr>"
  have w: "refc L ?w = 1" "loc_of L ?w = z"
    using loc_of_self [OF layout g(3)] by (simp_all add: newNext_fields [OF layout] g(6) loc_of_scast [OF layout])
  from st [of ?t ?w] w have l: "lists_ok L (ok (b + 2 * length is)) (insert i I) (F - {h} - {z}) E ?t"
      "(\<Union>j\<in>insert i I. nodes ?t E j) \<union> (F - {h} - {z}) = (\<Union>j\<in>I. nodes s E j) \<union> F" by simp_all
  have "\<exists>t F'. run (init_lists L get is) ?t = Done () t \<and> lists_ok L (ok b) (insert i I \<union> set is) F' E t \<and>
      (\<Union>j\<in>insert i I \<union> set is. nodes t E j) \<union> F' = (\<Union>j\<in>insert i I. nodes ?t E j) \<union> (F - {h} - {z})"
    by (rule Cons.IH [OF l(1)]) (use Cons.prems in auto)
  moreover have "lists (rset h (set_nextRecord ?w) s2) = lists s2" by (rule keeps_lists [OF keeps_rset])
  then have "run (init_lists L get (i # is)) s = run (init_lists L get is) ?t"
    using g by simp
  moreover have "insert i I \<union> set is = I \<union> set (i # is)" by simp
  ultimately show ?case unfolding l(2) by (simp only:)
qed

text \<open>An operation may do some bookkeeping of its own (\<open>pre\<close>) before the loop.\<close>

lemma op_run:
  assumes mo: "lists_ok L (ok (need f b)) {..<listNum} F E s"
    and opn: "\<And>s h z. lists s (bucket key) = Some (h, z) \<Longrightarrow> run opn s = run (handle_records fuel (mk h z)) (pre s)"
    and pre: "\<And>b F s. ok b F s \<Longrightarrow> keeps {} s (pre s) \<and> ok b F (pre s)"
    and e: "\<And>h z. env_ok (mk h z) z key \<and> e_head (mk h z) = h \<and> e_flag (mk h z) = f"
    and fuel: "2 ^ (arrNum L + idxNum L) \<le> fuel"
    and max: "f = RECORD \<Longrightarrow> mcnt bucket E key < 2 ^ refNum L - 1"
  shows "\<exists>t E' F'. run opn s = Done (int (op_count f (mcnt bucket E key))) t \<and> lists_ok L (ok b) {..<listNum} F' E' t \<and>
    mcnt bucket E' = (mcnt bucket E)(key := op_count f (mcnt bucket E key)) \<and> lists t = lists s \<and>
    (\<Union>i<listNum. nodes t E' i) \<union> F' = (\<Union>i<listNum. nodes s E i) \<union> F"
proof -
  have "ok (need f b) F s" using mo by (simp add: lists_ok_def)
  from pre [OF this] have p: "keeps {} s (pre s)" "ok (need f b) F (pre s)" by simp_all
  have ls: "lists (pre s) = lists s" by (rule keeps_lists [OF p(1)])
  then have no: "nodes (pre s) E = nodes s E" by (intro ext) (simp add: nodes_def)
  have "lists_ok L (ok (need f b)) {..<listNum} F E (pre s)" by (rule lists_ok_keeps [OF mo p(1) _ _ p(2)]) simp_all
  note r = map_run [OF this e fuel max]
  from mo bucket_lt obtain h z where hz: "lists s (bucket key) = Some (h, z)" unfolding lists_ok_def by blast
  then have "run (on_list fuel mk (bucket key)) (pre s) = run opn s" by (simp add: on_list_def ls opn)
  with r show ?thesis unfolding ls no by simp
qed

text \<open>A sequence of such steps.\<close>

lemma script_steps:
  assumes "lists_ok L (ok (b + inserts ops)) {..<listNum} F E s"
    and "\<And>k. mcnt bucket E k + length ops < 2 ^ refNum L"
    and step: "\<And>f p b F E s. lists_ok L (ok (need f b)) {..<listNum} F E s \<Longrightarrow> (f = RECORD \<Longrightarrow> mcnt bucket E p < 2 ^ refNum L - 1) \<Longrightarrow>
      \<exists>t E' F'. run (opn f p) s = Done (int (op_count f (mcnt bucket E p))) t \<and> lists_ok L (ok b) {..<listNum} F' E' t \<and>
        mcnt bucket E' = (mcnt bucket E)(p := op_count f (mcnt bucket E p)) \<and>
        (\<Union>i<listNum. nodes t E' i) \<union> F' = (\<Union>i<listNum. nodes s E i) \<union> F"
  shows "\<exists>t E' F'. run (script opn ops) s = Done (counter ops (mcnt bucket E)) t \<and>
    lists_ok L (ok b) {..<listNum} F' E' t \<and> mcnt bucket E' = counter_end ops (mcnt bucket E) \<and>
    (\<Union>i<listNum. nodes t E' i) \<union> F' = (\<Union>i<listNum. nodes s E i) \<union> F"
  using assms(1,2)
proof (induction ops arbitrary: s E F)
  case Nil
  then show ?case by auto
next
  case (Cons fp ops)
  obtain f p where fp: "fp = (f, p)" by (cases fp)
  have c: "mcnt bucket E p < 2 ^ refNum L - 1" using Cons.prems(2) [of p] by simp
  have s: "lists_ok L (ok (need f (b + inserts ops))) {..<listNum} F E s" using Cons.prems(1) by (simp add: fp need_def split: if_splits)
  from step [OF s c] obtain t E' F' where
    t: "run (opn f p) s = Done (int (op_count f (mcnt bucket E p))) t"
      "lists_ok L (ok (b + inserts ops)) {..<listNum} F' E' t"
      "mcnt bucket E' = (mcnt bucket E)(p := op_count f (mcnt bucket E p))"
      "(\<Union>i<listNum. nodes t E' i) \<union> F' = (\<Union>i<listNum. nodes s E i) \<union> F" by blast
  have "mcnt bucket E' k + length ops < 2 ^ refNum L" for k
    using Cons.prems(2) [of k] by (auto simp: t(3) op_count_def split: flag.split)
  from Cons.IH [OF t(2) this] obtain u E'' F'' where
    u: "run (script opn ops) t = Done (counter ops (mcnt bucket E')) u"
      "lists_ok L (ok b) {..<listNum} F'' E'' u" "mcnt bucket E'' = counter_end ops (mcnt bucket E')"
      "(\<Union>i<listNum. nodes u E'' i) \<union> F'' = (\<Union>i<listNum. nodes t E' i) \<union> F'" by blast
  show ?case using t(1,4) u unfolding t(3) fp by (intro exI [of _ u] exI [of _ E''] exI [of _ F'']) simp
qed

lemma script_run:
  assumes "lists_ok L (ok (b + inserts ops)) {..<listNum} F E s" and "2 ^ (arrNum L + idxNum L) \<le> fuel"
    and "\<And>k. mcnt bucket E k + length ops < 2 ^ refNum L"
    and opn: "\<And>f p s h z. lists s (bucket p) = Some (h, z) \<Longrightarrow> run (opn f p) s = run (handle_records fuel (mk f p h z)) (pre s)"
    and pre: "\<And>b F s. ok b F s \<Longrightarrow> keeps {} s (pre s) \<and> ok b F (pre s)"
    and e: "\<And>f key h z. env_ok (mk f key h z) z key \<and> e_head (mk f key h z) = h \<and> e_flag (mk f key h z) = f"
  shows "\<exists>t E' F'. run (script opn ops) s = Done (counter ops (mcnt bucket E)) t \<and>
    lists_ok L (ok b) {..<listNum} F' E' t \<and> mcnt bucket E' = counter_end ops (mcnt bucket E) \<and>
    (\<Union>i<listNum. nodes t E' i) \<union> F' = (\<Union>i<listNum. nodes s E i) \<union> F"
proof (rule script_steps [OF assms(1,3)])
  fix f p b F E s
  assume m: "lists_ok L (ok (need f b)) {..<listNum} F E s" and c: "f = RECORD \<Longrightarrow> mcnt bucket E p < 2 ^ refNum L - 1"
  from op_run [where opn = "opn f p" and mk = "mk f p" and pre = pre and key = p and f = f, OF m opn pre e assms(2) c]
  show "\<exists>t E' F'. run (opn f p) s = Done (int (op_count f (mcnt bucket E p))) t \<and> lists_ok L (ok b) {..<listNum} F' E' t \<and>
        mcnt bucket E' = (mcnt bucket E)(p := op_count f (mcnt bucket E p)) \<and>
        (\<Union>i<listNum. nodes t E' i) \<union> F' = (\<Union>i<listNum. nodes s E i) \<union> F" by blast
qed

end

end
