(* ===== verification/MapProgram.thy ===== *)
theory MapProgram
  imports RecordMap
begin

text \<open>
  The macro \<^verbatim>\<open>DEFINE_RESOURCE_FOR_HAZARD\<close> of \<^verbatim>\<open>mayijin/lockfreePro.c\<close> put together, for any
  layout of the words and any number of lists: the operations of the map, the proof that the
  pool of \<^verbatim>\<open>RecordPool\<close> provides what the list of \<^verbatim>\<open>RecordList\<close> needs, and the proof that the
  map counts its keys. The files that instantiate the macro are in the theories that import
  this one.
\<close>

unbundle bit_operations_syntax

section \<open>The operations\<close>

text \<open>\<open>psly_handle_records\<close> over the pool of the macro; it restarts at the head.\<close>

definition list_env :: "layout \<Rightarrow> nat \<Rightarrow> nat \<Rightarrow> 64 word \<Rightarrow> flag \<Rightarrow> loc \<Rightarrow> loc \<Rightarrow> (32 word, 'z) map_pool_scheme env" where
  "list_env L fuel tid pointer f h z =
     \<lparr>e_layout = L, e_head = h, e_tail = z, e_pointer = pointer, e_flag = f,
      e_get = get_Record fuel (idxNum L) (arrNum L) tid, e_return = return_Record fuel (idxNum L) (arrNum L) tid,
      e_restart = restart_head L h, e_note = (\<lambda>_ k. k)\<rparr>"

definition bucket :: "nat \<Rightarrow> 64 word \<Rightarrow> nat" where
  "bucket listNum key = unat (key AND (of_nat listNum - 1))"

definition psly_record :: "layout \<Rightarrow> nat \<Rightarrow> nat \<Rightarrow> nat \<Rightarrow> 64 word \<Rightarrow> ((32 word, 'z) map_pool_scheme, int) prog" where
  "psly_record L listNum fuel tid pointer = on_list fuel (list_env L fuel tid pointer RECORD) (bucket listNum pointer)"

definition psly_remove :: "layout \<Rightarrow> nat \<Rightarrow> nat \<Rightarrow> nat \<Rightarrow> 64 word \<Rightarrow> ((32 word, 'z) map_pool_scheme, int) prog" where
  "psly_remove L listNum fuel tid pointer = on_list fuel (list_env L fuel tid pointer REMOVE) (bucket listNum pointer)"

definition psly_search :: "layout \<Rightarrow> nat \<Rightarrow> nat \<Rightarrow> nat \<Rightarrow> 64 word \<Rightarrow> ((32 word, 'z) map_pool_scheme, int) prog" where
  "psly_search L listNum fuel tid pointer = on_list fuel (list_env L fuel tid pointer SEARCH) (bucket listNum pointer)"

text \<open>\<open>INIT_RESOURCE\<close>: the arrays of records, then the lists.\<close>

definition INIT_RESOURCE :: "layout \<Rightarrow> nat \<Rightarrow> nat \<Rightarrow> nat \<Rightarrow> ((32 word, 'z) map_pool_scheme, unit) prog" where
  "INIT_RESOURCE L listNum fuel tid = st (init_pool (idxNum L) (arrNum L))
     (init_lists L (get_Record fuel (idxNum L) (arrNum L) tid) [0..<listNum])"

text \<open>\<open>UNINIT_RESOURCE\<close>: the free records, the \<open>num_\<close> records the caller still counts in the lists and
  the two of each list must be all the records ever made; \<open>None\<close> where the walk leaves memory.\<close>

definition UNINIT_RESOURCE :: "layout \<Rightarrow> nat \<Rightarrow> nat \<Rightarrow> ('c, 'z) pool_scheme \<Rightarrow> bool option" where
  "UNINIT_RESOURCE L listNum num s =
     map_option (\<lambda>count. count + num + listNum * 2 \<noteq> 2 ^ (idxNum L + arrNum L)) (count_free (idxNum L) s [0..<2 ^ arrNum L])"

text \<open>The records the main program counts in the lists before it calls \<open>UNINIT_RESOURCE\<close>: from the
  record behind the head up to the tail.\<close>

fun count_list :: "nat \<Rightarrow> layout \<Rightarrow> ('c, 'z) pool_scheme \<Rightarrow> loc \<Rightarrow> loc \<Rightarrow> nat option" where
  "count_list 0 L s head tail = None"
| "count_list (Suc fuel) L s head tail =
    (if head \<noteq> tail then case rget head s of None \<Rightarrow> None
       | Some r \<Rightarrow> map_option Suc (count_list fuel L s (loc_of L (r_nextRecord r)) tail)
     else Some 0)"

fun count_lists :: "nat \<Rightarrow> layout \<Rightarrow> ('c, 'z) map_pool_scheme \<Rightarrow> nat list \<Rightarrow> nat option" where
  "count_lists fuel L s [] = Some 0"
| "count_lists fuel L s (i # is) =
    (case lists s i of None \<Rightarrow> None | Some (head, tail) \<Rightarrow>
     case rget head s of None \<Rightarrow> None | Some r \<Rightarrow>
     case count_list fuel L s (loc_of L (r_nextRecord r)) tail of None \<Rightarrow> None | Some k \<Rightarrow>
     map_option ((+) k) (count_lists fuel L s is))"

definition map_op :: "layout \<Rightarrow> nat \<Rightarrow> nat \<Rightarrow> nat \<Rightarrow> flag \<Rightarrow> 64 word \<Rightarrow> ((32 word, 'z) map_pool_scheme, int) prog" where
  "map_op L listNum fuel tid f p = (case f of RECORD \<Rightarrow> psly_record L listNum fuel tid p
     | SEARCH \<Rightarrow> psly_search L listNum fuel tid p | REMOVE \<Rightarrow> psly_remove L listNum fuel tid p)"

section \<open>The pool provides what the list needs\<close>

definition free_set :: "nat \<Rightarrow> (nat \<Rightarrow> nat list) \<Rightarrow> loc set" where
  "free_set m Q = (SIGMA a:{..<2 ^ m}. set (Q a))"

text \<open>\<open>get_Record\<close> returns \<open>NULL\<close> only when every array is down to its last record, so the next \<open>b\<close>
  calls succeed when there are \<open>b\<close> more free records than arrays.\<close>

definition pro_ok :: "bool \<Rightarrow> layout \<Rightarrow> nat \<Rightarrow> loc set \<Rightarrow> ('c, 'z) pool_scheme \<Rightarrow> bool" where
  "pro_ok lag L b F s \<longleftrightarrow> (\<exists>Q. pool_ok lag (idxNum L) (2 ^ arrNum L) Q s \<and> F = free_set (arrNum L) Q) \<and>
     2 ^ arrNum L + b \<le> card F"

definition pool_keeps :: "loc set \<Rightarrow> ('c :: zero, 'z) pool_scheme \<Rightarrow> ('c, 'z) pool_scheme \<Rightarrow> bool" where
  "pool_keeps N s t \<longleftrightarrow> pool_rest t = pool_rest s \<and>
     (\<forall>l. l \<notin> N \<longrightarrow> map_option (\<lambda>r. r\<lparr>r_next := 0\<rparr>) (rget l t) = map_option (\<lambda>r. r\<lparr>r_next := 0\<rparr>) (rget l s))"

lemma pool_keeps_frame: "pool_frame s t \<Longrightarrow> pool_keeps {} s t"
  by (simp add: pool_frame_def pool_keeps_def)

lemma erase_eq: "map_option (\<lambda>r. r\<lparr>r_next := 0\<rparr>) o1 = map_option (\<lambda>r. r\<lparr>r_next := 0\<rparr>) (Some r) \<Longrightarrow> \<exists>w. o1 = Some (r\<lparr>r_next := w\<rparr>)"
proof -
  assume "map_option (\<lambda>r. r\<lparr>r_next := 0\<rparr>) o1 = map_option (\<lambda>r. r\<lparr>r_next := 0\<rparr>) (Some r)"
  then obtain r' where r': "o1 = Some r'" "r'\<lparr>r_next := 0\<rparr> = r\<lparr>r_next := 0\<rparr>" by auto
  then have "r' = r\<lparr>r_next := r_next r'\<rparr>" by (cases r, cases r') simp
  with r' show ?thesis by metis
qed

lemma free_queue_rset:
  assumes "\<And>r. r_next (f r) = r_next r \<and> r_self (f r) = r_self r"
  shows "free_queue lag n a q (rset l f s) = free_queue lag n a q s"
proof (cases "Records s (fst l)")
  case None
  then show ?thesis by (simp add: rset_def)
next
  case (Some arr)
  note rec = rset_Records [OF Some, of f]
  show ?thesis
  proof (cases "a = fst l")
    case True
    have "linked n (arr(snd l := f (arr (snd l)))) q = linked n arr q" by (rule linked_cong) (simp add: assms)
    moreover have "r_self ((arr(snd l := f (arr (snd l)))) j) = r_self (arr j)" for j by (simp add: assms)
    ultimately show ?thesis unfolding free_queue_def rec using True Some by simp
  next
    case False
    then show ?thesis unfolding free_queue_def rec by simp
  qed
qed

lemma free_queue_alloc: "free_queue lag n a q s \<Longrightarrow> rget (a, x) s \<noteq> None"
  by (auto simp: free_queue_def rget_def)

lemma card_free_set:
  assumes "pool_ok lag n (2 ^ m) Q s" and "\<forall>a < 2 ^ m. length (Q a) = 1"
  shows "card (free_set m Q) = 2 ^ m"
proof -
  have "card (set (Q a)) = 1" if "a < 2 ^ m" for a
    using assms that distinct_card [of "Q a"] by (auto simp: pool_ok_def free_queue_def)
  then show ?thesis unfolding free_set_def by (subst card_SigmaI) simp_all
qed

lemma free_set_took:
  assumes "took (2 ^ m) Q l Q'" and "distinct (Q (fst l))"
  shows "l \<in> free_set m Q" and "free_set m Q' = free_set m Q - {l}"
proof -
  obtain a x where l: "l = (a, x)" by (cases l)
  with assms obtain q where q: "Q a = x # q" "x \<notin> set q" "a < 2 ^ m" "Q' = Q(a := q)"
    by (cases "Q a") (auto simp: took_def)
  then show "l \<in> free_set m Q" "free_set m Q' = free_set m Q - {l}"
    by (auto simp: l free_set_def split: if_splits)
qed

lemma record_pool_pro:
  assumes L: "layout_ok L"
  shows "record_pool L (get_Record (Suc (Suc fuel)) (idxNum L) (arrNum L) tid :: ((32 word, 'z) pool_scheme, loc option) prog)
    (return_Record (Suc (Suc fuel)) (idxNum L) (arrNum L) tid) (pro_ok lag L) pool_keeps"
proof (unfold_locales, goal_cases)
  case 1
  show ?case by (rule L)
next
  case (2 b F s)
  then show ?case by (simp add: pro_ok_def)
next
  case (3 b F s l r)
  then show ?case by (auto simp: pro_ok_def pool_ok_def free_queue_def rget_def is_loc_def)
next
  case (4 b F s f l)
  then show ?case unfolding pro_ok_def pool_ok_def by (simp add: free_queue_rset)
next
  case (5 s)
  then show ?case by (simp add: pool_keeps_def)
next
  case (6 N s t M)
  then show ?case by (auto simp: pool_keeps_def)
next
  case (7 N s t u)
  then show ?case by (simp add: pool_keeps_def)
next
  case (8 l s f)
  then show ?case by (simp add: pool_keeps_def)
next
  case (9 N s t l r)
  then show ?case unfolding pool_keeps_def by (metis erase_eq)
next
  case (10 b F s)
  then obtain Q where Q: "pool_ok lag (idxNum L) (2 ^ arrNum L) Q s" "F = free_set (arrNum L) Q" "2 ^ arrNum L + Suc b \<le> card F"
    by (auto simp: pro_ok_def)
  have "arrNum L < 32" using L by (simp add: layout_ok_def)
  from get_Record_run [OF Q(1) _ this, of "Suc (Suc fuel)" tid] obtain r t where
    rt: "run (get_Record (Suc (Suc fuel)) (idxNum L) (arrNum L) tid) s = Done r t" "pool_frame s t"
      "case r of None \<Rightarrow> pool_ok lag (idxNum L) (2 ^ arrNum L) Q t \<and> (\<forall>a < 2 ^ arrNum L. length (Q a) = 1)
       | Some l \<Rightarrow> (\<exists>Q'. took (2 ^ arrNum L) Q l Q' \<and> pool_ok lag (idxNum L) (2 ^ arrNum L) Q' t)" by auto
  have "r \<noteq> None" using rt(3) card_free_set [OF Q(1)] Q(2,3) by (cases r) auto
  then obtain l where r: "r = Some l" by blast
  with rt(3) obtain Q' where Q': "took (2 ^ arrNum L) Q l Q'" "pool_ok lag (idxNum L) (2 ^ arrNum L) Q' t" by auto
  then have a: "fst l < 2 ^ arrNum L" by (simp add: took_def)
  then have fq: "free_queue lag (idxNum L) (fst l) (Q (fst l)) s" "free_queue lag (idxNum L) (fst l) (Q' (fst l)) t"
    using Q(1) Q'(2) by (simp_all add: pool_ok_def)
  have "snd l \<in> set (Q (fst l))" using Q'(1) by (cases "Q (fst l)") (auto simp: took_def)
  then have il: "is_loc L l" using fq(1) a by (auto simp: is_loc_def free_queue_def)
  have al: "rget l t \<noteq> None" using free_queue_alloc [OF fq(2), of "snd l"] by simp
  have "distinct (Q (fst l))" using fq(1) by (auto simp: free_queue_def)
  note fs = free_set_took [OF Q'(1) this]
  have "card (F - {l}) = card F - 1" using fs(1) Q(2) by simp
  then have "2 ^ arrNum L + b \<le> card (F - {l})" using Q(3) by simp
  moreover have "F - {l} = free_set (arrNum L) Q'" using fs(2) Q(2) by simp
  ultimately have "pro_ok lag L b (F - {l}) t" using Q'(2) unfolding pro_ok_def by blast
  with rt(1,2) r fs(1) Q(2) il al show ?case by (intro exI [of _ l] exI [of _ t]) (simp add: pool_keeps_frame)
next
  case (11 b F s l)
  then obtain Q where Q: "pool_ok lag (idxNum L) (2 ^ arrNum L) Q s" "F = free_set (arrNum L) Q" by (auto simp: pro_ok_def)
  have l: "fst l < 2 ^ arrNum L" "snd l < 2 ^ idxNum L" using 11 by (auto simp: is_loc_def)
  have nF: "snd l \<notin> set (Q (fst l))" using 11 Q(2) l(1) by (cases l) (auto simp: free_set_def)
  have b: "idxNum L + arrNum L < 32" "idxNum L < 31" using L by (auto simp: layout_ok_def)
  from return_Record_run [OF Q(1) l(1) order.refl l(2) nF b, of "Suc (Suc fuel)" tid] obtain t where
    t: "run (return_Record (Suc (Suc fuel)) (idxNum L) (arrNum L) tid l) s = Done () t" "pool_frame s t"
      "pool_ok lag (idxNum L) (2 ^ arrNum L) (Q(fst l := Q (fst l) @ [snd l])) t" by auto
  have "free_set (arrNum L) (Q(fst l := Q (fst l) @ [snd l])) = insert l F"
    using l(1) Q(2) by (cases l) (auto simp: free_set_def split: if_splits)
  moreover have "finite F" using Q(2) by (simp add: free_set_def)
  then have "card F \<le> card (insert l F)" by (intro card_mono) auto
  ultimately show ?case using t 11(1) by (auto simp: pro_ok_def intro: pool_keeps_frame)
qed

lemma free_queue_lists [simp]: "free_queue lag n a q (s\<lparr>lists := x\<rparr>) = free_queue lag n a q s"
  by (simp add: free_queue_def)

lemma pool_keeps_lists: "pool_keeps N s t \<Longrightarrow> lists t = lists s"
proof -
  assume "pool_keeps N s t"
  then have "pool.more t = pool.more s" by (auto simp: pool_keeps_def dest: pool_rest_more)
  then show ?thesis by (cases s, cases t) (metis map_pool.select_convs(1) pool.select_convs(6) map_pool.surjective)
qed


lemma bucket_lt: "k \<le> 64 \<Longrightarrow> bucket (2 ^ k) key < 2 ^ k"
proof -
  have "(of_nat (2 ^ k) - 1 :: 64 word) = mask k" by (simp add: mask_eq_exp_minus_1)
  then have "bucket (2 ^ k) key = take_bit k (unat key)"
    by (simp add: bucket_def take_bit_eq_mask [symmetric] unsigned_take_bit_eq)
  then show ?thesis by simp
qed

lemma record_map_pro:
  assumes L: "layout_ok L" and k: "k \<le> 64"
  shows "record_map L (get_Record (Suc (Suc fuel)) (idxNum L) (arrNum L) tid :: ((32 word, 'z) map_pool_scheme, loc option) prog)
      (return_Record (Suc (Suc fuel)) (idxNum L) (arrNum L) tid) (pro_ok lag L) pool_keeps (bucket (2 ^ k)) (2 ^ k)"
proof (rule record_map.intro [OF record_pool_pro [OF L]], unfold_locales, goal_cases)
  case (1 N s t)
  then show ?case by (rule pool_keeps_lists)
next
  case (2 b F s x)
  then show ?case by (simp add: pro_ok_def pool_ok_def)
next
  case (3 key)
  show ?case by (rule bucket_lt [OF k])
qed


section \<open>The map counts its keys\<close>

text \<open>The state of the map: its lists with the entries \<open>E\<close> and the free records \<open>F\<close>, at least \<open>b\<close> of
  which can be taken.\<close>

abbreviation map_ok :: "bool \<Rightarrow> layout \<Rightarrow> nat \<Rightarrow> nat \<Rightarrow> loc set \<Rightarrow> (nat \<Rightarrow> entry list) \<Rightarrow> (32 word, 'z) map_pool_scheme \<Rightarrow> bool" where
  "map_ok lag L k b \<equiv> lists_ok L (pro_ok lag L b) {..<2 ^ k}"

abbreviation map_count :: "nat \<Rightarrow> (nat \<Rightarrow> entry list) \<Rightarrow> 64 word \<Rightarrow> nat" where
  "map_count k \<equiv> mcnt (bucket (2 ^ k))"

lemma list_env_ok:
  assumes "layout_ok L"
  shows "record_pool.env_ok L (get_Record (Suc (Suc fuel)) (idxNum L) (arrNum L) tid)
      (return_Record (Suc (Suc fuel)) (idxNum L) (arrNum L) tid) (pro_ok lag L) pool_keeps (list_env L (Suc (Suc fuel)) tid p f h z) z p \<and>
    e_head (list_env L (Suc (Suc fuel)) tid p f h z) = h \<and> e_flag (list_env L (Suc (Suc fuel)) tid p f h z) = f"
  unfolding record_pool.env_ok_def [OF record_pool_pro [OF assms]]
  by (auto simp: list_env_def pool_keeps_def)

lemma map_op_on_list: "map_op L N fuel tid f p = on_list fuel (list_env L fuel tid p f) (bucket N p)"
  by (simp add: map_op_def psly_record_def psly_search_def psly_remove_def split: flag.split)

lemma two_le_pow: "layout_ok L \<Longrightarrow> 2 ^ (arrNum L + idxNum L) \<le> fuel \<Longrightarrow> \<exists>g. fuel = Suc (Suc g)"
proof -
  assume a: "layout_ok L" "2 ^ (arrNum L + idxNum L) \<le> fuel"
  then have "0 < arrNum L + idxNum L" by (simp add: layout_ok_def)
  then have "2 \<le> (2 :: nat) ^ (arrNum L + idxNum L)" by (metis one_le_numeral power_increasing power_one_right Suc_leI One_nat_def)
  with a(2) show ?thesis by (metis Suc_le_D le_trans numeral_2_eq_2 Suc_le_mono)
qed

lemma map_op_run:
  assumes L: "layout_ok L" and k: "k \<le> 64" and m: "map_ok lag L k (need f b) F E s"
    and fuel: "2 ^ (arrNum L + idxNum L) \<le> fuel" and c: "f = RECORD \<Longrightarrow> map_count k E p < 2 ^ refNum L - 1"
  shows "\<exists>t E' F'. run (map_op L (2 ^ k) fuel tid f p) s = Done (int (op_count f (map_count k E p))) t \<and>
    map_ok lag L k b F' E' t \<and> map_count k E' = (map_count k E)(p := op_count f (map_count k E p)) \<and>
    lists t = lists s \<and> (\<Union>i<2 ^ k. nodes t E' i) \<union> F' = (\<Union>i<2 ^ k. nodes s E i) \<union> F"
proof -
  obtain g where g: "fuel = Suc (Suc g)" using two_le_pow [OF L fuel] by blast
  show ?thesis unfolding map_op_on_list
    using record_map.map_run [OF record_map_pro [OF L k, where fuel = g and tid = tid and lag = lag, folded g], where mk = "list_env L fuel tid p f" and key = p and f = f,
      OF m list_env_ok [OF L, where fuel = g and tid = tid and lag = lag, folded g] fuel c] by simp
qed

lemma script_ops_run:
  assumes L: "layout_ok L" and k: "k \<le> 64" and m: "map_ok lag L k (b + inserts ops) F E s"
    and fuel: "2 ^ (arrNum L + idxNum L) \<le> fuel" and c: "\<And>p. map_count k E p + length ops < 2 ^ refNum L"
  shows "\<exists>t E' F'. run (script (map_op L (2 ^ k) fuel tid) ops) s = Done (counter ops (map_count k E)) t \<and>
    map_ok lag L k b F' E' t \<and> map_count k E' = counter_end ops (map_count k E) \<and>
    (\<Union>i<2 ^ k. nodes t E' i) \<union> F' = (\<Union>i<2 ^ k. nodes s E i) \<union> F"
proof -
  obtain g where g: "fuel = Suc (Suc g)" using two_le_pow [OF L fuel] by blast
  show ?thesis
    using record_map.script_run [OF record_map_pro [OF L k, where fuel = g and tid = tid and lag = lag, folded g], where mk = "\<lambda>f p. list_env L fuel tid p f" and pre = id,
      OF m fuel c _ _ list_env_ok [OF L, where fuel = g and tid = tid and lag = lag, folded g]] by (simp add: map_op_on_list on_list_def pool_keeps_def)
qed

text \<open>There is room for \<open>b\<close> records beside the two of each list and the one each queue keeps.\<close>

definition room :: "layout \<Rightarrow> nat \<Rightarrow> nat \<Rightarrow> bool" where
  "room L k b \<longleftrightarrow> layout_ok L \<and> k \<le> 64 \<and> 2 ^ arrNum L + 2 * 2 ^ k + b \<le> 2 ^ (arrNum L + idxNum L)"

definition all_records :: "layout \<Rightarrow> loc set" where
  "all_records L = {..<2 ^ arrNum L} \<times> {..<2 ^ idxNum L}"

lemma init_map_run:
  assumes r: "room L k b" and fuel: "2 ^ (arrNum L + idxNum L) \<le> fuel"
  shows "\<exists>t F. run (INIT_RESOURCE L (2 ^ k) fuel tid) s = Done () t \<and> map_ok False L k b F (\<lambda>_. []) t \<and>
    (\<Union>i<2 ^ k. nodes t (\<lambda>_. []) i) \<union> F = all_records L"
proof -
  have L: "layout_ok L" and k: "k \<le> 64" using r by (simp_all add: room_def)
  obtain g where g: "fuel = Suc (Suc g)" using two_le_pow [OF L fuel] by blast
  let ?F = "free_set (arrNum L) (\<lambda>_. [0..<2 ^ idxNum L])" and ?s = "init_pool (idxNum L) (arrNum L) s"
  have F: "?F = all_records L" by (auto simp: free_set_def all_records_def)
  then have card: "card ?F = 2 ^ (arrNum L + idxNum L)" by (simp add: all_records_def card_cartesian_product power_add)
  have "pool_ok False (idxNum L) (2 ^ arrNum L) (\<lambda>_. [0..<2 ^ idxNum L]) ?s"
    by (rule init_pool_lists) (use L in \<open>simp add: layout_ok_def\<close>)
  then have "pro_ok False L (b + 2 * 2 ^ k) ?F ?s" using r card by (auto simp: pro_ok_def room_def)
  then have m: "lists_ok L (pro_ok False L (b + 2 * length [0..<2 ^ k])) {} ?F (\<lambda>_. []) ?s" by (simp add: lists_ok_def)
  obtain t F where t: "run (init_lists L (get_Record fuel (idxNum L) (arrNum L) tid) [0..<2 ^ k]) ?s = Done () t"
      "lists_ok L (pro_ok False L b) ({} \<union> set [0..<2 ^ k]) F (\<lambda>_. []) t"
      "(\<Union>j\<in>{} \<union> set [0..<2 ^ k]. nodes t (\<lambda>_. []) j) \<union> F = (\<Union>j\<in>{}. nodes ?s (\<lambda>_. []) j) \<union> ?F"
    using record_map.init_run [OF record_map_pro [OF L k, where fuel = g and tid = tid and lag = False, folded g], OF m] by auto
  moreover have "{} \<union> set [0..<2 ^ k] = {..<2 ^ k :: nat}" by auto
  ultimately show ?thesis using F by (auto simp: INIT_RESOURCE_def)
qed

lemma mcnt_empty [simp]: "mcnt b (\<lambda>_. []) = (\<lambda>_. 0)"
  by (rule ext) (simp add: mcnt_def)

lemma program_run:
  assumes r: "room L k (b + inserts ops)" and fuel: "2 ^ (arrNum L + idxNum L) \<le> fuel" and n: "length ops < 2 ^ refNum L"
  shows "\<exists>t E F. run (bind (INIT_RESOURCE L (2 ^ k) fuel tid) (\<lambda>_. script (map_op L (2 ^ k) fuel tid) ops)) s
      = Done (counter ops (\<lambda>_. 0)) t \<and> map_ok False L k b F E t \<and> map_count k E = counter_end ops (\<lambda>_. 0) \<and>
    (\<Union>i<2 ^ k. nodes t E i) \<union> F = all_records L"
proof -
  have L: "layout_ok L" and k: "k \<le> 64" using r by (simp_all add: room_def)
  from init_map_run [OF r fuel] obtain s1 F where s: "run (INIT_RESOURCE L (2 ^ k) fuel tid) s = Done () s1"
      "map_ok False L k (b + inserts ops) F (\<lambda>_. []) s1" "(\<Union>i<2 ^ k. nodes s1 (\<lambda>_. []) i) \<union> F = all_records L" by blast
  have "map_count k (\<lambda>_. []) p + length ops < 2 ^ refNum L" for p using n by simp
  from script_ops_run [OF L k s(2) fuel this, of tid] s(1,3) show ?thesis unfolding mcnt_empty by auto
qed

section \<open>No record is lost\<close>

lemma count_list_seg: "seg L s l es z \<Longrightarrow> z \<notin> locs es \<Longrightarrow> length es < fuel \<Longrightarrow> count_list fuel L s l z = Some (length es)"
proof (induction L s l es z arbitrary: fuel rule: seg.induct)
  case (1 L s l l')
  then show ?case by (cases fuel) auto
next
  case (2 L s l x k c es l')
  then obtain f where "fuel = Suc f" by (cases fuel) auto
  with 2 show ?case by (auto simp: view_Some)
qed

lemma count_lists_sum:
  assumes "\<And>i. i \<in> set is \<Longrightarrow> \<exists>h z. lists s i = Some (h, z) \<and> list_ok L s h z (E i) \<and> length (E i) < fuel"
  shows "count_lists fuel L s is = Some (\<Sum>i\<leftarrow>is. length (E i))"
  using assms
proof (induction "is")
  case (Cons i "is")
  from Cons.prems [of i] obtain h z where hz: "lists s i = Some (h, z)" "list_ok L s h z (E i)" "length (E i) < fuel" by auto
  then obtain r where r: "rget h s = Some r" "seg L s (loc_of L (r_nextRecord r)) (E i) z" "z \<notin> locs (E i)"
    by (auto simp: list_ok_def chain_def view_Some)
  from count_list_seg [OF r(2,3) hz(3)] hz(1) r(1) Cons show ?case by simp
qed simp

lemma card_nodes:
  assumes "list_ok L s h z (E i)" and "lists s i = Some (h, z)"
  shows "finite (nodes s E i) \<and> card (nodes s E i) = length (E i) + 2"
proof -
  from assms(1) have d: "distinct (h # z # map fst (E i))" by (auto simp: list_ok_def chain_def)
  have "nodes s E i = set (h # z # map fst (E i))" using assms(2) by (simp add: nodes_def)
  with distinct_card [OF d] show ?thesis by simp
qed

lemma leak_check:
  assumes m: "map_ok False L k b F E t" and u: "(\<Union>i<2 ^ k. nodes t E i) \<union> F = all_records L"
    and fuel: "2 ^ (arrNum L + idxNum L) \<le> fuel"
  shows "\<exists>num. count_lists fuel L t [0..<2 ^ k] = Some num \<and> UNINIT_RESOURCE L (2 ^ k) num t = Some False"
proof -
  let ?I = "{..<2 ^ k :: nat}"
  from m obtain Q where Q: "pool_ok False (idxNum L) (2 ^ arrNum L) Q t" "F = free_set (arrNum L) Q"
    by (auto simp: lists_ok_def pro_ok_def)
  have li: "\<exists>h z. lists t i = Some (h, z) \<and> list_ok L t h z (E i) \<and> length (E i) < fuel" if "i \<in> ?I" for i
  proof -
    from m that obtain h z where "lists t i = Some (h, z)" "list_ok L t h z (E i)" unfolding lists_ok_def by blast
    with list_length [of L t h z "E i"] fuel show ?thesis by fastforce
  qed
  have cl: "count_lists fuel L t [0..<2 ^ k] = Some (\<Sum>i<2 ^ k. length (E i))"
    using count_lists_sum [where E = E and fuel = fuel and s = t and L = L, of "[0..<2 ^ k]"] li
    by (simp add: interv_sum_list_conv_sum_set_nat atLeast0LessThan)
  have "card F = (\<Sum>a<2 ^ arrNum L. card (set (Q a)))" unfolding Q(2) free_set_def by (subst card_SigmaI) simp_all
  also have "\<dots> = (\<Sum>a<2 ^ arrNum L. length (Q a))"
    using Q(1) by (intro sum.cong refl distinct_card) (auto simp: pool_ok_def free_queue_def)
  finally have "count_free (idxNum L) t [0..<2 ^ arrNum L] = Some (card F)"
    using count_free_run [OF Q(1)] by (simp add: interv_sum_list_conv_sum_set_nat atLeast0LessThan)
  moreover have "card F + (\<Sum>i<2 ^ k. length (E i)) + 2 ^ k * 2 = 2 ^ (idxNum L + arrNum L)"
  proof -
    have c: "finite (nodes t E i) \<and> card (nodes t E i) = length (E i) + 2" if "i \<in> ?I" for i
      using li [OF that] card_nodes by blast
    have "card (\<Union>i<2 ^ k. nodes t E i) = (\<Sum>i<2 ^ k. card (nodes t E i))"
      using c m unfolding lists_ok_def by (intro card_UN_disjoint) auto
    also have "\<dots> = (\<Sum>i<2 ^ k. length (E i) + 2)" using c by (intro sum.cong) auto
    finally have n: "card (\<Union>i<2 ^ k. nodes t E i) = (\<Sum>i<2 ^ k. length (E i)) + 2 ^ k * 2"
      by (simp add: sum.distrib [of _ "\<lambda>_. 2"] mult.commute del: add_2_eq_Suc add_2_eq_Suc')
    have "(\<Union>i<2 ^ k. nodes t E i) \<inter> F = {}" using m unfolding lists_ok_def by blast
    moreover have "finite (\<Union>i<2 ^ k. nodes t E i)" "finite F" using c Q(2) by (auto simp: free_set_def)
    ultimately have "card ((\<Union>i<2 ^ k. nodes t E i) \<union> F) = card (\<Union>i<2 ^ k. nodes t E i) + card F"
      by (intro card_Un_disjoint)
    then show ?thesis unfolding u n by (simp add: all_records_def card_cartesian_product power_add algebra_simps)
  qed
  ultimately show ?thesis using cl by (simp add: UNINIT_RESOURCE_def)
qed

section \<open>What the map promises\<close>

text \<open>The instance of \<^verbatim>\<open>mayijin/lockfreePro.c\<close>: 65536 lists. Also memory before \<open>INIT_RESOURCE\<close>, for
  the concrete runs.\<close>

interpretation pro: record_map layout_pro "get_Record (Suc (Suc fuel)) 16 6 tid :: ((32 word, 'z) map_pool_scheme, loc option) prog"
  "return_Record (Suc (Suc fuel)) 16 6 tid" "pro_ok lag layout_pro" pool_keeps "bucket (2 ^ 16)" "2 ^ 16" for fuel tid lag
  using record_map_pro [OF layout_instances(1), where k = 16 and fuel = fuel and tid = tid and lag = lag] by (simp add: layout_pro_def)

definition empty_map :: "32 word map_pool" where
  "empty_map = \<lparr>Records = Map.empty, qhead = \<lambda>_. 0, qtail = \<lambda>_. 0, recordTake = 0, plog = \<lambda>_. [],
     lists = Map.empty\<rparr>"

lemma pro_room: "b \<le> 4063168 \<Longrightarrow> room layout_pro 16 b"
  using layout_instances(1) by (simp add: room_def layout_pro_def)

lemma pro_init:
  "\<exists>t F. run (INIT_RESOURCE layout_pro (2 ^ 16) (2 ^ 22) 0) empty_map = Done () t \<and> map_ok False layout_pro 16 9 F (\<lambda>_. []) t"
  using init_map_run [OF pro_room [of 9], of "2 ^ 22" 0 empty_map] by (auto simp: layout_pro_def)

text \<open>C11: \<open>psly_record\<close> run alone on a well-formed map returns the count of the key plus one and leaves
  a well-formed map whose count of that key is one larger and of every other key the same, in
  which every record is still in a list or free. It needs a count below the largest one and a
  free record that no queue must keep.\<close>

theorem psly_record_ok:
  assumes "layout_ok L" and "k \<le> 64" and "map_ok lag L k (Suc b) F E s" and "2 ^ (arrNum L + idxNum L) \<le> fuel"
    and "map_count k E p < 2 ^ refNum L - 1"
  shows "\<exists>t E' F'. run (psly_record L (2 ^ k) fuel tid p) s = Done (int (map_count k E p + 1)) t \<and>
    map_ok lag L k b F' E' t \<and> map_count k E' = (map_count k E)(p := map_count k E p + 1) \<and>
    (\<Union>i<2 ^ k. nodes t E' i) \<union> F' = (\<Union>i<2 ^ k. nodes s E i) \<union> F"
  using map_op_run [where f = RECORD, unfolded need_simps, OF assms(1-4)] assms(5)
  unfolding map_op_def op_count_def flag.simps by blast

theorem psly_record_ok_witness:
  "\<exists>s t. run (INIT_RESOURCE layout_pro (2 ^ 16) (2 ^ 22) 0) empty_map = Done () s \<and>
     run (psly_record layout_pro (2 ^ 16) (2 ^ 22) 0 7) s = Done 1 t"
proof -
  obtain s F where s: "run (INIT_RESOURCE layout_pro (2 ^ 16) (2 ^ 22) 0) empty_map = Done () s"
      "map_ok False layout_pro 16 (Suc 8) F (\<lambda>_. []) s" using pro_init by auto
  from psly_record_ok [OF layout_instances(1) _ s(2), where fuel = "2 ^ 22" and p = 7 and tid = 0] s(1)
  show ?thesis by (auto simp: layout_pro_def)
qed



text \<open>C13: \<open>psly_search\<close> run alone returns the count of the key and changes no count.\<close>

theorem psly_search_ok:
  assumes "layout_ok L" and "k \<le> 64" and "map_ok lag L k b F E s" and "2 ^ (arrNum L + idxNum L) \<le> fuel"
  shows "\<exists>t E' F'. run (psly_search L (2 ^ k) fuel tid p) s = Done (int (map_count k E p)) t \<and>
    map_ok lag L k b F' E' t \<and> map_count k E' = map_count k E \<and>
    (\<Union>i<2 ^ k. nodes t E' i) \<union> F' = (\<Union>i<2 ^ k. nodes s E i) \<union> F"
  using map_op_run [where f = SEARCH, unfolded need_simps, OF assms]
  unfolding map_op_def op_count_def flag.simps fun_upd_triv by blast

theorem psly_search_ok_witness:
  "\<exists>s t u. run (INIT_RESOURCE layout_pro (2 ^ 16) (2 ^ 22) 0) empty_map = Done () s \<and>
     run (psly_record layout_pro (2 ^ 16) (2 ^ 22) 0 7) s = Done 1 t \<and> run (psly_search layout_pro (2 ^ 16) (2 ^ 22) 0 7) t = Done 1 u"
proof -
  obtain s F where s: "run (INIT_RESOURCE layout_pro (2 ^ 16) (2 ^ 22) 0) empty_map = Done () s"
      "map_ok False layout_pro 16 (need RECORD 8) F (\<lambda>_. []) s" using pro_init by auto
  from map_op_run [OF layout_instances(1) _ s(2), where fuel = "2 ^ 22" and p = 7 and tid = 0]
  obtain t E' F' where t: "run (psly_record layout_pro (2 ^ 16) (2 ^ 22) 0 7) s = Done 1 t" "map_ok False layout_pro 16 8 F' E' t"
      "map_count 16 E' 7 = 1"
    by (auto simp: map_op_def op_count_def layout_pro_def)
  from psly_search_ok [OF layout_instances(1) _ t(2), where fuel = "2 ^ 22" and p = 7 and tid = 0] t s(1)
  show ?thesis by (auto simp: layout_pro_def)
qed

text \<open>C1: refinement to a counter of keys. From \<open>INIT_RESOURCE\<close> on, whatever is in memory, any sequence
  of calls of \<open>psly_record\<close>, \<open>psly_remove\<close> and \<open>psly_search\<close> that is shorter than the largest count and
  for whose insertions the pool has room returns exactly what a counter of keys returns.\<close>

theorem map_refines_counter:
  assumes "room L k (inserts ops)" and "2 ^ (arrNum L + idxNum L) \<le> fuel" and "length ops < 2 ^ refNum L"
  shows "\<exists>t. run (bind (INIT_RESOURCE L (2 ^ k) fuel tid) (\<lambda>_. script (map_op L (2 ^ k) fuel tid) ops)) s
    = Done (counter ops (\<lambda>_. 0)) t"
  using program_run [of L k 0 ops fuel tid s] assms unfolding add_0 by blast

theorem map_refines_counter_witness:
  "\<exists>t. run (bind (INIT_RESOURCE layout_pro (2 ^ 16) (2 ^ 22) 0) (\<lambda>_. script (map_op layout_pro (2 ^ 16) (2 ^ 22) 0)
      [(RECORD, 7), (RECORD, 7), (SEARCH, 7), (REMOVE, 7), (REMOVE, 9)])) empty_map = Done [1, 2, 2, 1, 0] t"
  using map_refines_counter [OF pro_room, where ops = "[(RECORD, 7), (RECORD, 7), (SEARCH, 7), (REMOVE, 7), (REMOVE, 9)]"
      and fuel = "2 ^ 22" and tid = 0 and s = empty_map]
  by (simp add: op_count_def layout_pro_def)

text \<open>C4: no record is lost. After any such sequence of calls the check of \<open>UNINIT_RESOURCE\<close> passes: the
  free records of the queues, the records the main program counts in the lists and the two of
  each list are all the records ever made.\<close>

theorem no_record_lost:
  assumes "room L k (inserts ops)" and "2 ^ (arrNum L + idxNum L) \<le> fuel" and "length ops < 2 ^ refNum L"
  shows "\<exists>rs t num. run (bind (INIT_RESOURCE L (2 ^ k) fuel tid) (\<lambda>_. script (map_op L (2 ^ k) fuel tid) ops)) s = Done rs t \<and>
    count_lists fuel L t [0..<2 ^ k] = Some num \<and> UNINIT_RESOURCE L (2 ^ k) num t = Some False"
proof -
  from program_run [of L k 0 ops fuel tid s] assms obtain t E F where
    t: "run (bind (INIT_RESOURCE L (2 ^ k) fuel tid) (\<lambda>_. script (map_op L (2 ^ k) fuel tid) ops)) s = Done (counter ops (\<lambda>_. 0)) t"
      "map_ok False L k 0 F E t" "(\<Union>i<2 ^ k. nodes t E i) \<union> F = all_records L" by auto
  with leak_check [OF t(2,3) assms(2)] show ?thesis by blast
qed

theorem no_record_lost_witness:
  "\<exists>rs t num. run (bind (INIT_RESOURCE layout_pro (2 ^ 16) (2 ^ 22) 0) (\<lambda>_. script (map_op layout_pro (2 ^ 16) (2 ^ 22) 0)
      [(RECORD, 7), (REMOVE, 7), (RECORD, 8)])) empty_map = Done rs t \<and>
    count_lists (2 ^ 22) layout_pro t [0..<2 ^ 16] = Some num \<and> UNINIT_RESOURCE layout_pro (2 ^ 16) num t = Some False"
  by (rule no_record_lost [OF pro_room]) (simp_all add: layout_pro_def)

end
