(* ===== verification/MapFiles.thy ===== *)
theory MapFiles
  imports MapProgram
begin

text \<open>
  The other files with the macro of \<^verbatim>\<open>mayijin/lockfreePro.c\<close>, with its arguments 16, 16, 6 and 65536
  lists: \<^verbatim>\<open>mayijin/lockfreelist_now.c\<close> (prefix \<open>now\<close>), \<^verbatim>\<open>mayijin/mapLockFreeList-takerefcount.c\<close>
  (\<open>trc\<close>), \<^verbatim>\<open>lockfreelist_now.c\<close> (\<open>old\<close>) and the copy of it in \<^verbatim>\<open>compare_LockFreeList\<close> (\<open>cmp\<close>). They
  write the loop of \<open>psly_handle_records\<close> with \<open>goto Restart\<close>, \<open>JUSTNEXTCHANGE\<close> and \<open>CasAppend\<close> where
  \<^verbatim>\<open>lockfreePro.c\<close> writes the statements out; the atomic steps are the same, so the definitions of
  \<^verbatim>\<open>RecordList\<close> model them and each file is proved to count its keys and lose no record.
\<close>

lemma pro_program:
  assumes "length ops < 65536" and "2 ^ 22 \<le> fuel"
  shows "\<exists>t num. run (bind (INIT_RESOURCE layout_pro 65536 fuel tid) (\<lambda>_. script (map_op layout_pro 65536 fuel tid) ops)) s
      = Done (counter ops (\<lambda>_. 0)) t \<and>
    count_lists fuel layout_pro t [0..<65536] = Some num \<and> UNINIT_RESOURCE layout_pro 65536 num t = Some False"
proof -
  have r: "room layout_pro 16 (0 + inserts ops)" using inserts_le [of ops] assms(1) by (intro pro_room) simp
  have f: "2 ^ (arrNum layout_pro + idxNum layout_pro) \<le> fuel" "length ops < 2 ^ refNum layout_pro"
    using assms by (simp_all add: layout_pro_def)
  have e: "(2 :: nat) ^ 16 = 65536" by simp
  from program_run [OF r f, of tid s] obtain t E F where
    t: "run (bind (INIT_RESOURCE layout_pro 65536 fuel tid) (\<lambda>_. script (map_op layout_pro 65536 fuel tid) ops)) s
      = Done (counter ops (\<lambda>_. 0)) t"
      "map_ok False layout_pro 16 0 F E t" "(\<Union>i<2 ^ 16. nodes t E i) \<union> F = all_records layout_pro" unfolding e by blast
  with leak_check [OF t(2,3) f(1)] show ?thesis unfolding e by blast
qed

section \<open>\<^verbatim>\<open>mayijin/lockfreelist_now.c\<close>\<close>

definition now_get_Record :: "nat \<Rightarrow> nat \<Rightarrow> ((32 word, 'z) map_pool_scheme, loc option) prog" where
  "now_get_Record fuel tid = get_Record fuel 16 6 tid"

definition now_return_Record :: "nat \<Rightarrow> nat \<Rightarrow> loc \<Rightarrow> ((32 word, 'z) map_pool_scheme, unit) prog" where
  "now_return_Record fuel tid record = return_Record fuel 16 6 tid record"

definition now_handle_records :: "nat \<Rightarrow> nat \<Rightarrow> 64 word \<Rightarrow> flag \<Rightarrow> loc \<Rightarrow> loc \<Rightarrow> ((32 word, 'z) map_pool_scheme, int) prog" where
  "now_handle_records fuel tid pointer flag head tail = handle_records fuel
     \<lparr>e_layout = layout_pro, e_head = head, e_tail = tail, e_pointer = pointer, e_flag = flag,
      e_get = now_get_Record fuel tid, e_return = now_return_Record fuel tid,
      e_restart = restart_head layout_pro head, e_note = (\<lambda>_ k. k)\<rparr>"

definition now_psly_record :: "nat \<Rightarrow> nat \<Rightarrow> 64 word \<Rightarrow> ((32 word, 'z) map_pool_scheme, int) prog" where
  "now_psly_record fuel tid pointer = ldp (\<lambda>s. lists s (bucket 65536 pointer)) (\<lambda>(head, tail).
     now_handle_records fuel tid pointer RECORD head tail)"

definition now_psly_remove :: "nat \<Rightarrow> nat \<Rightarrow> 64 word \<Rightarrow> ((32 word, 'z) map_pool_scheme, int) prog" where
  "now_psly_remove fuel tid pointer = ldp (\<lambda>s. lists s (bucket 65536 pointer)) (\<lambda>(head, tail).
     now_handle_records fuel tid pointer REMOVE head tail)"

definition now_psly_search :: "nat \<Rightarrow> nat \<Rightarrow> 64 word \<Rightarrow> ((32 word, 'z) map_pool_scheme, int) prog" where
  "now_psly_search fuel tid pointer = ldp (\<lambda>s. lists s (bucket 65536 pointer)) (\<lambda>(head, tail).
     now_handle_records fuel tid pointer SEARCH head tail)"

definition now_INIT :: "nat \<Rightarrow> nat \<Rightarrow> ((32 word, 'z) map_pool_scheme, unit) prog" where
  "now_INIT fuel tid = st (init_pool 16 6) (init_lists layout_pro (now_get_Record fuel tid) [0..<65536])"

definition now_UNINIT :: "nat \<Rightarrow> ('c, 'z) pool_scheme \<Rightarrow> bool option" where
  "now_UNINIT num s = map_option (\<lambda>count. count + num + 65536 * 2 \<noteq> 2 ^ (16 + 6)) (count_free 16 s [0..<2 ^ 6])"

definition now_op :: "nat \<Rightarrow> nat \<Rightarrow> flag \<Rightarrow> 64 word \<Rightarrow> ((32 word, 'z) map_pool_scheme, int) prog" where
  "now_op fuel tid f p = (case f of RECORD \<Rightarrow> now_psly_record fuel tid p
     | SEARCH \<Rightarrow> now_psly_search fuel tid p | REMOVE \<Rightarrow> now_psly_remove fuel tid p)"

lemma now_same_op: "now_op fuel tid = map_op layout_pro 65536 fuel tid"
  by (intro ext) (simp add: now_op_def now_psly_record_def now_psly_remove_def now_psly_search_def map_op_on_list on_list_def
      now_handle_records_def list_env_def now_get_Record_def [abs_def] now_return_Record_def [abs_def] layout_pro_def split: flag.split)

lemma now_same_INIT: "now_INIT fuel tid = INIT_RESOURCE layout_pro 65536 fuel tid"
  by (simp add: now_INIT_def INIT_RESOURCE_def now_get_Record_def layout_pro_def)

lemma now_same_UNINIT: "now_UNINIT num t = UNINIT_RESOURCE layout_pro 65536 num t"
  by (simp add: now_UNINIT_def UNINIT_RESOURCE_def layout_pro_def)

lemmas now_same = now_same_op now_same_INIT now_same_UNINIT

section \<open>\<^verbatim>\<open>mayijin/mapLockFreeList-takerefcount.c\<close>\<close>

definition trc_get_Record :: "nat \<Rightarrow> nat \<Rightarrow> ((32 word, 'z) map_pool_scheme, loc option) prog" where
  "trc_get_Record fuel tid = get_Record fuel 16 6 tid"

definition trc_return_Record :: "nat \<Rightarrow> nat \<Rightarrow> loc \<Rightarrow> ((32 word, 'z) map_pool_scheme, unit) prog" where
  "trc_return_Record fuel tid record = return_Record fuel 16 6 tid record"

definition trc_handle_records :: "nat \<Rightarrow> nat \<Rightarrow> 64 word \<Rightarrow> flag \<Rightarrow> loc \<Rightarrow> loc \<Rightarrow> ((32 word, 'z) map_pool_scheme, int) prog" where
  "trc_handle_records fuel tid pointer flag head tail = handle_records fuel
     \<lparr>e_layout = layout_pro, e_head = head, e_tail = tail, e_pointer = pointer, e_flag = flag,
      e_get = trc_get_Record fuel tid, e_return = trc_return_Record fuel tid,
      e_restart = restart_head layout_pro head, e_note = (\<lambda>_ k. k)\<rparr>"

definition trc_psly_record :: "nat \<Rightarrow> nat \<Rightarrow> 64 word \<Rightarrow> ((32 word, 'z) map_pool_scheme, int) prog" where
  "trc_psly_record fuel tid pointer = ldp (\<lambda>s. lists s (bucket 65536 pointer)) (\<lambda>(head, tail).
     trc_handle_records fuel tid pointer RECORD head tail)"

definition trc_psly_remove :: "nat \<Rightarrow> nat \<Rightarrow> 64 word \<Rightarrow> ((32 word, 'z) map_pool_scheme, int) prog" where
  "trc_psly_remove fuel tid pointer = ldp (\<lambda>s. lists s (bucket 65536 pointer)) (\<lambda>(head, tail).
     trc_handle_records fuel tid pointer REMOVE head tail)"

definition trc_psly_search :: "nat \<Rightarrow> nat \<Rightarrow> 64 word \<Rightarrow> ((32 word, 'z) map_pool_scheme, int) prog" where
  "trc_psly_search fuel tid pointer = ldp (\<lambda>s. lists s (bucket 65536 pointer)) (\<lambda>(head, tail).
     trc_handle_records fuel tid pointer SEARCH head tail)"

definition trc_INIT :: "nat \<Rightarrow> nat \<Rightarrow> ((32 word, 'z) map_pool_scheme, unit) prog" where
  "trc_INIT fuel tid = st (init_pool 16 6) (init_lists layout_pro (trc_get_Record fuel tid) [0..<65536])"

definition trc_UNINIT :: "nat \<Rightarrow> ('c, 'z) pool_scheme \<Rightarrow> bool option" where
  "trc_UNINIT num s = map_option (\<lambda>count. count + num + 65536 * 2 \<noteq> 2 ^ (16 + 6)) (count_free 16 s [0..<2 ^ 6])"

definition trc_op :: "nat \<Rightarrow> nat \<Rightarrow> flag \<Rightarrow> 64 word \<Rightarrow> ((32 word, 'z) map_pool_scheme, int) prog" where
  "trc_op fuel tid f p = (case f of RECORD \<Rightarrow> trc_psly_record fuel tid p
     | SEARCH \<Rightarrow> trc_psly_search fuel tid p | REMOVE \<Rightarrow> trc_psly_remove fuel tid p)"

lemma trc_same_op: "trc_op fuel tid = map_op layout_pro 65536 fuel tid"
  by (intro ext) (simp add: trc_op_def trc_psly_record_def trc_psly_remove_def trc_psly_search_def map_op_on_list on_list_def
      trc_handle_records_def list_env_def trc_get_Record_def [abs_def] trc_return_Record_def [abs_def] layout_pro_def split: flag.split)

lemma trc_same_INIT: "trc_INIT fuel tid = INIT_RESOURCE layout_pro 65536 fuel tid"
  by (simp add: trc_INIT_def INIT_RESOURCE_def trc_get_Record_def layout_pro_def)

lemma trc_same_UNINIT: "trc_UNINIT num t = UNINIT_RESOURCE layout_pro 65536 num t"
  by (simp add: trc_UNINIT_def UNINIT_RESOURCE_def layout_pro_def)

lemmas trc_same = trc_same_op trc_same_INIT trc_same_UNINIT

section \<open>\<^verbatim>\<open>lockfreelist_now.c\<close>\<close>

definition old_get_Record :: "nat \<Rightarrow> nat \<Rightarrow> ((32 word, 'z) map_pool_scheme, loc option) prog" where
  "old_get_Record fuel tid = get_Record fuel 16 6 tid"

definition old_return_Record :: "nat \<Rightarrow> nat \<Rightarrow> loc \<Rightarrow> ((32 word, 'z) map_pool_scheme, unit) prog" where
  "old_return_Record fuel tid record = return_Record fuel 16 6 tid record"

definition old_handle_records :: "nat \<Rightarrow> nat \<Rightarrow> 64 word \<Rightarrow> flag \<Rightarrow> loc \<Rightarrow> loc \<Rightarrow> ((32 word, 'z) map_pool_scheme, int) prog" where
  "old_handle_records fuel tid pointer flag head tail = handle_records fuel
     \<lparr>e_layout = layout_pro, e_head = head, e_tail = tail, e_pointer = pointer, e_flag = flag,
      e_get = old_get_Record fuel tid, e_return = old_return_Record fuel tid,
      e_restart = restart_head layout_pro head, e_note = (\<lambda>_ k. k)\<rparr>"

definition old_psly_record :: "nat \<Rightarrow> nat \<Rightarrow> 64 word \<Rightarrow> ((32 word, 'z) map_pool_scheme, int) prog" where
  "old_psly_record fuel tid pointer = ldp (\<lambda>s. lists s (bucket 65536 pointer)) (\<lambda>(head, tail).
     old_handle_records fuel tid pointer RECORD head tail)"

definition old_psly_remove :: "nat \<Rightarrow> nat \<Rightarrow> 64 word \<Rightarrow> ((32 word, 'z) map_pool_scheme, int) prog" where
  "old_psly_remove fuel tid pointer = ldp (\<lambda>s. lists s (bucket 65536 pointer)) (\<lambda>(head, tail).
     old_handle_records fuel tid pointer REMOVE head tail)"

definition old_psly_search :: "nat \<Rightarrow> nat \<Rightarrow> 64 word \<Rightarrow> ((32 word, 'z) map_pool_scheme, int) prog" where
  "old_psly_search fuel tid pointer = ldp (\<lambda>s. lists s (bucket 65536 pointer)) (\<lambda>(head, tail).
     old_handle_records fuel tid pointer SEARCH head tail)"

definition old_INIT :: "nat \<Rightarrow> nat \<Rightarrow> ((32 word, 'z) map_pool_scheme, unit) prog" where
  "old_INIT fuel tid = st (init_pool 16 6) (init_lists layout_pro (old_get_Record fuel tid) [0..<65536])"

definition old_UNINIT :: "nat \<Rightarrow> ('c, 'z) pool_scheme \<Rightarrow> bool option" where
  "old_UNINIT num s = map_option (\<lambda>count. count + num + 65536 * 2 \<noteq> 2 ^ (16 + 6)) (count_free 16 s [0..<2 ^ 6])"

definition old_op :: "nat \<Rightarrow> nat \<Rightarrow> flag \<Rightarrow> 64 word \<Rightarrow> ((32 word, 'z) map_pool_scheme, int) prog" where
  "old_op fuel tid f p = (case f of RECORD \<Rightarrow> old_psly_record fuel tid p
     | SEARCH \<Rightarrow> old_psly_search fuel tid p | REMOVE \<Rightarrow> old_psly_remove fuel tid p)"

lemma old_same_op: "old_op fuel tid = map_op layout_pro 65536 fuel tid"
  by (intro ext) (simp add: old_op_def old_psly_record_def old_psly_remove_def old_psly_search_def map_op_on_list on_list_def
      old_handle_records_def list_env_def old_get_Record_def [abs_def] old_return_Record_def [abs_def] layout_pro_def split: flag.split)

lemma old_same_INIT: "old_INIT fuel tid = INIT_RESOURCE layout_pro 65536 fuel tid"
  by (simp add: old_INIT_def INIT_RESOURCE_def old_get_Record_def layout_pro_def)

lemma old_same_UNINIT: "old_UNINIT num t = UNINIT_RESOURCE layout_pro 65536 num t"
  by (simp add: old_UNINIT_def UNINIT_RESOURCE_def layout_pro_def)

lemmas old_same = old_same_op old_same_INIT old_same_UNINIT

section \<open>\<^verbatim>\<open>fast/fast64bitversion/hazardP/compare_LockFreeList/lockfreelist_now.c\<close>\<close>

definition cmp_get_Record :: "nat \<Rightarrow> nat \<Rightarrow> ((32 word, 'z) map_pool_scheme, loc option) prog" where
  "cmp_get_Record fuel tid = get_Record fuel 16 6 tid"

definition cmp_return_Record :: "nat \<Rightarrow> nat \<Rightarrow> loc \<Rightarrow> ((32 word, 'z) map_pool_scheme, unit) prog" where
  "cmp_return_Record fuel tid record = return_Record fuel 16 6 tid record"

definition cmp_handle_records :: "nat \<Rightarrow> nat \<Rightarrow> 64 word \<Rightarrow> flag \<Rightarrow> loc \<Rightarrow> loc \<Rightarrow> ((32 word, 'z) map_pool_scheme, int) prog" where
  "cmp_handle_records fuel tid pointer flag head tail = handle_records fuel
     \<lparr>e_layout = layout_pro, e_head = head, e_tail = tail, e_pointer = pointer, e_flag = flag,
      e_get = cmp_get_Record fuel tid, e_return = cmp_return_Record fuel tid,
      e_restart = restart_head layout_pro head, e_note = (\<lambda>_ k. k)\<rparr>"

definition cmp_psly_record :: "nat \<Rightarrow> nat \<Rightarrow> 64 word \<Rightarrow> ((32 word, 'z) map_pool_scheme, int) prog" where
  "cmp_psly_record fuel tid pointer = ldp (\<lambda>s. lists s (bucket 65536 pointer)) (\<lambda>(head, tail).
     cmp_handle_records fuel tid pointer RECORD head tail)"

definition cmp_psly_remove :: "nat \<Rightarrow> nat \<Rightarrow> 64 word \<Rightarrow> ((32 word, 'z) map_pool_scheme, int) prog" where
  "cmp_psly_remove fuel tid pointer = ldp (\<lambda>s. lists s (bucket 65536 pointer)) (\<lambda>(head, tail).
     cmp_handle_records fuel tid pointer REMOVE head tail)"

definition cmp_psly_search :: "nat \<Rightarrow> nat \<Rightarrow> 64 word \<Rightarrow> ((32 word, 'z) map_pool_scheme, int) prog" where
  "cmp_psly_search fuel tid pointer = ldp (\<lambda>s. lists s (bucket 65536 pointer)) (\<lambda>(head, tail).
     cmp_handle_records fuel tid pointer SEARCH head tail)"

definition cmp_INIT :: "nat \<Rightarrow> nat \<Rightarrow> ((32 word, 'z) map_pool_scheme, unit) prog" where
  "cmp_INIT fuel tid = st (init_pool 16 6) (init_lists layout_pro (cmp_get_Record fuel tid) [0..<65536])"

definition cmp_UNINIT :: "nat \<Rightarrow> ('c, 'z) pool_scheme \<Rightarrow> bool option" where
  "cmp_UNINIT num s = map_option (\<lambda>count. count + num + 65536 * 2 \<noteq> 2 ^ (16 + 6)) (count_free 16 s [0..<2 ^ 6])"

definition cmp_op :: "nat \<Rightarrow> nat \<Rightarrow> flag \<Rightarrow> 64 word \<Rightarrow> ((32 word, 'z) map_pool_scheme, int) prog" where
  "cmp_op fuel tid f p = (case f of RECORD \<Rightarrow> cmp_psly_record fuel tid p
     | SEARCH \<Rightarrow> cmp_psly_search fuel tid p | REMOVE \<Rightarrow> cmp_psly_remove fuel tid p)"

lemma cmp_same_op: "cmp_op fuel tid = map_op layout_pro 65536 fuel tid"
  by (intro ext) (simp add: cmp_op_def cmp_psly_record_def cmp_psly_remove_def cmp_psly_search_def map_op_on_list on_list_def
      cmp_handle_records_def list_env_def cmp_get_Record_def [abs_def] cmp_return_Record_def [abs_def] layout_pro_def split: flag.split)

lemma cmp_same_INIT: "cmp_INIT fuel tid = INIT_RESOURCE layout_pro 65536 fuel tid"
  by (simp add: cmp_INIT_def INIT_RESOURCE_def cmp_get_Record_def layout_pro_def)

lemma cmp_same_UNINIT: "cmp_UNINIT num t = UNINIT_RESOURCE layout_pro 65536 num t"
  by (simp add: cmp_UNINIT_def UNINIT_RESOURCE_def layout_pro_def)

lemmas cmp_same = cmp_same_op cmp_same_INIT cmp_same_UNINIT

section \<open>The four files\<close>

text \<open>C29: the maps of the four files return what a counter of keys returns, for any sequence of fewer than
  65536 calls after their \<open>INIT_RESOURCE\<close>, and their leak check passes at the end.\<close>

theorem macro_files_count:
  assumes "length ops < 65536" and "2 ^ 22 \<le> fuel"
    and "(init, opr, uninit) \<in> {(now_INIT fuel tid, now_op fuel tid, now_UNINIT), (trc_INIT fuel tid, trc_op fuel tid, trc_UNINIT),
      (old_INIT fuel tid, old_op fuel tid, old_UNINIT), (cmp_INIT fuel tid, cmp_op fuel tid, cmp_UNINIT)}"
  shows "\<exists>t num. run (bind init (\<lambda>_. script opr ops)) s = Done (counter ops (\<lambda>_. 0)) t \<and>
    count_lists fuel layout_pro t [0..<65536] = Some num \<and> uninit num t = Some False"
  using assms(3) pro_program [OF assms(1,2), of tid s]
  by (auto simp: now_same trc_same old_same cmp_same)

theorem macro_files_count_witness:
  "\<exists>t num. run (bind (old_INIT (2 ^ 22) 0) (\<lambda>_. script (old_op (2 ^ 22) 0) [(RECORD, 5), (SEARCH, 5), (REMOVE, 5), (SEARCH, 5)])) empty_map
      = Done [1, 1, 0, 0] t \<and> old_UNINIT num t = Some False"
  using macro_files_count [where ops = "[(RECORD, 5), (SEARCH, 5), (REMOVE, 5), (SEARCH, 5)]" and fuel = "2 ^ 22" and tid = 0
    and init = "old_INIT (2 ^ 22) 0" and opr = "old_op (2 ^ 22) 0" and uninit = old_UNINIT and s = empty_map]
  by (auto simp: op_count_def)

end
