(* ===== verification/QueueNodes.thy ===== *)
theory QueueNodes
  imports Prelude
begin

text \<open>
  The nodes of the lock-free queues and the chain they form in memory: \<open>NodeType\<close> of
  \<^verbatim>\<open>hazardpointer.c\<close> and of every other queue file. An address is a machine word, \<open>0\<close> is \<open>NULL\<close>;
  \<open>None\<close> is memory that is not allocated, so that reading or freeing it is undefined. \<open>malloc\<close> is a
  parameter: what it returns is \<open>0\<close> or the address of a block not allocated.
\<close>

section \<open>Memory\<close>

type_synonym addr = "64 word"

record node =
  n_value :: "32 word"
  n_next :: addr

type_synonym node_heap = "addr \<Rightarrow> node option"

definition malloc_ok :: "(node_heap \<Rightarrow> addr) \<Rightarrow> bool" where
  "malloc_ok malloc \<longleftrightarrow> (\<forall>m. malloc m \<noteq> 0 \<longrightarrow> m (malloc m) = None)"

text \<open>An allocator that gives out the lowest free address, for concrete runs.\<close>

fun lowest_free :: "nat \<Rightarrow> addr \<Rightarrow> node_heap \<Rightarrow> addr" where
  "lowest_free 0 a m = 0"
| "lowest_free (Suc n) a m = (if a \<noteq> 0 \<and> m a = None then a else lowest_free n (a + 64) m)"

lemma lowest_free_ok: "malloc_ok (lowest_free n a)"
proof -
  have "lowest_free n a m \<noteq> 0 \<longrightarrow> m (lowest_free n a m) = None" for m
    by (induction n a m rule: lowest_free.induct) auto
  then show ?thesis by (simp add: malloc_ok_def)
qed

section \<open>Chains of nodes\<close>

text \<open>The nodes from \<open>a\<close> to the one whose \<open>next\<close> is \<open>z\<close>, with their values.\<close>

fun nseg :: "node_heap \<Rightarrow> addr \<Rightarrow> (addr \<times> 32 word) list \<Rightarrow> addr \<Rightarrow> bool" where
  "nseg m a [] z = (a = z)"
| "nseg m a ((b, v) # ns) z = (b = a \<and> a \<noteq> 0 \<and> (\<exists>n. m a = Some n \<and> n_value n = v \<and> nseg m (n_next n) ns z))"

text \<open>A queue: a chain of distinct nodes to \<open>NULL\<close>. The first is a dummy, the values are those of the
  others; \<open>Tail\<close> is one of its nodes.\<close>

definition queue_ok :: "node_heap \<Rightarrow> addr \<Rightarrow> addr \<Rightarrow> (addr \<times> 32 word) list \<Rightarrow> bool" where
  "queue_ok m h t ns \<longleftrightarrow> ns \<noteq> [] \<and> nseg m h ns 0 \<and> distinct (map fst ns) \<and> t \<in> fst ` set ns"

definition queue_values :: "(addr \<times> 32 word) list \<Rightarrow> 32 word list" where
  "queue_values ns = map snd (List.tl ns)"

lemma nseg_append: "nseg m a (ns @ ms) z \<longleftrightarrow> (\<exists>b. nseg m a ns b \<and> nseg m b ms z)"
  by (induction ns arbitrary: a) (fastforce+)

lemma nseg_cong: "(\<And>b. b \<in> fst ` set ns \<Longrightarrow> m' b = m b) \<Longrightarrow> nseg m' a ns z = nseg m a ns z"
proof (induction ns arbitrary: a)
  case (Cons n ns)
  then show ?case by (cases n) auto
qed simp

lemma nseg_other [simp]: "b \<notin> fst ` set ns \<Longrightarrow> nseg (m(b := x)) a ns z = nseg m a ns z"
  by (rule nseg_cong) auto

lemma nseg_alloc: "nseg m a ns z \<Longrightarrow> b \<in> fst ` set ns \<Longrightarrow> b \<noteq> 0 \<and> m b \<noteq> None"
proof (induction ns arbitrary: a)
  case (Cons n ns)
  obtain c v where n: "n = (c, v)" by (cases n)
  with Cons.prems obtain k where k: "c = a" "a \<noteq> 0" "m a = Some k" "nseg m (n_next k) ns z" by auto
  show ?case
  proof (cases "b = a")
    case False
    with Cons.prems(2) n k(1) have "b \<in> fst ` set ns" by auto
    then show ?thesis by (rule Cons.IH [OF k(4)])
  qed (use k in simp)
qed simp

lemma nseg_hd: "nseg m a ns z \<Longrightarrow> ns \<noteq> [] \<Longrightarrow> fst (hd ns) = a"
  by (cases ns) auto

text \<open>A node of a queue and what follows it.\<close>

lemma queue_split:
  assumes "queue_ok m h t ns" and "m t = Some n"
  obtains xs ys where "ns = xs @ (t, n_value n) # ys" "nseg m h xs t" "nseg m (n_next n) ys 0" "t \<noteq> 0"
proof -
  from assms(1) obtain v where "(t, v) \<in> set ns" by (auto simp: queue_ok_def)
  then obtain xs ys where s: "ns = xs @ (t, v) # ys" by (meson split_list)
  with assms(1) obtain b where b: "nseg m h xs b" "nseg m b ((t, v) # ys) 0" by (auto simp: queue_ok_def nseg_append)
  from b(2) have "b = t" by simp
  with b s assms(2) that show ?thesis by auto
qed

lemma queue_alloc: "queue_ok m h t ns \<Longrightarrow> b \<in> fst ` set ns \<Longrightarrow> b \<noteq> 0 \<and> m b \<noteq> None"
  by (auto simp: queue_ok_def dest: nseg_alloc)

lemma queue_head: "queue_ok m h t ns \<Longrightarrow> \<exists>v ys n. ns = (h, v) # ys \<and> m h = Some n \<and> nseg m (n_next n) ys 0 \<and> h \<noteq> 0"
  by (cases ns) (auto simp: queue_ok_def)

text \<open>\<open>Tail\<close> moves to the node behind it.\<close>

lemma queue_advance:
  assumes "queue_ok m h t ns" and "m t = Some n" and "n_next n \<noteq> 0"
  shows "queue_ok m h (n_next n) ns"
proof -
  from queue_split [OF assms(1,2)] obtain xs ys where
    s: "ns = xs @ (t, n_value n) # ys" "nseg m (n_next n) ys 0" by blast
  have "ys \<noteq> []" using assms(3) s(2) by auto
  then have "fst (hd ys) = n_next n" using nseg_hd [OF s(2)] by blast
  with \<open>ys \<noteq> []\<close> have "n_next n \<in> fst ` set ys" by (metis hd_in_set imageI)
  with assms(1) s(1) show ?thesis by (auto simp: queue_ok_def)
qed

text \<open>A new node is linked behind the last one.\<close>

lemma queue_link:
  assumes "queue_ok m h t ns" and "m t = Some n" and "n_next n = 0" and "m a = Some \<lparr>n_value = v, n_next = 0\<rparr>"
    and "a \<noteq> 0" and "a \<notin> fst ` set ns"
  shows "queue_ok (m(t := Some (n\<lparr>n_next := a\<rparr>))) h t (ns @ [(a, v)])"
proof -
  from queue_split [OF assms(1,2)] obtain xs ys where
    s: "ns = xs @ (t, n_value n) # ys" "nseg m h xs t" "nseg m (n_next n) ys 0" "t \<noteq> 0" by blast
  from s(3) assms(3) have "ys = []" by (cases ys) auto
  moreover have "distinct (map fst ns)" using assms(1) by (simp add: queue_ok_def)
  ultimately have "nseg (m(t := Some (n\<lparr>n_next := a\<rparr>))) h (ns @ [(a, v)]) 0"
    using s assms(4-6) by (auto simp: nseg_append image_iff)
  with assms s(1) show ?thesis by (auto simp: queue_ok_def)
qed

lemma queue_last_next:
  assumes "queue_ok m h t ns" and "m t = Some n" and "n_next n = 0"
  shows "\<exists>v. last ns = (t, v)"
proof -
  from queue_split [OF assms(1,2)] obtain xs ys where "ns = xs @ (t, n_value n) # ys" "nseg m (n_next n) ys 0" by blast
  with assms(3) show ?thesis by (cases ys) auto
qed

text \<open>The head moves to the second node, which is the new dummy.\<close>

lemma queue_pop:
  assumes "queue_ok m h t ns" and "m h = Some n" and "n_next n \<noteq> 0" and "t \<noteq> h"
  shows "\<exists>v k ms. ns = (h, v) # ms \<and> ms = (n_next n, hd (queue_values ns)) # List.tl ms \<and> queue_ok m (n_next n) t ms \<and>
    m (n_next n) = Some k \<and> n_value k = hd (queue_values ns) \<and> queue_values ns = hd (queue_values ns) # queue_values ms"
proof -
  from queue_head [OF assms(1)] assms(2) obtain v ms where s: "ns = (h, v) # ms" "nseg m (n_next n) ms 0" by auto
  with assms(3) obtain w qs where q: "ms = (n_next n, w) # qs" by (cases ms) auto
  with s assms(1,4) show ?thesis by (auto simp: queue_ok_def queue_values_def)
qed

text \<open>Where \<open>Tail\<close> is: behind the head, or at it, and then the second node follows.\<close>

lemma tail_behind:
  assumes "queue_ok m h t ns" and "ns = xs @ (t, w) # ys" and "t \<noteq> h"
  shows "List.tl ns = List.tl xs @ (t, w) # ys"
proof -
  from queue_head [OF assms(1)] have "fst (hd ns) = h" by auto
  then have "xs \<noteq> []" using assms(2,3) by auto
  then show ?thesis using assms(2) by simp
qed

lemma tail_at_head:
  assumes "queue_ok m h h ns" and "ns = xs @ (h, w) # ys" and "m h = Some n" and "n_next n \<noteq> 0"
  shows "\<exists>u zs. ys = (n_next n, u) # zs \<and> List.tl ns = ys \<and> h \<noteq> n_next n"
proof -
  from queue_head [OF assms(1)] assms(3) obtain w0 ms where ms: "ns = (h, w0) # ms" "nseg m (n_next n) ms 0" by auto
  with assms(4) obtain u zs where u: "ms = (n_next n, u) # zs" by (cases ms) auto
  have d: "distinct (map fst ns)" using assms(1) by (simp add: queue_ok_def)
  have "xs = []"
  proof (rule ccontr)
    assume "xs \<noteq> []"
    then obtain x xs' where x: "xs = x # xs'" by (cases xs) auto
    with assms(2) ms(1) have "x = (h, w0)" by simp
    with x d assms(2) show False by simp
  qed
  then have "ys = ms" using assms(2) ms(1) by simp
  then show ?thesis using ms(1) u d by auto
qed

lemma queue_empty: "queue_ok m h t ns \<Longrightarrow> m h = Some n \<Longrightarrow> n_next n = 0 \<longleftrightarrow> queue_values ns = []"
  by (cases ns; cases "List.tl ns") (auto simp: queue_ok_def queue_values_def)

text \<open>A node outside the queue may be allocated, changed or freed.\<close>

lemma queue_frame: "queue_ok m h t ns \<Longrightarrow> a \<notin> fst ` set ns \<Longrightarrow> queue_ok (m(a := x)) h t ns"
  by (simp add: queue_ok_def)

section \<open>What a queue promises\<close>

text \<open>\<open>dequeue\<close> returns this number when the queue is empty; a queued value equal to it cannot be told
  from it.\<close>

definition EMPTY :: "32 word" where "EMPTY = - 1000000"

datatype qop = Enqueue "32 word" | Dequeue

text \<open>The results of the \<open>Dequeue\<close> operations of a script on a queue that holds \<open>vs\<close>.\<close>

fun fifo :: "qop list \<Rightarrow> 32 word list \<Rightarrow> 32 word list" where
  "fifo [] vs = []"
| "fifo (Enqueue v # ops) vs = fifo ops (vs @ [v])"
| "fifo (Dequeue # ops) [] = EMPTY # fifo ops []"
| "fifo (Dequeue # ops) (v # vs) = v # fifo ops vs"

fun puts :: "qop list \<Rightarrow> nat" where
  "puts [] = 0"
| "puts (Enqueue v # ops) = Suc (puts ops)"
| "puts (Dequeue # ops) = puts ops"

fun qscript :: "(32 word \<Rightarrow> ('s, unit) prog) \<Rightarrow> ('s, 32 word) prog \<Rightarrow> qop list \<Rightarrow> ('s, 32 word list) prog" where
  "qscript enq deq [] = Ret []"
| "qscript enq deq (Enqueue v # ops) = bind (enq v) (\<lambda>_. qscript enq deq ops)"
| "qscript enq deq (Dequeue # ops) = bind deq (\<lambda>x. bind (qscript enq deq ops) (\<lambda>xs. Ret (x # xs)))"

text \<open>A thread queues its numbers one after the other, and takes until it is told that the queue is
  empty; what it takes is returned here as a list (the code counts them in \<open>numofdequeue\<close>).\<close>

fun enqueue_all :: "(32 word \<Rightarrow> ('s, unit) prog) \<Rightarrow> 32 word list \<Rightarrow> ('s, unit) prog" where
  "enqueue_all enq [] = Ret ()"
| "enqueue_all enq (v # vs) = bind (enq v) (\<lambda>_. enqueue_all enq vs)"

fun dequeue_all :: "nat \<Rightarrow> ('s, 32 word) prog \<Rightarrow> 32 word list \<Rightarrow> ('s, 32 word list) prog" where
  "dequeue_all 0 deq taken = Spin"
| "dequeue_all (Suc n) deq taken =
    bind deq (\<lambda>result. if result \<noteq> EMPTY then dequeue_all n deq (taken @ [result]) else Ret taken)"

text \<open>The contract of a queue used by one thread at a time. \<open>inv m p vs s\<close>: the queue holds \<open>vs\<close>, and
  memory is left for \<open>m\<close> more values and for the bookkeeping of \<open>p\<close> more operations.\<close>

locale fifo_queue =
  fixes enq :: "32 word \<Rightarrow> ('s, unit) prog" and deq :: "('s, 32 word) prog"
    and inv :: "nat \<Rightarrow> nat \<Rightarrow> 32 word list \<Rightarrow> 's \<Rightarrow> bool"
  assumes enq_run: "inv (Suc m) (Suc p) vs s \<Longrightarrow> \<exists>t. run (enq v) s = Done () t \<and> inv m p (vs @ [v]) t"
    and deq_empty: "inv m (Suc p) [] s \<Longrightarrow> \<exists>t. run deq s = Done EMPTY t \<and> inv m p [] t"
    and deq_take: "inv m (Suc p) (v # vs) s \<Longrightarrow> \<exists>t. run deq s = Done v t \<and> inv m p vs t"
begin

lemma qscript_run:
  "inv (m + puts ops) (p + length ops) vs s \<Longrightarrow> \<exists>t vs'. run (qscript enq deq ops) s = Done (fifo ops vs) t \<and> inv m p vs' t"
proof (induction ops vs arbitrary: s rule: fifo.induct)
  case (2 v ops vs)
  then obtain t where "run (enq v) s = Done () t" "inv (m + puts ops) (p + length ops) (vs @ [v]) t"
    using enq_run [of "m + puts ops" "p + length ops" vs s v] by auto
  with 2(1) [OF this(2)] show ?case by auto
next
  case (3 ops)
  then obtain t where "run deq s = Done EMPTY t" "inv (m + puts ops) (p + length ops) [] t"
    using deq_empty [of "m + puts ops" "p + length ops" s] by auto
  with 3(1) [OF this(2)] show ?case by auto
next
  case (4 ops v vs)
  then obtain t where "run deq s = Done v t" "inv (m + puts ops) (p + length ops) vs t"
    using deq_take [of "m + puts ops" "p + length ops" v vs s] by auto
  with 4(1) [OF this(2)] show ?case by auto
qed auto

lemma enqueue_all_run:
  "inv (m + length ws) (p + length ws) vs s \<Longrightarrow> \<exists>t. run (enqueue_all enq ws) s = Done () t \<and> inv m p (vs @ ws) t"
proof (induction ws arbitrary: vs s)
  case (Cons w ws)
  then obtain t where "run (enq w) s = Done () t" "inv (m + length ws) (p + length ws) (vs @ [w]) t"
    using enq_run [of "m + length ws" "p + length ws" vs s w] by auto
  with Cons.IH [OF this(2)] show ?case by auto
qed auto

lemma dequeue_all_run:
  "inv m (p + Suc (length vs)) vs s \<Longrightarrow> EMPTY \<notin> set vs \<Longrightarrow> length vs < n \<Longrightarrow>
    \<exists>t. run (dequeue_all n deq taken) s = Done (taken @ vs) t \<and> inv m p [] t"
proof (induction n arbitrary: vs s taken)
  case (Suc n)
  show ?case
  proof (cases vs)
    case Nil
    with Suc.prems(1) deq_empty [of m p s] show ?thesis by auto
  next
    case (Cons v ws)
    with Suc.prems(1) deq_take [of m "p + Suc (length ws)" v ws s] obtain t where
      t: "run deq s = Done v t" "inv m (p + Suc (length ws)) ws t" by auto
    have "EMPTY \<notin> set ws" "length ws < n" using Suc.prems Cons by auto
    from Suc.IH [OF t(2) this, of "taken @ [v]"] t(1) Suc.prems(2) Cons show ?thesis by auto
  qed
qed simp

lemma thread_run:
  assumes "inv (m + length ws) (p + length ws + Suc (length vs + length ws)) vs s" and "EMPTY \<notin> set vs \<union> set ws" and "length vs + length ws < n"
  shows "\<exists>t. run (bind (enqueue_all enq ws) (\<lambda>_. dequeue_all n deq [])) s = Done (vs @ ws) t \<and> inv m p [] t"
proof -
  from enqueue_all_run [of m ws "p + Suc (length vs + length ws)" vs s] assms(1) obtain t where
    t: "run (enqueue_all enq ws) s = Done () t" "inv m (p + Suc (length (vs @ ws))) (vs @ ws) t" by (auto simp: ac_simps)
  from dequeue_all_run [OF t(2), of n "[]"] assms(2,3) t(1) show ?thesis by auto
qed

end

lemma queue_values_link: "ns \<noteq> [] \<Longrightarrow> queue_values (ns @ [(a, v)]) = queue_values ns @ [v]"
  by (cases ns) (simp_all add: queue_values_def)

lemma queue_values_tl: "queue_values ns = v # vs \<Longrightarrow> queue_values (List.tl ns) = vs"
  by (cases "List.tl ns") (auto simp: queue_values_def)

text \<open>\<open>malloc\<close> succeeds as long as fewer than \<open>n\<close> blocks are in use.\<close>

definition malloc_room :: "nat \<Rightarrow> (node_heap \<Rightarrow> addr) \<Rightarrow> bool" where
  "malloc_room n malloc \<longleftrightarrow> malloc_ok malloc \<and> (\<forall>m. card (dom m) < n \<longrightarrow> malloc m \<noteq> 0)"

lemma lowest_free_0: "lowest_free n a m = 0 \<Longrightarrow> i < n \<Longrightarrow> a + 64 * of_nat i = 0 \<or> m (a + 64 * of_nat i) \<noteq> None"
proof (induction n arbitrary: a i)
  case (Suc n)
  show ?case
  proof (cases i)
    case 0
    with Suc.prems(1) show ?thesis by (auto split: if_splits)
  next
    case (Suc j)
    have "lowest_free n (a + 64) m = 0" using Suc.prems(1) by (auto split: if_splits)
    from Suc.IH [OF this, of j] Suc Suc.prems(2) show ?thesis by (simp add: algebra_simps)
  qed
qed simp

lemma lowest_free_room: "malloc_room 1000 (lowest_free 1000 64)"
  unfolding malloc_room_def
proof (intro conjI allI impI notI)
  show "malloc_ok (lowest_free 1000 64)" by (rule lowest_free_ok)
next
  fix m :: node_heap
  assume c: "card (dom m) < 1000" and z: "lowest_free 1000 64 m = 0"
  let ?f = "\<lambda>i. 64 + 64 * of_nat i :: addr"
  have u: "unat (?f i) = 64 + 64 * i" if "i < 1000" for i
    using that by (simp add: unat_word_ariths unat_of_nat)
  have nz: "?f i \<noteq> 0" if "i < 1000" for i
  proof
    assume "?f i = 0"
    with u [OF that] show False by simp
  qed
  have "inj_on ?f {..<1000}"
  proof (rule inj_onI)
    fix i j :: nat assume ij: "i \<in> {..<1000}" "j \<in> {..<1000}" "?f i = ?f j"
    then have "unat (?f i) = unat (?f j)" by (simp only:)
    with u [of i] u [of j] ij(1,2) show "i = j" by simp
  qed
  then have "card (?f ` {..<1000}) = 1000" by (simp add: card_image)
  moreover have "?f ` {..<1000} \<subseteq> dom m"
    using lowest_free_0 [OF z] nz by auto
  ultimately have "1000 \<le> card (dom m)" by (metis card_mono finite)
  with c show False by simp
qed

lemma EMPTY_own: "n < 2 ^ 31 \<Longrightarrow> EMPTY \<notin> set (map of_nat [100..<100 + n])"
proof
  assume n: "n < 2 ^ 31" and "EMPTY \<in> set (map of_nat [100..<100 + n])"
  then obtain i where i: "i < 100 + n" "EMPTY = (of_nat i :: 32 word)" by auto
  have "unat EMPTY = 4293967296" by (simp add: EMPTY_def)
  moreover have "unat (of_nat i :: 32 word) = i" using i(1) n by (simp add: unat_of_nat)
  ultimately show False using i n by simp
qed

end
