(* ===== verification/RetireList.thy ===== *)
theory RetireList
  imports QueueNodes
begin

text \<open>
  What the queue files share around the queue: the records of the hazard pointers
  (\<open>HPrecType\<close>, \<open>allocateHPRec\<close>, \<open>retireHPrec\<close>) and the list of retired nodes each
  thread keeps in its own (\<open>scan\<close>, \<open>retireNode\<close>). A retired node is freed when no thread
  protects it; how a thread tells is the interface \<open>hazard_guards\<close>, which \<^verbatim>\<open>hazardpointer.c\<close>
  implements by an array of pointers (\<^verbatim>\<open>HazardQueue\<close>) and the later files by the map of
  reference counts (\<^verbatim>\<open>MapQueue\<close>).
\<close>

section \<open>State\<close>

record hprec =
  hp_HP :: nat
  hp_next :: "nat option"
  hp_Active :: bool
  hp_rcount :: int
  hp_count :: int
  hp_list :: "addr list"

record hpq =
  node_at :: node_heap
  Head :: addr
  Tail :: addr
  GlobalHP :: "nat \<Rightarrow> addr"
  HPnum :: nat
  recs :: "hprec list"
  hp_head :: "nat option"
  myhprec :: "nat \<Rightarrow> nat option"
  numOfRetire :: "32 word"

text \<open>What \<open>main\<close> sets before the threads start.\<close>

record queue_cfg =
  q_malloc :: "node_heap \<Rightarrow> addr"
  THRESHOLD :: int
  MAXTHRES :: nat
  flagRet :: bool

definition HPK :: nat where "HPK = 2"

definition MAXTHREADS :: nat where "MAXTHREADS = 11000"

definition rec_at :: "nat \<Rightarrow> 'z hpq_scheme \<Rightarrow> hprec option" where
  "rec_at r s = (if r < length (recs s) then Some (recs s ! r) else None)"

definition rec_set :: "nat \<Rightarrow> (hprec \<Rightarrow> hprec) \<Rightarrow> 'z hpq_scheme \<Rightarrow> 'z hpq_scheme option" where
  "rec_set r f s = (if r < length (recs s) then Some (s\<lparr>recs := (recs s)[r := f (recs s ! r)]\<rparr>) else None)"

text \<open>The hazard pointers of a record are \<open>K\<close> consecutive places of the array \<open>GlobalHP\<close>.\<close>

definition set_HP :: "nat \<Rightarrow> nat \<Rightarrow> addr \<Rightarrow> 'z hpq_scheme \<Rightarrow> 'z hpq_scheme option" where
  "set_HP r j a s = (case rec_at r s of None \<Rightarrow> None | Some h \<Rightarrow>
     if hp_HP h + j < HPK * MAXTHREADS then Some (s\<lparr>GlobalHP := (GlobalHP s)(hp_HP h + j := a)\<rparr>) else None)"

definition slot_at :: "nat \<Rightarrow> nat \<Rightarrow> 'z hpq_scheme \<Rightarrow> addr option" where
  "slot_at r i s = (case rec_at r s of None \<Rightarrow> None | Some h \<Rightarrow> if i < length (hp_list h) then Some (hp_list h ! i) else None)"

definition slot_set :: "nat \<Rightarrow> nat \<Rightarrow> addr \<Rightarrow> 'z hpq_scheme \<Rightarrow> 'z hpq_scheme option" where
  "slot_set r i a s = (case slot_at r i s of None \<Rightarrow> None | Some _ \<Rightarrow> rec_set r (\<lambda>h. h\<lparr>hp_list := (hp_list h)[i := a]\<rparr>) s)"

definition free_node :: "addr \<Rightarrow> 'z hpq_scheme \<Rightarrow> 'z hpq_scheme option" where
  "free_node a s = (if node_at s a = None then None else Some (s\<lparr>node_at := (node_at s)(a := None)\<rparr>))"

abbreviation rd_rec :: "(hprec \<Rightarrow> 'v) \<Rightarrow> nat \<Rightarrow> ('v \<Rightarrow> ('z hpq_scheme, 'a) prog) \<Rightarrow> ('z hpq_scheme, 'a) prog" where
  "rd_rec f r k \<equiv> ldp (\<lambda>s. map_option f (rec_at r s)) k"

section \<open>The records of the threads\<close>

text \<open>The records in use form a list; one that is not \<open>Active\<close> is taken over.\<close>

fun find_rec :: "nat \<Rightarrow> nat option \<Rightarrow> (nat option \<Rightarrow> ('z hpq_scheme, unit) prog) \<Rightarrow> ('z hpq_scheme, unit) prog" where
  "find_rec 0 local k = Spin"
| "find_rec (Suc fuel) None k = k None"
| "find_rec (Suc fuel) (Some r) k =
    rd_rec hp_Active r (\<lambda>active.
    let go = rd_rec hp_next r (\<lambda>n. find_rec fuel n k) in
    if active then go else
    casp (\<lambda>s. map_option hp_Active (rec_at r s)) False (\<lambda>s. the (rec_set r (\<lambda>h. h\<lparr>hp_Active := True\<rparr>) s)) (\<lambda>ok.
    if ok then k (Some r) else go))"

fun add_HPnum :: "nat \<Rightarrow> (nat \<Rightarrow> ('z hpq_scheme, unit) prog) \<Rightarrow> ('z hpq_scheme, unit) prog" where
  "add_HPnum 0 k = Spin"
| "add_HPnum (Suc fuel) k =
    ld HPnum (\<lambda>oldCount.
    cas (\<lambda>s. HPnum s = oldCount) (\<lambda>s. s\<lparr>HPnum := oldCount + HPK\<rparr>) (\<lambda>ok. if ok then k oldCount else add_HPnum fuel k))"

fun push_rec :: "nat \<Rightarrow> nat \<Rightarrow> ('z hpq_scheme, unit) prog \<Rightarrow> ('z hpq_scheme, unit) prog" where
  "push_rec 0 r k = Spin"
| "push_rec (Suc fuel) r k =
    ld hp_head (\<lambda>oldHead.
    stp (rec_set r (\<lambda>h. h\<lparr>hp_next := oldHead\<rparr>)) (
    cas (\<lambda>s. hp_head s = oldHead) (\<lambda>s. s\<lparr>hp_head := Some r\<rparr>) (\<lambda>ok. if ok then k else push_rec fuel r k)))"

text \<open>The fields of a new record are written before it is reachable: one action, but for the hazard
  pointers themselves, which every thread scans.\<close>

definition allocateHPRec :: "nat \<Rightarrow> queue_cfg \<Rightarrow> nat \<Rightarrow> ('z hpq_scheme, unit) prog" where
  "allocateHPRec fuel c tid =
    ld hp_head (\<lambda>local.
    find_rec fuel local (\<lambda>found. case found of
      Some r \<Rightarrow> st (\<lambda>s. s\<lparr>myhprec := (myhprec s)(tid \<mapsto> r)\<rparr>) (Ret ())
    | None \<Rightarrow>
      add_HPnum fuel (\<lambda>oldCount.
      fetch (\<lambda>s. length (recs s)) (\<lambda>s. s\<lparr>recs := recs s @ [\<lparr>hp_HP = oldCount, hp_next = None, hp_Active = True,
          hp_rcount = 0, hp_count = 0, hp_list = replicate (MAXTHRES c) 0\<rparr>]\<rparr>) (\<lambda>r.
      stp (set_HP r 0 0) (
      stp (set_HP r 1 0) (
      push_rec fuel r (
      st (\<lambda>s. s\<lparr>myhprec := (myhprec s)(tid \<mapsto> r)\<rparr>) (Ret ()))))))))"

text \<open>An operation of a thread works on \<open>myhprec\<close>, which \<open>allocateHPRec\<close> has set.\<close>

definition with_rec :: "nat \<Rightarrow> (nat \<Rightarrow> ('z hpq_scheme, 'a) prog) \<Rightarrow> ('z hpq_scheme, 'a) prog" where
  "with_rec tid k = ldp (\<lambda>s. myhprec s tid) k"

definition retireHPrec :: "nat \<Rightarrow> ('z hpq_scheme, unit) prog" where
  "retireHPrec tid = with_rec tid (\<lambda>r.
    stp (set_HP r 0 0) (
    stp (set_HP r 1 0) (
    stp (rec_set r (\<lambda>h. h\<lparr>hp_Active := False\<rparr>)) (Ret ()))))"

section \<open>Retired nodes\<close>

fun scan_loop :: "(addr \<Rightarrow> ('z hpq_scheme, bool) prog) \<Rightarrow> nat \<Rightarrow> nat \<Rightarrow> nat \<Rightarrow> ('z hpq_scheme, unit) prog" where
  "scan_loop isIn 0 r i = Spin"
| "scan_loop isIn (Suc fuel) r i =
    rd_rec hp_rcount r (\<lambda>rcount.
    if int i \<le> rcount then
      ldp (slot_at r i) (\<lambda>node.
      if node \<noteq> 0 then
        bind (isIn node) (\<lambda>found.
        if \<not> found then
          stp (free_node node) (
          stp (slot_set r i 0) (
          rd_rec hp_count r (\<lambda>count.
          stp (rec_set r (\<lambda>h. h\<lparr>hp_count := count - 1\<rparr>)) (
          scan_loop isIn fuel r (i + 1)))))
        else scan_loop isIn fuel r (i + 1))
      else scan_loop isIn fuel r (i + 1))
    else Ret ())"

definition scan :: "(addr \<Rightarrow> ('z hpq_scheme, bool) prog) \<Rightarrow> nat \<Rightarrow> nat \<Rightarrow> ('z hpq_scheme, unit) prog" where
  "scan isIn fuel r = st (\<lambda>s. s\<lparr>numOfRetire := numOfRetire s + 1\<rparr>) (scan_loop isIn fuel r 0)"

text \<open>The first free place of the list, \<open>MAXTHRES\<close> when there is none.\<close>

fun find_slot :: "nat \<Rightarrow> nat \<Rightarrow> nat \<Rightarrow> ('z hpq_scheme, nat) prog" where
  "find_slot 0 r i = Ret i"
| "find_slot (Suc n) r i = ldp (slot_at r i) (\<lambda>node. if node = 0 then Ret i else find_slot n r (i + 1))"

fun retire_loop :: "nat \<Rightarrow> (addr \<Rightarrow> ('z hpq_scheme, bool) prog) \<Rightarrow> queue_cfg \<Rightarrow> nat \<Rightarrow> nat \<Rightarrow> addr \<Rightarrow> ('z hpq_scheme, unit) prog" where
  "retire_loop 0 isIn c fuel r node = Spin"
| "retire_loop (Suc rounds) isIn c fuel r node =
    bind (find_slot (MAXTHRES c) r 0) (\<lambda>i.
    if i = MAXTHRES c then bind (scan isIn fuel r) (\<lambda>_. retire_loop rounds isIn c fuel r node)
    else
      stp (slot_set r i node) (
      rd_rec hp_rcount r (\<lambda>rcount.
      let k = rd_rec hp_count r (\<lambda>count.
        stp (rec_set r (\<lambda>h. h\<lparr>hp_count := count + 1\<rparr>)) (
        if THRESHOLD c \<le> count + 1 then scan isIn fuel r else Ret ()))
      in if rcount < int i then stp (rec_set r (\<lambda>h. h\<lparr>hp_rcount := int i\<rparr>)) k else k)))"

definition retireNode :: "(addr \<Rightarrow> ('z hpq_scheme, bool) prog) \<Rightarrow> queue_cfg \<Rightarrow> nat \<Rightarrow> nat \<Rightarrow> addr \<Rightarrow> ('z hpq_scheme, unit) prog" where
  "retireNode isIn c fuel tid node = with_rec tid (\<lambda>r. retire_loop fuel isIn c fuel r node)"

section \<open>The interface to the guards\<close>

text \<open>\<open>inv P s\<close>: the guards are well formed and protect the nodes in \<open>P\<close>. Asking for a node changes
  nothing of the queue, and what scanning changes of the queue leaves the guards alone.\<close>

definition same_queue :: "'z hpq_scheme \<Rightarrow> 'z hpq_scheme \<Rightarrow> bool" where
  "same_queue s t \<longleftrightarrow> hpq.truncate t = hpq.truncate s"

locale hazard_guards =
  fixes isIn :: "addr \<Rightarrow> ('z hpq_scheme, bool) prog"
    and inv :: "(addr \<Rightarrow> bool) \<Rightarrow> 'z hpq_scheme \<Rightarrow> bool"
  assumes isIn_run: "inv P s \<Longrightarrow> \<exists>t. run (isIn a) s = Done (P a) t \<and> inv P t \<and> same_queue s t"
    and inv_node [simp]: "inv P (s\<lparr>node_at := m\<rparr>) = inv P s"
    and inv_recs [simp]: "inv P (s\<lparr>recs := rs\<rparr>) = inv P s"
    and inv_num [simp]: "inv P (s\<lparr>numOfRetire := w\<rparr>) = inv P s"

text \<open>The list of a record: every retired node is at or before \<open>rcount\<close>, each once, allocated, and
  \<open>count\<close> is their number.\<close>

definition retired :: "addr list \<Rightarrow> addr set" where
  "retired l = set l - {0}"

definition occupied :: "addr list \<Rightarrow> nat" where
  "occupied l = length (filter (\<lambda>a. a \<noteq> 0) l)"

definition list_inv :: "queue_cfg \<Rightarrow> node_heap \<Rightarrow> hprec \<Rightarrow> bool" where
  "list_inv c m h \<longleftrightarrow> length (hp_list h) = MAXTHRES c \<and> 0 \<le> hp_rcount h \<and> hp_rcount h < int (MAXTHRES c) \<and>
     (\<forall>i < length (hp_list h). hp_list h ! i \<noteq> 0 \<longrightarrow> int i \<le> hp_rcount h) \<and>
     distinct (filter (\<lambda>a. a \<noteq> 0) (hp_list h)) \<and> (\<forall>a \<in> retired (hp_list h). m a \<noteq> None) \<and>
     hp_count h = int (occupied (hp_list h))"

text \<open>What \<open>scan\<close> makes of the list and of memory.\<close>

definition swept :: "(addr \<Rightarrow> bool) \<Rightarrow> addr list \<Rightarrow> addr list" where
  "swept P l = map (\<lambda>a. if P a then a else 0) l"

definition swept_heap :: "(addr \<Rightarrow> bool) \<Rightarrow> addr list \<Rightarrow> node_heap \<Rightarrow> node_heap" where
  "swept_heap P l m = (\<lambda>a. if a \<in> retired l \<and> \<not> P a then None else m a)"

lemma swept_simps [simp]:
  "swept P [] = []" "swept P (a # l) = (if P a then a else 0) # swept P l" "length (swept P l) = length l"
  by (simp_all add: swept_def)

lemma retired_simps [simp]: "retired [] = {}" "retired (a # l) = (if a = 0 then retired l else insert a (retired l))"
  by (auto simp: retired_def)

lemma occupied_simps [simp]:
  "occupied [] = 0" "occupied (a # l) = (if a = 0 then occupied l else Suc (occupied l))" "occupied (k @ l) = occupied k + occupied l"
  by (simp_all add: occupied_def)

lemma retired_swept: "retired (swept P l) = {a \<in> retired l. P a}"
  by (auto simp: retired_def swept_def)

lemma retired_append [simp]: "retired (k @ l) = retired k \<union> retired l"
  by (auto simp: retired_def)

lemma occupied_swept: "distinct (filter (\<lambda>a. a \<noteq> 0) l) \<Longrightarrow> occupied (swept P l) = card {a \<in> retired l. P a}"
proof (induction l)
  case (Cons a l)
  have e: "{x. (x = a \<or> x \<in> retired l) \<and> P x} = (if P a then insert a {x \<in> retired l. P x} else {x \<in> retired l. P x})" by auto
  have "finite {x \<in> retired l. P x}" by (rule finite_subset [of _ "set l"]) (auto simp: retired_def)
  moreover have "a \<noteq> 0 \<Longrightarrow> a \<notin> retired l" using Cons.prems by (auto simp: retired_def)
  ultimately show ?case using Cons by (cases "a = 0") (auto simp: e)
qed simp

lemma distinct_swept: "distinct (filter (\<lambda>a. a \<noteq> 0) l) \<Longrightarrow> distinct (filter (\<lambda>a. a \<noteq> 0) (swept P l))"
proof (induction l)
  case (Cons a l)
  then show ?case by (cases "a = 0") (auto simp: swept_def)
qed simp

lemma zeros_swept: "retired l = {} \<Longrightarrow> swept P l = l \<and> occupied l = 0"
  by (induction l) (auto split: if_splits)

lemma same_queue_refl [simp]: "same_queue s s"
  by (simp add: same_queue_def)

lemma same_queueD:
  assumes "same_queue s t"
  shows "node_at t = node_at s" "Head t = Head s" "Tail t = Tail s" "GlobalHP t = GlobalHP s" "HPnum t = HPnum s"
    "recs t = recs s" "hp_head t = hp_head s" "myhprec t = myhprec s" "numOfRetire t = numOfRetire s"
  using assms by (simp_all add: same_queue_def hpq.truncate_def)

lemma same_queueI:
  assumes "node_at t = node_at s" and "Head t = Head s" and "Tail t = Tail s" and "GlobalHP t = GlobalHP s"
    and "HPnum t = HPnum s" and "recs t = recs s" and "hp_head t = hp_head s" and "myhprec t = myhprec s"
    and "numOfRetire t = numOfRetire s"
  shows "same_queue s t"
  using assms by (simp add: same_queue_def hpq.truncate_def)

lemma same_queue_scan:
  assumes "same_queue s t" and "same_queue (t\<lparr>node_at := m, recs := rs\<rparr>) u"
  shows "same_queue (s\<lparr>node_at := m, recs := rs\<rparr>) u"
  using same_queueD [OF assms(1)] same_queueD [OF assms(2)] by (intro same_queueI) simp_all

lemma same_queue_overwrite:
  assumes "same_queue (s\<lparr>node_at := m0, recs := rs0, numOfRetire := w0\<rparr>) t"
    and "same_queue (t\<lparr>node_at := m, recs := rs, numOfRetire := w\<rparr>) u"
  shows "same_queue (s\<lparr>node_at := m, recs := rs, numOfRetire := w\<rparr>) u"
  using same_queueD [OF assms(1)] same_queueD [OF assms(2)] by (intro same_queueI) simp_all

lemma rec_at_same: "same_queue s t \<Longrightarrow> rec_at r t = rec_at r s"
  by (simp add: rec_at_def same_queueD)

lemma rec_at_Some: "rec_at r s = Some h \<longleftrightarrow> r < length (recs s) \<and> h = recs s ! r"
  by (auto simp: rec_at_def)

lemma rec_set_at: "rec_at r s = Some h \<Longrightarrow> rec_set r f s = Some (s\<lparr>recs := (recs s)[r := f h]\<rparr>)"
  by (auto simp: rec_at_Some rec_set_def)

lemma rec_at_upd: "rec_at r s = Some h \<Longrightarrow> rec_at r (s\<lparr>recs := (recs s)[r := k]\<rparr>) = Some k"
  by (auto simp: rec_at_Some)

lemma slot_set_at: "rec_at r s = Some h \<Longrightarrow> i < length (hp_list h) \<Longrightarrow>
    slot_set r i a s = Some (s\<lparr>recs := (recs s)[r := h\<lparr>hp_list := (hp_list h)[i := a]\<rparr>]\<rparr>)"
  by (simp add: slot_set_def slot_at_def rec_set_at)

section \<open>Scanning\<close>

text \<open>The places from \<open>i\<close> on are swept.\<close>

definition swept_from :: "(addr \<Rightarrow> bool) \<Rightarrow> nat \<Rightarrow> nat \<Rightarrow> hprec \<Rightarrow> 'z hpq_scheme \<Rightarrow> 'z hpq_scheme" where
  "swept_from P r i h s = s\<lparr>node_at := swept_heap P (drop i (hp_list h)) (node_at s),
     recs := (recs s)[r := h\<lparr>hp_list := take i (hp_list h) @ swept P (drop i (hp_list h)),
       hp_count := hp_count h - int (occupied (drop i (hp_list h))) + int (occupied (swept P (drop i (hp_list h))))\<rparr>]\<rparr>"

lemma swept_from_keep:
  assumes "i < length (hp_list h)" and "hp_list h ! i = 0 \<or> P (hp_list h ! i)"
  shows "swept_from P r (Suc i) h s = swept_from P r i h s"
proof -
  have d: "drop i (hp_list h) = hp_list h ! i # drop (Suc i) (hp_list h)" by (rule Cons_nth_drop_Suc [OF assms(1), symmetric])
  have t: "take (Suc i) (hp_list h) = take i (hp_list h) @ [hp_list h ! i]" by (rule take_Suc_conv_app_nth [OF assms(1)])
  have "swept_heap P (hp_list h ! i # drop (Suc i) (hp_list h)) (node_at s) = swept_heap P (drop (Suc i) (hp_list h)) (node_at s)"
    using assms(2) by (auto simp: swept_heap_def)
  with assms(2) show ?thesis unfolding swept_from_def d t by (cases "hp_list h ! i = 0") (auto simp: algebra_simps)
qed

lemma swept_from_free:
  assumes "i < length (hp_list h)" and "hp_list h ! i \<noteq> 0" and "\<not> P (hp_list h ! i)" and "rec_at r s = Some h"
    and "hp_list h ! i \<notin> retired (drop (Suc i) (hp_list h))"
  defines "h' \<equiv> h\<lparr>hp_list := (hp_list h)[i := 0], hp_count := hp_count h - 1\<rparr>"
  shows "swept_from P r (Suc i) h' (s\<lparr>node_at := (node_at s)(hp_list h ! i := None), recs := (recs s)[r := h']\<rparr>) = swept_from P r i h s"
proof -
  let ?l = "hp_list h"
  have d: "drop i ?l = ?l ! i # drop (Suc i) ?l" by (rule Cons_nth_drop_Suc [OF assms(1), symmetric])
  have t: "take (Suc i) (?l[i := 0]) = take i ?l @ [0]" using assms(1) by (simp add: take_Suc_conv_app_nth)
  have "swept_heap P (drop (Suc i) ?l) ((node_at s)(?l ! i := None)) = swept_heap P (?l ! i # drop (Suc i) ?l) (node_at s)"
    using assms(2,3) by (auto simp: swept_heap_def)
  then show ?thesis using assms(2,3) unfolding swept_from_def h'_def d by (simp add: t drop_update_cancel algebra_simps)
qed

definition scan_rec :: "(addr \<Rightarrow> bool) \<Rightarrow> hprec \<Rightarrow> hprec" where
  "scan_rec P h = h\<lparr>hp_list := swept P (hp_list h), hp_count := int (occupied (swept P (hp_list h)))\<rparr>"

lemma scan_rec_inv:
  assumes "list_inv c m h"
  shows "list_inv c (swept_heap P (hp_list h) m) (scan_rec P h)" and "retired (hp_list (scan_rec P h)) = {a \<in> retired (hp_list h). P a}"
proof -
  have "swept P (hp_list h) ! i \<noteq> 0 \<Longrightarrow> i < length (hp_list h) \<Longrightarrow> hp_list h ! i \<noteq> 0" for i
    by (auto simp: swept_def split: if_splits)
  moreover have "retired (swept P (hp_list h)) = {a \<in> retired (hp_list h). P a}" by (rule retired_swept)
  ultimately show "list_inv c (swept_heap P (hp_list h) m) (scan_rec P h)"
    using assms distinct_swept [of "hp_list h" P] by (auto simp: list_inv_def scan_rec_def swept_heap_def)
qed (simp add: scan_rec_def retired_swept)

text \<open>The state after a node was retired: the list holds \<open>R'\<close> instead of \<open>R\<close>, what left it is freed
  and was not protected.\<close>

definition retire_post :: "(addr \<Rightarrow> bool) \<Rightarrow> queue_cfg \<Rightarrow> nat \<Rightarrow> addr set \<Rightarrow> 'z hpq_scheme \<Rightarrow> addr set \<Rightarrow> 'z hpq_scheme \<Rightarrow> bool" where
  "retire_post P c r R s R' t \<longleftrightarrow> R' \<subseteq> R \<and> (\<forall>a \<in> R - R'. \<not> P a) \<and>
     (\<exists>h w. retired (hp_list h) = R' \<and> list_inv c (node_at t) h \<and> hp_HP h = hp_HP (recs s ! r) \<and>
       same_queue (s\<lparr>node_at := (\<lambda>a. if a \<in> R - R' then None else node_at s a), recs := (recs s)[r := h], numOfRetire := w\<rparr>) t)"

lemma find_slot_run:
  assumes "rec_at r s = Some h" and "i + n \<le> length (hp_list h)"
  shows "run (find_slot n r i) s = Done (i + length (takeWhile (\<lambda>a. a \<noteq> 0) (take n (drop i (hp_list h))))) s"
  using assms(2)
proof (induction n arbitrary: i)
  case (Suc n)
  then have i: "i < length (hp_list h)" by simp
  have "drop i (hp_list h) = hp_list h ! i # drop (Suc i) (hp_list h)" by (rule Cons_nth_drop_Suc [OF i, symmetric])
  with Suc i assms(1) show ?case by (simp add: slot_at_def)
qed simp

lemma full_list: "takeWhile (\<lambda>a. a \<noteq> 0) l = l \<longleftrightarrow> occupied l = length l"
proof (induction l)
  case (Cons a l)
  have "occupied l \<le> length l" by (simp add: occupied_def)
  with Cons show ?case by auto
qed simp

lemma first_free: "occupied l < length l \<Longrightarrow> length (takeWhile (\<lambda>a. a \<noteq> 0) l) < length l \<and> l ! length (takeWhile (\<lambda>a. a \<noteq> 0) l) = 0"
  by (metis (mono_tags, lifting) full_list length_takeWhile_le nat_less_le nth_length_takeWhile order_less_irrefl
      takeWhile_eq_take take_all)

context hazard_guards
begin

lemma scan_loop_run:
  assumes "inv P s" and "rec_at r s = Some h" and "hp_rcount h < int (length (hp_list h))"
    and "\<And>j. j < length (hp_list h) \<Longrightarrow> hp_list h ! j \<noteq> 0 \<Longrightarrow> int j \<le> hp_rcount h"
    and "distinct (filter (\<lambda>a. a \<noteq> 0) (hp_list h))" and "\<forall>a \<in> retired (hp_list h). node_at s a \<noteq> None"
    and "nat (hp_rcount h + 1) < fuel + i" and "i \<le> nat (hp_rcount h + 1)"
  shows "\<exists>t. run (scan_loop isIn fuel r i) s = Done () t \<and> inv P t \<and> same_queue (swept_from P r i h s) t"
  using assms
proof (induction fuel arbitrary: i s h)
  case (Suc fuel)
  let ?l = "hp_list h"
  show ?case
  proof (cases "int i \<le> hp_rcount h")
    case False
    have "retired (drop i ?l) = {}"
    proof -
      have "x = 0" if x: "x \<in> set (drop i ?l)" for x
      proof -
        from x obtain j where j: "j < length ?l - i" "x = ?l ! (i + j)" by (auto simp: in_set_conv_nth)
        then have "i + j < length ?l" by linarith
        with j(2) Suc.prems(4) [of "i + j"] False show ?thesis by auto
      qed
      then show ?thesis by (auto simp: retired_def)
    qed
    from zeros_swept [OF this] this have "swept_from P r i h s = s"
      using Suc.prems(2) by (simp add: swept_from_def swept_heap_def rec_at_Some)
    with False Suc.prems(1,2) show ?thesis by auto
  next
    case True
    then have i: "i < length ?l" using Suc.prems(3) by linarith
    have go: "run (scan_loop isIn (Suc fuel) r i) s = (let node = ?l ! i in if node \<noteq> 0 then
        bind_outcome (run (isIn node) s) (\<lambda>found. if \<not> found then
          stp (free_node node) (stp (slot_set r i 0) (rd_rec hp_count r (\<lambda>count.
          stp (rec_set r (\<lambda>h. h\<lparr>hp_count := count - 1\<rparr>)) (scan_loop isIn fuel r (i + 1)))))
          else scan_loop isIn fuel r (i + 1))
        else run (scan_loop isIn fuel r (i + 1)) s)"
      using True i Suc.prems(2) by (simp add: slot_at_def Let_def)
    have fuel: "nat (hp_rcount h + 1) < fuel + Suc i" "Suc i \<le> nat (hp_rcount h + 1)" using Suc.prems(7) True by auto
    show ?thesis
    proof (cases "?l ! i = 0")
      case True
      with go have "run (scan_loop isIn (Suc fuel) r i) s = run (scan_loop isIn fuel r (Suc i)) s" by simp
      with Suc.IH [OF Suc.prems(1-6) fuel] swept_from_keep [of i h P r s] i True show ?thesis by simp
    next
      case nz: False
      from isIn_run [OF Suc.prems(1), of "?l ! i"] obtain t where
        t: "run (isIn (?l ! i)) s = Done (P (?l ! i)) t" "inv P t" "same_queue s t" by blast
      note sq = same_queueD [OF t(3)]
      have rt: "rec_at r t = Some h" using Suc.prems(2) rec_at_same [OF t(3)] by simp
      show ?thesis
      proof (cases "P (?l ! i)")
        case True
        have al: "\<forall>a \<in> retired ?l. node_at t a \<noteq> None" using Suc.prems(6) sq(1) by simp
        from Suc.IH [OF t(2) rt Suc.prems(3-5) al fuel] obtain u where
          u: "run (scan_loop isIn fuel r (Suc i)) t = Done () u" "inv P u" "same_queue (swept_from P r (Suc i) h t) u" by blast
        have "same_queue (swept_from P r i h s) u"
          using same_queue_scan [OF t(3)] u(3) swept_from_keep [of i h P r t] i True by (simp add: swept_from_def sq)
        with u go nz t(1) True show ?thesis by simp
      next
        case False
        let ?h = "h\<lparr>hp_list := ?l[i := 0], hp_count := hp_count h - 1\<rparr>"
        let ?t = "t\<lparr>node_at := (node_at t)(?l ! i := None), recs := (recs t)[r := ?h]\<rparr>"
        have ri: "?l ! i \<in> retired ?l" using nz i by (auto simp: retired_def)
        have step: "run (scan_loop isIn (Suc fuel) r i) s = run (scan_loop isIn fuel r (Suc i)) ?t"
          using go nz t(1) False rt ri Suc.prems(6) i sq(1)
          by (auto simp: free_node_def slot_set_def slot_at_def rec_at_def rec_set_def split: if_splits)
        have l: "?l = take i ?l @ ?l ! i # drop (Suc i) ?l" by (rule id_take_nth_drop [OF i])
        then have "distinct (filter (\<lambda>a. a \<noteq> 0) (take i ?l @ ?l ! i # drop (Suc i) ?l))" using Suc.prems(5) by simp
        then have fresh: "?l ! i \<notin> set (take i ?l)" "?l ! i \<notin> set (drop (Suc i) ?l)" using nz by auto
        have l': "hp_list ?h = take i ?l @ 0 # drop (Suc i) ?l" using i by (simp add: upd_conv_take_nth_drop)
        have "distinct (filter (\<lambda>a. a \<noteq> 0) (hp_list ?h))" unfolding l'
          using \<open>distinct (filter (\<lambda>a. a \<noteq> 0) (take i ?l @ ?l ! i # drop (Suc i) ?l))\<close> nz by auto
        moreover have "\<forall>a \<in> retired (hp_list ?h). node_at ?t a \<noteq> None"
          unfolding l' using Suc.prems(6) fresh sq(1) set_take_subset [of i ?l] set_drop_subset [of "Suc i" ?l]
          by (auto simp: retired_def)
        moreover have "int j \<le> hp_rcount ?h" if "j < length (hp_list ?h)" "hp_list ?h ! j \<noteq> 0" for j
          using that Suc.prems(4) [of j] i by (auto simp: nth_list_update split: if_splits)
        moreover have "rec_at r ?t = Some ?h" using rt by (simp add: rec_at_Some)
        ultimately obtain u where
          u: "run (scan_loop isIn fuel r (Suc i)) ?t = Done () u" "inv P u" "same_queue (swept_from P r (Suc i) ?h ?t) u"
          using Suc.IH [of ?t ?h "Suc i"] t(2) Suc.prems(3) fuel by auto
        have "swept_from P r (Suc i) ?h ?t = swept_from P r i h t"
          by (rule swept_from_free [of i h P r t, OF i nz False rt]) (use fresh in \<open>auto simp: retired_def\<close>)
        with u(3) same_queue_scan [OF t(3)] have "same_queue (swept_from P r i h s) u" by (simp add: swept_from_def sq)
        with u step show ?thesis by simp
      qed
    qed
  qed
qed simp

lemma scan_run:
  assumes "inv P s" and "rec_at r s = Some h" and "list_inv c (node_at s) h" and "MAXTHRES c < fuel"
  shows "\<exists>t. run (scan isIn fuel r) s = Done () t \<and> inv P t \<and>
    same_queue (s\<lparr>node_at := swept_heap P (hp_list h) (node_at s), recs := (recs s)[r := scan_rec P h], numOfRetire := numOfRetire s + 1\<rparr>) t"
proof -
  let ?s = "s\<lparr>numOfRetire := numOfRetire s + 1\<rparr>"
  have "\<exists>t. run (scan_loop isIn fuel r 0) ?s = Done () t \<and> inv P t \<and> same_queue (swept_from P r 0 h ?s) t"
    by (rule scan_loop_run) (use assms in \<open>auto simp: list_inv_def rec_at_Some\<close>)
  moreover have "swept_from P r 0 h ?s = s\<lparr>node_at := swept_heap P (hp_list h) (node_at s), recs := (recs s)[r := scan_rec P h],
      numOfRetire := numOfRetire s + 1\<rparr>"
    using assms(3) by (simp add: swept_from_def scan_rec_def list_inv_def)
  ultimately show ?thesis by (simp add: scan_def)
qed

lemma insert_run:
  assumes "inv P s" and "rec_at r s = Some h" and "list_inv c (node_at s) h" and "MAXTHRES c < fuel"
    and "a \<noteq> 0" and "node_at s a \<noteq> None" and "a \<notin> retired (hp_list h)" and "occupied (hp_list h) < MAXTHRES c"
  shows "\<exists>t R'. run (retire_loop (Suc rounds) isIn c fuel r a) s = Done () t \<and> inv P t \<and>
    retire_post P c r (insert a (retired (hp_list h))) s R' t \<and> (int (card R') < THRESHOLD c \<or> (\<forall>b \<in> R'. P b))"
proof -
  let ?l = "hp_list h" and ?i = "length (takeWhile (\<lambda>a. a \<noteq> 0) (hp_list h))"
  let ?h = "h\<lparr>hp_list := ?l[?i := a], hp_rcount := max (hp_rcount h) (int ?i), hp_count := hp_count h + 1\<rparr>"
  let ?s = "s\<lparr>recs := (recs s)[r := ?h]\<rparr>"
  let ?R = "insert a (retired ?l)"
  have n: "length ?l = MAXTHRES c" using assms(3) by (simp add: list_inv_def)
  have i: "?i < MAXTHRES c" "?l ! ?i = 0" using first_free [of ?l] assms(8) n by simp_all
  have l: "?l = take ?i ?l @ 0 # drop (Suc ?i) ?l" using id_take_nth_drop [of ?i ?l] i n by simp
  have l': "?l[?i := a] = take ?i ?l @ a # drop (Suc ?i) ?l" using i(1) n by (simp add: upd_conv_take_nth_drop)
  have R: "retired (?l[?i := a]) = ?R" unfolding l' using assms(5) by (subst (2) l) auto
  have occ: "occupied (?l[?i := a]) = Suc (occupied ?l)" unfolding l' using assms(5) by (subst (3) l) simp
  have d: "distinct (filter (\<lambda>a. a \<noteq> 0) ?l)" using assms(3) by (simp add: list_inv_def)
  have "distinct (filter (\<lambda>a. a \<noteq> 0) (take ?i ?l @ 0 # drop (Suc ?i) ?l))" using d l by argo
  moreover have "a \<notin> set (take ?i ?l)" "a \<notin> set (drop (Suc ?i) ?l)"
    using assms(5,7) set_take_subset [of ?i ?l] set_drop_subset [of "Suc ?i" ?l] by (auto simp: retired_def)
  ultimately have d': "distinct (filter (\<lambda>a. a \<noteq> 0) (?l[?i := a]))" unfolding l' using assms(5) by auto
  have inv': "list_inv c (node_at s) ?h"
    using assms(3,6) i(1) R occ d' by (auto simp: list_inv_def nth_list_update)
  have c: "hp_count h + 1 = int (card ?R)"
  proof -
    have "card (retired (?l[?i := a])) = occupied (?l[?i := a])"
      using occupied_swept [OF d', of "\<lambda>_. True"] by (simp add: swept_def)
    with assms(3) R occ show ?thesis by (simp add: list_inv_def)
  qed
  have r: "rec_at r ?s = Some ?h" using assms(2) by (simp add: rec_at_Some)
  have run: "run (retire_loop (Suc rounds) isIn c fuel r a) s =
      run (if THRESHOLD c \<le> int (card ?R) then scan isIn fuel r else Ret ()) ?s"
  proof -
    have "run (find_slot (MAXTHRES c) r 0) s = Done ?i s"
      using find_slot_run [OF assms(2), of 0 "MAXTHRES c"] n by simp
    moreover have "MAXTHRES c \<noteq> ?i" using i(1) by simp
    moreover have "h\<lparr>hp_list := x, hp_count := y\<rparr> = h\<lparr>hp_list := x, hp_rcount := hp_rcount h, hp_count := y\<rparr>" for x y
      by (cases h) simp
    ultimately show ?thesis
      using assms(2) i(1) n
      by (cases "hp_rcount h < int ?i") (simp_all add: slot_set_at rec_set_at rec_at_upd Let_def c [symmetric] max_def)
  qed
  show ?thesis
  proof (cases "THRESHOLD c \<le> int (card ?R)")
    case False
    have "same_queue (s\<lparr>node_at := (\<lambda>x. if x \<in> ?R - ?R then None else node_at s x), recs := (recs s)[r := ?h],
        numOfRetire := numOfRetire s\<rparr>) ?s" by (rule same_queueI) simp_all
    moreover have "list_inv c (node_at ?s) ?h" "retired (hp_list ?h) = ?R" "hp_HP ?h = hp_HP (recs s ! r)"
      using inv' R assms(2) by (simp_all add: rec_at_Some)
    ultimately have "retire_post P c r ?R s ?R ?s" unfolding retire_post_def by blast
    with run False assms(1) show ?thesis by auto
  next
    case True
    have "list_inv c (node_at ?s) ?h" using inv' by simp
    moreover have "inv P ?s" using assms(1) by simp
    ultimately obtain t where t: "run (scan isIn fuel r) ?s = Done () t" "inv P t"
      "same_queue (?s\<lparr>node_at := swept_heap P (hp_list ?h) (node_at ?s), recs := (recs ?s)[r := scan_rec P ?h], numOfRetire := numOfRetire ?s + 1\<rparr>) t"
      using scan_run [OF _ r _ assms(4)] by blast
    let ?R' = "{b \<in> ?R. P b}"
    have m: "swept_heap P (hp_list ?h) (node_at ?s) = (\<lambda>x. if x \<in> ?R - ?R' then None else node_at s x)"
      using R by (auto simp: swept_heap_def)
    have "list_inv c (swept_heap P (hp_list ?h) (node_at s)) (scan_rec P ?h)" by (rule scan_rec_inv(1) [OF inv'])
    moreover have "retired (hp_list (scan_rec P ?h)) = ?R'" using scan_rec_inv(2) [OF inv'] R by simp
    moreover have "hp_HP (scan_rec P ?h) = hp_HP (recs s ! r)" using assms(2) by (simp add: scan_rec_def rec_at_Some)
    moreover have "node_at t = swept_heap P (hp_list ?h) (node_at s)" using same_queueD(1) [OF t(3)] by simp
    moreover have "same_queue (s\<lparr>node_at := (\<lambda>x. if x \<in> ?R - ?R' then None else node_at s x), recs := (recs s)[r := scan_rec P ?h],
        numOfRetire := numOfRetire s + 1\<rparr>) t"
      using t(3) unfolding m by simp
    ultimately have "retire_post P c r ?R s ?R' t" unfolding retire_post_def by auto
    with run True t(1,2) show ?thesis by (intro exI [of _ t] exI [of _ ?R']) simp
  qed
qed

text \<open>Retiring a node ends when a place is free or can be freed.\<close>

lemma retire_run:
  assumes "inv P s" and "rec_at r s = Some h" and "list_inv c (node_at s) h" and "MAXTHRES c < fuel"
    and "a \<noteq> 0" and "node_at s a \<noteq> None" and "a \<notin> retired (hp_list h)"
    and "occupied (hp_list h) < MAXTHRES c \<or> (\<exists>b \<in> retired (hp_list h). \<not> P b)"
  shows "\<exists>t R'. run (retire_loop (Suc (Suc rounds)) isIn c fuel r a) s = Done () t \<and> inv P t \<and>
    retire_post P c r (insert a (retired (hp_list h))) s R' t \<and> (int (card R') < THRESHOLD c \<or> (\<forall>b \<in> R'. P b))"
proof (cases "occupied (hp_list h) < MAXTHRES c")
  case True
  with insert_run [OF assms(1-7)] show ?thesis by blast
next
  case False
  let ?l = "hp_list h" and ?R = "retired (hp_list h)"
  have n: "length ?l = MAXTHRES c" using assms(3) by (simp add: list_inv_def)
  have "occupied ?l \<le> length ?l" by (simp add: occupied_def)
  with False n have "takeWhile (\<lambda>a. a \<noteq> 0) ?l = ?l" unfolding full_list by linarith
  then have tw: "length (takeWhile (\<lambda>a. a \<noteq> 0) ?l) = MAXTHRES c" by (metis n)
  then have fs: "run (find_slot (MAXTHRES c) r 0) s = Done (MAXTHRES c) s"
    using find_slot_run [OF assms(2), of 0 "MAXTHRES c"] n tw by (simp del: takeWhile_eq_all_conv)
  from scan_run [OF assms(1-4)] obtain t where t: "run (scan isIn fuel r) s = Done () t" "inv P t"
    "same_queue (s\<lparr>node_at := swept_heap P ?l (node_at s), recs := (recs s)[r := scan_rec P h], numOfRetire := numOfRetire s + 1\<rparr>) t"
    by blast
  note sq = same_queueD [OF t(3)]
  have rt: "rec_at r t = Some (scan_rec P h)" using assms(2) sq(6) by (simp add: rec_at_Some)
  have li: "list_inv c (node_at t) (scan_rec P h)" using scan_rec_inv(1) [OF assms(3)] sq(1) by simp
  have R0: "retired (hp_list (scan_rec P h)) = {b \<in> ?R. P b}" by (rule scan_rec_inv(2) [OF assms(3)])
  have d: "distinct (filter (\<lambda>a. a \<noteq> 0) ?l)" using assms(3) by (simp add: list_inv_def)
  have fin: "finite ?R" by (simp add: retired_def)
  from False assms(8) obtain b where "b \<in> ?R" "\<not> P b" by blast
  then have "{b \<in> ?R. P b} \<subset> ?R" by blast
  then have "card {b \<in> ?R. P b} < card ?R" by (rule psubset_card_mono [OF fin])
  moreover have "card ?R = occupied ?l" using occupied_swept [OF d, of "\<lambda>_. True"] by (simp add: swept_def)
  ultimately have "occupied (hp_list (scan_rec P h)) < MAXTHRES c"
    using occupied_swept [OF d, of P] \<open>occupied ?l \<le> length ?l\<close> n by (simp add: scan_rec_def)
  moreover have "node_at t a \<noteq> None" "a \<notin> retired (hp_list (scan_rec P h))"
    using assms(6,7) sq(1) R0 by (simp_all add: swept_heap_def)
  ultimately obtain u R' where u: "run (retire_loop (Suc rounds) isIn c fuel r a) t = Done () u" "inv P u"
    "retire_post P c r (insert a {b \<in> ?R. P b}) t R' u" "int (card R') < THRESHOLD c \<or> (\<forall>b \<in> R'. P b)"
    using insert_run [OF t(2) rt li assms(4,5)] unfolding R0 by blast
  have "retire_post P c r (insert a ?R) s R' u"
  proof -
    from u(3) obtain k w where k: "R' \<subseteq> insert a {b \<in> ?R. P b}" "\<forall>x \<in> insert a {b \<in> ?R. P b} - R'. \<not> P x"
      "retired (hp_list k) = R'" "list_inv c (node_at u) k" "hp_HP k = hp_HP (recs t ! r)"
      "same_queue (t\<lparr>node_at := (\<lambda>x. if x \<in> insert a {b \<in> ?R. P b} - R' then None else node_at t x),
         recs := (recs t)[r := k], numOfRetire := w\<rparr>) u" unfolding retire_post_def by blast
    have nt: "node_at t x = (if x \<in> ?R \<and> \<not> P x then None else node_at s x)" for x using sq(1) by (simp add: swept_heap_def)
    have "(if x \<in> insert a {b \<in> ?R. P b} - R' then None else node_at t x) =
      (if x \<in> insert a ?R - R' then None else node_at s x)" for x
    proof (cases "x \<in> R'")
      case True
      with k(1) assms(7) have "\<not> (x \<in> ?R \<and> \<not> P x)" by blast
      with True show ?thesis unfolding nt by auto
    qed (simp add: nt)
    then have m: "(\<lambda>x. if x \<in> insert a {b \<in> ?R. P b} - R' then None else node_at t x) =
      (\<lambda>x. if x \<in> insert a ?R - R' then None else node_at s x)" by blast
    have "same_queue (s\<lparr>node_at := (\<lambda>x. if x \<in> insert a ?R - R' then None else node_at s x),
         recs := (recs s)[r := k], numOfRetire := w\<rparr>) u"
    proof -
      have "(recs t)[r := k] = (recs s)[r := k]" using sq(6) by simp
      with same_queue_overwrite [OF t(3) k(6)] show ?thesis unfolding m by (simp only:)
    qed
    moreover have "hp_HP k = hp_HP (recs s ! r)"
      using k(5) sq(6) assms(2) by (simp add: rec_at_Some scan_rec_def)
    moreover have "R' \<subseteq> insert a ?R" using k(1) by blast
    moreover have "\<not> P x" if "x \<in> insert a ?R - R'" for x
    proof
      assume "P x"
      with that have "x \<in> insert a {b \<in> ?R. P b} - R'" by blast
      with k(2) \<open>P x\<close> show False by blast
    qed
    ultimately show ?thesis using k(3,4) unfolding retire_post_def by blast
  qed
  moreover have "run (retire_loop (Suc (Suc rounds)) isIn c fuel r a) s = run (retire_loop (Suc rounds) isIn c fuel r a) t"
    using fs t(1) by simp
  ultimately show ?thesis using u(1,2,4) by auto
qed

end

end
