(* ===== verification/HazardQueue.thy ===== *)
theory HazardQueue
  imports RetireList
begin

text \<open>
  \<^verbatim>\<open>hazardpointer.c\<close>: a queue of Michael and Scott whose threads publish the nodes they use in
  the array \<open>GlobalHP\<close>, two places per thread. A node is freed when no place of the array holds
  it.
\<close>

section \<open>The operations\<close>

text \<open>\<open>isIn\<close> reads a place twice, once to compare it with \<open>NULL\<close> and once with the node.\<close>

definition HP_at :: "nat \<Rightarrow> 'z hpq_scheme \<Rightarrow> addr option" where
  "HP_at i s = (if i < HPK * MAXTHREADS then Some (GlobalHP s i) else None)"

fun isIn_loop :: "nat \<Rightarrow> nat \<Rightarrow> addr \<Rightarrow> ('z hpq_scheme, bool) prog" where
  "isIn_loop 0 i node = Ret False"
| "isIn_loop (Suc n) i node =
    ldp (HP_at i) (\<lambda>p.
    if p \<noteq> 0 then ldp (HP_at i) (\<lambda>p. if node = p then Ret True else isIn_loop n (i + 1) node)
    else isIn_loop n (i + 1) node)"

definition isIn :: "addr \<Rightarrow> ('z hpq_scheme, bool) prog" where
  "isIn node = ld HPnum (\<lambda>local. isIn_loop local 0 node)"

abbreviation ld_next :: "addr \<Rightarrow> (addr \<Rightarrow> ('z hpq_scheme, 'a) prog) \<Rightarrow> ('z hpq_scheme, 'a) prog" where
  "ld_next a k \<equiv> ldp (\<lambda>s. map_option n_next (node_at s a)) k"

definition set_node :: "addr \<Rightarrow> (node \<Rightarrow> node) \<Rightarrow> 'z hpq_scheme \<Rightarrow> 'z hpq_scheme option" where
  "set_node a f s = (case node_at s a of None \<Rightarrow> None | Some n \<Rightarrow> Some (s\<lparr>node_at := (node_at s)(a \<mapsto> f n)\<rparr>))"

text \<open>A new node: \<open>malloc\<close>, then its two fields; the result of \<open>malloc\<close> is not checked.\<close>

definition new_node :: "queue_cfg \<Rightarrow> 32 word \<Rightarrow> (addr \<Rightarrow> ('z hpq_scheme, 'a) prog) \<Rightarrow> ('z hpq_scheme, 'a) prog" where
  "new_node c value k =
    fetch (\<lambda>s. q_malloc c (node_at s))
      (\<lambda>s. if q_malloc c (node_at s) = 0 then s else s\<lparr>node_at := (node_at s)(q_malloc c (node_at s) \<mapsto> \<lparr>n_value = 0, n_next = 0\<rparr>)\<rparr>) (\<lambda>node.
    stp (set_node node (\<lambda>n. n\<lparr>n_value := value\<rparr>)) (
    stp (set_node node (\<lambda>n. n\<lparr>n_next := 0\<rparr>)) (k node)))"

fun enqueue_loop :: "nat \<Rightarrow> nat \<Rightarrow> addr \<Rightarrow> ('z hpq_scheme, addr) prog" where
  "enqueue_loop 0 r node = Spin"
| "enqueue_loop (Suc fuel) r node =
    ld Tail (\<lambda>t.
    stp (set_HP r 0 t) (
    ld Tail (\<lambda>t'.
    if t' \<noteq> t then stp (set_HP r 0 0) (enqueue_loop fuel r node) else
    ld_next t (\<lambda>next.
    ld Tail (\<lambda>t'.
    if t' \<noteq> t then stp (set_HP r 0 0) (enqueue_loop fuel r node) else
    if next \<noteq> 0 then cas (\<lambda>s. Tail s = t) (\<lambda>s. s\<lparr>Tail := next\<rparr>) (\<lambda>_. enqueue_loop fuel r node) else
    casp (\<lambda>s. map_option n_next (node_at s t)) 0 (\<lambda>s. the (set_node t (\<lambda>n. n\<lparr>n_next := node\<rparr>) s)) (\<lambda>ok.
    if ok then Ret t else enqueue_loop fuel r node))))))"

definition enqueue :: "queue_cfg \<Rightarrow> nat \<Rightarrow> nat \<Rightarrow> 32 word \<Rightarrow> ('z hpq_scheme, unit) prog" where
  "enqueue c fuel tid value =
    with_rec tid (\<lambda>r.
    new_node c value (\<lambda>node.
    bind (enqueue_loop fuel r node) (\<lambda>t.
    cas (\<lambda>s. Tail s = t) (\<lambda>s. s\<lparr>Tail := node\<rparr>) (\<lambda>_.
    stp (set_HP r 0 0) (Ret ())))))"

text \<open>The loop returns the data and the node taken off, \<open>None\<close> when the queue was empty.\<close>

fun dequeue_loop :: "nat \<Rightarrow> nat \<Rightarrow> ('z hpq_scheme, (32 word \<times> addr) option) prog" where
  "dequeue_loop 0 r = Spin"
| "dequeue_loop (Suc fuel) r =
    ld Head (\<lambda>h.
    stp (set_HP r 0 h) (
    ld Head (\<lambda>h'.
    if h' \<noteq> h then dequeue_loop fuel r else
    ld Tail (\<lambda>t.
    ld_next h (\<lambda>next.
    stp (set_HP r 1 next) (
    ld Head (\<lambda>h'.
    if h' \<noteq> h then dequeue_loop fuel r else
    if next = 0 then Ret None else
    if h = t then cas (\<lambda>s. Tail s = t) (\<lambda>s. s\<lparr>Tail := next\<rparr>) (\<lambda>_. dequeue_loop fuel r) else
    ldp (\<lambda>s. map_option n_value (node_at s next)) (\<lambda>data.
    stp (set_HP r 1 0) (
    stp (set_HP r 0 0) (
    cas (\<lambda>s. Head s = h) (\<lambda>s. s\<lparr>Head := next\<rparr>) (\<lambda>ok.
    if ok then Ret (Some (data, h)) else dequeue_loop fuel r)))))))))))"

definition dequeue :: "queue_cfg \<Rightarrow> nat \<Rightarrow> nat \<Rightarrow> ('z hpq_scheme, 32 word) prog" where
  "dequeue c fuel tid =
    with_rec tid (\<lambda>r.
    bind (dequeue_loop fuel r) (\<lambda>res. case res of None \<Rightarrow> Ret EMPTY
     | Some (data, h) \<Rightarrow>
       if flagRet c then bind (retireNode isIn c fuel tid h) (\<lambda>_. Ret data) else Ret data))"

text \<open>A thread: its numbers are queued, then it takes until the queue is empty.\<close>

definition thread_routine :: "queue_cfg \<Rightarrow> nat \<Rightarrow> nat \<Rightarrow> nat \<Rightarrow> ('z hpq_scheme, 32 word list) prog" where
  "thread_routine c fuel tid argv =
    bind (allocateHPRec fuel c tid) (\<lambda>_.
    bind (enqueue_all (enqueue c fuel tid) (map of_nat [100..<100 + argv])) (\<lambda>_.
    dequeue_all fuel (dequeue c fuel tid) []))"

section \<open>The guards\<close>

definition hp_inv :: "(addr \<Rightarrow> bool) \<Rightarrow> 'z hpq_scheme \<Rightarrow> bool" where
  "hp_inv P s \<longleftrightarrow> HPnum s \<le> HPK * MAXTHREADS \<and> P = (\<lambda>a. a \<noteq> 0 \<and> a \<in> GlobalHP s ` {..<HPnum s})"

lemma isIn_loop_run:
  "i + n \<le> HPK * MAXTHREADS \<Longrightarrow> run (isIn_loop n i node) s = Done (node \<noteq> 0 \<and> node \<in> GlobalHP s ` {i..<i + n}) s"
proof (induction n arbitrary: i)
  case (Suc n)
  have "{i..<i + Suc n} = insert i {Suc i..<Suc i + n}" by auto
  with Suc show ?case by (auto simp: HP_at_def)
qed simp

lemma isIn_run: "HPnum s \<le> HPK * MAXTHREADS \<Longrightarrow> run (isIn node) s = Done (node \<noteq> 0 \<and> node \<in> GlobalHP s ` {..<HPnum s}) s"
  using isIn_loop_run [of 0 "HPnum s" node s] by (simp add: isIn_def atLeast0LessThan)

interpretation hp: hazard_guards isIn hp_inv
proof (unfold_locales, goal_cases)
  case (1 P s a)
  then show ?case using isIn_run [of s a] by (auto simp: hp_inv_def)
qed (simp_all add: hp_inv_def)

text \<open>The queue as one thread finds it between its operations: it has a record of its own, its retired
  nodes \<open>R\<close> are not in the queue. Other threads may protect whatever they like.\<close>

definition hp_queue :: "queue_cfg \<Rightarrow> nat \<Rightarrow> (addr \<times> 32 word) list \<Rightarrow> addr set \<Rightarrow> 'z hpq_scheme \<Rightarrow> bool" where
  "hp_queue c tid ns R s \<longleftrightarrow> queue_ok (node_at s) (Head s) (Tail s) ns \<and> HPnum s \<le> HPK * MAXTHREADS \<and> R \<inter> fst ` set ns = {} \<and>
     (\<exists>r h. myhprec s tid = Some r \<and> rec_at r s = Some h \<and> hp_HP h + HPK \<le> HPnum s \<and> list_inv c (node_at s) h \<and> retired (hp_list h) = R)"

lemma set_HP_at: "rec_at r s = Some h \<Longrightarrow> hp_HP h + j < HPK * MAXTHREADS \<Longrightarrow>
    set_HP r j a s = Some (s\<lparr>GlobalHP := (GlobalHP s)(hp_HP h + j := a)\<rparr>)"
  by (simp add: set_HP_def)

lemma set_node_at: "node_at s a = Some n \<Longrightarrow> set_node a f s = Some (s\<lparr>node_at := (node_at s)(a \<mapsto> f n)\<rparr>)"
  by (simp add: set_node_def)

lemma rec_at_updates [simp]:
  "rec_at r (s\<lparr>GlobalHP := g\<rparr>) = rec_at r s" "rec_at r (s\<lparr>node_at := m\<rparr>) = rec_at r s"
  "rec_at r (s\<lparr>Tail := a\<rparr>) = rec_at r s" "rec_at r (s\<lparr>Head := a\<rparr>) = rec_at r s"
  by (simp_all add: rec_at_def)

section \<open>Putting into the queue, alone\<close>

lemma disjoint_subset: "A \<subseteq> B \<Longrightarrow> B \<inter> C = {} \<Longrightarrow> A \<inter> C = {}"
  by blast

lemma queue_place:
  assumes "queue_ok m h t (xs @ (t, v) # ys)"
  shows "\<exists>n. m t = Some n \<and> n_value n = v \<and> nseg m (n_next n) ys 0"
  using assms by (auto simp: queue_ok_def nseg_append)

lemma enqueue_loop_run:
  assumes "rec_at r s = Some h" and "hp_HP h + HPK \<le> HPK * MAXTHREADS"
    and "queue_ok (node_at s) (Head s) (Tail s) ns" and "ns = xs @ (Tail s, v) # ys" and "length ys < fuel"
  shows "\<exists>G n. run (enqueue_loop fuel r a) s =
      Done (fst (last ns)) (s\<lparr>node_at := (node_at s)(fst (last ns) \<mapsto> n\<lparr>n_next := a\<rparr>), Tail := fst (last ns), GlobalHP := G\<rparr>) \<and>
    node_at s (fst (last ns)) = Some n \<and> n_next n = 0"
  using assms
proof (induction fuel arbitrary: s xs v ys)
  case (Suc fuel)
  have i: "hp_HP h + 0 < HPK * MAXTHREADS" using Suc.prems(2) by (simp add: HPK_def)
  let ?g = "(GlobalHP s)(hp_HP h + 0 := Tail s)"
  from queue_place [of "node_at s" "Head s" "Tail s" xs v ys] Suc.prems(3,4) obtain n where
    n: "node_at s (Tail s) = Some n" "nseg (node_at s) (n_next n) ys 0" by auto
  show ?case
  proof (cases ys)
    case Nil
    with n have "n_next n = 0" by simp
    moreover have "fst (last ns) = Tail s" using Nil Suc.prems(4) by simp
    ultimately show ?thesis using n(1) i Suc.prems(1)
      by (intro exI [of _ ?g] exI [of _ n]) (simp add: set_HP_at set_node_at fun_upd_def)
  next
    case (Cons b zs)
    obtain k w where b: "b = (k, w)" by (cases b)
    with n Cons have k: "n_next n = k" "k \<noteq> 0" by auto
    let ?s = "s\<lparr>GlobalHP := ?g, Tail := k\<rparr>"
    have "run (enqueue_loop (Suc fuel) r a) s = run (enqueue_loop fuel r a) ?s"
      using n(1) k i Suc.prems(1) by (simp add: set_HP_at)
    moreover have "queue_ok (node_at ?s) (Head ?s) (Tail ?s) ns"
      using queue_advance [OF Suc.prems(3) n(1)] k by simp
    moreover have "ns = (xs @ [(Tail s, v)]) @ (Tail ?s, w) # zs" "length zs < fuel" using Suc.prems(4,5) Cons b by simp_all
    moreover have "rec_at r ?s = Some h" using Suc.prems(1) by simp
    ultimately show ?thesis using Suc.IH [of ?s "xs @ [(Tail s, v)]" w zs] Suc.prems(2) by auto
  qed
qed simp

lemma list_inv_heap: "list_inv c m h \<Longrightarrow> (\<And>a. a \<in> retired (hp_list h) \<Longrightarrow> m a \<noteq> None \<Longrightarrow> m' a \<noteq> None) \<Longrightarrow> list_inv c m' h"
  by (simp add: list_inv_def)

lemma enqueue_run:
  assumes q: "hp_queue c tid ns R s" and m: "malloc_ok (q_malloc c)" "q_malloc c (node_at s) \<noteq> 0" and f: "length ns \<le> fuel"
  shows "\<exists>t. run (enqueue c fuel tid v) s = Done () t \<and> hp_queue c tid (ns @ [(q_malloc c (node_at s), v)]) R t \<and> HPnum t = HPnum s \<and>
    dom (node_at t) = insert (q_malloc c (node_at s)) (dom (node_at s))"
proof -
  let ?a = "q_malloc c (node_at s)" and ?n = "\<lparr>n_value = v, n_next = 0\<rparr>"
  from q obtain r h where r: "myhprec s tid = Some r" "rec_at r s = Some h" "hp_HP h + HPK \<le> HPnum s"
    "list_inv c (node_at s) h" "retired (hp_list h) = R" and k: "HPnum s \<le> HPK * MAXTHREADS" "R \<inter> fst ` set ns = {}"
    and qo: "queue_ok (node_at s) (Head s) (Tail s) ns" by (auto simp: hp_queue_def)
  have fresh: "node_at s ?a = None" using m by (simp add: malloc_ok_def)
  have a: "?a \<notin> fst ` set ns" using queue_alloc [OF qo] fresh by blast
  have aR: "?a \<notin> R" using r(4,5) fresh by (auto simp: list_inv_def)
  let ?s = "s\<lparr>node_at := (node_at s)(?a \<mapsto> ?n)\<rparr>"
  have qs: "queue_ok (node_at ?s) (Head ?s) (Tail ?s) ns" using queue_frame [OF qo a] by simp
  from qo obtain w where "(Tail s, w) \<in> set ns" by (auto simp: queue_ok_def)
  then obtain xs ys where ns: "ns = xs @ (Tail s, w) # ys" by (meson split_list)
  let ?z = "fst (last ns)"
  have hp: "hp_HP h + HPK \<le> HPK * MAXTHREADS" "hp_HP h + 0 < HPK * MAXTHREADS" using r(3) k(1) by (simp_all add: HPK_def)
  from enqueue_loop_run [of r ?s h ns xs w ys fuel ?a] qs ns f r(2) hp(1) obtain G n where
    e: "run (enqueue_loop fuel r ?a) ?s = Done ?z (?s\<lparr>node_at := (node_at ?s)(?z \<mapsto> n\<lparr>n_next := ?a\<rparr>), Tail := ?z, GlobalHP := G\<rparr>)"
      "node_at ?s ?z = Some n" "n_next n = 0" by auto
  let ?m = "(node_at ?s)(?z \<mapsto> n\<lparr>n_next := ?a\<rparr>)"
  let ?t = "?s\<lparr>node_at := ?m, Tail := ?a, GlobalHP := G(hp_HP h + 0 := 0)\<rparr>"
  have "run (enqueue c fuel tid v) s = Done () ?t"
    using e(1) r(1,2) m(2) hp(2) by (simp add: enqueue_def new_node_def with_rec_def set_node_at set_HP_at)
  moreover have "queue_ok ?m (Head s) ?a (ns @ [(?a, v)])"
  proof -
    have "ns \<noteq> []" using ns by simp
    then have z: "?z \<in> fst ` set ns" by (intro imageI last_in_set)
    have "queue_ok (node_at ?s) (Head s) ?z ns" using qs z by (simp add: queue_ok_def)
    from queue_link [OF this e(2,3) _ m(2) a] have "queue_ok ?m (Head s) ?z (ns @ [(?a, v)])" by (simp add: fun_upd_def)
    then show ?thesis by (simp add: queue_ok_def)
  qed
  moreover have "list_inv c ?m h" by (rule list_inv_heap [OF r(4)]) auto
  moreover have "rec_at r ?t = Some h" using r(2) by simp
  moreover have "?z \<in> dom (node_at ?s)" using e(2) by blast
  then have "dom ?m = insert ?a (dom (node_at s))" by auto
  ultimately show ?thesis using r k aR by (intro exI [of _ ?t]) (auto simp: hp_queue_def)
qed

section \<open>Retiring a node that left the queue\<close>

lemma card_retired: "list_inv c m h \<Longrightarrow> card (retired (hp_list h)) = occupied (hp_list h)"
  using occupied_swept [of "hp_list h" "\<lambda>_. True"] by (simp add: swept_def list_inv_def)

context hazard_guards
begin

lemma retire_dummy:
  assumes q: "hp_queue c tid ns R s" and inv: "inv P s" and a: "a \<noteq> 0" "node_at s a \<noteq> None" "a \<notin> fst ` set ns" "a \<notin> R"
    and f: "2 \<le> fuel" "MAXTHRES c < fuel" and few: "card {b \<in> R. P b} < MAXTHRES c"
  shows "\<exists>u R'. run (retireNode isIn c fuel tid a) s = Done () u \<and> inv P u \<and> hp_queue c tid ns R' u \<and> R' \<subseteq> insert a R \<and>
    node_at u = (\<lambda>x. if x \<in> insert a R - R' then None else node_at s x) \<and> (\<forall>x \<in> insert a R - R'. \<not> P x) \<and>
    (int (card R') < THRESHOLD c \<or> (\<forall>x \<in> R'. P x)) \<and> Head u = Head s \<and> Tail u = Tail s \<and> GlobalHP u = GlobalHP s \<and> HPnum u = HPnum s"
proof -
  from q obtain r h where r: "myhprec s tid = Some r" "rec_at r s = Some h" "hp_HP h + HPK \<le> HPnum s"
    "list_inv c (node_at s) h" "retired (hp_list h) = R" and k: "HPnum s \<le> HPK * MAXTHREADS" "R \<inter> fst ` set ns = {}"
    and qo: "queue_ok (node_at s) (Head s) (Tail s) ns" by (auto simp: hp_queue_def)
  have prog: "occupied (hp_list h) < MAXTHRES c \<or> (\<exists>b \<in> retired (hp_list h). \<not> P b)"
  proof (rule disjCI)
    assume "\<not> (\<exists>b \<in> retired (hp_list h). \<not> P b)"
    then have "{b \<in> R. P b} = retired (hp_list h)" using r(5) by blast
    with few card_retired [OF r(4)] show "occupied (hp_list h) < MAXTHRES c" by simp
  qed
  obtain g where g: "fuel = Suc (Suc g)" using f(1) by (metis Suc_le_D numeral_2_eq_2 Suc_le_mono)
  have aR: "a \<notin> retired (hp_list h)" using a(4) r(5) by simp
  from retire_run [OF inv r(2,4) f(2) a(1,2) aR prog, of g] obtain u R' where
    u: "run (retire_loop fuel isIn c fuel r a) s = Done () u" "inv P u" "retire_post P c r (insert a R) s R' u"
      "int (card R') < THRESHOLD c \<or> (\<forall>b \<in> R'. P b)" unfolding g r(5) by blast
  from u(3) obtain h' w where w: "R' \<subseteq> insert a R" "\<forall>x \<in> insert a R - R'. \<not> P x"
    "retired (hp_list h') = R'" "list_inv c (node_at u) h'" "hp_HP h' = hp_HP (recs s ! r)"
    "same_queue (s\<lparr>node_at := (\<lambda>x. if x \<in> insert a R - R' then None else node_at s x), recs := (recs s)[r := h'], numOfRetire := w\<rparr>) u"
    unfolding retire_post_def by blast
  note sq = same_queueD [OF w(6)]
  have m: "node_at u = (\<lambda>x. if x \<in> insert a R - R' then None else node_at s x)" using sq(1) by (simp cong: if_cong)
  have "queue_ok (node_at u) (Head s) (Tail s) ns"
  proof -
    have "node_at u x = node_at s x" if "x \<in> fst ` set ns" for x
    proof -
      have "x \<noteq> a" "x \<notin> R" using that k(2) a(3) by blast+
      then show ?thesis by (simp add: m)
    qed
    then have "nseg (node_at u) (Head s) ns 0 = nseg (node_at s) (Head s) ns 0" by (rule nseg_cong)
    with qo show ?thesis by (simp add: queue_ok_def)
  qed
  moreover have "hp_HP h' + HPK \<le> HPnum u" using w(5) r(2,3) sq by (simp add: rec_at_Some)
  moreover have "rec_at r u = Some h'" using r(2) sq by (simp add: rec_at_Some)
  moreover have "insert a R \<inter> fst ` set ns = {}" using k(2) a(3) by simp
  then have "R' \<inter> fst ` set ns = {}" by (rule disjoint_subset [OF w(1)])
  moreover have sm: "myhprec u tid = Some r" "Head u = Head s" "Tail u = Tail s" "GlobalHP u = GlobalHP s" "HPnum u = HPnum s"
    using sq r(1) by simp_all
  ultimately have "hp_queue c tid ns R' u" using w(3,4) k(1) unfolding hp_queue_def by auto
  moreover have "run (retireNode isIn c fuel tid a) s = Done () u"
    using u(1) r(1) by (simp add: with_rec_def retireNode_def)
  ultimately show ?thesis using u(2,4) w(1,2) m sm by blast
qed

end

section \<open>Taking from the queue, alone\<close>

lemma hp_places: "hp_HP h + HPK \<le> HPK * MAXTHREADS \<Longrightarrow> hp_HP h + 0 < HPK * MAXTHREADS \<and> hp_HP h + 1 < HPK * MAXTHREADS"
  by (simp add: HPK_def)

lemma dequeue_loop_empty:
  assumes "rec_at r s = Some h" and "hp_HP h + HPK \<le> HPK * MAXTHREADS"
    and "queue_ok (node_at s) (Head s) (Tail s) ns" and "queue_values ns = []"
  shows "\<exists>G. run (dequeue_loop (Suc fuel) r) s = Done None (s\<lparr>GlobalHP := G\<rparr>)"
proof -
  from queue_head [OF assms(3)] obtain n where n: "node_at s (Head s) = Some n" by blast
  with queue_empty [OF assms(3)] assms(4) have "n_next n = 0" by blast
  with n assms(1) hp_places [OF assms(2)] show ?thesis by (auto simp: set_HP_at)
qed

lemma dequeue_loop_take:
  assumes "rec_at r s = Some h" and "hp_HP h + HPK \<le> HPK * MAXTHREADS"
    and "queue_ok (node_at s) (Head s) (Tail s) ns" and "queue_values ns = v # vs" and "Tail s \<noteq> Head s"
  shows "\<exists>G b. run (dequeue_loop (Suc fuel) r) s = Done (Some (v, Head s)) (s\<lparr>Head := b, GlobalHP := G\<rparr>) \<and>
    queue_ok (node_at s) b (Tail s) (List.tl ns)"
proof -
  from queue_head [OF assms(3)] obtain n where n: "node_at s (Head s) = Some n" by blast
  with queue_empty [OF assms(3)] assms(4) have nz: "n_next n \<noteq> 0" by auto
  from queue_pop [OF assms(3) n nz assms(5)] assms(4) obtain k where
    k: "node_at s (n_next n) = Some k" "n_value k = v" "queue_ok (node_at s) (n_next n) (Tail s) (List.tl ns)" by auto
  let ?g = "(GlobalHP s)(hp_HP h + 0 := Head s, hp_HP h + 1 := n_next n, hp_HP h + 1 := 0, hp_HP h + 0 := 0)"
  from hp_places [OF assms(2)] have "run (dequeue_loop (Suc fuel) r) s = Done (Some (v, Head s)) (s\<lparr>Head := n_next n, GlobalHP := ?g\<rparr>)"
    using n nz k(1,2) assms(1,5) by (simp add: set_HP_at)
  with k(3) show ?thesis by blast
qed

lemma dequeue_loop_run:
  assumes "rec_at r s = Some h" and "hp_HP h + HPK \<le> HPK * MAXTHREADS"
    and "queue_ok (node_at s) (Head s) (Tail s) ns" and "queue_values ns = v # vs"
  shows "\<exists>G b t. run (dequeue_loop (Suc (Suc fuel)) r) s = Done (Some (v, Head s)) (s\<lparr>Head := b, Tail := t, GlobalHP := G\<rparr>) \<and>
    queue_ok (node_at s) b t (List.tl ns)"
proof (cases "Tail s = Head s")
  case False
  from dequeue_loop_take [OF assms False, of "Suc fuel"] obtain G b where
    "run (dequeue_loop (Suc (Suc fuel)) r) s = Done (Some (v, Head s)) (s\<lparr>Head := b, GlobalHP := G\<rparr>)"
    "queue_ok (node_at s) b (Tail s) (List.tl ns)" by blast
  moreover have "s\<lparr>Head := b, GlobalHP := G\<rparr> = s\<lparr>Head := b, Tail := Tail s, GlobalHP := G\<rparr>" by simp
  ultimately show ?thesis by metis
next
  case True
  from queue_head [OF assms(3)] obtain n where n: "node_at s (Head s) = Some n" by blast
  with queue_empty [OF assms(3)] assms(4) have nz: "n_next n \<noteq> 0" by auto
  let ?s = "s\<lparr>GlobalHP := (GlobalHP s)(hp_HP h + 0 := Head s, hp_HP h + 1 := n_next n), Tail := n_next n\<rparr>"
  have step: "run (dequeue_loop (Suc (Suc fuel)) r) s = run (dequeue_loop (Suc fuel) r) ?s"
    using hp_places [OF assms(2)] n nz True assms(1) by (simp add: set_HP_at)
  have q: "queue_ok (node_at ?s) (Head ?s) (Tail ?s) ns"
    using queue_advance [OF assms(3)] n nz True by simp
  have "Tail ?s \<noteq> Head ?s"
  proof
    assume e: "Tail ?s = Head ?s"
    from queue_head [OF assms(3)] n obtain w ys where ys: "ns = (Head s, w) # ys" "nseg (node_at s) (n_next n) ys 0" by auto
    with nz obtain b zs where "ys = b # zs" by (cases ys) auto
    with ys e assms(3) show False by (cases b) (auto simp: queue_ok_def)
  qed
  moreover have "rec_at r ?s = Some h" using assms(1) by simp
  ultimately obtain G b where d:
    "run (dequeue_loop (Suc fuel) r) ?s = Done (Some (v, Head ?s)) (?s\<lparr>Head := b, GlobalHP := G\<rparr>)"
      "queue_ok (node_at ?s) b (Tail ?s) (List.tl ns)"
    using dequeue_loop_take [of r ?s h ns v vs fuel] q assms(2,4) by blast
  from d step show ?thesis
    by (intro exI [of _ G] exI [of _ b] exI [of _ "n_next n"]) (simp del: dequeue_loop.simps)
qed

text \<open>What became of memory and of the retired nodes when the old dummy was retired.\<close>

definition dequeue_post :: "queue_cfg \<Rightarrow> addr set \<Rightarrow> 'z hpq_scheme \<Rightarrow> addr set \<Rightarrow> 'z hpq_scheme \<Rightarrow> bool" where
  "dequeue_post c R s R' t \<longleftrightarrow>
     (if flagRet c then R' \<subseteq> R \<and> node_at t = (\<lambda>a. if a \<in> R - R' then None else node_at s a) \<and>
        (\<forall>a \<in> R - R'. a \<notin> GlobalHP t ` {..<HPnum t}) \<and>
        (int (card R') < THRESHOLD c \<or> R' \<subseteq> GlobalHP t ` {..<HPnum t})
      else insert (Head s) R' = R \<and> node_at t = node_at s)"

lemma dequeue_empty_run:
  assumes q: "hp_queue c tid ns R s" and e: "queue_values ns = []" and f: "0 < fuel"
  shows "\<exists>t. run (dequeue c fuel tid) s = Done EMPTY t \<and> hp_queue c tid ns R t \<and> HPnum t = HPnum s \<and> node_at t = node_at s"
proof -
  from q obtain r h where r: "myhprec s tid = Some r" "rec_at r s = Some h" "hp_HP h + HPK \<le> HPnum s"
    "list_inv c (node_at s) h" "retired (hp_list h) = R" and k: "HPnum s \<le> HPK * MAXTHREADS" "R \<inter> fst ` set ns = {}"
    and qo: "queue_ok (node_at s) (Head s) (Tail s) ns" by (auto simp: hp_queue_def)
  have hp: "hp_HP h + HPK \<le> HPK * MAXTHREADS" using r(3) k(1) by simp
  obtain g where g: "fuel = Suc g" using f by (cases fuel) auto
  from dequeue_loop_empty [OF r(2) hp qo e, of g] obtain G where
    "run (dequeue_loop fuel r) s = Done None (s\<lparr>GlobalHP := G\<rparr>)" by (auto simp: g)
  then show ?thesis using r k qo by (intro exI [of _ "s\<lparr>GlobalHP := G\<rparr>"]) (auto simp: dequeue_def with_rec_def hp_queue_def)
qed

lemma dequeue_run:
  assumes q: "hp_queue c tid ns R s" and v: "queue_values ns = v # vs" and f: "2 \<le> fuel" "MAXTHRES c < fuel" and p: "HPnum s < MAXTHRES c"
  shows "\<exists>t R'. run (dequeue c fuel tid) s = Done v t \<and> hp_queue c tid (List.tl ns) R' t \<and> HPnum t = HPnum s \<and>
    dequeue_post c (insert (Head s) R) s R' t"
proof -
  from q obtain r h where r: "myhprec s tid = Some r" "rec_at r s = Some h" "hp_HP h + HPK \<le> HPnum s"
    "list_inv c (node_at s) h" "retired (hp_list h) = R" and k: "HPnum s \<le> HPK * MAXTHREADS" "R \<inter> fst ` set ns = {}"
    and qo: "queue_ok (node_at s) (Head s) (Tail s) ns" by (auto simp: hp_queue_def)
  have hp: "hp_HP h + HPK \<le> HPK * MAXTHREADS" using r(3) k(1) by simp
  obtain g where g: "fuel = Suc (Suc g)" using f(1) by (metis Suc_le_D numeral_2_eq_2 Suc_le_mono)
  from dequeue_loop_run [OF r(2) hp qo v, of g] obtain G b t where
    d: "run (dequeue_loop fuel r) s = Done (Some (v, Head s)) (s\<lparr>Head := b, Tail := t, GlobalHP := G\<rparr>)"
      "queue_ok (node_at s) b t (List.tl ns)" by (auto simp: g simp del: dequeue_loop.simps)
  let ?s = "s\<lparr>Head := b, Tail := t, GlobalHP := G\<rparr>" and ?h = "Head s"
  obtain n w ys where n: "node_at s ?h = Some n" "?h \<noteq> 0" "ns = (?h, w) # ys" using queue_head [OF qo] by blast
  have hR: "?h \<notin> R" using k(2) n(3) by auto
  have "distinct (?h # map fst ys)" using qo by (simp add: queue_ok_def n(3))
  then have hq: "?h \<notin> fst ` set (List.tl ns)" by (simp add: n(3))
  have Rq: "R \<inter> fst ` set (List.tl ns) = {}" using k(2) by (auto simp: n(3))
  show ?thesis
  proof (cases "flagRet c")
    case False
    have "hp_queue c tid (List.tl ns) R ?s" using r k d(2) Rq by (auto simp: hp_queue_def)
    moreover have "run (dequeue c fuel tid) s = Done v ?s" using d(1) r(1) False by (simp add: dequeue_def with_rec_def)
    ultimately show ?thesis using False by (intro exI [of _ ?s] exI [of _ R]) (simp add: dequeue_post_def)
  next
    case True
    let ?P = "\<lambda>a. a \<noteq> 0 \<and> a \<in> GlobalHP ?s ` {..<HPnum ?s}"
    have inv: "hp_inv ?P ?s" using k(1) by (simp add: hp_inv_def)
    have qs: "hp_queue c tid (List.tl ns) R ?s" using r k(1) d(2) Rq by (auto simp: hp_queue_def)
    have "card {b \<in> R. ?P b} \<le> card (GlobalHP ?s ` {..<HPnum ?s})" by (intro card_mono) auto
    also have "\<dots> \<le> card {..<HPnum ?s}" by (rule card_image_le) simp
    finally have few: "card {b \<in> R. ?P b} < MAXTHRES c" using p by simp
    from hp.retire_dummy [OF qs inv n(2) _ hq hR f few] n(1) obtain u R' where
      u: "run (retireNode isIn c fuel tid ?h) ?s = Done () u" "hp_queue c tid (List.tl ns) R' u" "R' \<subseteq> insert ?h R"
        "node_at u = (\<lambda>x. if x \<in> insert ?h R - R' then None else node_at ?s x)" "\<forall>x \<in> insert ?h R - R'. \<not> ?P x"
        "int (card R') < THRESHOLD c \<or> (\<forall>x \<in> R'. ?P x)" "GlobalHP u = GlobalHP ?s" "HPnum u = HPnum ?s" by auto
    have "run (dequeue c fuel tid) s = Done v u"
      using d(1) u(1) r(1) True by (simp add: dequeue_def with_rec_def)
    moreover have "dequeue_post c (insert ?h R) s R' u"
    proof -
      have z: "0 \<notin> insert ?h R" using r(5) n(2) by (auto simp: retired_def)
      have gu: "GlobalHP u ` {..<HPnum u} = GlobalHP ?s ` {..<HPnum ?s}" using u(7,8) by simp
      have "a \<notin> GlobalHP u ` {..<HPnum u}" if "a \<in> insert ?h R - R'" for a
      proof -
        have "a \<noteq> 0" using that z by (metis DiffD1)
        with bspec [OF u(5) that] show ?thesis unfolding gu by blast
      qed
      moreover have "int (card R') < THRESHOLD c \<or> R' \<subseteq> GlobalHP u ` {..<HPnum u}" using u(6) unfolding gu by blast
      moreover have "node_at u = (\<lambda>x. if x \<in> insert ?h R - R' then None else node_at s x)" using u(4) by (simp cong: if_cong)
      ultimately show ?thesis using True u(3) by (simp add: dequeue_post_def)
    qed
    moreover have "HPnum u = HPnum s" using u(8) by simp
    ultimately show ?thesis using u(2) by blast
  qed
qed

section \<open>A thread's record\<close>

text \<open>The records in use, from the first of the list on.\<close>

fun rec_chain :: "'z hpq_scheme \<Rightarrow> nat option \<Rightarrow> nat list \<Rightarrow> bool" where
  "rec_chain s p [] = (p = None)"
| "rec_chain s p (r # rs) = (p = Some r \<and> (\<exists>h. rec_at r s = Some h \<and> rec_chain s (hp_next h) rs))"

definition rec_active :: "'z hpq_scheme \<Rightarrow> nat \<Rightarrow> bool" where
  "rec_active s r \<longleftrightarrow> (\<exists>h. rec_at r s = Some h \<and> hp_Active h)"

lemma find_rec_none:
  "rec_chain s p rs \<Longrightarrow> \<forall>r \<in> set rs. rec_active s r \<Longrightarrow> length rs < fuel \<Longrightarrow> run (find_rec fuel p k) s = run (k None) s"
proof (induction rs arbitrary: p fuel)
  case Nil
  then show ?case by (cases fuel) auto
next
  case (Cons r rs)
  then obtain f where "fuel = Suc f" by (cases fuel) auto
  with Cons show ?case by (auto simp: rec_active_def)
qed

lemma find_rec_some:
  "rec_chain s p (xs @ r # ys) \<Longrightarrow> \<forall>x \<in> set xs. rec_active s x \<Longrightarrow> rec_at r s = Some h \<Longrightarrow> \<not> hp_Active h \<Longrightarrow> length xs < fuel \<Longrightarrow>
    run (find_rec fuel p k) s = run (k (Some r)) (s\<lparr>recs := (recs s)[r := h\<lparr>hp_Active := True\<rparr>]\<rparr>)"
proof (induction xs arbitrary: p fuel)
  case Nil
  then obtain f where "fuel = Suc f" by (cases fuel) auto
  with Nil show ?case by (auto simp: rec_set_at)
next
  case (Cons x xs)
  then obtain f where "fuel = Suc f" by (cases fuel) auto
  with Cons show ?case by (auto simp: rec_active_def)
qed

lemma list_inv_new: "0 < MAXTHRES c \<Longrightarrow> list_inv c m \<lparr>hp_HP = p, hp_next = n, hp_Active = b, hp_rcount = 0, hp_count = 0, hp_list = replicate (MAXTHRES c) 0\<rparr>"
  by (simp add: list_inv_def retired_def occupied_def)

lemma allocate_new:
  assumes "rec_chain s (hp_head s) rs" and "\<forall>r \<in> set rs. rec_active s r" and "length rs < fuel"
    and "HPnum s + HPK \<le> HPK * MAXTHREADS" and "0 < MAXTHRES c" and "queue_ok (node_at s) (Head s) (Tail s) ns"
  shows "\<exists>t. run (allocateHPRec fuel c tid) s = Done () t \<and> hp_queue c tid ns {} t \<and> HPnum t = HPnum s + HPK \<and> node_at t = node_at s \<and>
    Tail t = Tail s \<and> hpq.more t = hpq.more s"
proof -
  obtain f where f: "fuel = Suc f" using assms(3) by (cases fuel) auto
  let ?r = "length (recs s)"
  let ?h = "\<lambda>n. \<lparr>hp_HP = HPnum s, hp_next = n, hp_Active = True, hp_rcount = 0, hp_count = 0, hp_list = replicate (MAXTHRES c) 0\<rparr>"
  let ?t = "s\<lparr>HPnum := HPnum s + HPK, recs := recs s @ [?h (hp_head s)], GlobalHP := (GlobalHP s)(HPnum s + 0 := 0, HPnum s + 1 := 0),
    hp_head := Some ?r, myhprec := (myhprec s)(tid \<mapsto> ?r)\<rparr>"
  have i: "HPnum s + 0 < HPK * MAXTHREADS" "HPnum s + 1 < HPK * MAXTHREADS" using assms(4) by (simp_all add: HPK_def)
  have at: "rec_at ?r (u\<lparr>recs := recs s @ [h]\<rparr>) = Some h" for u h by (simp add: rec_at_def)
  have "run (allocateHPRec fuel c tid) s = Done () ?t"
    using find_rec_none [OF assms(1-3)] i
    by (simp add: allocateHPRec_def f set_HP_def rec_set_def rec_at_def)
  moreover have "hp_queue c tid ns {} ?t"
    unfolding hp_queue_def
    using assms(4-6) list_inv_new [OF assms(5)] by (auto simp: rec_at_def retired_def)
  ultimately show ?thesis by auto
qed

text \<open>A record that a finished thread left is taken over with the nodes still in its list.\<close>

lemma allocate_reuse:
  assumes "rec_chain s (hp_head s) (xs @ r # ys)" and "\<forall>x \<in> set xs. rec_active s x" and "rec_at r s = Some h" and "\<not> hp_Active h"
    and "length xs < fuel" and "hp_HP h + HPK \<le> HPnum s" and "HPnum s \<le> HPK * MAXTHREADS" and "list_inv c (node_at s) h"
    and "queue_ok (node_at s) (Head s) (Tail s) ns" and "retired (hp_list h) \<inter> fst ` set ns = {}"
  shows "\<exists>t. run (allocateHPRec fuel c tid) s = Done () t \<and> hp_queue c tid ns (retired (hp_list h)) t \<and> HPnum t = HPnum s"
proof -
  let ?h = "h\<lparr>hp_Active := True\<rparr>"
  let ?t = "s\<lparr>recs := (recs s)[r := ?h], myhprec := (myhprec s)(tid \<mapsto> r)\<rparr>"
  have "run (allocateHPRec fuel c tid) s = Done () ?t"
    using find_rec_some [OF assms(1-5)] by (simp add: allocateHPRec_def)
  moreover have "rec_at r ?t = Some ?h" using assms(3) by (simp add: rec_at_Some)
  moreover have "list_inv c (node_at s) ?h" using assms(8) by (simp add: list_inv_def)
  ultimately show ?thesis using assms(6-10) by (intro exI [of _ ?t]) (auto simp: hp_queue_def)
qed

section \<open>Programs\<close>

definition hp_fifo :: "queue_cfg \<Rightarrow> nat \<Rightarrow> nat \<Rightarrow> nat \<Rightarrow> nat \<Rightarrow> nat \<Rightarrow> 32 word list \<Rightarrow> 'z hpq_scheme \<Rightarrow> bool" where
  "hp_fifo c fuel tid N m p vs s \<longleftrightarrow> (\<exists>ns R. hp_queue c tid ns R s \<and> queue_values ns = vs \<and> length ns + m \<le> fuel) \<and>
     malloc_room N (q_malloc c) \<and> card (dom (node_at s)) + m \<le> N \<and> 2 \<le> fuel \<and> MAXTHRES c < fuel \<and> HPnum s < MAXTHRES c"

lemma hp_queue_values: "hp_queue c tid ns R s \<Longrightarrow> queue_values (ns @ [(a, v)]) = queue_values ns @ [v]"
  by (rule queue_values_link) (auto simp: hp_queue_def queue_ok_def)

lemma dequeue_post_dom: "dequeue_post c R s R' t \<Longrightarrow> card (dom (node_at t)) \<le> card (dom (node_at s))"
  by (rule card_mono) (auto simp: dequeue_post_def split: if_splits)

interpretation hpfifo: fifo_queue "enqueue c fuel tid" "dequeue c fuel tid" "hp_fifo c fuel tid N" for c fuel tid N
proof (unfold_locales, goal_cases)
  case (1 m p vs s v)
  let ?a = "q_malloc c (node_at s)"
  from 1 obtain ns R where ns: "hp_queue c tid ns R s" "queue_values ns = vs" "length ns + Suc m \<le> fuel"
    and h: "malloc_room N (q_malloc c)" "card (dom (node_at s)) + Suc m \<le> N" "2 \<le> fuel" "MAXTHRES c < fuel" "HPnum s < MAXTHRES c"
    by (auto simp: hp_fifo_def)
  have ma: "malloc_ok (q_malloc c)" "?a \<noteq> 0" using h(1,2) by (auto simp: malloc_room_def)
  have "length ns \<le> fuel" using ns(3) by simp
  from enqueue_run [OF ns(1) ma this] obtain t where
    t: "run (enqueue c fuel tid v) s = Done () t" "hp_queue c tid (ns @ [(?a, v)]) R t" "HPnum t = HPnum s"
      "dom (node_at t) = insert ?a (dom (node_at s))" by blast
  have "card (dom (node_at t)) \<le> Suc (card (dom (node_at s)))" unfolding t(4) by (rule card_insert_le_m1) simp_all
  moreover have "length (ns @ [(?a, v)]) + m \<le> fuel" using ns(3) by simp
  ultimately have "hp_fifo c fuel tid N m p (vs @ [v]) t"
    using t(2,3) h ns(2) hp_queue_values [OF ns(1)] unfolding hp_fifo_def by auto
  with t(1) show ?case by blast
next
  case (2 m p s)
  then obtain ns R where ns: "hp_queue c tid ns R s" "queue_values ns = []" "length ns + m \<le> fuel" "0 < fuel" by (auto simp: hp_fifo_def)
  from dequeue_empty_run [OF ns(1,2,4)] obtain t where
    t: "run (dequeue c fuel tid) s = Done EMPTY t" "hp_queue c tid ns R t" "HPnum t = HPnum s" "node_at t = node_at s" by blast
  with 2 ns(2,3) have "hp_fifo c fuel tid N m p [] t" unfolding hp_fifo_def by auto
  with t(1) show ?case by blast
next
  case (3 m p v vs s)
  then obtain ns R where ns: "hp_queue c tid ns R s" "queue_values ns = v # vs" "length ns + m \<le> fuel"
    and h: "malloc_room N (q_malloc c)" "card (dom (node_at s)) + m \<le> N" "2 \<le> fuel" "MAXTHRES c < fuel" "HPnum s < MAXTHRES c"
    by (auto simp: hp_fifo_def)
  from dequeue_run [OF ns(1,2) h(3-5)] obtain t R' where
    t: "run (dequeue c fuel tid) s = Done v t" "hp_queue c tid (List.tl ns) R' t" "HPnum t = HPnum s"
      "dequeue_post c (insert (Head s) R) s R' t" by blast
  have "card (dom (node_at t)) + m \<le> N" using dequeue_post_dom [OF t(4)] h(2) by simp
  moreover have "length (List.tl ns) + m \<le> fuel" using ns(3) by simp
  ultimately have "hp_fifo c fuel tid N m p vs t"
    using t(2,3) h queue_values_tl [OF ns(2)] unfolding hp_fifo_def by auto
  with t(1) show ?case by blast
qed

lemma queue_values_length: "queue_ok m h t ns \<Longrightarrow> length (queue_values ns) < length ns"
  by (cases ns) (auto simp: queue_values_def queue_ok_def)

section \<open>What the queue promises\<close>

text \<open>C8: the queue of \<^verbatim>\<open>hazardpointer.c\<close>, used by one thread from its \<open>allocateHPRec\<close> on, is first in first
  out: whatever other threads protect, and whether or not nodes are freed, \<open>dequeue\<close> returns the
  values in the order they were queued and the number for empty exactly when none is left.\<close>

theorem hazard_queue_fifo:
  assumes "rec_chain s (hp_head s) rs" and "\<forall>r \<in> set rs. rec_active s r" and "length rs < fuel"
    and "HPnum s + HPK \<le> HPK * MAXTHREADS" and "HPnum s + HPK < MAXTHRES c" and "MAXTHRES c < fuel"
    and "queue_ok (node_at s) (Head s) (Tail s) ns" and "malloc_room N (q_malloc c)" and "card (dom (node_at s)) + puts ops \<le> N"
    and "length ns + puts ops \<le> fuel"
  shows "\<exists>t. run (bind (allocateHPRec fuel c tid) (\<lambda>_. qscript (enqueue c fuel tid) (dequeue c fuel tid) ops)) s
    = Done (fifo ops (queue_values ns)) t"
proof -
  have pos: "0 < MAXTHRES c" "2 \<le> fuel" using assms(5,6) by (simp_all add: HPK_def)
  from allocate_new [OF assms(1-4) pos(1) assms(7)] obtain s1 where
    s1: "run (allocateHPRec fuel c tid) s = Done () s1" "hp_queue c tid ns {} s1" "HPnum s1 = HPnum s + HPK" "node_at s1 = node_at s" by blast
  have "hp_fifo c fuel tid N (0 + puts ops) (0 + length ops) (queue_values ns) s1"
    using s1(2-4) assms(5,6,8-10) pos(2) unfolding hp_fifo_def by auto
  from hpfifo.qscript_run [OF this] s1(1) show ?thesis by auto
qed

text \<open>Memory as \<open>main\<close> leaves it to the first thread: the dummy node.\<close>

definition hp_empty :: hpq where
  "hp_empty = \<lparr>node_at = [64 \<mapsto> \<lparr>n_value = - 1, n_next = 0\<rparr>], Head = 64, Tail = 64, GlobalHP = \<lambda>_. 0, HPnum = 0, recs = [],
     hp_head = None, myhprec = Map.empty, numOfRetire = 0\<rparr>"

definition cfg1 :: queue_cfg where
  "cfg1 = \<lparr>q_malloc = lowest_free 1000 64, THRESHOLD = 1, MAXTHRES = 3, flagRet = True\<rparr>"

lemma hp_empty_ok: "queue_ok (node_at hp_empty) (Head hp_empty) (Tail hp_empty) [(64, - 1)]"
  by (simp add: queue_ok_def hp_empty_def)

theorem hazard_queue_fifo_witness:
  "\<exists>t. run (bind (allocateHPRec 20 cfg1 0) (\<lambda>_. qscript (enqueue cfg1 20 0) (dequeue cfg1 20 0) [Enqueue 7, Enqueue 8, Dequeue, Dequeue, Dequeue])) hp_empty
    = Done [7, 8, EMPTY] t"
proof -
  have c: "malloc_room 1000 (q_malloc cfg1)" "MAXTHRES cfg1 = 3" using lowest_free_room by (simp_all add: cfg1_def)
  have s: "HPnum hp_empty = 0" "hp_head hp_empty = None" "card (dom (node_at hp_empty)) = 1" by (simp_all add: hp_empty_def)
  show ?thesis
    using hazard_queue_fifo [where rs = "[]" and s = hp_empty and c = cfg1 and fuel = 20 and N = 1000 and tid = 0
        and ns = "[(64, - 1)]" and ops = "[Enqueue 7, Enqueue 8, Dequeue, Dequeue, Dequeue]"] hp_empty_ok c s
    by (simp add: HPK_def MAXTHREADS_def queue_values_def)
qed

text \<open>C15: \<open>dequeue\<close> with reclamation, run alone on a queue that is not empty, takes the first value, moves the head, and retires the old dummy. Exactly
  the nodes that leave the thread's list are freed, none of them is protected by any thread, no
  other memory changes, and afterwards the list holds fewer than \<open>THRESHOLD\<close> nodes or only
  protected ones.\<close>

theorem dequeue_reclaims:
  assumes "hp_queue c tid ns R s" and "queue_values ns = v # vs" and "2 \<le> fuel" and "MAXTHRES c < fuel"
    and "HPnum s < MAXTHRES c" and "flagRet c"
  shows "\<exists>t R'. run (dequeue c fuel tid) s = Done v t \<and> hp_queue c tid (List.tl ns) R' t \<and> R' \<subseteq> insert (Head s) R \<and>
    node_at t = (\<lambda>a. if a \<in> insert (Head s) R - R' then None else node_at s a) \<and>
    (\<forall>a \<in> insert (Head s) R - R'. a \<notin> GlobalHP t ` {..<HPnum t}) \<and>
    (int (card R') < THRESHOLD c \<or> R' \<subseteq> GlobalHP t ` {..<HPnum t})"
  using dequeue_run [OF assms(1-5)] assms(6) unfolding dequeue_post_def by auto

lemma hp_start_run:
  "\<exists>s. run (allocateHPRec 20 cfg1 0) hp_empty = Done () s \<and> hp_queue cfg1 0 [(64, - 1)] {} s \<and> HPnum s = 2 \<and> node_at s = node_at hp_empty"
proof -
  have "MAXTHRES cfg1 = 3" by (simp add: cfg1_def)
  moreover have "HPnum hp_empty = 0" "hp_head hp_empty = None" by (simp_all add: hp_empty_def)
  ultimately show ?thesis
    using allocate_new [where rs = "[]" and s = hp_empty and c = cfg1 and fuel = 20 and tid = 0 and ns = "[(64, - 1)]"] hp_empty_ok
    by (auto simp: HPK_def MAXTHREADS_def numeral_2_eq_2)
qed

theorem dequeue_reclaims_witness:
  "\<exists>s (t :: hpq). run (enqueue cfg1 20 0 7) s = Done () t \<and> (\<exists>u R'. run (dequeue cfg1 20 0) t = Done 7 u \<and> R' \<subseteq> {Head t} \<and>
     (card R' < 1 \<or> R' \<subseteq> GlobalHP u ` {..<HPnum u}))"
proof -
  obtain s :: hpq where s: "hp_queue cfg1 0 [(64, - 1)] {} s" "HPnum s = 2" "node_at s = node_at hp_empty" using hp_start_run by blast
  have "card (dom (node_at s)) = 1" unfolding s(3) by (simp add: hp_empty_def)
  then have m: "malloc_ok (q_malloc cfg1)" "q_malloc cfg1 (node_at s) \<noteq> 0"
    using lowest_free_room by (auto simp: malloc_room_def cfg1_def)
  from enqueue_run [OF s(1) m, of 20 7] obtain t where
    t: "run (enqueue cfg1 20 0 7) s = Done () t" "hp_queue cfg1 0 ([(64, - 1)] @ [(q_malloc cfg1 (node_at s), 7)]) {} t" "HPnum t = HPnum s"
    by auto
  have "queue_values ([(64, - 1)] @ [(q_malloc cfg1 (node_at s), 7)]) = 7 # []" by (simp add: queue_values_def)
  from dequeue_reclaims [OF t(2) this, of 20] s(2) t(3) obtain u R' where
    "run (dequeue cfg1 20 0) t = Done 7 u" "R' \<subseteq> {Head t}" "int (card R') < THRESHOLD cfg1 \<or> R' \<subseteq> GlobalHP u ` {..<HPnum u}"
    by (auto simp: cfg1_def)
  with t(1) show ?thesis by (intro exI [of _ s] exI [of _ t] conjI exI [of _ u] exI [of _ R']) (auto simp: cfg1_def)
qed

text \<open>C18: a thread of \<^verbatim>\<open>hazardpointer.c\<close> that runs alone, from its record on, queues its numbers, takes
  exactly what was in the queue and its own numbers in order, returns, and leaves the queue
  empty.\<close>

theorem thread_routine_ends:
  assumes "rec_chain s (hp_head s) rs" and "\<forall>r \<in> set rs. rec_active s r" and "length rs < fuel"
    and "HPnum s + HPK \<le> HPK * MAXTHREADS" and "HPnum s + HPK < MAXTHRES c" and "MAXTHRES c < fuel"
    and "queue_ok (node_at s) (Head s) (Tail s) ns" and "malloc_room N (q_malloc c)" and "card (dom (node_at s)) + n \<le> N"
    and "length ns + n < fuel" and "EMPTY \<notin> set (queue_values ns)" and "n < 2 ^ 31"
  shows "\<exists>t ns'. run (thread_routine c fuel tid n) s = Done (queue_values ns @ map of_nat [100..<100 + n]) t \<and>
    queue_ok (node_at t) (Head t) (Tail t) ns' \<and> queue_values ns' = []"
proof -
  have pos: "0 < MAXTHRES c" "2 \<le> fuel" using assms(5,6) by (simp_all add: HPK_def)
  let ?vs = "map of_nat [100..<100 + n] :: 32 word list"
  from allocate_new [OF assms(1-4) pos(1) assms(7)] obtain s1 where
    s1: "run (allocateHPRec fuel c tid) s = Done () s1" "hp_queue c tid ns {} s1" "HPnum s1 = HPnum s + HPK" "node_at s1 = node_at s" by blast
  have l: "length (queue_values ns) + length ?vs < fuel" using queue_values_length [OF assms(7)] assms(10) by simp
  have "hp_fifo c fuel tid N (0 + length ?vs) (0 + length ?vs + Suc (length (queue_values ns) + length ?vs)) (queue_values ns) s1"
    using s1(2-4) assms(5,6,8-10) pos(2) unfolding hp_fifo_def by auto
  moreover have "EMPTY \<notin> set (queue_values ns) \<union> set ?vs" using assms(11) EMPTY_own [OF assms(12)] by blast
  ultimately obtain t where "run (bind (enqueue_all (enqueue c fuel tid) ?vs) (\<lambda>_. dequeue_all fuel (dequeue c fuel tid) [])) s1
      = Done (queue_values ns @ ?vs) t" "hp_fifo c fuel tid N 0 0 [] t"
    using hpfifo.thread_run [OF _ _ l] by blast
  with s1(1) show ?thesis by (auto simp: thread_routine_def hp_fifo_def hp_queue_def)
qed

theorem thread_routine_ends_witness:
  "\<exists>t. run (thread_routine cfg1 20 0 3) hp_empty = Done [100, 101, 102] t"
proof -
  have c: "malloc_room 1000 (q_malloc cfg1)" "MAXTHRES cfg1 = 3" using lowest_free_room by (simp_all add: cfg1_def)
  have s: "HPnum hp_empty = 0" "hp_head hp_empty = None" "card (dom (node_at hp_empty)) = 1" by (simp_all add: hp_empty_def)
  have "map of_nat [100..<103] = [100, 101, 102 :: 32 word]" by (simp add: upt_rec)
  with thread_routine_ends [where rs = "[]" and s = hp_empty and c = cfg1 and fuel = 20 and N = 1000 and tid = 0
        and ns = "[(64, - 1)]" and n = 3] hp_empty_ok c s
  show ?thesis by (auto simp: HPK_def MAXTHREADS_def queue_values_def)
qed

section \<open>Where it fails\<close>

text \<open>When every place of a thread's list holds a node that is protected, no scan frees a place.\<close>

lemma stuck_run:
  assumes "hp_inv P s" and "rec_at r s = Some h" and "list_inv c (node_at s) h" and "MAXTHRES c < fuel"
    and "occupied (hp_list h) = MAXTHRES c" and "\<forall>b \<in> retired (hp_list h). P b"
  shows "\<exists>t. run (retire_loop rounds isIn c fuel r a) s = Looping t"
  using assms
proof (induction rounds arbitrary: s)
  case (Suc rounds)
  let ?l = "hp_list h"
  have n: "length ?l = MAXTHRES c" using Suc.prems(3) by (simp add: list_inv_def)
  then have "takeWhile (\<lambda>a. a \<noteq> 0) ?l = ?l" using Suc.prems(5) unfolding full_list by simp
  then have "length (takeWhile (\<lambda>a. a \<noteq> 0) ?l) = MAXTHRES c" by (metis n)
  then have fs: "run (find_slot (MAXTHRES c) r 0) s = Done (MAXTHRES c) s"
    using find_slot_run [OF Suc.prems(2), of 0 "MAXTHRES c"] n by (simp del: takeWhile_eq_all_conv)
  from hp.scan_run [OF Suc.prems(1-4)] obtain t where t: "run (scan isIn fuel r) s = Done () t" "hp_inv P t"
    "same_queue (s\<lparr>node_at := swept_heap P ?l (node_at s), recs := (recs s)[r := scan_rec P h], numOfRetire := numOfRetire s + 1\<rparr>) t"
    by blast
  have "swept P ?l = ?l" using Suc.prems(6) by (auto simp: swept_def retired_def intro!: map_idI)
  then have h: "scan_rec P h = h" using Suc.prems(3) by (simp add: scan_rec_def list_inv_def)
  have "swept_heap P ?l (node_at s) = node_at s" using Suc.prems(6) by (intro ext) (auto simp: swept_heap_def)
  with same_queueD [OF t(3)] Suc.prems(2,3) have "rec_at r t = Some h" "list_inv c (node_at t) h"
    by (simp_all add: rec_at_Some h)
  from Suc.IH [OF t(2) this Suc.prems(4-6)] fs t(1) show ?case by simp
qed simp

text \<open>C39: \<open>retireNode\<close> has no way out when every place of the thread's list holds a protected node: it
  scans for ever. \<open>main\<close> avoids it by giving each list more places than there are hazard
  pointers.\<close>

theorem retireNode_stuck:
  assumes "myhprec s tid = Some r" and "rec_at r s = Some h" and "list_inv c (node_at s) h" and "occupied (hp_list h) = MAXTHRES c"
    and "HPnum s \<le> HPK * MAXTHREADS" and "retired (hp_list h) \<subseteq> GlobalHP s ` {..<HPnum s}" and "MAXTHRES c < fuel"
  shows "\<exists>t. run (retireNode isIn c fuel tid a) s = Looping t"
proof -
  have "hp_inv (\<lambda>a. a \<noteq> 0 \<and> a \<in> GlobalHP s ` {..<HPnum s}) s" using assms(5) by (simp add: hp_inv_def)
  from stuck_run [OF this assms(2,3,7,4), of fuel a] assms(1,6) show ?thesis
    by (auto simp: retireNode_def with_rec_def retired_def)
qed

theorem retireNode_stuck_witness:
  "\<exists>t. run (retireNode isIn (cfg1\<lparr>MAXTHRES := 1\<rparr>) 5 0 128) (hp_empty\<lparr>HPnum := 2, GlobalHP := \<lambda>_. 64, myhprec := [0 \<mapsto> 0],
     recs := [\<lparr>hp_HP = 0, hp_next = None, hp_Active = True, hp_rcount = 0, hp_count = 1, hp_list = [64]\<rparr>]\<rparr>) = Looping t"
proof -
  let ?h = "\<lparr>hp_HP = 0, hp_next = None, hp_Active = True, hp_rcount = 0, hp_count = 1, hp_list = [64]\<rparr>"
  let ?s = "hp_empty\<lparr>HPnum := 2, GlobalHP := \<lambda>_. 64, myhprec := [0 \<mapsto> 0], recs := [?h]\<rparr>"
  have "rec_at 0 ?s = Some ?h" "list_inv (cfg1\<lparr>MAXTHRES := 1\<rparr>) (node_at ?s) ?h" "retired (hp_list ?h) \<subseteq> GlobalHP ?s ` {..<HPnum ?s}"
    by (auto simp: rec_at_def list_inv_def retired_def occupied_def hp_empty_def intro: image_eqI [of _ _ 0])
  then show ?thesis
    by (intro retireNode_stuck [where r = 0 and h = ?h]) (simp_all add: HPK_def MAXTHREADS_def occupied_def)
qed

text \<open>Two threads. The first has read the head, the node behind it and its value, and has cleared its
  hazard pointers, which the code does before it moves the head. The second takes two values,
  which frees the old head, queues one, for which \<open>malloc\<close> returns that address again, and takes
  it. Then the first moves the head to a node that is freed.\<close>

abbreviation five :: nat where "five \<equiv> Suc (Suc (Suc (Suc (Suc 0))))"

abbreviation eight :: nat where "eight \<equiv> Suc (Suc (Suc five))"

definition aba_cfg :: queue_cfg where
  "aba_cfg = \<lparr>q_malloc = (\<lambda>m. if m 64 = None then 64 else 0), THRESHOLD = 1, MAXTHRES = five, flagRet = True\<rparr>"

definition aba_start :: hpq where
  "aba_start = \<lparr>node_at = [64 \<mapsto> \<lparr>n_value = - 1, n_next = 128\<rparr>, 128 \<mapsto> \<lparr>n_value = 10, n_next = 192\<rparr>, 192 \<mapsto> \<lparr>n_value = 20, n_next = 0\<rparr>],
     Head = 64, Tail = 192, GlobalHP = \<lambda>_. 0, HPnum = Suc (Suc (Suc (Suc 0))),
     recs = [\<lparr>hp_HP = 0, hp_next = None, hp_Active = True, hp_rcount = 0, hp_count = 0, hp_list = [0, 0, 0, 0, 0]\<rparr>,
       \<lparr>hp_HP = 2, hp_next = Some 0, hp_Active = True, hp_rcount = 0, hp_count = 0, hp_list = [0, 0, 0, 0, 0]\<rparr>],
     hp_head = Some 1, myhprec = [0 \<mapsto> 0, 1 \<mapsto> 1], numOfRetire = 0\<rparr>"

definition aba_threads :: "(hpq, 32 word list) prog list" where
  "aba_threads = [qscript (enqueue aba_cfg eight 0) (dequeue aba_cfg eight 0) [Dequeue],
     qscript (enqueue aba_cfg eight 1) (dequeue aba_cfg eight 1) [Dequeue, Dequeue, Enqueue 30, Dequeue]]"

lemmas aba_run = dequeue_def enqueue_def new_node_def with_rec_def set_HP_def rec_at_def HPK_def MAXTHREADS_def retireNode_def
  aba_cfg_def slot_at_def slot_set_def rec_set_def scan_def isIn_def HP_at_def free_node_def set_node_def

text \<open>After eleven steps of the first thread.\<close>

definition aba_mid :: hpq where
  "aba_mid = aba_start\<lparr>GlobalHP := (\<lambda>_. 0)(0 := 64, 1 := 128, 1 := 0, 0 := 0)\<rparr>"

definition aba_paused :: "(hpq, 32 word list) prog" where
  "aba_paused = bind (cas (\<lambda>s. Head s = 64) (Head_update (\<lambda>_. 128)) (\<lambda>ok. bind (if ok then Ret (Some (10, 64)) else dequeue_loop (Suc (Suc five)) 0)
     (\<lambda>res. case res of None \<Rightarrow> Ret EMPTY | Some (data, h) \<Rightarrow>
       if flagRet aba_cfg then bind (retireNode isIn aba_cfg eight 0 h) (\<lambda>_. Ret data) else Ret data))) (\<lambda>x. Ret [x])"

lemma exec_prims:
  "exec (replicate (Suc n) 0) (s, [ld f k, q]) = exec (replicate n 0) (s, [k (f s), q])"
  "exec (replicate (Suc n) 0) (s, [st g p, q]) = exec (replicate n 0) (g s, [p, q])"
  "exec (replicate (Suc n) 0) (s, [ldp f' k', q]) = (case f' s of None \<Rightarrow> exec (replicate n 0) (s, [Crash, q]) | Some v \<Rightarrow> exec (replicate n 0) (s, [k' v, q]))"
  "exec (replicate (Suc n) 0) (s, [stp g' p, q]) = (case g' s of None \<Rightarrow> exec (replicate n 0) (s, [Crash, q]) | Some t \<Rightarrow> exec (replicate n 0) (t, [p, q]))"
  by (auto simp: sched_step_def ld_def st_def ldp_def stp_def split: option.split)

lemma aba_first: "exec (replicate (Suc (Suc (Suc eight))) 0) (aba_start, [qscript (enqueue aba_cfg eight 0) (dequeue aba_cfg eight 0) [Dequeue], q]) = (aba_mid, [aba_paused, q])"
  by (simp add: exec_prims bind_prims dequeue_def with_rec_def aba_start_def aba_mid_def aba_paused_def set_HP_def rec_at_def HPK_def MAXTHREADS_def
     del: replicate.simps exec.simps(2))
   (simp cong: if_cong del: dequeue_loop.simps)

lemma aba_second: "\<exists>u. run (aba_threads ! 1) aba_mid = Done [10, 20, 30] u \<and>
    (\<exists>v. run aba_paused u = Done [10] v \<and> node_at v (Head v) = None \<and> (\<exists>w. run (dequeue aba_cfg eight 1) v = Crashed w))"
  by (simp add: aba_run aba_start_def aba_mid_def aba_threads_def aba_paused_def)


text \<open>C22: \<open>dequeue\<close> of \<^verbatim>\<open>hazardpointer.c\<close> clears its hazard pointers before the compare-and-swap on \<open>Head\<close>:
  there is a schedule of two threads in which both take the value 10, \<open>Head\<close> is left pointing to
  freed memory, and the next \<open>dequeue\<close> reads it.\<close>

theorem hazard_cleared_early:
  "\<exists>sch s. exec sch (aba_start, aba_threads) = (s, [Ret [10], Ret [10, 20, 30]]) \<and> node_at s (Head s) = None \<and>
    (\<exists>t. run (dequeue aba_cfg eight 1) s = Crashed t)"
proof -
  let ?q = "aba_threads ! 1"
  from aba_second obtain u v where u: "run ?q aba_mid = Done [10, 20, 30] u"
    and v: "run aba_paused u = Done [10] v" "node_at v (Head v) = None" "\<exists>w. run (dequeue aba_cfg eight 1) v = Crashed w" by blast
  from run_exec [OF u, of 1 "[aba_paused, ?q]"] obtain n where
    n: "exec (replicate n 1) (aba_mid, [aba_paused, ?q]) = (u, [aba_paused, Ret [10, 20, 30]])" by auto
  from run_exec [OF v(1), of 0 "[aba_paused, Ret [10, 20, 30]]"] obtain m where
    m: "exec (replicate m 0) (u, [aba_paused, Ret [10, 20, 30]]) = (v, [Ret [10], Ret [10, 20, 30]])" by auto
  have "aba_threads = [qscript (enqueue aba_cfg eight 0) (dequeue aba_cfg eight 0) [Dequeue], ?q]" by (simp add: aba_threads_def)
  with aba_first [of ?q] n m
  have "exec (replicate (Suc (Suc (Suc eight))) 0 @ replicate n 1 @ replicate m 0) (aba_start, aba_threads) = (v, [Ret [10], Ret [10, 20, 30]])"
    by (simp only: exec_append)
  with v(2,3) show ?thesis by blast
qed

end
