(* ===== verification/CountedQueue.thy ===== *)
theory CountedQueue
  imports HazardQueue RecordList
begin

text \<open>
  The queue of the files whose threads protect a node by counting its address in the map of
  reference counts: \<open>psly_record\<close> before a node is used, \<open>psly_remove\<close> after, and \<open>isIn\<close> asks
  \<open>psly_search\<close>. The five files differ in the pool and the lists behind the map and in how many
  sanity checks \<open>enqueue\<close> makes; the queue is therefore written once over the operations of
  the map, and what it needs of them is the interface \<open>key_counter\<close>. The files are the
  instances in \<^verbatim>\<open>MapQueues\<close>.
\<close>

section \<open>State\<close>

text \<open>The queue beside a map.\<close>

record 'm mapq = hpq +
  qmap :: 'm

text \<open>An operation of the map, one atomic action after the other, in the memory of the whole program.\<close>

primrec on_map :: "('m, 'a) prog \<Rightarrow> ('m mapq, 'a) prog" where
  "on_map (Ret a) = Ret a"
| "on_map (Act f) = Act (\<lambda>s. let r = map_prod id on_map (f (qmap s)) in (s\<lparr>qmap := fst r\<rparr>, snd r))"
| "on_map Spin = Spin"
| "on_map (Exit n) = Exit n"
| "on_map Crash = Crash"

lemma run_on_map [simp]:
  "run (on_map p) s = (case run p (qmap s) of Done a m \<Rightarrow> Done a (s\<lparr>qmap := m\<rparr>) | Looping m \<Rightarrow> Looping (s\<lparr>qmap := m\<rparr>)
     | Exited n m \<Rightarrow> Exited n (s\<lparr>qmap := m\<rparr>) | Crashed m \<Rightarrow> Crashed (s\<lparr>qmap := m\<rparr>))"
proof (induction p arbitrary: s)
  case (Act f)
  show ?case
    using Act [of "f (qmap s)" "snd (f (qmap s))" "s\<lparr>qmap := fst (f (qmap s))\<rparr>"]
    by (cases "f (qmap s)") (auto simp: snds.simps rangeI dest: sym intro: range_eqI split: outcome.split)
qed auto

section \<open>The operations\<close>

text \<open>How much a file checks: nothing but the result of \<open>posix_memalign\<close> by its effect (\<open>Plain\<close>), its
  error code and alignment (\<open>Checked\<close>), or the alignment of every pointer as well (\<open>Strict\<close>); a
  file that calls \<open>malloc\<close> only checks that \<open>Tail\<close> is even (\<open>Tagged\<close>).\<close>

datatype checks = Plain | Tagged | Checked | Strict

definition must_align :: "checks \<Rightarrow> addr \<Rightarrow> ('s, 'a) prog \<Rightarrow> ('s, 'a) prog" where
  "must_align k a p = (if k = Strict \<and> a AND 63 \<noteq> 0 then Exit 1 else p)"

definition must_untag :: "checks \<Rightarrow> addr \<Rightarrow> ('s, 'a) prog \<Rightarrow> ('s, 'a) prog" where
  "must_untag k a p = (if k = Tagged \<and> a AND 1 = 1 then Exit 1 else p)"

definition must_differ :: "checks \<Rightarrow> addr \<Rightarrow> addr \<Rightarrow> ('s, 'a) prog \<Rightarrow> ('s, 'a) prog" where
  "must_differ k a b p = (if k = Strict \<and> a = b then Exit 1 else p)"

definition mq_isIn :: "(flag \<Rightarrow> addr \<Rightarrow> ('m, int) prog) \<Rightarrow> addr \<Rightarrow> ('m mapq, bool) prog" where
  "mq_isIn opn node = bind (on_map (opn SEARCH node)) (\<lambda>n. Ret (n \<noteq> 0))"

text \<open>Without the check of its error code a failed \<open>posix_memalign\<close> leaves the pointer uninitialised.\<close>

definition mq_new_node :: "checks \<Rightarrow> queue_cfg \<Rightarrow> 32 word \<Rightarrow> (addr \<Rightarrow> ('m mapq, 'a) prog) \<Rightarrow> ('m mapq, 'a) prog" where
  "mq_new_node k c value p =
    fetch (\<lambda>s. q_malloc c (node_at s))
      (\<lambda>s. if q_malloc c (node_at s) = 0 then s else s\<lparr>node_at := (node_at s)(q_malloc c (node_at s) \<mapsto> \<lparr>n_value = 0, n_next = 0\<rparr>)\<rparr>) (\<lambda>node.
    if node = 0 then (if k = Plain \<or> k = Tagged then Crash else Exit 1) else
    if (k = Checked \<or> k = Strict) \<and> node AND 63 \<noteq> 0 then Exit 1 else
    let rest =
      stp (set_node node (\<lambda>_. \<lparr>n_value = 0, n_next = 0\<rparr>)) (
      stp (set_node node (\<lambda>n. n\<lparr>n_value := value\<rparr>)) (
      stp (set_node node (\<lambda>n. n\<lparr>n_next := 0\<rparr>)) (p node)))
    in if k = Strict then ld Tail (\<lambda>local. must_differ k local node rest) else rest)"

fun mq_enqueue_loop :: "(flag \<Rightarrow> addr \<Rightarrow> ('m, int) prog) \<Rightarrow> checks \<Rightarrow> nat \<Rightarrow> addr \<Rightarrow> ('m mapq, addr) prog" where
  "mq_enqueue_loop opn k 0 node = Spin"
| "mq_enqueue_loop opn k (Suc fuel) node =
    ld Tail (\<lambda>t. must_align k t (must_differ k t node (must_untag k t (
    bind (on_map (opn RECORD t)) (\<lambda>_.
    ld Tail (\<lambda>t'.
    if t' \<noteq> t then bind (on_map (opn REMOVE t)) (\<lambda>_. mq_enqueue_loop opn k fuel node) else
    ld_next t (\<lambda>next. must_align k next (
    ld Tail (\<lambda>t'.
    if t' \<noteq> t then bind (on_map (opn REMOVE t)) (\<lambda>_. mq_enqueue_loop opn k fuel node) else
    if next \<noteq> 0 then
      bind (on_map (opn REMOVE t)) (\<lambda>_.
      cas (\<lambda>s. Tail s = t) (\<lambda>s. s\<lparr>Tail := next\<rparr>) (\<lambda>ok.
      if ok then must_align k next (mq_enqueue_loop opn k fuel node) else mq_enqueue_loop opn k fuel node)) else
    casp (\<lambda>s. map_option n_next (node_at s t)) 0 (\<lambda>s. the (set_node t (\<lambda>n. n\<lparr>n_next := node\<rparr>) s)) (\<lambda>ok.
    if ok then
      must_align k node (
      bind (on_map (opn REMOVE t)) (\<lambda>_.
      if t = node then Exit 1 else Ret t))
    else bind (on_map (opn REMOVE t)) (\<lambda>_. mq_enqueue_loop opn k fuel node)))))))))))"

definition mq_enqueue :: "(flag \<Rightarrow> addr \<Rightarrow> ('m, int) prog) \<Rightarrow> checks \<Rightarrow> queue_cfg \<Rightarrow> nat \<Rightarrow> 32 word \<Rightarrow> ('m mapq, unit) prog" where
  "mq_enqueue opn k c fuel value =
    mq_new_node k c value (\<lambda>node.
    bind (mq_enqueue_loop opn k fuel node) (\<lambda>t.
    cas (\<lambda>s. Tail s = t) (\<lambda>s. s\<lparr>Tail := node\<rparr>) (\<lambda>ok.
    if ok then must_align k node (Ret ()) else Ret ())))"

fun mq_dequeue_loop :: "(flag \<Rightarrow> addr \<Rightarrow> ('m, int) prog) \<Rightarrow> checks \<Rightarrow> nat \<Rightarrow> ('m mapq, (32 word \<times> addr) option) prog" where
  "mq_dequeue_loop opn k 0 = Spin"
| "mq_dequeue_loop opn k (Suc fuel) =
    ld Head (\<lambda>h.
    bind (on_map (opn RECORD h)) (\<lambda>_.
    ld Head (\<lambda>h'.
    if h' \<noteq> h then bind (on_map (opn REMOVE h)) (\<lambda>_. mq_dequeue_loop opn k fuel) else
    ld Tail (\<lambda>t.
    ld_next h (\<lambda>next.
    bind (on_map (opn RECORD next)) (\<lambda>_.
    ld Head (\<lambda>h'.
    let release = (\<lambda>p. bind (on_map (opn REMOVE h)) (\<lambda>_. bind (on_map (opn REMOVE next)) (\<lambda>_. p))) in
    if h' \<noteq> h then release (mq_dequeue_loop opn k fuel) else
    if next = 0 then release (Ret None) else
    must_align k next (
    if h = t then release (cas (\<lambda>s. Tail s = t) (\<lambda>s. s\<lparr>Tail := next\<rparr>) (\<lambda>_. mq_dequeue_loop opn k fuel)) else
    ldp (\<lambda>s. map_option n_value (node_at s next)) (\<lambda>data.
    cas (\<lambda>s. Head s = h) (\<lambda>s. s\<lparr>Head := next\<rparr>) (\<lambda>ok.
    release (if ok then Ret (Some (data, h)) else mq_dequeue_loop opn k fuel)))))))))))"

definition mq_retire :: "(flag \<Rightarrow> addr \<Rightarrow> ('m, int) prog) \<Rightarrow> queue_cfg \<Rightarrow> nat \<Rightarrow> nat \<Rightarrow> (32 word \<times> addr) option \<Rightarrow> ('m mapq, 32 word) prog" where
  "mq_retire opn c fuel tid res = (case res of None \<Rightarrow> Ret EMPTY
     | Some (data, h) \<Rightarrow>
       if flagRet c then bind (retireNode (mq_isIn opn) c fuel tid h) (\<lambda>_. Ret data) else Ret data)"

definition mq_dequeue :: "(flag \<Rightarrow> addr \<Rightarrow> ('m, int) prog) \<Rightarrow> checks \<Rightarrow> queue_cfg \<Rightarrow> nat \<Rightarrow> nat \<Rightarrow> ('m mapq, 32 word) prog" where
  "mq_dequeue opn k c fuel tid =
    bind (mq_dequeue_loop opn k fuel) (mq_retire opn c fuel tid)"

text \<open>A thread queues the same number again and again, takes until the queue is empty, counts what it
  took and how many of it were not that number, and sweeps its list once more.\<close>

definition mq_thread_routine :: "(flag \<Rightarrow> addr \<Rightarrow> ('m, int) prog) \<Rightarrow> checks \<Rightarrow> queue_cfg \<Rightarrow> nat \<Rightarrow> nat \<Rightarrow> nat \<Rightarrow> ('m mapq, 32 word list \<times> nat) prog" where
  "mq_thread_routine opn k c fuel tid argv =
    bind (allocateHPRec fuel c tid) (\<lambda>_.
    bind (enqueue_all (mq_enqueue opn k c fuel) (replicate argv 3781)) (\<lambda>_.
    bind (dequeue_all fuel (mq_dequeue opn k c fuel tid) []) (\<lambda>taken.
    bind (with_rec tid (\<lambda>r. scan (mq_isIn opn) fuel r)) (\<lambda>_.
    Ret (taken, length (filter (\<lambda>result. result \<noteq> 3781) taken))))))"

section \<open>The interface to the map\<close>

text \<open>\<open>minv b g m\<close>: the map holds the counts \<open>g\<close>, and its pool has room for \<open>b\<close> more calls of
  \<open>psly_record\<close>. Counts below \<open>top\<close> can be counted up, and only what is counted is ever removed.\<close>

locale key_counter =
  fixes opn :: "flag \<Rightarrow> addr \<Rightarrow> ('m, int) prog" and minv :: "nat \<Rightarrow> (addr \<Rightarrow> nat) \<Rightarrow> 'm \<Rightarrow> bool" and top :: nat
  assumes op_run: "minv (need f b) g m \<Longrightarrow> (f = RECORD \<Longrightarrow> g p < top) \<Longrightarrow> (f = REMOVE \<Longrightarrow> 0 < g p) \<Longrightarrow>
      \<exists>m'. run (opn f p) m = Done (int (op_count f (g p))) m' \<and> minv b (g(p := op_count f (g p))) m'"
    and minv_less: "minv (Suc b) g m \<Longrightarrow> minv b g m"
begin

lemma minv_le: "minv b g m \<Longrightarrow> b' \<le> b \<Longrightarrow> minv b' g m"
proof (induction b)
  case (Suc b)
  then show ?case using minv_less by (cases "b' = Suc b") auto
qed simp

lemma record_run:
  assumes "minv (Suc b) g (qmap s)" and "g p < top"
  shows "\<exists>m. run (on_map (opn RECORD p)) s = Done (int (Suc (g p))) (s\<lparr>qmap := m\<rparr>) \<and> minv b (g(p := Suc (g p))) m"
  using op_run [of RECORD b g "qmap s" p] assms by (auto simp: op_count_def)

lemma remove_run:
  assumes "minv b (g(p := Suc n)) (qmap s)"
  shows "\<exists>m. run (on_map (opn REMOVE p)) s = Done (int n) (s\<lparr>qmap := m\<rparr>) \<and> minv b (g(p := n)) m"
  using op_run [of REMOVE b "g(p := Suc n)" "qmap s" p] assms by (auto simp: op_count_def)

text \<open>Counting a node down after it was counted up gives the counts back.\<close>

lemma remove_again:
  assumes "minv b (g(p := Suc (g p))) (qmap s)"
  shows "\<exists>m. run (on_map (opn REMOVE p)) s = Done (int (g p)) (s\<lparr>qmap := m\<rparr>) \<and> minv b g m"
  using remove_run [OF assms] by simp

lemma cq_isIn_run:
  assumes "minv b g (qmap s)"
  shows "\<exists>m. run (mq_isIn opn a) s = Done (0 < g a) (s\<lparr>qmap := m\<rparr>) \<and> minv b g m"
  using op_run [of SEARCH b g "qmap s" a] assms by (auto simp: op_count_def mq_isIn_def)

definition protects :: "nat \<Rightarrow> (addr \<Rightarrow> nat) \<Rightarrow> (addr \<Rightarrow> bool) \<Rightarrow> 'm mapq \<Rightarrow> bool" where
  "protects b g P s \<longleftrightarrow> minv b g (qmap s) \<and> P = (\<lambda>a. 0 < g a)"

sublocale guards: hazard_guards "mq_isIn opn" "protects b g" for b g
proof (unfold_locales, goal_cases)
  case (1 P s a)
  then obtain m where "run (mq_isIn opn a) s = Done (0 < g a) (s\<lparr>qmap := m\<rparr>)" "minv b g m"
    using cq_isIn_run [of b g s a] by (auto simp: protects_def)
  with 1 show ?case
    by (intro exI [of _ "s\<lparr>qmap := m\<rparr>"]) (auto simp: protects_def same_queue_def hpq.truncate_def)
qed (simp_all add: protects_def)

end

lemma rec_at_qmap [simp]: "rec_at r (s\<lparr>qmap := m\<rparr>) = rec_at r s"
  by (simp add: rec_at_def)

text \<open>The map and the queue are written independently: the map is brought to the end.\<close>

lemma qmap_last [simp]:
  "s\<lparr>qmap := m, node_at := x\<rparr> = s\<lparr>node_at := x, qmap := m\<rparr>" "s\<lparr>qmap := m, Tail := a\<rparr> = s\<lparr>Tail := a, qmap := m\<rparr>"
  "s\<lparr>qmap := m, Head := a\<rparr> = s\<lparr>Head := a, qmap := m\<rparr>"
  by (cases s; simp)+

lemma set_node_the: "node_at s t = Some n \<Longrightarrow> the (set_node t f s) = s\<lparr>node_at := (node_at s)(t \<mapsto> f n)\<rparr>"
  by (simp add: set_node_def)

text \<open>What the allocator promises: \<open>malloc\<close> a multiple of 16, \<open>posix_memalign\<close> of the 64 it is asked for.
  Only the strict checks and the one for an even \<open>Tail\<close> need it of every node.\<close>

definition fits :: "checks \<Rightarrow> addr \<Rightarrow> bool" where
  "fits k a \<longleftrightarrow> a AND (if k = Tagged then 15 else 63) = 0"

definition aligned :: "checks \<Rightarrow> addr set \<Rightarrow> bool" where
  "aligned k A \<longleftrightarrow> k = Strict \<or> k = Tagged \<longrightarrow> (\<forall>a \<in> A. fits k a)"

lemma fits_0 [simp]: "fits k 0"
  by (simp add: fits_def)

lemma fits_even: "fits k a \<Longrightarrow> a AND 1 \<noteq> 1"
proof -
  have "(1 :: 64 word) = mask 1" "(15 :: 64 word) = mask 4" "(63 :: 64 word) = mask 6" by (simp_all add: mask_eq_exp_minus_1)
  moreover assume "fits k a"
  ultimately have "\<not> bit (a AND mask (if k = Tagged then 4 else 6)) 0" by (auto simp: fits_def split: if_splits)
  then have "\<not> bit (a AND 1) 0" by (simp add: bit_simps split: if_splits)
  then show ?thesis by auto
qed

lemma must_pass [simp]: "(k = Strict \<Longrightarrow> fits k a) \<Longrightarrow> must_align k a p = p" "a \<noteq> b \<Longrightarrow> must_differ k a b p = p"
  "(k = Tagged \<Longrightarrow> fits k a) \<Longrightarrow> must_untag k a p = p"
  using fits_even [of k a] by (auto simp: must_align_def must_differ_def must_untag_def) (simp_all add: fits_def)

lemma must_pass_fits [simp]: "fits k a \<Longrightarrow> must_align k a p = p" "fits k a \<Longrightarrow> must_untag k a p = p"
  by (rule must_pass, assumption)+

section \<open>Putting into the queue, alone\<close>

lemma new_node_run:
  assumes "q_malloc c (node_at s) \<noteq> 0" and "fits k (q_malloc c (node_at s))" and "Tail s \<noteq> q_malloc c (node_at s)"
  shows "run (mq_new_node k c v p) s = run (p (q_malloc c (node_at s))) (s\<lparr>node_at := (node_at s)(q_malloc c (node_at s) \<mapsto> \<lparr>n_value = v, n_next = 0\<rparr>)\<rparr>)"
  using assms by (auto simp: mq_new_node_def set_node_at Let_def fits_def)

context key_counter
begin

lemma cq_enqueue_loop_run:
  assumes "queue_ok (node_at s) (Head s) (Tail s) ns" and "ns = xs @ (Tail s, v) # ys" and "length ys < fuel"
    and "minv (b + Suc (length ys)) g (qmap s)" and "\<forall>p. g p < top" and "aligned k (insert a (fst ` set ns))" and "a \<notin> fst ` set ns"
  shows "\<exists>m n. run (mq_enqueue_loop opn k fuel a) s =
      Done (fst (last ns)) (s\<lparr>node_at := (node_at s)(fst (last ns) \<mapsto> n\<lparr>n_next := a\<rparr>), Tail := fst (last ns), qmap := m\<rparr>) \<and>
    node_at s (fst (last ns)) = Some n \<and> n_next n = 0 \<and> minv b g m"
  using assms
proof (induction fuel arbitrary: s xs v ys)
  case (Suc fuel)
  from queue_place [of "node_at s" "Head s" "Tail s" xs v ys] Suc.prems(1,2) obtain n where
    n: "node_at s (Tail s) = Some n" "nseg (node_at s) (n_next n) ys 0" by auto
  have al: "k = Strict \<Longrightarrow> fits k (Tail s)" "k = Tagged \<Longrightarrow> fits k (Tail s)" "k = Strict \<Longrightarrow> fits k a" "Tail s \<noteq> a" using Suc.prems(2,6,7) by (auto simp: aligned_def)
  have "minv (Suc (b + length ys)) g (qmap s)" "g (Tail s) < top" using Suc.prems(4,5) by simp_all
  from record_run [OF this] obtain m where
    m: "run (on_map (opn RECORD (Tail s))) s = Done (int (Suc (g (Tail s)))) (s\<lparr>qmap := m\<rparr>)" "minv (b + length ys) (g(Tail s := Suc (g (Tail s)))) m"
    by blast
  show ?case
  proof (cases ys)
    case Nil
    with n have z: "n_next n = 0" by simp
    have l: "fst (last ns) = Tail s" using Nil Suc.prems(2) by simp
    let ?s = "s\<lparr>node_at := (node_at s)(Tail s \<mapsto> n\<lparr>n_next := a\<rparr>), qmap := m\<rparr>"
    have "minv b (g(Tail s := Suc (g (Tail s)))) (qmap ?s)" using m(2) Nil by simp
    from remove_again [OF this] obtain m' where
      "run (on_map (opn REMOVE (Tail s))) ?s = Done (int (g (Tail s))) (?s\<lparr>qmap := m'\<rparr>)" "minv b g m'" by blast
    with m(1) n(1) z al l show ?thesis
      by (intro exI [of _ m'] exI [of _ n]) (simp add: set_node_the fun_upd_def del: run_on_map)
  next
    case (Cons y zs)
    obtain q w where y: "y = (q, w)" by (cases y)
    with n Cons have q: "n_next n = q" "q \<noteq> 0" by auto
    have qal: "k = Strict \<Longrightarrow> fits k q" using Suc.prems(2,6) Cons y by (auto simp: aligned_def)
    let ?s = "s\<lparr>qmap := m\<rparr>"
    have "minv (b + length ys) (g(Tail s := Suc (g (Tail s)))) (qmap ?s)" using m(2) by simp
    from remove_again [OF this] obtain m' where
      m': "run (on_map (opn REMOVE (Tail s))) ?s = Done (int (g (Tail s))) (?s\<lparr>qmap := m'\<rparr>)" "minv (b + length ys) g m'" by blast
    let ?t = "s\<lparr>qmap := m', Tail := q\<rparr>"
    have "run (mq_enqueue_loop opn k (Suc fuel) a) s = run (mq_enqueue_loop opn k fuel a) ?t"
      using m(1) m'(1) n(1) q al qal by (simp del: run_on_map)
    moreover have "queue_ok (node_at ?t) (Head ?t) (Tail ?t) ns" using queue_advance [OF Suc.prems(1) n(1)] q by simp
    moreover have "ns = (xs @ [(Tail s, v)]) @ (Tail ?t, w) # zs" "length zs < fuel" using Suc.prems(2,3) Cons y by simp_all
    moreover have "minv (b + Suc (length zs)) g (qmap ?t)" using m'(2) Cons by simp
    ultimately show ?thesis using Suc.IH [of ?t "xs @ [(Tail s, v)]" w zs] Suc.prems(5-7) by auto
  qed
qed simp

text \<open>The queue between two operations of a thread. \<open>lag\<close> is how many nodes are behind \<open>Tail\<close>.\<close>

definition cq_state :: "checks \<Rightarrow> queue_cfg \<Rightarrow> nat \<Rightarrow> (addr \<Rightarrow> nat) \<Rightarrow> nat \<Rightarrow> (addr \<times> 32 word) list \<Rightarrow> addr set \<Rightarrow> 'm mapq \<Rightarrow> bool" where
  "cq_state k c tid g b ns R s \<longleftrightarrow> hp_queue c tid ns R s \<and> aligned k (fst ` set ns) \<and>
     (\<exists>xs v ys. ns = xs @ (Tail s, v) # ys \<and> minv (b + length ys) g (qmap s))"

text \<open>A new node \<open>a\<close> linked behind the last one.\<close>

definition linked_in :: "addr \<Rightarrow> 32 word \<Rightarrow> (addr \<times> 32 word) list \<Rightarrow> node \<Rightarrow> node_heap \<Rightarrow> node_heap" where
  "linked_in a v ns n m = m(a \<mapsto> \<lparr>n_value = v, n_next = 0\<rparr>, fst (last ns) \<mapsto> n\<lparr>n_next := a\<rparr>)"

lemma cq_link:
  assumes q: "cq_state k c tid g (Suc b) ns R s" and m: "malloc_ok (q_malloc c)" "q_malloc c (node_at s) = a" "a \<noteq> 0" "fits k a"
    and n: "((node_at s)(a \<mapsto> \<lparr>n_value = v, n_next = 0\<rparr>)) (fst (last ns)) = Some n" "n_next n = 0" "minv b g M"
  shows "cq_state k c tid g b (ns @ [(a, v)]) R (s\<lparr>node_at := linked_in a v ns n (node_at s), Tail := a, qmap := M\<rparr>)"
    and "dom (linked_in a v ns n (node_at s)) = insert a (dom (node_at s))"
proof -
  from q obtain r h where r: "myhprec s tid = Some r" "rec_at r s = Some h" "hp_HP h + HPK \<le> HPnum s"
    "list_inv c (node_at s) h" "retired (hp_list h) = R" and k: "HPnum s \<le> HPK * MAXTHREADS" "R \<inter> fst ` set ns = {}"
    and qo: "queue_ok (node_at s) (Head s) (Tail s) ns" and al: "aligned k (fst ` set ns)" by (auto simp: hp_queue_def cq_state_def)
  have fresh: "node_at s a = None" using m by (auto simp: malloc_ok_def)
  have a: "a \<notin> fst ` set ns" using queue_alloc [OF qo] fresh by blast
  have aR: "a \<notin> R" using r(4,5) fresh by (auto simp: list_inv_def)
  let ?m = "linked_in a v ns n (node_at s)" and ?z = "fst (last ns)" and ?heap = "(node_at s)(a \<mapsto> \<lparr>n_value = v, n_next = 0\<rparr>)"
  let ?t = "s\<lparr>node_at := ?m, Tail := a, qmap := M\<rparr>"
  have "ns \<noteq> []" using qo by (simp add: queue_ok_def)
  then have z: "?z \<in> fst ` set ns" by (intro imageI last_in_set)
  have "queue_ok ?heap (Head s) ?z ns" using queue_frame [OF qo a] z by (simp add: queue_ok_def)
  from queue_link [OF this n(1,2) fun_upd_same m(3) a] have "queue_ok ?m (Head s) ?z (ns @ [(a, v)])" by (simp only: linked_in_def)
  then have "queue_ok ?m (Head s) a (ns @ [(a, v)])" by (simp add: queue_ok_def)
  moreover have "list_inv c ?m h" by (rule list_inv_heap [OF r(4)]) (auto simp: linked_in_def)
  moreover have "rec_at r ?t = Some h" using r(2) by simp
  moreover have "aligned k (fst ` set (ns @ [(a, v)]))" using al m(4) by (simp add: aligned_def)
  moreover have "\<exists>xs w ys. ns @ [(a, v)] = xs @ (Tail ?t, w) # ys \<and> minv (b + length ys) g (qmap ?t)"
    using n(3) by (intro exI [of _ ns] exI [of _ v] exI [of _ "[]"]) simp
  ultimately show "cq_state k c tid g b (ns @ [(a, v)]) R ?t" using r k aR unfolding cq_state_def hp_queue_def by auto
  have "?z \<in> dom ?heap" using n(1) by blast
  then show "dom ?m = insert a (dom (node_at s))" by (auto simp: linked_in_def)
qed

text \<open>What an enqueuing thread starts its loop with.\<close>

lemma cq_fresh:
  assumes "cq_state k c tid g b ns R s" and "malloc_ok (q_malloc c)" and "q_malloc c (node_at s) = a" and "a \<noteq> 0" and "fits k a"
  shows "queue_ok ((node_at s)(a \<mapsto> x)) (Head s) (Tail s) ns" and "a \<notin> fst ` set ns" and "aligned k (insert a (fst ` set ns))" and "Tail s \<noteq> a"
proof -
  have qo: "queue_ok (node_at s) (Head s) (Tail s) ns" and al: "aligned k (fst ` set ns)" using assms(1) by (simp_all add: cq_state_def hp_queue_def)
  have "node_at s a = None" using assms(2-4) by (auto simp: malloc_ok_def)
  then show a: "a \<notin> fst ` set ns" using queue_alloc [OF qo] by blast
  then show "Tail s \<noteq> a" using qo by (auto simp: queue_ok_def)
  show "queue_ok ((node_at s)(a \<mapsto> x)) (Head s) (Tail s) ns" by (rule queue_frame [OF qo a])
  show "aligned k (insert a (fst ` set ns))" using al assms(5) by (simp add: aligned_def)
qed

lemma cq_enqueue_run:
  assumes q: "cq_state k c tid g (Suc b) ns R s" and m: "malloc_ok (q_malloc c)" "q_malloc c (node_at s) \<noteq> 0" "fits k (q_malloc c (node_at s))"
    and f: "length ns \<le> fuel" and top: "\<forall>p. g p < top"
  shows "\<exists>t. run (mq_enqueue opn k c fuel v) s = Done () t \<and> cq_state k c tid g b (ns @ [(q_malloc c (node_at s), v)]) R t \<and>
    dom (node_at t) = insert (q_malloc c (node_at s)) (dom (node_at s))"
proof -
  let ?a = "q_malloc c (node_at s)" and ?z = "fst (last ns)"
  let ?s = "s\<lparr>node_at := (node_at s)(?a \<mapsto> \<lparr>n_value = v, n_next = 0\<rparr>)\<rparr>"
  note fr = cq_fresh [OF q m(1) refl m(2,3)]
  from q obtain xs w ys where ns: "ns = xs @ (Tail s, w) # ys" "minv (Suc b + length ys) g (qmap s)" by (auto simp: cq_state_def)
  from cq_enqueue_loop_run [of ?s ns xs w ys fuel b g k ?a] fr ns f top obtain M n where
    e: "run (mq_enqueue_loop opn k fuel ?a) ?s = Done ?z (?s\<lparr>node_at := (node_at ?s)(?z \<mapsto> n\<lparr>n_next := ?a\<rparr>), Tail := ?z, qmap := M\<rparr>)"
      "node_at ?s ?z = Some n" "n_next n = 0" "minv b g M" by auto
  let ?t = "s\<lparr>node_at := linked_in ?a v ns n (node_at s), Tail := ?a, qmap := M\<rparr>"
  have "run (mq_enqueue opn k c fuel v) s = Done () ?t"
    using e(1) m(2,3) fr(4) by (simp add: mq_enqueue_def new_node_run linked_in_def)
  moreover have "((node_at s)(?a \<mapsto> \<lparr>n_value = v, n_next = 0\<rparr>)) ?z = Some n" using e(2) by simp
  note cq_link [OF q m(1) refl m(2,3) this e(3,4)]
  ultimately show ?thesis by (intro exI [of _ ?t]) simp
qed

end

section \<open>Taking from the queue, alone\<close>

context key_counter
begin

lemma record_two:
  assumes "minv (Suc (Suc b)) g (qmap s)" and "p \<noteq> q" and "\<forall>p. g p < top"
  shows "\<exists>m1 m. run (on_map (opn RECORD p)) s = Done (int (Suc (g p))) (s\<lparr>qmap := m1\<rparr>) \<and>
    run (on_map (opn RECORD q)) (s\<lparr>qmap := m1\<rparr>) = Done (int (Suc (g q))) (s\<lparr>qmap := m\<rparr>) \<and>
    minv b (g(p := Suc (g p), q := Suc (g q))) m"
proof -
  let ?g = "g(p := Suc (g p))"
  from record_run [OF assms(1)] assms(3) obtain m1 where
    m1: "run (on_map (opn RECORD p)) s = Done (int (Suc (g p))) (s\<lparr>qmap := m1\<rparr>)" "minv (Suc b) ?g m1" by blast
  have "minv (Suc b) ?g (qmap (s\<lparr>qmap := m1\<rparr>))" "?g q < top" using m1(2) assms(2,3) by simp_all
  moreover have "?g q = g q" using assms(2) by simp
  ultimately obtain m where "run (on_map (opn RECORD q)) (s\<lparr>qmap := m1\<rparr>) = Done (int (Suc (g q))) (s\<lparr>qmap := m\<rparr>)"
    "minv b (?g(q := Suc (g q))) m" using record_run [of b ?g "s\<lparr>qmap := m1\<rparr>" q] by auto
  with m1(1) show ?thesis by blast
qed

lemma remove_two:
  assumes "minv b (g(p := Suc (g p), q := Suc (g q))) (qmap s)" and "p \<noteq> q"
  shows "\<exists>m1 m. run (on_map (opn REMOVE p)) s = Done (int (g p)) (s\<lparr>qmap := m1\<rparr>) \<and>
    run (on_map (opn REMOVE q)) (s\<lparr>qmap := m1\<rparr>) = Done (int (g q)) (s\<lparr>qmap := m\<rparr>) \<and> minv b g m"
proof -
  have c: "g(p := Suc (g p), q := Suc (g q)) = (g(q := Suc (g q)))(p := Suc (g p))"
    "(g(q := Suc (g q)))(p := g p) = g(q := Suc (g q))" using assms(2) by (auto simp: fun_eq_iff)
  have "minv b ((g(q := Suc (g q)))(p := Suc (g p))) (qmap s)" using assms(1) by (simp only: c(1))
  from remove_run [OF this] obtain m1 where
    m1: "run (on_map (opn REMOVE p)) s = Done (int (g p)) (s\<lparr>qmap := m1\<rparr>)" "minv b (g(q := Suc (g q))) m1" unfolding c(2) by blast
  have "minv b (g(q := Suc (g q))) (qmap (s\<lparr>qmap := m1\<rparr>))" using m1(2) by simp
  from remove_again [OF this] m1(1) show ?thesis by (auto simp del: run_on_map)
qed

lemma cq_dequeue_loop_empty:
  assumes "queue_ok (node_at s) (Head s) (Tail s) ns" and "queue_values ns = []" and "minv (b + 2) g (qmap s)" and "\<forall>p. g p < top"
  shows "\<exists>m. run (mq_dequeue_loop opn k (Suc fuel)) s = Done None (s\<lparr>qmap := m\<rparr>) \<and> minv b g m"
proof -
  from queue_head [OF assms(1)] obtain n where n: "node_at s (Head s) = Some n" "Head s \<noteq> 0" by blast
  with queue_empty [OF assms(1)] assms(2) have z: "n_next n = 0" by blast
  have "minv (Suc (Suc b)) g (qmap s)" using assms(3) by simp
  from record_two [OF this n(2) assms(4)] obtain m1 m where
    m: "run (on_map (opn RECORD (Head s))) s = Done (int (Suc (g (Head s)))) (s\<lparr>qmap := m1\<rparr>)"
      "run (on_map (opn RECORD 0)) (s\<lparr>qmap := m1\<rparr>) = Done (int (Suc (g 0))) (s\<lparr>qmap := m\<rparr>)"
      "minv b (g(Head s := Suc (g (Head s)), 0 := Suc (g 0))) m" by blast
  have "minv b (g(Head s := Suc (g (Head s)), 0 := Suc (g 0))) (qmap (s\<lparr>qmap := m\<rparr>))" using m(3) by simp
  from remove_two [OF this n(2)] m(1,2) n(1) z show ?thesis by (auto simp: Let_def simp del: run_on_map)
qed

lemma cq_dequeue_loop_take:
  assumes "queue_ok (node_at s) (Head s) (Tail s) ns" and "queue_values ns = v # vs" and "Tail s \<noteq> Head s"
    and "minv (b + 2) g (qmap s)" and "\<forall>p. g p < top" and "aligned k (fst ` set ns)"
  shows "\<exists>m h. run (mq_dequeue_loop opn k (Suc fuel)) s = Done (Some (v, Head s)) (s\<lparr>Head := h, qmap := m\<rparr>) \<and>
    minv b g m \<and> queue_ok (node_at s) h (Tail s) (List.tl ns)"
proof -
  from queue_head [OF assms(1)] obtain n where n: "node_at s (Head s) = Some n" by blast
  with queue_empty [OF assms(1)] assms(2) have nz: "n_next n \<noteq> 0" by auto
  from queue_pop [OF assms(1) n nz assms(3)] obtain w q ms where
    q: "ns = (Head s, w) # ms" "ms = (n_next n, v) # List.tl ms" "queue_ok (node_at s) (n_next n) (Tail s) ms"
      "node_at s (n_next n) = Some q" "n_value q = v" unfolding assms(2) by auto
  have "(n_next n, v) \<in> set ns" using q(1,2) by (metis list.set_intros)
  then have al: "k = Strict \<Longrightarrow> fits k (n_next n)" using assms(6) by (force simp: aligned_def)
  have "distinct (map fst ns)" using assms(1) by (simp add: queue_ok_def)
  then have ne: "Head s \<noteq> n_next n" using q(1,2) by (metis distinct.simps(2) fst_conv list.set_intros(1) list.simps(9))
  have "minv (Suc (Suc b)) g (qmap s)" using assms(4) by simp
  from record_two [OF this ne assms(5)] obtain m1 m where
    m: "run (on_map (opn RECORD (Head s))) s = Done (int (Suc (g (Head s)))) (s\<lparr>qmap := m1\<rparr>)"
      "run (on_map (opn RECORD (n_next n))) (s\<lparr>qmap := m1\<rparr>) = Done (int (Suc (g (n_next n)))) (s\<lparr>qmap := m\<rparr>)"
      "minv b (g(Head s := Suc (g (Head s)), n_next n := Suc (g (n_next n)))) m" by blast
  have "minv b (g(Head s := Suc (g (Head s)), n_next n := Suc (g (n_next n)))) (qmap (s\<lparr>Head := n_next n, qmap := m\<rparr>))" using m(3) by simp
  from remove_two [OF this ne] obtain m3 m4 where
    r: "run (on_map (opn REMOVE (Head s))) (s\<lparr>Head := n_next n, qmap := m\<rparr>) = Done (int (g (Head s))) (s\<lparr>Head := n_next n, qmap := m3\<rparr>)"
      "run (on_map (opn REMOVE (n_next n))) (s\<lparr>Head := n_next n, qmap := m3\<rparr>) = Done (int (g (n_next n))) (s\<lparr>Head := n_next n, qmap := m4\<rparr>)"
      "minv b g m4" by auto
  have "run (mq_dequeue_loop opn k (Suc fuel)) s = Done (Some (v, Head s)) (s\<lparr>Head := n_next n, qmap := m4\<rparr>)"
    using m(1,2) r(1,2) n nz al q(4,5) assms(3) by (simp add: Let_def del: run_on_map)
  with r(3) q(1,3) show ?thesis by auto
qed

lemma cq_dequeue_loop_run:
  assumes "queue_ok (node_at s) (Head s) (Tail s) ns" and "queue_values ns = v # vs" and "aligned k (fst ` set ns)"
    and "ns = xs @ (Tail s, w) # ys" and "minv (b + 4 + length ys) g (qmap s)" and "\<forall>p. g p < top"
  shows "\<exists>m h t xs' w' ys'. run (mq_dequeue_loop opn k (Suc (Suc fuel))) s = Done (Some (v, Head s)) (s\<lparr>Head := h, Tail := t, qmap := m\<rparr>) \<and>
    queue_ok (node_at s) h t (List.tl ns) \<and> List.tl ns = xs' @ (t, w') # ys' \<and> minv (b + length ys') g m"
proof (cases "Tail s = Head s")
  case False
  have "minv ((b + length ys + 2) + 2) g (qmap s)" by (rule minv_le [OF assms(5)]) simp
  from cq_dequeue_loop_take [OF assms(1,2) False this assms(6,3), of "Suc fuel"] obtain m h where
    m: "run (mq_dequeue_loop opn k (Suc (Suc fuel))) s = Done (Some (v, Head s)) (s\<lparr>Head := h, qmap := m\<rparr>)"
      "minv (b + length ys + 2) g m" "queue_ok (node_at s) h (Tail s) (List.tl ns)" by blast
  have "List.tl ns = List.tl xs @ (Tail s, w) # ys" by (rule tail_behind [OF assms(1,4) False])
  moreover have "s\<lparr>Head := h, Tail := Tail s, qmap := m\<rparr> = s\<lparr>Head := h, qmap := m\<rparr>" by simp
  moreover have "minv (b + length ys) g m" by (rule minv_le [OF m(2)]) simp
  ultimately show ?thesis using m(1,3) by metis
next
  case True
  from queue_head [OF assms(1)] obtain n where n: "node_at s (Head s) = Some n" "Head s \<noteq> 0" by blast
  with queue_empty [OF assms(1)] assms(2) have nz: "n_next n \<noteq> 0" by auto
  from tail_at_head [of "node_at s" "Head s" ns xs w ys n] assms(1,4) n nz True obtain u zs where
    ms: "ys = (n_next n, u) # zs" "List.tl ns = ys" and ne: "Head s \<noteq> n_next n" by auto
  have al: "k = Strict \<Longrightarrow> fits k (n_next n)" using assms(3,4) ms(1) by (auto simp: aligned_def)
  have len: "length ys = Suc (length zs)" by (simp add: ms(1))
  have "minv (Suc (Suc (b + 2 + length ys))) g (qmap s)" by (rule minv_le [OF assms(5)]) simp
  from record_two [OF this ne assms(6)] obtain m1 m where
    m: "run (on_map (opn RECORD (Head s))) s = Done (int (Suc (g (Head s)))) (s\<lparr>qmap := m1\<rparr>)"
      "run (on_map (opn RECORD (n_next n))) (s\<lparr>qmap := m1\<rparr>) = Done (int (Suc (g (n_next n)))) (s\<lparr>qmap := m\<rparr>)"
      "minv (b + 2 + length ys) (g(Head s := Suc (g (Head s)), n_next n := Suc (g (n_next n)))) m" by blast
  have "minv (b + 2 + length ys) (g(Head s := Suc (g (Head s)), n_next n := Suc (g (n_next n)))) (qmap (s\<lparr>qmap := m\<rparr>))" using m(3) by simp
  from remove_two [OF this ne] obtain m3 m4 where
    r: "run (on_map (opn REMOVE (Head s))) (s\<lparr>qmap := m\<rparr>) = Done (int (g (Head s))) (s\<lparr>qmap := m3\<rparr>)"
      "run (on_map (opn REMOVE (n_next n))) (s\<lparr>qmap := m3\<rparr>) = Done (int (g (n_next n))) (s\<lparr>qmap := m4\<rparr>)"
      "minv (b + 2 + length ys) g m4" by auto
  let ?s = "s\<lparr>Tail := n_next n, qmap := m4\<rparr>"
  have step: "run (mq_dequeue_loop opn k (Suc (Suc fuel))) s = run (mq_dequeue_loop opn k (Suc fuel)) ?s"
    using m(1,2) r(1,2) n nz al True by (simp add: Let_def del: run_on_map)
  have q: "queue_ok (node_at ?s) (Head ?s) (Tail ?s) ns" using queue_advance [OF assms(1)] n nz True by simp
  have "Tail ?s \<noteq> Head ?s" "minv ((b + length ys) + 2) g (qmap ?s)" using ne minv_le [OF r(3)] by simp_all
  from cq_dequeue_loop_take [OF q assms(2) this assms(6,3), of fuel] obtain m5 h where
    f: "run (mq_dequeue_loop opn k (Suc fuel)) ?s = Done (Some (v, Head ?s)) (?s\<lparr>Head := h, qmap := m5\<rparr>)"
      "minv (b + length ys) g m5" "queue_ok (node_at ?s) h (Tail ?s) (List.tl ns)" by blast
  have "?s\<lparr>Head := h, qmap := m5\<rparr> = s\<lparr>Head := h, Tail := n_next n, qmap := m5\<rparr>" by simp
  moreover have "List.tl ns = [] @ (n_next n, u) # zs" using ms by simp
  moreover have "minv (b + length zs) g m5" by (rule minv_le [OF f(2)]) (simp add: len)
  ultimately show ?thesis using f(1,3) step
    by (intro exI [of _ m5] exI [of _ h] exI [of _ "n_next n"] exI [of _ "[]"] exI [of _ u] exI [of _ zs]) (simp del: run_on_map mq_dequeue_loop.simps)
qed

end

section \<open>The queue between operations\<close>

lemma hp_queue_qmap [simp]: "hp_queue c tid ns R (s\<lparr>qmap := m\<rparr>) = hp_queue c tid ns R s"
  by (simp add: hp_queue_def)

text \<open>What became of memory and of the retired nodes when the old dummy was retired: only nodes that
  nobody counts are freed.\<close>

definition counted_post :: "queue_cfg \<Rightarrow> (addr \<Rightarrow> nat) \<Rightarrow> addr set \<Rightarrow> 'm mapq \<Rightarrow> addr set \<Rightarrow> 'm mapq \<Rightarrow> bool" where
  "counted_post c g R s R' t \<longleftrightarrow>
     (if flagRet c then R' \<subseteq> R \<and> node_at t = (\<lambda>a. if a \<in> R - R' then None else node_at s a) \<and> (\<forall>a \<in> R - R'. g a = 0) \<and>
        (int (card R') < THRESHOLD c \<or> (\<forall>a \<in> R'. 0 < g a))
      else insert (Head s) R' = R \<and> node_at t = node_at s)"

definition few_guards :: "queue_cfg \<Rightarrow> (addr \<Rightarrow> nat) \<Rightarrow> bool" where
  "few_guards c g \<longleftrightarrow> finite {a. 0 < g a} \<and> card {a. 0 < g a} < MAXTHRES c"

context key_counter
begin

lemma cq_dequeue_empty_run:
  assumes "cq_state k c tid g (b + 2) ns R s" and "queue_values ns = []" and "0 < fuel" and "\<forall>p. g p < top"
  shows "\<exists>t. run (mq_dequeue opn k c fuel tid) s = Done EMPTY t \<and> cq_state k c tid g b ns R t \<and> node_at t = node_at s"
proof -
  obtain f where f: "fuel = Suc f" using assms(3) by (cases fuel) auto
  from assms(1) obtain xs w ys where ns: "ns = xs @ (Tail s, w) # ys" "minv (b + 2 + length ys) g (qmap s)" by (auto simp: cq_state_def)
  have "queue_ok (node_at s) (Head s) (Tail s) ns" using assms(1) by (simp add: cq_state_def hp_queue_def)
  moreover have "minv (b + length ys + 2) g (qmap s)" by (rule minv_le [OF ns(2)]) simp
  ultimately obtain m where "run (mq_dequeue_loop opn k (Suc f)) s = Done None (s\<lparr>qmap := m\<rparr>)" "minv (b + length ys) g m"
    using cq_dequeue_loop_empty assms(2,4) by blast
  with assms(1) ns(1) show ?thesis
    by (intro exI [of _ "s\<lparr>qmap := m\<rparr>"]) (auto simp: mq_dequeue_def mq_retire_def cq_state_def f simp del: mq_dequeue_loop.simps)
qed

text \<open>What \<open>dequeue\<close> does with the node its loop has taken off.\<close>

lemma cq_retire_run:
  assumes q: "cq_state k c tid g b' ns R s" and d: "run loop s = Done (Some (v, Head s)) (s\<lparr>Head := h, Tail := t, qmap := m\<rparr>)"
      "queue_ok (node_at s) h t (List.tl ns)" "List.tl ns = xs @ (t, w) # ys" "minv (b + length ys) g m"
    and f: "2 \<le> fuel" "MAXTHRES c < fuel" and few: "few_guards c g"
  shows "\<exists>t R'. run (bind loop (mq_retire opn c fuel tid)) s = Done v t \<and> cq_state k c tid g b (List.tl ns) R' t \<and>
    counted_post c g (insert (Head s) R) s R' t"
proof -
  have hq: "hp_queue c tid ns R s" "aligned k (fst ` set ns)" using q by (simp_all add: cq_state_def)
  have qo: "queue_ok (node_at s) (Head s) (Tail s) ns" using hq(1) by (simp add: hp_queue_def)
  let ?s = "s\<lparr>Head := h, Tail := t, qmap := m\<rparr>" and ?h = "Head s"
  obtain n w0 ms where n: "node_at s ?h = Some n" "?h \<noteq> 0" "ns = (?h, w0) # ms" using queue_head [OF qo] by blast
  have RN: "R \<inter> fst ` set ns = {}" using hq(1) by (simp add: hp_queue_def)
  have hR: "?h \<notin> R" using RN n(3) by auto
  have "distinct (?h # map fst ms)" using qo by (simp add: queue_ok_def n(3))
  then have hN: "?h \<notin> fst ` set (List.tl ns)" by (simp add: n(3))
  have Rq: "R \<inter> fst ` set (List.tl ns) = {}" using RN by (auto simp: n(3))
  have al: "aligned k (fst ` set (List.tl ns))" using hq(2) by (auto simp: n(3) aligned_def)
  have qs: "hp_queue c tid (List.tl ns) R ?s" using hq(1) d(2) Rq by (auto simp: hp_queue_def)
  have "\<exists>u R'. run (mq_retire opn c fuel tid (Some (v, ?h))) ?s = Done v u \<and> hp_queue c tid (List.tl ns) R' u \<and> Tail u = t \<and>
      minv (b + length ys) g (qmap u) \<and> counted_post c g (insert ?h R) s R' u"
  proof (cases "flagRet c")
    case False
    with qs d(4) show ?thesis by (intro exI [of _ ?s] exI [of _ R]) (simp add: counted_post_def mq_retire_def)
  next
    case True
    have inv: "protects (b + length ys) g (\<lambda>a. 0 < g a) ?s" using d(4) by (simp add: protects_def)
    have "card {x \<in> R. 0 < g x} \<le> card {a. 0 < g a}" using few by (intro card_mono) (auto simp: few_guards_def)
    then have c: "card {x \<in> R. 0 < g x} < MAXTHRES c" using few by (simp add: few_guards_def)
    from guards.retire_dummy [OF qs inv n(2) _ hN hR f c] n(1) obtain u R' where
      u: "run (retireNode (mq_isIn opn) c fuel tid ?h) ?s = Done () u" "protects (b + length ys) g (\<lambda>a. 0 < g a) u"
        "hp_queue c tid (List.tl ns) R' u" "R' \<subseteq> insert ?h R" "\<forall>x \<in> insert ?h R - R'. \<not> 0 < g x"
        "node_at u = (\<lambda>x. if x \<in> insert ?h R - R' then None else node_at ?s x)"
        "int (card R') < THRESHOLD c \<or> (\<forall>x \<in> R'. 0 < g x)" "Tail u = Tail ?s" by auto
    have "counted_post c g (insert ?h R) s R' u" using u(4-7) True by (simp add: counted_post_def cong: if_cong)
    then show ?thesis using u(1-3,8) True by (intro exI [of _ u] exI [of _ R']) (simp add: protects_def mq_retire_def)
  qed
  then obtain u R' where u: "run (mq_retire opn c fuel tid (Some (v, ?h))) ?s = Done v u" "hp_queue c tid (List.tl ns) R' u" "Tail u = t"
      "minv (b + length ys) g (qmap u)" "counted_post c g (insert ?h R) s R' u" by blast
  then have "cq_state k c tid g b (List.tl ns) R' u" using d(3) al unfolding cq_state_def by blast
  with u(1,5) d(1) show ?thesis by auto
qed

lemma cq_dequeue_run:
  assumes q: "cq_state k c tid g (b + 4) ns R s" and v: "queue_values ns = v # vs" and f: "2 \<le> fuel" "MAXTHRES c < fuel"
    and few: "few_guards c g" and top: "\<forall>p. g p < top"
  shows "\<exists>t R'. run (mq_dequeue opn k c fuel tid) s = Done v t \<and> cq_state k c tid g b (List.tl ns) R' t \<and>
    counted_post c g (insert (Head s) R) s R' t"
proof -
  from q obtain xs w ys where ns: "queue_ok (node_at s) (Head s) (Tail s) ns" "aligned k (fst ` set ns)"
    "ns = xs @ (Tail s, w) # ys" "minv (b + 4 + length ys) g (qmap s)" by (auto simp: cq_state_def hp_queue_def)
  obtain f' where f': "fuel = Suc (Suc f')" using f(1) by (metis Suc_le_D numeral_2_eq_2 Suc_le_mono)
  from cq_dequeue_loop_run [OF ns(1) v ns(2-4) top, of f'] obtain m h t xs' w' ys' where
    "run (mq_dequeue_loop opn k fuel) s = Done (Some (v, Head s)) (s\<lparr>Head := h, Tail := t, qmap := m\<rparr>)"
    "queue_ok (node_at s) h t (List.tl ns)" "List.tl ns = xs' @ (t, w') # ys'" "minv (b + length ys') g m" unfolding f' by blast
  from cq_retire_run [OF q this f few] show ?thesis by (simp add: mq_dequeue_def)
qed

text \<open>\<open>minv\<close> may promise less.\<close>

lemma cq_state_le: "cq_state k c tid g b ns R s \<Longrightarrow> b' \<le> b \<Longrightarrow> cq_state k c tid g b' ns R s"
proof -
  assume q: "cq_state k c tid g b ns R s" "b' \<le> b"
  then obtain xs v ys where ns: "ns = xs @ (Tail s, v) # ys" "minv (b + length ys) g (qmap s)" by (auto simp: cq_state_def)
  have "minv (b' + length ys) g (qmap s)" by (rule minv_le [OF ns(2)]) (simp add: q(2))
  with q(1) ns(1) show ?thesis unfolding cq_state_def by blast
qed

end

section \<open>The interface of such a queue\<close>

text \<open>Memory as a thread finds it when it starts: no record of a finished thread can be taken over,
  nothing is wrong with the queue, and there is room for \<open>m\<close> more values.\<close>

definition thread_start :: "checks \<Rightarrow> queue_cfg \<Rightarrow> nat \<Rightarrow> nat \<Rightarrow> (addr \<times> 32 word) list \<Rightarrow> nat \<Rightarrow> 'z hpq_scheme \<Rightarrow> bool" where
  "thread_start k c fuel N ns m s \<longleftrightarrow> (\<exists>rs. rec_chain s (hp_head s) rs \<and> (\<forall>r \<in> set rs. rec_active s r) \<and> length rs < fuel) \<and>
     HPnum s + HPK \<le> HPK * MAXTHREADS \<and> queue_ok (node_at s) (Head s) (Tail s) ns \<and>
     malloc_room N (q_malloc c) \<and> (\<forall>m. fits k (q_malloc c m)) \<and> card (dom (node_at s)) + m \<le> N \<and> length ns + m \<le> fuel \<and>
     2 \<le> fuel \<and> MAXTHRES c < fuel"

text \<open>What the files' queues share, whatever the order in which they count and release the nodes: each
  operation leaves the counts as they were, one call of \<open>psly_record\<close> is enough to put, four
  to take.\<close>

locale counted_queue = key_counter +
  fixes enq :: "32 word \<Rightarrow> ('a mapq, unit) prog" and deq :: "('a mapq, 32 word) prog" and k :: checks and c :: queue_cfg
    and fuel :: nat and tid :: nat
  assumes enq_step: "cq_state k c tid g (Suc b) ns R s \<Longrightarrow> malloc_ok (q_malloc c) \<Longrightarrow> q_malloc c (node_at s) \<noteq> 0 \<Longrightarrow>
      fits k (q_malloc c (node_at s)) \<Longrightarrow> length ns \<le> fuel \<Longrightarrow> \<forall>p. g p < top \<Longrightarrow>
      \<exists>t. run (enq v) s = Done () t \<and> cq_state k c tid g b (ns @ [(q_malloc c (node_at s), v)]) R t \<and>
        dom (node_at t) = insert (q_malloc c (node_at s)) (dom (node_at s))"
    and deq_none: "cq_state k c tid g (b + 2) ns R s \<Longrightarrow> queue_values ns = [] \<Longrightarrow> 0 < fuel \<Longrightarrow> \<forall>p. g p < top \<Longrightarrow>
      \<exists>t. run deq s = Done EMPTY t \<and> cq_state k c tid g b ns R t \<and> node_at t = node_at s"
    and deq_some: "cq_state k c tid g (b + 4) ns R s \<Longrightarrow> queue_values ns = v # vs \<Longrightarrow> 2 \<le> fuel \<Longrightarrow> MAXTHRES c < fuel \<Longrightarrow>
      few_guards c g \<Longrightarrow> \<forall>p. g p < top \<Longrightarrow>
      \<exists>t R'. run deq s = Done v t \<and> cq_state k c tid g b (List.tl ns) R' t \<and> counted_post c g (insert (Head s) R) s R' t"
begin

text \<open>The contract of a first-in first-out queue, with four calls of \<open>psly_record\<close> per operation.\<close>

definition cq_fifo :: "nat \<Rightarrow> (addr \<Rightarrow> nat) \<Rightarrow> nat \<Rightarrow> nat \<Rightarrow> 32 word list \<Rightarrow> 'a mapq \<Rightarrow> bool" where
  "cq_fifo N g m p vs s \<longleftrightarrow> (\<exists>ns R. cq_state k c tid g (4 * p) ns R s \<and> queue_values ns = vs \<and> length ns + m \<le> fuel) \<and>
     malloc_room N (q_malloc c) \<and> (\<forall>m. fits k (q_malloc c m)) \<and> card (dom (node_at s)) + m \<le> N \<and> 2 \<le> fuel \<and> MAXTHRES c < fuel \<and>
     few_guards c g \<and> (\<forall>p. g p < top)"

sublocale fifo: fifo_queue enq deq "cq_fifo N g" for N g
proof (unfold_locales, goal_cases)
  case (1 m p vs s v)
  let ?a = "q_malloc c (node_at s)"
  from 1 obtain ns R where ns: "cq_state k c tid g (4 * Suc p) ns R s" "queue_values ns = vs" "length ns + Suc m \<le> fuel"
    and h: "malloc_room N (q_malloc c)" "\<forall>m. fits k (q_malloc c m)" "card (dom (node_at s)) + Suc m \<le> N" "\<forall>p. g p < top"
    by (auto simp: cq_fifo_def)
  have ma: "malloc_ok (q_malloc c)" "?a \<noteq> 0" "fits k ?a" using h(1-3) by (auto simp: malloc_room_def)
  have q: "cq_state k c tid g (Suc (4 * p)) ns R s" by (rule cq_state_le [OF ns(1)]) simp
  have "length ns \<le> fuel" using ns(3) by simp
  from enq_step [OF q ma this h(4)] obtain t where
    t: "run (enq v) s = Done () t" "cq_state k c tid g (4 * p) (ns @ [(?a, v)]) R t"
      "dom (node_at t) = insert ?a (dom (node_at s))" by blast
  have "card (dom (node_at t)) \<le> Suc (card (dom (node_at s)))" unfolding t(3) by (rule card_insert_le_m1) simp_all
  moreover have "length (ns @ [(?a, v)]) + m \<le> fuel" using ns(3) by simp
  moreover have "hp_queue c tid ns R s" using q by (simp add: cq_state_def)
  then have "queue_values (ns @ [(?a, v)]) = vs @ [v]" unfolding ns(2) [symmetric] by (rule hp_queue_values)
  ultimately have "cq_fifo N g m p (vs @ [v]) t" using t(2) 1 h(3) unfolding cq_fifo_def by auto
  with t(1) show ?case by blast
next
  case (2 m p s)
  then obtain ns R where ns: "cq_state k c tid g (4 * Suc p) ns R s" "queue_values ns = []" "length ns + m \<le> fuel" "0 < fuel" "\<forall>p. g p < top"
    by (auto simp: cq_fifo_def)
  have q: "cq_state k c tid g (4 * p + 2) ns R s" by (rule cq_state_le [OF ns(1)]) simp
  from deq_none [OF q ns(2,4,5)] obtain t where
    t: "run deq s = Done EMPTY t" "cq_state k c tid g (4 * p) ns R t" "node_at t = node_at s" by blast
  with 2 ns(2,3) have "cq_fifo N g m p [] t" unfolding cq_fifo_def by auto
  with t(1) show ?case by blast
next
  case (3 m p v vs s)
  then obtain ns R where ns: "cq_state k c tid g (4 * Suc p) ns R s" "queue_values ns = v # vs" "length ns + m \<le> fuel"
    and h: "card (dom (node_at s)) + m \<le> N" "2 \<le> fuel" "MAXTHRES c < fuel" "few_guards c g" "\<forall>p. g p < top"
    by (auto simp: cq_fifo_def)
  have q: "cq_state k c tid g (4 * p + 4) ns R s" by (rule cq_state_le [OF ns(1)]) simp
  from deq_some [OF q ns(2) h(2-5)] obtain t R' where
    t: "run deq s = Done v t" "cq_state k c tid g (4 * p) (List.tl ns) R' t"
      "counted_post c g (insert (Head s) R) s R' t" by blast
  have "card (dom (node_at t)) \<le> card (dom (node_at s))"
    using t(3) by (intro card_mono) (auto simp: counted_post_def split: if_splits)
  then have "card (dom (node_at t)) + m \<le> N" using h(1) by simp
  moreover have "length (List.tl ns) + m \<le> fuel" using ns(3) by simp
  ultimately have "cq_fifo N g m p vs t"
    using t(2) 3 queue_values_tl [OF ns(2)] unfolding cq_fifo_def by auto
  with t(1) show ?case by blast
qed

lemma started:
  assumes "thread_start k c fuel N ns m s" and "aligned k (fst ` set ns)" and "minv (4 * p + length ns) g (qmap s)"
    and "few_guards c g" and "\<forall>p. g p < top"
  shows "\<exists>t. run (allocateHPRec fuel c tid) s = Done () t \<and> cq_fifo N g m p (queue_values ns) t"
proof -
  from assms(1) obtain rs where rs: "rec_chain s (hp_head s) rs" "\<forall>r \<in> set rs. rec_active s r" "length rs < fuel"
    by (auto simp: thread_start_def)
  have h: "HPnum s + HPK \<le> HPK * MAXTHREADS" "queue_ok (node_at s) (Head s) (Tail s) ns" using assms(1) by (simp_all add: thread_start_def)
  have "0 < MAXTHRES c" using assms(4) by (simp add: few_guards_def)
  from allocate_new [OF rs h(1) this h(2)] obtain t where
    t: "run (allocateHPRec fuel c tid) s = Done () t" "hp_queue c tid ns {} t" "node_at t = node_at s" "Tail t = Tail s" "hpq.more t = hpq.more s"
    by blast
  have m: "qmap t = qmap s" using t(5) by (cases s, cases t) simp
  from h(2) obtain w where "(Tail s, w) \<in> set ns" by (auto simp: queue_ok_def)
  then obtain xs ys where ns: "ns = xs @ (Tail s, w) # ys" by (meson split_list)
  have "minv (4 * p + length ys) g (qmap t)" unfolding m by (rule minv_le [OF assms(3)]) (simp add: ns)
  with t(2,4) assms(2) ns have "cq_state k c tid g (4 * p) ns {} t" unfolding cq_state_def by auto
  with assms t(3) have "cq_fifo N g m p (queue_values ns) t" unfolding cq_fifo_def thread_start_def by auto
  with t(1) show ?thesis by blast
qed

text \<open>Nothing stays counted when an operation is over.\<close>

lemma counts_kept: "cq_fifo N g m p vs s \<Longrightarrow> minv 0 g (qmap s)"
  unfolding cq_fifo_def cq_state_def using minv_le by blast

lemma cq_program_run:
  assumes "thread_start k c fuel N ns (puts ops) s" and "aligned k (fst ` set ns)" and "minv (4 * length ops + length ns) g (qmap s)"
    and "few_guards c g" and "\<forall>p. g p < top"
  shows "\<exists>t. run (bind (allocateHPRec fuel c tid) (\<lambda>_. qscript enq deq ops)) s
    = Done (fifo ops (queue_values ns)) t \<and> minv 0 g (qmap t)"
proof -
  from started [OF assms] obtain t where
    t: "run (allocateHPRec fuel c tid) s = Done () t" "cq_fifo N g (0 + puts ops) (0 + length ops) (queue_values ns) t" by auto
  from fifo.qscript_run [OF t(2)] t(1) show ?thesis using counts_kept by fastforce
qed

lemma last_scan:
  assumes "cq_fifo N g m p vs s"
  shows "\<exists>t. run (with_rec tid (\<lambda>r. scan (mq_isIn opn) fuel r)) s = Done () t \<and> minv 0 g (qmap t) \<and>
    Head t = Head s \<and> Tail t = Tail s"
proof -
  from assms obtain r h where r: "myhprec s tid = Some r" "rec_at r s = Some h" "list_inv c (node_at s) h" "MAXTHRES c < fuel"
    by (auto simp: cq_fifo_def cq_state_def hp_queue_def)
  have "protects 0 g (\<lambda>a. 0 < g a) s" using counts_kept [OF assms] by (simp add: protects_def)
  from guards.scan_run [OF this r(2-4)] obtain t where
    t: "run (scan (mq_isIn opn) fuel r) s = Done () t" "protects 0 g (\<lambda>a. 0 < g a) t"
      "same_queue (s\<lparr>node_at := swept_heap (\<lambda>a. 0 < g a) (hp_list h) (node_at s), recs := (recs s)[r := scan_rec (\<lambda>a. 0 < g a) h],
        numOfRetire := numOfRetire s + 1\<rparr>) t" by blast
  from same_queueD [OF t(3)] t(1,2) r(1) show ?thesis by (simp add: with_rec_def protects_def)
qed

lemma thread_run:
  assumes "thread_start k c fuel N ns (length vs) s" and "aligned k (fst ` set ns)"
    and "minv (8 * length vs + 5 * length ns) g (qmap s)" and "few_guards c g" and "\<forall>p. g p < top"
    and "EMPTY \<notin> set (queue_values ns) \<union> set vs"
  shows "\<exists>t. run (bind (allocateHPRec fuel c tid) (\<lambda>_. bind (enqueue_all enq vs) (\<lambda>_. bind (dequeue_all fuel deq []) (\<lambda>taken.
      bind (with_rec tid (\<lambda>r. scan (mq_isIn opn) fuel r)) (\<lambda>_. Ret (f taken)))))) s = Done (f (queue_values ns @ vs)) t \<and> minv 0 g (qmap t)"
proof -
  let ?p = "0 + length vs + Suc (length (queue_values ns) + length vs)"
  have qo: "queue_ok (node_at s) (Head s) (Tail s) ns" using assms(1) by (simp add: thread_start_def)
  have l: "length (queue_values ns) < length ns" by (rule queue_values_length [OF qo])
  have "4 * ?p + length ns \<le> 8 * length vs + 5 * length ns" using l by simp
  from minv_le [OF assms(3) this] have "minv (4 * ?p + length ns) g (qmap s)" .
  from started [OF assms(1,2) this assms(4,5)] obtain t1 where
    t1: "run (allocateHPRec fuel c tid) s = Done () t1" "cq_fifo N g (0 + length vs) ?p (queue_values ns) t1" by auto
  have "length (queue_values ns) + length vs < fuel" using l assms(1) by (simp add: thread_start_def)
  then obtain t2 where
    t2: "run (bind (enqueue_all enq vs) (\<lambda>_. dequeue_all fuel deq [])) t1 = Done (queue_values ns @ vs) t2" "cq_fifo N g 0 0 [] t2"
    using fifo.thread_run [OF t1(2) assms(6)] by blast
  from t2(1) obtain t3 where t3: "run (enqueue_all enq vs) t1 = Done () t3"
    "run (dequeue_all fuel deq []) t3 = Done (queue_values ns @ vs) t2"
    by (cases "run (enqueue_all enq vs) t1") auto
  from last_scan [OF t2(2)] t1(1) t3 show ?thesis by auto
qed

end

section \<open>The queue of the files above\<close>

context key_counter
begin

sublocale mq: counted_queue opn minv top "mq_enqueue opn k c fuel" "mq_dequeue opn k c fuel tid" k c fuel tid for k c fuel tid
  by unfold_locales (rule cq_enqueue_run cq_dequeue_empty_run cq_dequeue_run; assumption)+

lemma mq_thread_run:
  assumes "thread_start k c fuel N ns n s" and "aligned k (fst ` set ns)" and "minv (8 * n + 5 * length ns) g (qmap s)"
    and "few_guards c g" and "\<forall>p. g p < top" and "EMPTY \<notin> set (queue_values ns)"
  shows "\<exists>t. run (mq_thread_routine opn k c fuel tid n) s =
      Done (queue_values ns @ replicate n 3781, length (filter (\<lambda>v. v \<noteq> 3781) (queue_values ns))) t \<and> minv 0 g (qmap t)"
proof -
  have f: "filter (\<lambda>v. v \<noteq> 3781) (replicate n (3781 :: 32 word)) = []" by simp
  have "EMPTY \<notin> set (queue_values ns) \<union> set (replicate n 3781)" using assms(6) by (simp add: EMPTY_def)
  from mq.thread_run [OF _ assms(2) _ assms(4,5) this, where tid = tid and f = "\<lambda>taken. (taken, length (filter (\<lambda>result. result \<noteq> 3781) taken))"] assms(1,3) f
  show ?thesis by (simp add: mq_thread_routine_def)
qed

end

end
