(* ===== verification/PrevsList.thy ===== *)
theory PrevsList
  imports MapProgram
begin

text \<open>
  The list with the cache of predecessors: \<open>psly_handle_records\<close> of
  \<^verbatim>\<open>mayijin/mapLockFreeList-concurrentqueues.c\<close>. The loop is that of \<^verbatim>\<open>RecordList\<close>; it differs in
  where it restarts. Each thread keeps the records it passed (\<open>prevs\<close>, with the word it read
  from each) and how many there were (\<open>steps\<close>); when \<open>prev\<close> has been reused or deleted it goes
  back through them to the last one that has not, and restarts at the head only when none is
  left. \<open>None\<close> in \<open>prevs\<close> is \<open>NULL\<close>; a negative \<open>steps\<close> would be an index before the array.
\<close>

unbundle bit_operations_syntax

section \<open>The cache\<close>

record 'c prevs_map = "'c map_pool" +
  prevs :: "nat \<Rightarrow> nat \<Rightarrow> loc option \<times> 64 word"
  flagged :: "nat \<Rightarrow> bool"
  steps :: "nat \<Rightarrow> int"

definition MAXPREV :: int where
  "MAXPREV = 1024"

definition STEPBIT :: nat where
  "STEPBIT = 0"

definition STEPS :: int where
  "STEPS = push_bit STEPBIT 1"

definition STEPMASK :: int where
  "STEPMASK = STEPS - 1"

definition set_prev :: "nat \<Rightarrow> int \<Rightarrow> loc option \<times> 64 word \<Rightarrow> ('c, 'z) prevs_map_scheme \<Rightarrow> ('c, 'z) prevs_map_scheme option" where
  "set_prev tid bkt p s =
     (if bkt < 0 then None
      else Some (s\<lparr>prevs := (prevs s)(tid := (prevs s tid)(nat bkt := p))\<rparr>))"

definition add_steps :: "nat \<Rightarrow> int \<Rightarrow> ('c, 'z) prevs_map_scheme \<Rightarrow> ('c, 'z) prevs_map_scheme" where
  "add_steps tid d s = s\<lparr>steps := (steps s)(tid := steps s tid + d)\<rparr>"

text \<open>What the function does with its thread's cache before the loop.\<close>

definition prevs_start :: "nat \<Rightarrow> ('c, 'z) prevs_map_scheme \<Rightarrow> ('c, 'z) prevs_map_scheme" where
  "prevs_start tid s =
     (let s = (if flagged s tid then s else
        s\<lparr>prevs := (prevs s)(tid := (\<lambda>i. if int i < MAXPREV then (None, 0) else prevs s tid i)),
          flagged := (flagged s)(tid := True)\<rparr>)
      in s\<lparr>steps := (steps s)(tid := 0)\<rparr>)"

text \<open>Going back: the last record passed that is still the one it was.\<close>

fun restart_search :: "nat \<Rightarrow> nat \<Rightarrow> layout \<Rightarrow> locals \<Rightarrow> (locals \<Rightarrow> (('c, 'z) prevs_map_scheme, int) prog) \<Rightarrow> (('c, 'z) prevs_map_scheme, int) prog" where
  "restart_search 0 tid L v kp = Spin"
| "restart_search (Suc fuel) tid L v kp =
    ld (\<lambda>s. steps s tid) (\<lambda>st0.
    let bkt = drop_bit STEPBIT st0; bkt = (if bkt < MAXPREV then bkt else MAXPREV - 1) in
    if bkt < 0 then Crash else
    ld (\<lambda>s. prevs s tid (nat bkt)) (\<lambda>(r, prevNextKeep).
    case r of None \<Rightarrow> Crash | Some prev \<Rightarrow>
    rd r_nextRecord prev (\<lambda>prevNext.
    if prevNextKeep AND NODEBITS L \<noteq> prevNext AND NODEBITS L \<or> prevNext AND REFCBITS L = DELETED then
      st (add_steps tid (- STEPS)) (restart_search fuel tid L v kp)
    else
      stp (set_prev tid bkt (Some prev, prevNext)) (
      st (\<lambda>s. s\<lparr>steps := (steps s)(tid := steps s tid AND NOT STEPMASK)\<rparr>) (
      kp (v\<lparr>v_prev := prev, v_prevNext := prevNext, v_curr := loc_of L prevNext\<rparr>))))))"

definition restart_prevs :: "nat \<Rightarrow> nat \<Rightarrow> layout \<Rightarrow> locals \<Rightarrow> (locals \<Rightarrow> (('c, 'z) prevs_map_scheme, int) prog) \<Rightarrow> (('c, 'z) prevs_map_scheme, int) prog" where
  "restart_prevs fuel tid L v kp = st (add_steps tid (- 1)) (restart_search fuel tid L v kp)"

text \<open>Passing a record: \<open>prev\<close> is noted, one more step is counted.\<close>

definition note_prev :: "nat \<Rightarrow> locals \<Rightarrow> (('c, 'z) prevs_map_scheme, int) prog \<Rightarrow> (('c, 'z) prevs_map_scheme, int) prog" where
  "note_prev tid v k =
    ld (\<lambda>s. steps s tid) (\<lambda>st0.
    let bkt = drop_bit STEPBIT st0 in
    if st0 AND STEPMASK = 0 \<and> bkt < MAXPREV then
      stp (set_prev tid bkt (Some (v_prev v), v_prevNext v)) (st (add_steps tid 1) k)
    else st (add_steps tid 1) k)"

section \<open>The operations\<close>

definition prevs_env :: "layout \<Rightarrow> (('c, 'z) prevs_map_scheme, loc option) prog \<Rightarrow> (loc \<Rightarrow> (('c, 'z) prevs_map_scheme, unit) prog) \<Rightarrow>
    nat \<Rightarrow> nat \<Rightarrow> 64 word \<Rightarrow> flag \<Rightarrow> loc \<Rightarrow> loc \<Rightarrow> ('c, 'z) prevs_map_scheme env" where
  "prevs_env L get ret fuel tid pointer f h z =
     \<lparr>e_layout = L, e_head = h, e_tail = z, e_pointer = pointer, e_flag = f, e_get = get, e_return = ret,
      e_restart = restart_prevs fuel tid L, e_note = note_prev tid\<rparr>"

text \<open>One list for each value of 17 bits of the pointer, above its lowest 4.\<close>

definition pointer_bucket :: "64 word \<Rightarrow> nat" where
  "pointer_bucket pointer = unat (signed_drop_bit 4 pointer AND 131071)"

text \<open>The function itself: its thread's cache is made ready, then the loop runs.\<close>

definition prevs_handle_records :: "layout \<Rightarrow> (('c, 'z) prevs_map_scheme, loc option) prog \<Rightarrow> (loc \<Rightarrow> (('c, 'z) prevs_map_scheme, unit) prog) \<Rightarrow>
    nat \<Rightarrow> nat \<Rightarrow> 64 word \<Rightarrow> flag \<Rightarrow> loc \<Rightarrow> loc \<Rightarrow> (('c, 'z) prevs_map_scheme, int) prog" where
  "prevs_handle_records L get ret fuel tid pointer f head tail =
     st (prevs_start tid) (handle_records fuel (prevs_env L get ret fuel tid pointer f head tail))"

definition prevs_op :: "layout \<Rightarrow> (('c, 'z) prevs_map_scheme, loc option) prog \<Rightarrow> (loc \<Rightarrow> (('c, 'z) prevs_map_scheme, unit) prog) \<Rightarrow>
    nat \<Rightarrow> nat \<Rightarrow> flag \<Rightarrow> 64 word \<Rightarrow> (('c, 'z) prevs_map_scheme, int) prog" where
  "prevs_op L get ret fuel tid f pointer =
     ldp (\<lambda>s. lists s (pointer_bucket pointer)) (\<lambda>(head, tail).
     prevs_handle_records L get ret fuel tid pointer f head tail)"

section \<open>The list run alone\<close>

text \<open>What a pool with a cache keeps: the lists, and every record but for its queue link.\<close>

definition map_keeps :: "loc set \<Rightarrow> ('c, 'z) map_pool_scheme \<Rightarrow> ('c, 'z) map_pool_scheme \<Rightarrow> bool" where
  "map_keeps N s t \<longleftrightarrow> lists t = lists s \<and>
     (\<forall>l r. l \<notin> N \<longrightarrow> rget l s = Some r \<longrightarrow> (\<exists>w. rget l t = Some (r\<lparr>r_next := w\<rparr>)))"

lemma map_keeps_refl [simp]: "map_keeps N s s"
proof -
  have "r = r\<lparr>r_next := r_next r\<rparr>" for r :: rec by simp
  then show ?thesis unfolding map_keeps_def by metis
qed

lemma map_keeps_trans: "map_keeps N s t \<Longrightarrow> map_keeps N t u \<Longrightarrow> map_keeps N s u"
  unfolding map_keeps_def by fastforce

lemma map_keeps_pool: "pool_keeps N s t \<Longrightarrow> map_keeps N s t"
  unfolding map_keeps_def by (metis pool_keeps_def erase_eq pool_keeps_lists)

lemma map_keeps_rset: "map_keeps {l} s (rset l f s)"
proof -
  have "lists (rset l f s) = lists s" by (simp add: rset_def split: option.split)
  moreover have "r = r\<lparr>r_next := r_next r\<rparr>" for r :: rec by simp
  ultimately show ?thesis unfolding map_keeps_def by (metis rget_rset singletonI)
qed

lemma prevs_updates [simp]:
  "rget l (s\<lparr>prevs := x\<rparr>) = rget l s" "rget l (s\<lparr>flagged := y\<rparr>) = rget l s" "rget l (s\<lparr>steps := w\<rparr>) = rget l s"
  by (simp_all add: rget_def)

lemma steps_rset [simp]: "steps (rset l f s) = steps s"
  by (simp add: rset_def split: option.split)

lemma map_keeps_updates:
  "map_keeps N s (t\<lparr>prevs := x\<rparr>) = map_keeps N s t" "map_keeps N s (t\<lparr>flagged := y\<rparr>) = map_keeps N s t"
  "map_keeps N s (t\<lparr>steps := w\<rparr>) = map_keeps N s t"
  by (simp_all add: map_keeps_def)

text \<open>A pool that does not look at the cache serves the list with the cache: its operations leave the
  number of steps alone.\<close>

locale cached_records =
  fixes L :: layout
    and get :: "(('c, 'z) prevs_map_scheme, loc option) prog"
    and ret :: "loc \<Rightarrow> (('c, 'z) prevs_map_scheme, unit) prog"
    and ok :: "nat \<Rightarrow> loc set \<Rightarrow> ('c, 'z) prevs_map_scheme \<Rightarrow> bool"
    and tid :: nat
  assumes lay: "layout_ok L"
    and less: "ok (Suc b) F s \<Longrightarrow> ok b F s"
    and self: "ok b F s \<Longrightarrow> is_loc L l \<Longrightarrow> rget l s = Some r \<Longrightarrow> r_self r = self_word (idxNum L) l"
    and rset_ok: "ok b F s \<Longrightarrow> (\<And>r. r_next (f r) = r_next r \<and> r_self (f r) = r_self r) \<Longrightarrow> ok b F (rset l f s)"
    and cache_ok: "ok b F (s\<lparr>prevs := x\<rparr>) = ok b F s" "ok b F (s\<lparr>flagged := y\<rparr>) = ok b F s"
      "ok b F (s\<lparr>steps := w\<rparr>) = ok b F s" "ok b F s \<Longrightarrow> ok b F (s\<lparr>lists := z\<rparr>)"
    and get_run: "ok (Suc b) F s \<Longrightarrow> \<exists>l t. run get s = Done (Some l) t \<and> map_keeps {} s t \<and> steps t = steps s \<and>
      l \<in> F \<and> is_loc L l \<and> rget l t \<noteq> None \<and> ok b (F - {l}) t"
    and ret_run: "ok b F s \<Longrightarrow> is_loc L l \<Longrightarrow> l \<notin> F \<Longrightarrow> rget l s \<noteq> None \<Longrightarrow>
      \<exists>t. run (ret l) s = Done () t \<and> map_keeps {} s t \<and> steps t = steps s \<and> ok b (insert l F) t"
begin

definition ok' :: "nat \<Rightarrow> loc set \<Rightarrow> ('c, 'z) prevs_map_scheme \<Rightarrow> bool" where
  "ok' b F s \<longleftrightarrow> ok b F s \<and> 0 \<le> steps s tid"

sublocale record_pool L get ret ok' map_keeps
proof (unfold_locales, goal_cases)
  case 1
  show ?case by (rule lay)
next
  case (2 b F s)
  then show ?case by (simp add: ok'_def less)
next
  case (3 b F s l r)
  then show ?case using self [of b F s l r] by (simp add: ok'_def)
next
  case (4 b F s f l)
  then show ?case using rset_ok [of b F s f l] by (simp add: ok'_def)
next
  case (5 s)
  show ?case by simp
next
  case (6 N s t M)
  then show ?case unfolding map_keeps_def by blast
next
  case (7 N s t u)
  then show ?case by (rule map_keeps_trans)
next
  case (8 l s f)
  show ?case by (rule map_keeps_rset)
next
  case (9 N s t l r)
  then show ?case unfolding map_keeps_def by blast
next
  case (10 b F s)
  then show ?case using get_run [of b F s] by (auto simp: ok'_def)
next
  case (11 b F s l)
  then show ?case using ret_run [of b F s l] by (auto simp: ok'_def)
qed

text \<open>It serves a map with any choice of the list.\<close>

lemma serves_map:
  assumes "\<And>k. hash k < listNum"
  shows "record_map L get ret ok' map_keeps hash listNum"
proof (unfold_locales, goal_cases)
  case (1 N s t)
  then show ?case by (simp add: map_keeps_def)
next
  case (2 b F s x)
  then show ?case by (simp add: ok'_def cache_ok)
next
  case (3 k)
  show ?case by (rule assms)
qed

lemma note_run:
  assumes "ok' b F s"
  shows "\<exists>t. run (note_prev tid v k) s = run k t \<and> map_keeps {} s t \<and> ok' b F t"
  using assms unfolding ok'_def note_prev_def
  by (auto simp: Let_def set_prev_def add_steps_def map_keeps_updates cache_ok)

lemma prevs_env_ok: "env_ok (prevs_env L get ret fuel tid p f h z) z p \<and>
    e_head (prevs_env L get ret fuel tid p f h z) = h \<and> e_flag (prevs_env L get ret fuel tid p f h z) = f"
  unfolding env_ok_def using note_run by (simp add: prevs_env_def)

lemma start_ok: "ok' b F s \<Longrightarrow> map_keeps {} s (prevs_start tid s) \<and> ok' b F (prevs_start tid s)"
  by (simp add: ok'_def prevs_start_def Let_def map_keeps_updates cache_ok)

end

text \<open>The map of the files with the 17 bits of the pointer.\<close>

locale cached_pool = cached_records L get ret ok tid
  for L :: layout
    and get :: "(('c, 'z) prevs_map_scheme, loc option) prog"
    and ret :: "loc \<Rightarrow> (('c, 'z) prevs_map_scheme, unit) prog"
    and ok :: "nat \<Rightarrow> loc set \<Rightarrow> ('c, 'z) prevs_map_scheme \<Rightarrow> bool"
    and tid :: nat
begin

sublocale record_map L get ret ok' map_keeps pointer_bucket "2 ^ 17"
proof (rule serves_map)
  fix k
  have "(131071 :: 64 word) = mask 17" by (simp add: mask_eq_exp_minus_1)
  show "pointer_bucket k < 2 ^ 17"
    unfolding pointer_bucket_def \<open>(131071 :: 64 word) = mask 17\<close> take_bit_eq_mask [symmetric] unsigned_take_bit_eq by (rule take_bit_nat_less_exp)
qed

lemma prevs_op_run:
  assumes "lists_ok L (ok' (need f b)) {..<2 ^ 17} F E s" and "2 ^ (arrNum L + idxNum L) \<le> fuel"
    and "f = RECORD \<Longrightarrow> mcnt pointer_bucket E p < 2 ^ refNum L - 1"
  shows "\<exists>t E' F'. run (prevs_op L get ret fuel tid f p) s = Done (int (op_count f (mcnt pointer_bucket E p))) t \<and>
    lists_ok L (ok' b) {..<2 ^ 17} F' E' t \<and>
    mcnt pointer_bucket E' = (mcnt pointer_bucket E)(p := op_count f (mcnt pointer_bucket E p)) \<and> lists t = lists s \<and>
    (\<Union>i<2 ^ 17. nodes t E' i) \<union> F' = (\<Union>i<2 ^ 17. nodes s E i) \<union> F"
  by (rule op_run [OF assms(1) _ start_ok prevs_env_ok assms(2,3)]) (simp_all add: prevs_op_def prevs_handle_records_def)

lemma prevs_script_run:
  assumes "lists_ok L (ok' (b + inserts ops)) {..<2 ^ 17} F E s" and "2 ^ (arrNum L + idxNum L) \<le> fuel"
    and "\<And>k. mcnt pointer_bucket E k + length ops < 2 ^ refNum L"
  shows "\<exists>t E' F'. run (script (prevs_op L get ret fuel tid) ops) s = Done (counter ops (mcnt pointer_bucket E)) t \<and>
    lists_ok L (ok' b) {..<2 ^ 17} F' E' t \<and> mcnt pointer_bucket E' = counter_end ops (mcnt pointer_bucket E) \<and>
    (\<Union>i<2 ^ 17. nodes t E' i) \<union> F' = (\<Union>i<2 ^ 17. nodes s E i) \<union> F"
  by (rule script_run [OF assms _ start_ok prevs_env_ok]) (simp_all add: prevs_op_def prevs_handle_records_def)

end

section \<open>Going back through the cache\<close>

text \<open>The record noted at place \<open>i\<close> is still the one that was passed.\<close>

definition still_there :: "layout \<Rightarrow> nat \<Rightarrow> ('c, 'z) prevs_map_scheme \<Rightarrow> nat \<Rightarrow> bool" where
  "still_there L tid s i \<longleftrightarrow> (\<exists>l keep r. prevs s tid i = (Some l, keep) \<and> rget l s = Some r \<and> \<not> stale L keep (r_nextRecord r))"

lemma restart_search_step:
  assumes "steps s tid = int n" and "prevs s tid b = (Some l, keep)" and "rget l s = Some r" and "b = nat (min (int n) (MAXPREV - 1))"
  shows "run (restart_search (Suc f) tid L v kp) s =
    (if stale L keep (r_nextRecord r) then run (restart_search f tid L v kp) (add_steps tid (- STEPS) s)
     else run (kp (v\<lparr>v_prev := l, v_prevNext := r_nextRecord r, v_curr := loc_of L (r_nextRecord r)\<rparr>))
       (s\<lparr>prevs := (prevs s)(tid := (prevs s tid)(b := (Some l, r_nextRecord r))), steps := (steps s)(tid := int n)\<rparr>))"
proof -
  let ?b = "if drop_bit STEPBIT (int n) < MAXPREV then drop_bit STEPBIT (int n) else MAXPREV - 1"
  have b: "?b = int b" unfolding assms(4) by (auto simp: MAXPREV_def STEPBIT_def)
  have m: "int n AND NOT STEPMASK = int n" by (simp add: STEPMASK_def STEPS_def STEPBIT_def)
  show ?thesis
    unfolding restart_search.simps run_ld assms(1) Let_def b
    using assms(2,3) m by (simp add: stale_def set_prev_def assms(1))
qed

lemma restart_search_run:
  assumes "b = nat (min (int n) (MAXPREV - 1))" and "steps s tid = int n" and "n < fuel"
    and "\<And>i. i \<le> b \<Longrightarrow> \<exists>l keep r. prevs s tid i = (Some l, keep) \<and> rget l s = Some r"
    and "still_there L tid s 0"
  shows "\<exists>i l keep r t. i \<le> b \<and> prevs s tid i = (Some l, keep) \<and> rget l s = Some r \<and> \<not> stale L keep (r_nextRecord r) \<and>
    (\<forall>j. i < j \<longrightarrow> j \<le> b \<longrightarrow> \<not> still_there L tid s j) \<and>
    run (restart_search fuel tid L v kp) s =
      run (kp (v\<lparr>v_prev := l, v_prevNext := r_nextRecord r, v_curr := loc_of L (r_nextRecord r)\<rparr>)) t \<and>
    Records t = Records s \<and> lists t = lists s \<and> 0 \<le> steps t tid \<and> nat (min (steps t tid) (MAXPREV - 1)) = i"
  using assms
proof (induction n arbitrary: s fuel b rule: less_induct)
  case (less n)
  from less.prems(3) obtain f where f: "fuel = Suc f" by (cases fuel) auto
  obtain l keep r where l: "prevs s tid b = (Some l, keep)" "rget l s = Some r" using less.prems(4) [of b] by auto
  note step = restart_search_step [OF less.prems(2) l less.prems(1), of f L v kp]
  show ?case
  proof (cases "stale L keep (r_nextRecord r)")
    case False
    with step l less.prems(1) show ?thesis unfolding f
      by (intro exI [of _ b] exI [of _ l] exI [of _ keep] exI [of _ r] exI conjI) (assumption | simp)+
  next
    case True
    have "n \<noteq> 0"
    proof
      assume "n = 0"
      then have "b = 0" using less.prems(1) by (simp add: MAXPREV_def)
      with less.prems(5) l True show False by (auto simp: still_there_def)
    qed
    then obtain m where n: "n = Suc m" by (cases n) auto
    let ?s = "add_steps tid (- STEPS) s"
    let ?b = "nat (min (int m) (MAXPREV - 1))"
    have p: "prevs ?s = prevs s" "rget l ?s = rget l s" "steps ?s tid = int m" for l
      using less.prems(2) n by (simp_all add: add_steps_def STEPS_def STEPBIT_def)
    have bb: "?b \<le> b" "b \<le> Suc ?b" using less.prems(1) n by (auto simp: MAXPREV_def)
    have st: "still_there L tid ?s = still_there L tid s" by (intro ext) (simp add: still_there_def p)
    have nb: "\<not> still_there L tid s b" using l True by (simp add: still_there_def)
    have "\<exists>i l keep r t. i \<le> ?b \<and> prevs ?s tid i = (Some l, keep) \<and> rget l ?s = Some r \<and> \<not> stale L keep (r_nextRecord r) \<and>
      (\<forall>j. i < j \<longrightarrow> j \<le> ?b \<longrightarrow> \<not> still_there L tid ?s j) \<and>
      run (restart_search f tid L v kp) ?s =
        run (kp (v\<lparr>v_prev := l, v_prevNext := r_nextRecord r, v_curr := loc_of L (r_nextRecord r)\<rparr>)) t \<and>
      Records t = Records ?s \<and> lists t = lists ?s \<and> 0 \<le> steps t tid \<and> nat (min (steps t tid) (MAXPREV - 1)) = i"
      by (rule less.IH [of m]) (use less.prems(3-5) bb(1) n f in \<open>simp_all add: p st\<close>)
    then obtain i l' keep' r' t where
      i: "i \<le> ?b" "prevs s tid i = (Some l', keep')" "rget l' s = Some r'" "\<not> stale L keep' (r_nextRecord r')"
        "\<forall>j. i < j \<longrightarrow> j \<le> ?b \<longrightarrow> \<not> still_there L tid s j"
        "run (restart_search f tid L v kp) ?s =
          run (kp (v\<lparr>v_prev := l', v_prevNext := r_nextRecord r', v_curr := loc_of L (r_nextRecord r')\<rparr>)) t"
        "Records t = Records ?s" "lists t = lists ?s" "0 \<le> steps t tid" "nat (min (steps t tid) (MAXPREV - 1)) = i"
      unfolding p st by blast
    have "\<not> still_there L tid s j" if "i < j" "j \<le> b" for j
      using i(5) nb that bb(2) by (cases "j = b") auto
    moreover have "Records t = Records s" "lists t = lists s" using i(7,8) by (simp_all add: add_steps_def)
    moreover have "run (restart_search fuel tid L v kp) s = run (restart_search f tid L v kp) ?s" using step True f by simp
    ultimately show ?thesis using i bb(1)
      by (intro exI [of _ i] exI [of _ l'] exI [of _ keep'] exI [of _ r'] exI [of _ t]) simp
  qed
qed

text \<open>C21: when \<open>prev\<close> was reused or deleted, the list with the cache restarts at the last record it passed
  that is still the one it passed, with the word that record has now; it steps back over every
  later one, does not touch the list, and ends because the head, which is never deleted, is noted
  first. Longer paths than the 1024 places of the cache restart at the last place.\<close>

theorem restart_goes_back:
  assumes "b = nat (min (int n) (MAXPREV - 1))" and "steps s tid = int (Suc n)" and "n < fuel"
    and "\<And>i. i \<le> b \<Longrightarrow> \<exists>l keep r. prevs s tid i = (Some l, keep) \<and> rget l s = Some r"
    and "still_there L tid s 0"
  shows "\<exists>i l keep r t. i \<le> b \<and> prevs s tid i = (Some l, keep) \<and> rget l s = Some r \<and> \<not> stale L keep (r_nextRecord r) \<and>
    (\<forall>j. i < j \<longrightarrow> j \<le> b \<longrightarrow> \<not> still_there L tid s j) \<and>
    run (restart_prevs fuel tid L v kp) s =
      run (kp (v\<lparr>v_prev := l, v_prevNext := r_nextRecord r, v_curr := loc_of L (r_nextRecord r)\<rparr>)) t \<and>
    Records t = Records s \<and> lists t = lists s \<and> 0 \<le> steps t tid \<and> nat (min (steps t tid) (MAXPREV - 1)) = i"
proof -
  let ?s = "add_steps tid (- 1) s"
  have p: "prevs ?s = prevs s" "rget l ?s = rget l s" "steps ?s tid = int n" "Records ?s = Records s" "lists ?s = lists s" for l
    using assms(2) by (simp_all add: add_steps_def)
  have st: "still_there L tid ?s = still_there L tid s" by (intro ext) (simp add: still_there_def p)
  have "run (restart_prevs fuel tid L v kp) s = run (restart_search fuel tid L v kp) ?s" by (simp add: restart_prevs_def)
  moreover note restart_search_run [OF assms(1), of ?s tid fuel L v kp, unfolded p st, OF refl assms(3-5)]
  ultimately show ?thesis by simp
qed

definition passed_two :: "32 word prevs_map" where
  "passed_two = \<lparr>Records = [0 \<mapsto> \<lambda>j. \<lparr>r_next = 0, r_self = 0, r_nextRecord = (if j = 5 then - 1 else 0), r_pointer = 0\<rparr>],
     qhead = \<lambda>_. 0, qtail = \<lambda>_. 0, recordTake = 0, plog = \<lambda>_. [], lists = Map.empty,
     prevs = \<lambda>_ i. (Some (0, 5 + i), - 1), flagged = \<lambda>_. True, steps = \<lambda>_. 2\<rparr>"

theorem restart_goes_back_witness:
  "\<exists>t. run (restart_prevs 2 0 layout_map \<lparr>v_my = None, v_localN = 0, v_removed = False, v_prev = (0, 9), v_prevNext = 0, v_curr = (0, 9)\<rparr>
      (\<lambda>v. Ret (int (snd (v_prev v))))) passed_two = Done 5 t \<and> steps t 0 = 0"
proof -
  let ?v = "\<lparr>v_my = None, v_localN = 0, v_removed = False, v_prev = (0, 9), v_prevNext = 0, v_curr = (0, 9)\<rparr>"
  have s: "\<not> stale layout_map (- 1) (- 1)" "stale layout_map (- 1) 0"
    by (simp_all add: stale_def REFCBITS_def DELETED_def layout_map_def mask_eq_exp_minus_1)
  have r: "rget (0, 5 + i) passed_two = Some \<lparr>r_next = 0, r_self = 0, r_nextRecord = (if i = 0 then - 1 else 0), r_pointer = 0\<rparr>" for i
    by (simp add: rget_def passed_two_def)
  have "\<exists>l keep r. prevs passed_two 0 i = (Some l, keep) \<and> rget l passed_two = Some r" for i
    using r [of i] by (simp add: passed_two_def)
  moreover have "still_there layout_map 0 passed_two 0"
    unfolding still_there_def using r [of 0] s by (simp add: passed_two_def)
  ultimately have "\<exists>i l keep r t. i \<le> 1 \<and> prevs passed_two 0 i = (Some l, keep) \<and> rget l passed_two = Some r \<and>
      \<not> stale layout_map keep (r_nextRecord r) \<and> (\<forall>j. i < j \<longrightarrow> j \<le> 1 \<longrightarrow> \<not> still_there layout_map 0 passed_two j) \<and>
      run (restart_prevs 2 0 layout_map ?v (\<lambda>v. Ret (int (snd (v_prev v))))) passed_two =
        run (Ret (int (snd (v_prev (?v\<lparr>v_prev := l, v_prevNext := r_nextRecord r, v_curr := loc_of layout_map (r_nextRecord r)\<rparr>))))) t \<and>
      Records t = Records passed_two \<and> lists t = lists passed_two \<and> 0 \<le> steps t 0 \<and> nat (min (steps t 0) (MAXPREV - 1)) = i"
    by (intro restart_goes_back [where n = 1]) (simp_all add: MAXPREV_def passed_two_def)
  then obtain i l keep q t where t: "i \<le> 1" "prevs passed_two 0 i = (Some l, keep)" "rget l passed_two = Some q"
      "\<not> stale layout_map keep (r_nextRecord q)"
      "run (restart_prevs 2 0 layout_map ?v (\<lambda>v. Ret (int (snd (v_prev v))))) passed_two =
        run (Ret (int (snd (v_prev (?v\<lparr>v_prev := l, v_prevNext := r_nextRecord q, v_curr := loc_of layout_map (r_nextRecord q)\<rparr>))))) t"
      "0 \<le> steps t 0" "nat (min (steps t 0) (MAXPREV - 1)) = i" by blast
  have "prevs passed_two 0 i = (Some (0, 5 + i), - 1)" by (simp add: passed_two_def)
  with t(2) have l: "l = (0, 5 + i)" "keep = - 1" by simp_all
  have "i = 0"
  proof (rule ccontr)
    assume "i \<noteq> 0"
    with t(3,4) r [of i] s(2) show False by (auto simp: l)
  qed
  with t(5-7) show ?thesis by (simp add: l MAXPREV_def)
qed

end
