(* ===== verification/GrowingPool.thy ===== *)
theory GrowingPool
  imports PrevsList "HOL-Library.Signed_Division"
begin

text \<open>
  The record pool of \<^verbatim>\<open>mayijin/mapLockFreeList-concurrentqueues.c\<close>, which starts with 4 arrays of
  65536 records and adds one when all are used up, up to 16, and the map of 131072 lists with a
  cache of predecessors on top of it. Adding an array is two steps, the array first and the
  number of arrays after it, that any thread may take for another. The last sections show what a call
  does while the counter \<open>recordTake\<close> is far from its largest value, and that it ends in an access
  outside the array of queues when a long run makes the counter wrap.
\<close>

unbundle bit_operations_syntax

section \<open>The operations\<close>

record 'c growing_map = "'c prevs_map" +
  ARRAYNUM :: nat

definition ARRAYNUM_MAX :: nat where
  "ARRAYNUM_MAX = 2 ^ 4"

text \<open>A new array, as \<open>get_Record\<close> and \<open>INIT_RESOURCE\<close> fill it.\<close>

definition new_rec :: "nat \<Rightarrow> nat \<Rightarrow> rec" where
  "new_rec i j =
    (if j < 2 ^ 16 - 1
     then \<lparr>r_next = of_nat (j + 1), r_self = push_bit 16 (of_nat i) OR of_nat j, r_nextRecord = 0, r_pointer = 0\<rparr>
     else \<lparr>r_next = NEXTTAILBIT 16, r_self = push_bit 16 (of_nat i) OR (push_bit 16 1 - 1), r_nextRecord = 0, r_pointer = 0\<rparr>)"

text \<open>One round over the arrays, starting at \<open>recordTake\<close>, a \<open>long\<close> that the code takes modulo the
  number of arrays: when the counter has wrapped the index is negative and outside the array of
  queues.\<close>

fun take_modulo :: "nat \<Rightarrow> nat \<Rightarrow> nat \<Rightarrow> nat \<Rightarrow> ((64 word, 'z) growing_map_scheme, loc option) prog" where
  "take_modulo fuel tid localArrayNum 0 = Ret None"
| "take_modulo fuel tid localArrayNum (Suc i) =
    fetch recordTake (\<lambda>s. s\<lparr>recordTake := recordTake s + 1\<rparr>) (\<lambda>localR.
    let array = sint localR smod int localArrayNum in
    if array < 0 then Crash else
    bind (try_queue fuel 16 False tid (nat array)) (\<lambda>r.
    case r of Some head \<Rightarrow> Ret (Some head) | None \<Rightarrow> take_modulo fuel tid localArrayNum i))"

definition add_array :: "nat \<Rightarrow> ((64 word, 'z) growing_map_scheme, 'a) prog \<Rightarrow> ((64 word, 'z) growing_map_scheme, 'a) prog" where
  "add_array localArrayNum k =
    ld (\<lambda>s. ARRAYNUM s) (\<lambda>num.
    if localArrayNum = num then
      let count = ld (\<lambda>s. ARRAYNUM s) (\<lambda>num.
        if localArrayNum = num then
          cas (\<lambda>s. ARRAYNUM s = localArrayNum) (\<lambda>s. s\<lparr>ARRAYNUM := localArrayNum + 1\<rparr>) (\<lambda>_. k)
        else k)
      in ld (\<lambda>s. Records s localArrayNum = None) (\<lambda>missing.
        if missing then
          cas (\<lambda>s. Records s localArrayNum = None)
              (\<lambda>s. s\<lparr>Records := (Records s)(localArrayNum \<mapsto> new_rec localArrayNum)\<rparr>) (\<lambda>_. count)
        else count)
    else k)"

fun growing_get :: "nat \<Rightarrow> nat \<Rightarrow> nat \<Rightarrow> ((64 word, 'z) growing_map_scheme, loc option) prog" where
  "growing_get 0 fuel tid = Spin"
| "growing_get (Suc rounds) fuel tid =
    ld (\<lambda>s. ARRAYNUM s) (\<lambda>localArrayNum.
    bind (try_queue fuel 16 False tid (localArrayNum - 1)) (\<lambda>r. case r of Some head \<Rightarrow> Ret (Some head) | None \<Rightarrow>
    bind (take_modulo fuel tid localArrayNum localArrayNum) (\<lambda>r. case r of Some head \<Rightarrow> Ret (Some head) | None \<Rightarrow>
    bind (scan_arrays fuel 16 True tid [0..<localArrayNum]) (\<lambda>r. case r of Some head \<Rightarrow> Ret (Some head) | None \<Rightarrow>
    if localArrayNum = ARRAYNUM_MAX then Ret None
    else add_array localArrayNum (growing_get rounds fuel tid)))))"

definition growing_return :: "nat \<Rightarrow> nat \<Rightarrow> loc \<Rightarrow> ((64 word, 'z) growing_map_scheme, unit) prog" where
  "growing_return fuel tid = return_Record fuel 16 4 tid"

text \<open>\<open>INIT_RESOURCE\<close>: the first arrays, the queues of all 16, then the lists.\<close>

definition growing_init :: "(64 word, 'z) growing_map_scheme \<Rightarrow> (64 word, 'z) growing_map_scheme" where
  "growing_init s = s\<lparr>
     Records := (\<lambda>i. if i < ARRAYNUM s then Some (new_rec i) else Records s i),
     qhead := (\<lambda>i. if i < ARRAYNUM_MAX then 0 else qhead s i),
     qtail := (\<lambda>i. if i < ARRAYNUM_MAX then push_bit 16 1 - 1 else qtail s i)\<rparr>"

definition growing_INIT :: "nat \<Rightarrow> nat \<Rightarrow> nat \<Rightarrow> ((64 word, 'z) growing_map_scheme, unit) prog" where
  "growing_INIT listNum fuel tid = st growing_init (init_lists layout_map (growing_get fuel fuel tid) [0..<listNum])"

text \<open>\<open>psly_record\<close>, \<open>psly_remove\<close> and \<open>psly_search\<close>.\<close>

definition growing_op :: "nat \<Rightarrow> nat \<Rightarrow> flag \<Rightarrow> 64 word \<Rightarrow> ((64 word, 'z) growing_map_scheme, int) prog" where
  "growing_op fuel tid = prevs_op layout_map (growing_get fuel fuel tid) (growing_return fuel tid) fuel tid"

text \<open>\<open>UNINIT_RESOURCE\<close>: the loop over the arrays frees \<open>psly_Records[i]\<close>, where \<open>i\<close> is not its own
  counter but whatever \<open>INIT_RESOURCE\<close> left in it; \<open>None\<close> is a free outside the array of
  arrays, or of one that is not allocated.\<close>

fun free_arrays :: "nat list \<Rightarrow> ('c, 'z) pool_scheme \<Rightarrow> ('c, 'z) pool_scheme option" where
  "free_arrays [] s = Some s"
| "free_arrays (i # is) s =
    (if i < ARRAYNUM_MAX \<and> Records s i \<noteq> None then free_arrays is (s\<lparr>Records := (Records s)(i := None)\<rparr>) else None)"

definition growing_UNINIT :: "nat \<Rightarrow> nat \<Rightarrow> (64 word, 'z) growing_map_scheme \<Rightarrow> (64 word, 'z) growing_map_scheme option" where
  "growing_UNINIT listNum i s =
     map_option (\<lambda>s. s\<lparr>lists := (\<lambda>j. if j < listNum then None else lists s j)\<rparr>) (free_arrays (replicate (ARRAYNUM s) i) s)"

section \<open>The pool\<close>

text \<open>An array that is not in use yet: its queue is as \<open>INIT_RESOURCE\<close> left it, and when a thread has
  already put the array there but not counted it, all its records are free.\<close>

definition fresh_array :: "nat \<Rightarrow> ('c, 'z) pool_scheme \<Rightarrow> bool" where
  "fresh_array a s \<longleftrightarrow> ofs 16 (qhead s a) = 0 \<and> ofs 16 (qtail s a) = 2 ^ 16 - 1 \<and>
     (Records s a \<noteq> None \<longrightarrow> free_queue False 16 a [0..<2 ^ 16] s)"

definition growing_queues :: "bool \<Rightarrow> (nat \<Rightarrow> nat list) \<Rightarrow> (64 word, 'z) growing_map_scheme \<Rightarrow> bool" where
  "growing_queues lag Q s \<longleftrightarrow> 0 < ARRAYNUM s \<and> ARRAYNUM s \<le> ARRAYNUM_MAX \<and> pool_ok lag 16 (ARRAYNUM s) Q s \<and>
     (\<forall>a. ARRAYNUM s \<le> a \<longrightarrow> a < ARRAYNUM_MAX \<longrightarrow> fresh_array a s \<and> Q a = [0..<2 ^ 16])"

definition growing_ok :: "bool \<Rightarrow> nat \<Rightarrow> loc set \<Rightarrow> (64 word, 'z) growing_map_scheme \<Rightarrow> bool" where
  "growing_ok lag b F s \<longleftrightarrow> (\<exists>Q. growing_queues lag Q s \<and> F = free_set 4 Q) \<and> 2 ^ 4 + b \<le> card F \<and>
     0 \<le> sint (recordTake s) \<and> sint (recordTake s) + 16 * int b < 2 ^ 63"

lemma free_queue_lag: "free_queue False n a q s \<Longrightarrow> free_queue lag n a q s"
  by (auto simp: free_queue_def)

lemma new_rec_queue:
  assumes "fresh_array a s" and "Records s a = None"
  shows "free_queue False 16 a [0..<2 ^ 16] (s\<lparr>Records := (Records s)(a \<mapsto> new_rec a)\<rparr>)"
proof -
  have n: "r_next (new_rec a j) = r_next (init_rec 16 a j)" "r_self (new_rec a j) = r_self (init_rec 16 a j)" for j
    by (simp_all add: new_rec_def init_rec_def)
  have "linked 16 (new_rec a) [0..<2 ^ 16]"
    using linked_upt [of 0 16 a] by (subst linked_cong [where arr' = "init_rec 16 a"]) (simp_all only: n, simp_all)
  moreover have "\<forall>j < 2 ^ 16. r_self (new_rec a j) = self_word 16 (a, j)" using init_rec_self by (simp add: n(2))
  moreover have "hd [0..<2 ^ 16 :: nat] = 0" "last [0..<2 ^ 16 :: nat] = 2 ^ 16 - 1" by (simp_all add: hd_upt last_upt)
  ultimately show ?thesis using assms(1) unfolding free_queue_def fresh_array_def by (intro exI [of _ "new_rec a"]) simp
qed

lemma fresh_others: "others a s t \<Longrightarrow> b \<noteq> a \<Longrightarrow> fresh_array b t = fresh_array b s"
  by (simp add: fresh_array_def others_def free_queue_def)

lemma growing_frame: "pool_frame s t \<Longrightarrow> ARRAYNUM t = ARRAYNUM s \<and> steps t = steps s \<and> lists t = lists s"
proof -
  assume "pool_frame s t"
  then have "pool.more t = pool.more s" by (auto simp: pool_frame_def dest: pool_rest_more)
  then show ?thesis by (cases s, cases t) simp
qed

lemma map_keepsI:
  assumes "\<And>l r. rget l s = Some r \<Longrightarrow> rget l t = Some r" and "lists t = lists s"
  shows "map_keeps N s t"
proof -
  have "r = r\<lparr>r_next := r_next r\<rparr>" for r :: rec by simp
  with assms show ?thesis unfolding map_keeps_def by metis
qed

lemma map_keeps_frame: "pool_frame s t \<Longrightarrow> map_keeps {} s t"
  by (intro map_keeps_pool pool_keeps_frame)

lemma growing_took:
  assumes "growing_queues lag Q s" and "took (ARRAYNUM s) Q l Q'" and "pool_ok lag 16 (ARRAYNUM s) Q' t"
    and "others (fst l) s t" and "pool_frame s t"
  shows "growing_queues lag Q' t"
proof -
  have "fst l < ARRAYNUM s" "Q' = Q(fst l := List.tl (Q (fst l)))" using assms(2) by (auto simp: took_def)
  with assms fresh_others [OF assms(4)] growing_frame [OF assms(5)] show ?thesis
    by (auto simp: growing_queues_def)
qed

section \<open>Taking and returning a record, alone\<close>

text \<open>The signed remainder of C and the increment of a signed 64-bit counter.\<close>

lemma smod_nonneg: "0 \<le> x \<Longrightarrow> 0 < N \<Longrightarrow> x smod int N = x mod int N"
  by (cases "x = 0") (simp_all add: signed_modulo_int_def signed_divide_int_def minus_div_mult_eq_mod sgn_1_pos)

lemma smod_neg:
  assumes "x < 0" and "\<not> int N dvd x"
  shows "x smod int N < 0"
proof -
  have m: "(- x) mod int N \<noteq> 0" using assms(2) by (simp add: dvd_eq_mod_eq_0 [symmetric] del: mod_minus_eq)
  have "x smod int N = - ((- x) mod int N)"
    using assms(1) by (cases "N = 0") (simp_all add: signed_modulo_int_def signed_divide_int_def minus_div_mult_eq_mod [symmetric])
  moreover have "0 \<le> (- x) mod int N" using assms(1) by (cases "N = 0") simp_all
  ultimately show ?thesis using m by linarith
qed

lemma smod_dvd: "int N dvd x \<Longrightarrow> x smod int N = 0"
  by (auto simp: signed_modulo_int_def signed_divide_int_def dvd_def sgn_mult abs_mult)

lemma sint_succ: "sint (w + 1 :: 64 word) = (if sint w = 2 ^ 63 - 1 then - (2 ^ 63) else sint w + 1)"
proof -
  have r: "- (2 ^ 63) \<le> sint w" "sint w < 2 ^ 63" using sint_ge [of w] sint_less [of w] by simp_all
  show ?thesis
  proof (cases "sint w = 2 ^ 63 - 1")
    case True
    then show ?thesis unfolding sint_word_ariths(1) by (simp add: signed_take_bit_eq_if_positive signed_take_bit_eq_if_negative bit_iff_odd take_bit_eq_mod)
  next
    case False
    with r show ?thesis unfolding sint_word_ariths(1) by (subst signed_take_bit_int_eq_self) simp_all
  qed
qed

definition take_range :: "int \<Rightarrow> (64 word, 'z) pool_scheme \<Rightarrow> bool" where
  "take_range i s \<longleftrightarrow> 0 \<le> sint (recordTake s) \<and> sint (recordTake s) + i < 2 ^ 63"

lemma take_range_step:
  assumes "take_range (1 + i) s" and "0 \<le> i"
  shows "take_range i (s\<lparr>recordTake := recordTake s + 1\<rparr>)"
proof -
  have "sint (recordTake s + 1) = sint (recordTake s) + 1" using assms by (simp add: take_range_def sint_succ)
  with assms show ?thesis by (simp add: take_range_def)
qed

lemma take_range_others: "others a s t \<Longrightarrow> take_range i t = take_range i s"
  by (simp add: others_def take_range_def)

lemma growing_take [simp]: "growing_queues lag Q (s\<lparr>recordTake := w\<rparr>) = growing_queues lag Q s"
  by (simp add: growing_queues_def pool_ok_def fresh_array_def)

lemma take_modulo_solo:
  assumes "growing_queues lag Q s" and "2 \<le> fuel" and "take_range (int i + c) s" and "0 \<le> c"
  shows "\<exists>r t. run (take_modulo fuel tid (ARRAYNUM s) i) s = Done r t \<and> pool_frame s t \<and> take_range c t \<and>
    (case r of None \<Rightarrow> growing_queues lag Q t | Some l \<Rightarrow> (\<exists>Q'. took (ARRAYNUM s) Q l Q' \<and> growing_queues lag Q' t))"
  using assms(1,3)
proof (induction i arbitrary: s)
  case 0
  then show ?case by simp
next
  case (Suc i)
  obtain f where f: "fuel = Suc (Suc f)" using assms(2) by (metis Suc_le_D numeral_2_eq_2 Suc_le_mono)
  let ?s = "s\<lparr>recordTake := recordTake s + 1\<rparr>" and ?N = "ARRAYNUM s"
  let ?a = "sint (recordTake s) smod int ?N"
  have N: "0 < ?N" "pool_ok lag 16 ?N Q ?s" using Suc.prems(1) by (simp_all add: growing_queues_def pool_ok_def)
  have "?a = sint (recordTake s) mod int ?N"
    using Suc.prems(2) N(1) by (simp add: take_range_def smod_nonneg)
  then have a: "0 \<le> ?a" "nat ?a < ?N" using N(1) by (simp_all add: nat_less_iff)
  have fr: "pool_frame s ?s" by (rule pool_frameI) simp_all
  have tr: "take_range (int i + c) ?s" by (rule take_range_step) (use Suc.prems(2) assms(4) in \<open>simp_all add: ac_simps\<close>)
  have gq: "growing_queues lag Q ?s" using Suc.prems(1) by simp
  have step: "run (take_modulo fuel tid ?N (Suc i)) s = bind_outcome (run (try_queue fuel 16 False tid (nat ?a)) ?s)
      (\<lambda>r. case r of Some head \<Rightarrow> Ret (Some head) | None \<Rightarrow> take_modulo fuel tid ?N i)"
    using a(1) by (simp add: Let_def)
  from try_queue_solo [OF N(2) a(2), of f False tid] show ?case
    unfolding f [symmetric]
  proof
    assume "length (Q (nat ?a)) = 1 \<and> run (try_queue fuel 16 False tid (nat ?a)) ?s = Done None ?s"
    then have e: "run (try_queue fuel 16 False tid (nat ?a)) ?s = Done None ?s" ..
    have "ARRAYNUM ?s = ?N" by simp
    from Suc.IH [OF gq tr, unfolded this] obtain r t where
      t: "run (take_modulo fuel tid ?N i) ?s = Done r t" "pool_frame ?s t" "take_range c t"
        "case r of None \<Rightarrow> growing_queues lag Q t | Some l \<Rightarrow> (\<exists>Q'. took ?N Q l Q' \<and> growing_queues lag Q' t)" by blast
    have "run (take_modulo fuel tid ?N (Suc i)) s = Done r t" unfolding step e by (simp add: t(1))
    with t(3,4) pool_frame_trans [OF fr t(2)] show ?thesis by blast
  next
    assume "\<exists>t Q'. run (try_queue fuel 16 False tid (nat ?a)) ?s = Done (Some (nat ?a, hd (Q (nat ?a)))) t \<and>
      took ?N Q (nat ?a, hd (Q (nat ?a))) Q' \<and> pool_ok lag 16 ?N Q' t \<and> pool_frame ?s t \<and> others (nat ?a) ?s t"
    then obtain t Q' where t: "run (try_queue fuel 16 False tid (nat ?a)) ?s = Done (Some (nat ?a, hd (Q (nat ?a)))) t"
      "took ?N Q (nat ?a, hd (Q (nat ?a))) Q'" "pool_ok lag 16 ?N Q' t" "pool_frame ?s t" "others (nat ?a) ?s t" by blast
    have "growing_queues lag Q' t" using growing_took [OF gq _ _ _ t(4)] t(2,3,5) by simp
    moreover have "take_range c t" using tr take_range_others [OF t(5)] by (simp add: take_range_def)
    moreover have "run (take_modulo fuel tid ?N (Suc i)) s = Done (Some (nat ?a, hd (Q (nat ?a)))) t"
      unfolding step t(1) by simp
    ultimately show ?thesis using t(2) pool_frame_trans [OF fr t(4)]
      by (intro exI [of _ "Some (nat ?a, hd (Q (nat ?a)))"] exI [of _ t]) auto
  qed
qed

definition got_record :: "bool \<Rightarrow> (nat \<Rightarrow> nat list) \<Rightarrow> loc \<Rightarrow> (64 word, 'z) growing_map_scheme \<Rightarrow> bool" where
  "got_record lag Q l t \<longleftrightarrow> (\<exists>Q'. took (ARRAYNUM t) Q l Q' \<and> growing_queues lag Q' t)"

lemma try_growing:
  assumes "growing_queues lag Q s" and "a < ARRAYNUM s" and "2 \<le> fuel"
  shows "(length (Q a) = 1 \<and> run (try_queue fuel 16 retry tid a) s = Done None s) \<or>
    (\<exists>l t. run (try_queue fuel 16 retry tid a) s = Done (Some l) t \<and> got_record lag Q l t \<and> pool_frame s t \<and>
      take_range c t = take_range c s)"
proof -
  obtain f where f: "fuel = Suc (Suc f)" using assms(3) by (metis Suc_le_D numeral_2_eq_2 Suc_le_mono)
  have ok: "pool_ok lag 16 (ARRAYNUM s) Q s" using assms(1) by (simp add: growing_queues_def)
  from try_queue_solo [OF ok assms(2), of f retry tid] show ?thesis
    unfolding f [symmetric]
  proof (rule disj_forward)
    assume "\<exists>t Q'. run (try_queue fuel 16 retry tid a) s = Done (Some (a, hd (Q a))) t \<and> took (ARRAYNUM s) Q (a, hd (Q a)) Q' \<and>
      pool_ok lag 16 (ARRAYNUM s) Q' t \<and> pool_frame s t \<and> others a s t"
    then obtain t Q' where t: "run (try_queue fuel 16 retry tid a) s = Done (Some (a, hd (Q a))) t"
      "took (ARRAYNUM s) Q (a, hd (Q a)) Q'" "pool_ok lag 16 (ARRAYNUM s) Q' t" "pool_frame s t" "others a s t" by blast
    have "growing_queues lag Q' t" using growing_took [OF assms(1) t(2,3) _ t(4)] t(5) by simp
    with t growing_frame [OF t(4)] take_range_others [OF t(5)]
    show "\<exists>l t. run (try_queue fuel 16 retry tid a) s = Done (Some l) t \<and> got_record lag Q l t \<and> pool_frame s t \<and>
      take_range c t = take_range c s"
      by (intro exI [of _ "(a, hd (Q a))"] exI [of _ t]) (auto simp: got_record_def)
  qed
qed

lemma scan_growing:
  assumes "growing_queues lag Q s" and "2 \<le> fuel" and "set as \<subseteq> {..<ARRAYNUM s}"
  shows "(run (scan_arrays fuel 16 retry tid as) s = Done None s \<and> (\<forall>a \<in> set as. length (Q a) = 1)) \<or>
    (\<exists>l t. run (scan_arrays fuel 16 retry tid as) s = Done (Some l) t \<and> got_record lag Q l t \<and> pool_frame s t \<and>
      take_range c t = take_range c s)"
  using assms(3)
proof (induction "as")
  case (Cons a "as")
  from try_growing [OF assms(1) _ assms(2), of a retry tid c] Cons show ?case by auto
qed simp

lemma growing_round:
  fixes tid :: nat
  assumes "growing_queues lag Q s" and "2 \<le> fuel" and "take_range (int (ARRAYNUM s) + c) s" and "0 \<le> c"
  defines "N \<equiv> ARRAYNUM s"
  defines "P \<equiv> \<lambda>k. bind (try_queue fuel 16 False tid (N - 1)) (\<lambda>r. case r of Some head \<Rightarrow> Ret (Some head) | None \<Rightarrow>
    bind (take_modulo fuel tid N N) (\<lambda>r. case r of Some head \<Rightarrow> Ret (Some head) | None \<Rightarrow>
    bind (scan_arrays fuel 16 True tid [0..<N]) (\<lambda>r. case r of Some head \<Rightarrow> Ret (Some head) | None \<Rightarrow> k)))"
  shows "(\<exists>l t. (\<forall>k. run (P k) s = Done (Some l) t) \<and> got_record lag Q l t \<and> pool_frame s t \<and> take_range c t) \<or>
    (\<exists>t. (\<forall>k. run (P k) s = run k t) \<and> growing_queues lag Q t \<and> pool_frame s t \<and> take_range c t \<and> (\<forall>a<N. length (Q a) = 1))"
proof -
  have N: "N - 1 < ARRAYNUM s" "N = ARRAYNUM s" using assms(1) by (simp_all add: growing_queues_def N_def)
  have tc: "take_range c s" using assms(3) unfolding take_range_def by linarith
  from try_growing [OF assms(1) N(1) assms(2), of False tid c] show ?thesis
  proof
    assume "\<exists>l t. run (try_queue fuel 16 False tid (N - 1)) s = Done (Some l) t \<and> got_record lag Q l t \<and> pool_frame s t \<and>
      take_range c t = take_range c s"
    with tc show ?thesis unfolding P_def by auto
  next
    assume 1: "length (Q (N - 1)) = 1 \<and> run (try_queue fuel 16 False tid (N - 1)) s = Done None s"
    from take_modulo_solo [OF assms(1-4), of tid] obtain r t where
      t: "run (take_modulo fuel tid N N) s = Done r t" "pool_frame s t" "take_range c t"
        "case r of None \<Rightarrow> growing_queues lag Q t | Some l \<Rightarrow> (\<exists>Q'. took N Q l Q' \<and> growing_queues lag Q' t)"
      unfolding N_def by blast
    have n: "ARRAYNUM t = N" using growing_frame [OF t(2)] N_def by simp
    show ?thesis
    proof (cases r)
      case (Some l)
      with t 1 n show ?thesis unfolding P_def got_record_def by (intro disjI1 exI [of _ l] exI [of _ t]) auto
    next
      case None
      with t(4) have gq: "growing_queues lag Q t" by simp
      have "set [0..<N] \<subseteq> {..<ARRAYNUM t}" using n by auto
      from scan_growing [OF gq assms(2) this, of True tid c] show ?thesis
      proof
        assume "run (scan_arrays fuel 16 True tid [0..<N]) t = Done None t \<and> (\<forall>a \<in> set [0..<N]. length (Q a) = 1)"
        with 1 t None gq show ?thesis unfolding P_def by (intro disjI2 exI [of _ t]) auto
      next
        assume "\<exists>l u. run (scan_arrays fuel 16 True tid [0..<N]) t = Done (Some l) u \<and> got_record lag Q l u \<and> pool_frame t u \<and>
          take_range c u = take_range c t"
        then obtain l u where "run (scan_arrays fuel 16 True tid [0..<N]) t = Done (Some l) u" "got_record lag Q l u"
          "pool_frame t u" "take_range c u = take_range c t" by blast
        with 1 t None pool_frame_trans [OF t(2)] show ?thesis
          unfolding P_def by (intro disjI1 exI [of _ l] exI [of _ u]) auto
      qed
    qed
  qed
qed

lemma add_array_run:
  assumes "growing_queues lag Q s" and "ARRAYNUM s \<noteq> ARRAYNUM_MAX"
  shows "\<exists>t. (\<forall>k. run (add_array (ARRAYNUM s) k) s = run k t) \<and> growing_queues lag Q t \<and> ARRAYNUM t = Suc (ARRAYNUM s) \<and>
    map_keeps {} s t \<and> steps t = steps s \<and> take_range c t = take_range c s"
proof -
  let ?N = "ARRAYNUM s"
  define u where "u = (if Records s ?N = None then s\<lparr>Records := (Records s)(?N \<mapsto> new_rec ?N)\<rparr> else s)"
  let ?t = "u\<lparr>ARRAYNUM := Suc ?N\<rparr>"
  have u: "lists u = lists s" "steps u = steps s" "recordTake u = recordTake s" "qhead u = qhead s" "qtail u = qtail s"
    "\<And>b. b \<noteq> ?N \<Longrightarrow> Records u b = Records s b"
    by (simp_all add: u_def)
  have gq: "0 < ?N" "pool_ok lag 16 ?N Q s" "?N < ARRAYNUM_MAX" "fresh_array ?N s" "Q ?N = [0..<2 ^ 16]"
      "\<And>a. ?N \<le> a \<Longrightarrow> a < ARRAYNUM_MAX \<Longrightarrow> fresh_array a s \<and> Q a = [0..<2 ^ 16]"
    using assms by (auto simp: growing_queues_def)
  have o: "others ?N s ?t" using u by (simp add: others_def)
  have "free_queue False 16 ?N (Q ?N) u"
    using gq(4,5) new_rec_queue [OF gq(4)] by (auto simp: fresh_array_def u_def)
  then have "free_queue False 16 ?N (Q ?N) ?t" by (simp add: free_queue_def)
  then have n: "free_queue lag 16 ?N (Q ?N) ?t" by (rule free_queue_lag)
  have "pool_ok lag 16 (Suc ?N) Q ?t"
    unfolding pool_ok_def
  proof (intro allI impI)
    fix a assume "a < Suc ?N"
    then consider "a = ?N" | "a \<noteq> ?N" "a < ?N" by linarith
    then show "free_queue lag 16 a (Q a) ?t"
    proof cases
      case 1
      with n show ?thesis by simp
    next
      case 2
      with gq(2) others_free [OF o 2(1)] show ?thesis by (simp add: pool_ok_def)
    qed
  qed
  moreover have "fresh_array a ?t \<and> Q a = [0..<2 ^ 16]" if "Suc ?N \<le> a" "a < ARRAYNUM_MAX" for a
    using gq(6) [of a] fresh_others [OF o, of a] that by simp
  ultimately have q: "growing_queues lag Q ?t" using gq(1,3) by (simp add: growing_queues_def)
  have "rget l s = Some r \<Longrightarrow> rget l ?t = Some r" for l r by (auto simp: rget_def u_def)
  moreover have "lists ?t = lists s" by (simp add: u(1))
  ultimately have "map_keeps {} s ?t" by (rule map_keepsI)
  moreover have "run (add_array ?N k) s = run k ?t" for k by (auto simp: add_array_def Let_def u_def)
  moreover have "take_range c ?t = take_range c s" by (simp add: take_range_def u)
  moreover have "ARRAYNUM ?t = Suc ?N" "steps ?t = steps s" by (simp_all add: u(2))
  ultimately show ?thesis using q by blast
qed

lemma growing_Q:
  assumes "growing_queues lag Q s" and "a < ARRAYNUM_MAX"
  shows "distinct (Q a)" and "\<forall>x \<in> set (Q a). x < 2 ^ 16"
  using assms by (cases "a < ARRAYNUM s"; auto simp: growing_queues_def pool_ok_def free_queue_def)+

lemma got_record_facts:
  assumes "got_record lag Q l t" and "growing_queues lag Q s"
  shows "l \<in> free_set 4 Q" and "is_loc layout_map l" and "rget l t \<noteq> None"
    and "\<exists>Q'. growing_queues lag Q' t \<and> free_set 4 Q' = free_set 4 Q - {l}"
proof -
  from assms(1) obtain Q' where t: "took (ARRAYNUM t) Q l Q'" "growing_queues lag Q' t" by (auto simp: got_record_def)
  have n: "ARRAYNUM t \<le> 2 ^ 4" "pool_ok lag 16 (ARRAYNUM t) Q' t" using t(2) by (simp_all add: growing_queues_def ARRAYNUM_MAX_def)
  have l: "fst l < ARRAYNUM t" "2 \<le> length (Q (fst l))" "snd l = hd (Q (fst l))" "Q' = Q(fst l := List.tl (Q (fst l)))"
    using t(1) by (auto simp: took_def)
  have "fst l < ARRAYNUM_MAX" using l(1) n(1) by (simp add: ARRAYNUM_MAX_def)
  note gQ = growing_Q [OF assms(2) this]
  have tk: "took (2 ^ 4) Q l Q'" using t(1) n(1) by (simp add: took_def)
  note fs = free_set_took [OF tk gQ(1)]
  show "l \<in> free_set 4 Q" by (rule fs(1))
  show "\<exists>Q'. growing_queues lag Q' t \<and> free_set 4 Q' = free_set 4 Q - {l}" using fs(2) t(2) by blast
  have "snd l \<in> set (Q (fst l))" using l(2,3) by (cases "Q (fst l)") auto
  then show "is_loc layout_map l" using gQ(2) l(1) n(1) by (auto simp: is_loc_def layout_map_def)
  have fq: "free_queue lag 16 (fst l) (Q' (fst l)) t" using n(2) l(1) by (simp add: pool_ok_def)
  show "rget l t \<noteq> None" using free_queue_alloc [OF fq, of "snd l"] by simp
qed

lemma growing_get_run:
  assumes ok: "growing_ok lag (Suc b) F s" and fuel: "2 \<le> fuel"
  shows "\<exists>l t. run (growing_get (Suc (Suc rounds)) fuel tid) s = Done (Some l) t \<and> map_keeps {} s t \<and> steps t = steps s \<and>
    l \<in> F \<and> is_loc layout_map l \<and> rget l t \<noteq> None \<and> growing_ok lag b (F - {l}) t"
proof -
  from ok obtain Q where Q: "growing_queues lag Q s" "F = free_set 4 Q" "2 ^ 4 + Suc b \<le> card F"
    and tr: "take_range (16 + 16 * int b) s" by (auto simp: growing_ok_def take_range_def)
  let ?N = "ARRAYNUM s" and ?c = "16 * int b"
  have N: "?N \<le> 16" using Q(1) by (simp add: growing_queues_def ARRAYNUM_MAX_def)
  have tr: "take_range (int ?N + ?c) s" using tr N unfolding take_range_def by linarith
  have *: ?thesis if "run (growing_get (Suc (Suc rounds)) fuel tid) s = Done (Some l) t" "got_record lag Q l t"
      "map_keeps {} s t" "steps t = steps s" "take_range ?c t" for l t
  proof -
    note gf = got_record_facts [OF that(2) Q(1)]
    obtain Q' where Q': "growing_queues lag Q' t" "free_set 4 Q' = F - {l}" using gf(4) Q(2) by auto
    have "card (F - {l}) = card F - 1" using gf(1) Q(2) by simp
    then have "2 ^ 4 + b \<le> card (F - {l})" using Q(3) by simp
    moreover have "0 \<le> sint (recordTake t)" "sint (recordTake t) + 16 * int b < 2 ^ 63"
      using that(5) by (simp_all add: take_range_def)
    ultimately have "growing_ok lag b (F - {l}) t" using Q' unfolding growing_ok_def by blast
    moreover have "l \<in> F" using gf(1) Q(2) by simp
    ultimately show ?thesis using that(1,3,4) gf(2,3) by blast
  qed
  have unf: "run (growing_get (Suc (Suc rounds)) fuel tid) s =
      run (bind (try_queue fuel 16 False tid (?N - 1)) (\<lambda>r. case r of Some head \<Rightarrow> Ret (Some head) | None \<Rightarrow>
        bind (take_modulo fuel tid ?N ?N) (\<lambda>r. case r of Some head \<Rightarrow> Ret (Some head) | None \<Rightarrow>
        bind (scan_arrays fuel 16 True tid [0..<?N]) (\<lambda>r. case r of Some head \<Rightarrow> Ret (Some head) | None \<Rightarrow>
        if ?N = ARRAYNUM_MAX then Ret None else add_array ?N (growing_get (Suc rounds) fuel tid))))) s"
    by (simp only: growing_get.simps(2) run_ld)
  have c0: "0 \<le> ?c" by simp
  from growing_round [OF Q(1) fuel tr c0, of tid] show ?thesis
  proof (elim disjE exE conjE)
    fix l t
    assume "\<forall>k. run (bind (try_queue fuel 16 False tid (?N - 1)) (\<lambda>r. case r of Some head \<Rightarrow> Ret (Some head) | None \<Rightarrow>
        bind (take_modulo fuel tid ?N ?N) (\<lambda>r. case r of Some head \<Rightarrow> Ret (Some head) | None \<Rightarrow>
        bind (scan_arrays fuel 16 True tid [0..<?N]) (\<lambda>r. case r of Some head \<Rightarrow> Ret (Some head) | None \<Rightarrow> k)))) s = Done (Some l) t"
      and g: "got_record lag Q l t" and f: "pool_frame s t" and c: "take_range ?c t"
    then have "run (growing_get (Suc (Suc rounds)) fuel tid) s = Done (Some l) t" unfolding unf by blast
    from * [OF this g _ _ c] growing_frame [OF f] map_keeps_frame [OF f] show ?thesis by simp
  next
    fix t
    assume k: "\<forall>k. run (bind (try_queue fuel 16 False tid (?N - 1)) (\<lambda>r. case r of Some head \<Rightarrow> Ret (Some head) | None \<Rightarrow>
        bind (take_modulo fuel tid ?N ?N) (\<lambda>r. case r of Some head \<Rightarrow> Ret (Some head) | None \<Rightarrow>
        bind (scan_arrays fuel 16 True tid [0..<?N]) (\<lambda>r. case r of Some head \<Rightarrow> Ret (Some head) | None \<Rightarrow> k)))) s = run k t"
      and g: "growing_queues lag Q t" and f: "pool_frame s t" and c: "take_range ?c t" and one: "\<forall>a < ?N. length (Q a) = 1"
    have nt: "ARRAYNUM t = ?N" "steps t = steps s" using growing_frame [OF f] by simp_all
    have "?N \<noteq> ARRAYNUM_MAX"
    proof
      assume "?N = ARRAYNUM_MAX"
      with one have "card (set (Q a)) = 1" if "a < 2 ^ 4" for a
        using growing_Q(1) [OF Q(1), of a] that distinct_card [of "Q a"] by (simp add: ARRAYNUM_MAX_def)
      then have "card F = 2 ^ 4" unfolding Q(2) free_set_def by (subst card_SigmaI) simp_all
      with Q(3) show False by simp
    qed
    with add_array_run [OF g, of ?c] nt obtain u where
      u: "\<And>k :: (_, loc option) prog. run (add_array ?N k) t = run k u" "growing_queues lag Q u" "ARRAYNUM u = Suc ?N"
        "map_keeps {} t u" "steps u = steps t" "take_range ?c u" using c by auto
    have "Q ?N = [0..<2 ^ 16]" using g \<open>?N \<noteq> ARRAYNUM_MAX\<close> nt N by (simp add: growing_queues_def)
    then have "length (Q ?N) \<noteq> 1" by simp
    with try_growing [OF u(2) _ fuel, of ?N False tid ?c] u(3,6) obtain l v where
      v: "run (try_queue fuel 16 False tid ?N) u = Done (Some l) v" "got_record lag Q l v" "pool_frame u v" "take_range ?c v" by auto
    have "run (growing_get (Suc (Suc rounds)) fuel tid) s = run (growing_get (Suc rounds) fuel tid) u"
      unfolding unf using k \<open>?N \<noteq> ARRAYNUM_MAX\<close> by (simp only: if_False u(1))
    also have "\<dots> = Done (Some l) v" using v(1) u(3) by simp
    finally have "run (growing_get (Suc (Suc rounds)) fuel tid) s = Done (Some l) v" .
    moreover have "map_keeps {} s v"
      by (rule map_keeps_trans [OF map_keeps_frame [OF f] map_keeps_trans [OF u(4) map_keeps_frame [OF v(3)]]])
    moreover have "steps v = steps s" using growing_frame [OF v(3)] u(5) nt(2) by simp
    ultimately show ?thesis using * [OF _ v(2) _ _ v(4)] by blast
  qed
qed

lemma growing_return_run:
  assumes ok: "growing_ok lag b F s" and l: "is_loc layout_map l" "l \<notin> F" "rget l s \<noteq> None"
  shows "\<exists>t. run (growing_return (Suc (Suc fuel)) tid l) s = Done () t \<and> map_keeps {} s t \<and> steps t = steps s \<and>
    growing_ok lag b (insert l F) t"
proof -
  from ok obtain Q where Q: "growing_queues lag Q s" "F = free_set 4 Q" "2 ^ 4 + b \<le> card F"
    and tr: "take_range (16 * int b) s" by (auto simp: growing_ok_def take_range_def)
  have lb: "fst l < 2 ^ 4" "snd l < 2 ^ 16" using l(1) by (simp_all add: is_loc_def layout_map_def)
  have nQ: "snd l \<notin> set (Q (fst l))" using l(2) lb(1) Q(2) by (cases l) (auto simp: free_set_def)
  have a: "fst l < ARRAYNUM s"
  proof (rule ccontr)
    assume "\<not> fst l < ARRAYNUM s"
    then have "Q (fst l) = [0..<2 ^ 16]" using Q(1) lb(1) by (simp add: growing_queues_def ARRAYNUM_MAX_def)
    with nQ lb(2) show False by simp
  qed
  have N: "ARRAYNUM s \<le> 2 ^ 4" "pool_ok lag 16 (ARRAYNUM s) Q s"
    using Q(1) by (simp_all add: growing_queues_def ARRAYNUM_MAX_def)
  let ?Q = "Q(fst l := Q (fst l) @ [snd l])"
  obtain t where t: "run (growing_return (Suc (Suc fuel)) tid l) s = Done () t" "pool_frame s t"
      "pool_ok lag 16 (ARRAYNUM s) ?Q t" "others (fst l) s t"
    using return_Record_run [OF N(2) a N(1) lb(2) nQ, of "Suc (Suc fuel)" tid] by (auto simp: growing_return_def)
  note fr = growing_frame [OF t(2)]
  have "growing_queues lag ?Q t"
    using Q(1) t(3) a fresh_others [OF t(4)] fr by (auto simp: growing_queues_def)
  moreover have "free_set 4 ?Q = insert l F"
    using lb(1) Q(2) by (cases l) (auto simp: free_set_def split: if_splits)
  moreover have "finite F" using Q(2) by (simp add: free_set_def)
  then have "card F \<le> card (insert l F)" by (intro card_mono) auto
  then have "2 ^ 4 + b \<le> card (insert l F)" using Q(3) by simp
  moreover have "take_range (16 * int b) t" using tr take_range_others [OF t(4)] by simp
  ultimately have "growing_ok lag b (insert l F) t" unfolding growing_ok_def take_range_def by metis
  with t(1) fr map_keeps_frame [OF t(2)] show ?thesis by blast
qed

lemma growing_updates [simp]:
  "growing_queues lag Q (s\<lparr>prevs := x\<rparr>) = growing_queues lag Q s" "growing_queues lag Q (s\<lparr>flagged := y\<rparr>) = growing_queues lag Q s"
  "growing_queues lag Q (s\<lparr>steps := w\<rparr>) = growing_queues lag Q s" "growing_queues lag Q (s\<lparr>lists := z\<rparr>) = growing_queues lag Q s"
  by (simp_all add: growing_queues_def pool_ok_def fresh_array_def free_queue_def)

lemma growing_rset:
  assumes "growing_queues lag Q s" and "\<And>r. r_next (f r) = r_next r \<and> r_self (f r) = r_self r"
  shows "growing_queues lag Q (rset l f s)"
proof -
  have "ARRAYNUM (rset l f s) = ARRAYNUM s" by (simp add: rset_def split: option.split)
  moreover have "Records (rset l f s) a = None \<longleftrightarrow> Records s a = None" for a by (simp add: rset_def split: option.split)
  ultimately show ?thesis
    using assms(1) by (simp add: growing_queues_def pool_ok_def fresh_array_def free_queue_rset [OF assms(2)])
qed

lemma growing_self:
  assumes "growing_queues lag Q s" and "is_loc layout_map l" and "rget l s = Some r"
  shows "r_self r = self_word 16 l"
proof -
  have l: "fst l < 2 ^ 4" "snd l < 2 ^ 16" "Records s (fst l) \<noteq> None"
    using assms(2,3) by (auto simp: is_loc_def layout_map_def rget_def)
  have "\<exists>lag q. free_queue lag 16 (fst l) q s"
  proof (cases "fst l < ARRAYNUM s")
    case True
    with assms(1) show ?thesis by (auto simp: growing_queues_def pool_ok_def)
  next
    case False
    with assms(1) l(1) have "fresh_array (fst l) s" by (simp add: growing_queues_def ARRAYNUM_MAX_def)
    with l(3) show ?thesis unfolding fresh_array_def by blast
  qed
  with l(2) assms(3) show ?thesis by (auto simp: free_queue_def rget_def)
qed

interpretation growing: cached_pool layout_map "growing_get (Suc (Suc u)) (Suc (Suc u)) tid :: ((64 word, 'z) growing_map_scheme, loc option) prog"
  "growing_return (Suc (Suc u)) tid" "growing_ok lag" tid for u tid lag
proof (unfold_locales, goal_cases)
  case 1
  show ?case by simp
next
  case (2 b F s)
  then show ?case by (auto simp: growing_ok_def)
next
  case (3 b F s l r)
  then show ?case using growing_self [of lag _ s l r] by (auto simp: growing_ok_def layout_map_def)
next
  case (4 b F s f l)
  then show ?case using growing_rset [of lag _ s f l] unfolding growing_ok_def by (metis rset_simps(3))
next
  case (5 b F s x)
  show ?case by (simp add: growing_ok_def)
next
  case (6 b F s x)
  show ?case by (simp add: growing_ok_def)
next
  case (7 b F s x)
  show ?case by (simp add: growing_ok_def)
next
  case (8 b F s x)
  then show ?case by (simp add: growing_ok_def)
next
  case (9 b F s)
  then show ?case by (rule growing_get_run) simp
next
  case (10 b F s l)
  then show ?case by (rule growing_return_run)
qed

section \<open>The map counts its keys\<close>

abbreviation growing_map_ok :: "nat \<Rightarrow> bool \<Rightarrow> nat \<Rightarrow> loc set \<Rightarrow> (nat \<Rightarrow> entry list) \<Rightarrow> (64 word, 'z) growing_map_scheme \<Rightarrow> bool" where
  "growing_map_ok tid lag b \<equiv> lists_ok layout_map (growing.ok' lag tid b) {..<2 ^ 17}"

lemma fuel_2: "2 ^ 20 \<le> fuel \<Longrightarrow> \<exists>g. fuel = Suc (Suc g)"
  by (cases fuel; cases "fuel - 1") auto

lemma growing_op_run:
  assumes "growing_map_ok tid lag (need f b) F E s" and fuel: "2 ^ 20 \<le> fuel"
    and "f = RECORD \<Longrightarrow> mcnt pointer_bucket E p < 65535"
  shows "\<exists>t E' F'. run (growing_op fuel tid f p) s = Done (int (op_count f (mcnt pointer_bucket E p))) t \<and>
    growing_map_ok tid lag b F' E' t \<and>
    mcnt pointer_bucket E' = (mcnt pointer_bucket E)(p := op_count f (mcnt pointer_bucket E p)) \<and> lists t = lists s \<and>
    (\<Union>i<2 ^ 17. nodes t E' i) \<union> F' = (\<Union>i<2 ^ 17. nodes s E i) \<union> F"
proof -
  obtain g where g: "fuel = Suc (Suc g)" using fuel_2 [OF fuel] by blast
  show ?thesis unfolding growing_op_def
    by (rule growing.prevs_op_run [where u = g, folded g, OF assms(1)])
      (use fuel assms(3) in \<open>simp_all add: layout_map_def\<close>)
qed

lemma card_all16: "card (free_set 4 (\<lambda>_. [0..<2 ^ 16])) = 1048576"
  unfolding free_set_def by (subst card_SigmaI) simp_all

text \<open>Memory as the program starts: four arrays are to be made, no queue was used.\<close>

definition growing_start :: "64 word growing_map \<Rightarrow> bool" where
  "growing_start s \<longleftrightarrow> ARRAYNUM s = 2 ^ 2 \<and> recordTake s = 0 \<and> Records s = Map.empty \<and> steps s = (\<lambda>_. 0)"

lemma growing_init_queues:
  assumes "growing_start s"
  shows "growing_queues False (\<lambda>_. [0..<2 ^ 16]) (growing_init s)"
proof -
  have t: "ofs 16 (push_bit 16 1 - 1) = 2 ^ 16 - 1" using ofs_pred [of 16] by (simp add: push_bit_eq_mult)
  have "free_queue False 16 a [0..<2 ^ 16] (growing_init s)" if "a < 4" for a
  proof -
    let ?e = "s\<lparr>qhead := \<lambda>_. 0, qtail := \<lambda>_. push_bit 16 1 - 1, Records := Map.empty\<rparr>"
    have "fresh_array a ?e" using t by (simp add: fresh_array_def)
    from new_rec_queue [OF this] have "free_queue False 16 a [0..<2 ^ 16] (?e\<lparr>Records := (Records ?e)(a \<mapsto> new_rec a)\<rparr>)" by simp
    moreover have "Records (growing_init s) a = Some (new_rec a)" "qhead (growing_init s) a = 0"
      "qtail (growing_init s) a = push_bit 16 1 - 1"
      using that assms by (simp_all add: growing_init_def growing_start_def ARRAYNUM_MAX_def)
    ultimately show ?thesis by (simp add: free_queue_def)
  qed
  moreover have "fresh_array a (growing_init s)" if "4 \<le> a" "a < 16" for a
    using that assms t by (simp add: fresh_array_def growing_init_def growing_start_def ARRAYNUM_MAX_def)
  ultimately show ?thesis
    using assms by (simp add: growing_queues_def pool_ok_def growing_init_def growing_start_def ARRAYNUM_MAX_def)
qed

lemma growing_init_run:
  assumes "growing_start s" and fuel: "2 ^ 20 \<le> fuel" and b: "b \<le> 786416"
  shows "\<exists>t F. run (growing_INIT (2 ^ 17) fuel tid) s = Done () t \<and> growing_map_ok tid False b F (\<lambda>_. []) t"
proof -
  obtain g where g: "fuel = Suc (Suc g)" using fuel_2 [OF fuel] by blast
  let ?F = "free_set 4 (\<lambda>_. [0..<2 ^ 16])" and ?s = "growing_init s"
  have "recordTake ?s = 0" "steps ?s tid = 0" using assms(1) by (simp_all add: growing_init_def growing_start_def)
  then have "growing.ok' False tid (b + 2 * length [0..<2 ^ 17]) ?F ?s"
    using growing_init_queues [OF assms(1)] b unfolding growing.ok'_def growing_ok_def card_all16 by auto
  then have "lists_ok layout_map (growing.ok' False tid (b + 2 * length [0..<2 ^ 17])) {} ?F (\<lambda>_. []) ?s"
    by (simp add: lists_ok_def)
  from growing.init_run [where u = g, folded g, OF this] obtain t F where
    "run (init_lists layout_map (growing_get fuel fuel tid) [0..<2 ^ 17]) ?s = Done () t"
    "lists_ok layout_map (growing.ok' False tid b) ({} \<union> set [0..<2 ^ 17]) F (\<lambda>_. []) t" by auto
  moreover have "{} \<union> set [0..<2 ^ 17] = {..<2 ^ 17 :: nat}" by auto
  ultimately show ?thesis by (auto simp: growing_INIT_def)
qed

lemma growing_program_run:
  assumes "growing_start s" and fuel: "2 ^ 20 \<le> fuel" and n: "length ops < 65536"
  shows "\<exists>t E F. run (bind (growing_INIT (2 ^ 17) fuel tid) (\<lambda>_. script (growing_op fuel tid) ops)) s
      = Done (counter ops (\<lambda>_. 0)) t \<and> growing_map_ok tid False 0 F E t \<and> mcnt pointer_bucket E = counter_end ops (\<lambda>_. 0)"
proof -
  obtain g where g: "fuel = Suc (Suc g)" using fuel_2 [OF fuel] by blast
  have "0 + inserts ops \<le> 786416" using inserts_le [of ops] n by simp
  from growing_init_run [OF assms(1) fuel this, of tid] obtain s1 F where
    s: "run (growing_INIT (2 ^ 17) fuel tid) s = Done () s1" "growing_map_ok tid False (0 + inserts ops) F (\<lambda>_. []) s1" by blast
  have b: "2 ^ (arrNum layout_map + idxNum layout_map) \<le> fuel"
    "\<And>k. mcnt pointer_bucket (\<lambda>_. []) k + length ops < 2 ^ refNum layout_map"
    using fuel n by (simp_all add: layout_map_def)
  from growing.prevs_script_run [where u = g, folded g, OF s(2) b] s(1) show ?thesis
    by (auto simp: growing_op_def)
qed

text \<open>C7: the map with the growing pool and the cache of predecessors refines the same counter: from
  \<open>INIT_RESOURCE(131072)\<close> at program start, any sequence of fewer than 65536 calls returns what a
  counter of keys returns, with two turns of the outer loop of \<open>get_Record\<close>.\<close>

theorem growing_refines_counter:
  assumes "growing_start s" and "length ops < 65536" and "2 ^ 20 \<le> fuel"
  shows "\<exists>t. run (bind (growing_INIT (2 ^ 17) fuel tid) (\<lambda>_. script (growing_op fuel tid) ops)) s
    = Done (counter ops (\<lambda>_. 0)) t"
  using growing_program_run [OF assms(1,3,2)] by blast

definition growing_empty :: "64 word growing_map" where
  "growing_empty = \<lparr>Records = Map.empty, qhead = \<lambda>_. 0, qtail = \<lambda>_. 0, recordTake = 0, plog = \<lambda>_. [],
     lists = Map.empty, prevs = \<lambda>_ _. (None, 0), flagged = \<lambda>_. False, steps = \<lambda>_. 0, ARRAYNUM = 4\<rparr>"

lemma growing_start_empty: "growing_start growing_empty"
  by (simp add: growing_start_def growing_empty_def)

theorem growing_refines_counter_witness:
  "\<exists>t. run (bind (growing_INIT (2 ^ 17) (2 ^ 20) 0) (\<lambda>_. script (growing_op (2 ^ 20) 0)
      [(RECORD, 64), (RECORD, 64), (REMOVE, 64), (SEARCH, 64), (SEARCH, 0)])) growing_empty = Done [1, 2, 1, 1, 0] t"
  using growing_refines_counter [OF growing_start_empty, where fuel = "2 ^ 20" and tid = 0
      and ops = "[(RECORD, 64), (RECORD, 64), (REMOVE, 64), (SEARCH, 64), (SEARCH, 0)]"]
  by (simp add: op_count_def)

text \<open>C14: \<open>get_Record\<close> of the growing pool, run alone on any well-formed pool in which more than one
  record per queue is free, arrays still to be added counted, returns a free record, takes it
  and leaves the pool well formed, also when \<open>tail\<close> of a queue lags or another thread has put an
  array there without counting it.\<close>

theorem growing_get_ok:
  assumes "growing_ok lag (Suc b) F s" and "2 \<le> fuel"
  shows "\<exists>l t. run (growing_get (Suc (Suc rounds)) fuel tid) s = Done (Some l) t \<and> l \<in> F \<and> rget l t \<noteq> None \<and>
    growing_ok lag b (F - {l}) t"
  using growing_get_run [OF assms] by blast

lemma growing_ok_start: "growing_ok False 9 (free_set 4 (\<lambda>_. [0..<2 ^ 16])) (growing_init growing_empty)"
proof -
  have "recordTake (growing_init growing_empty) = 0" by (simp add: growing_init_def growing_empty_def)
  with growing_init_queues [OF growing_start_empty] show ?thesis unfolding growing_ok_def card_all16 by auto
qed

theorem growing_get_ok_witness:
  "\<exists>l t. run (growing_get 2 2 0) (growing_init growing_empty) = Done (Some l) t \<and> rget l t \<noteq> None"
  using growing_get_ok [where b = 8 and lag = False and fuel = 2 and rounds = 0 and tid = 0] growing_ok_start
  by (fastforce simp: numeral_2_eq_2)

text \<open>C17: when every array in use is down to its last record, \<open>get_Record\<close> adds the next array and
  hands out its first record.\<close>

theorem growing_get_grows:
  assumes "growing_queues lag Q s" and "\<And>a. a < ARRAYNUM s \<Longrightarrow> length (Q a) = 1" and "ARRAYNUM s < ARRAYNUM_MAX"
    and "2 \<le> fuel" and "take_range (int (ARRAYNUM s)) s"
  shows "\<exists>t. run (growing_get (Suc (Suc rounds)) fuel tid) s = Done (Some (ARRAYNUM s, 0)) t \<and> ARRAYNUM t = Suc (ARRAYNUM s)"
proof -
  let ?N = "ARRAYNUM s"
  have "take_range (int ?N + 0) s" using assms(5) by simp
  note round = growing_round [OF assms(1,4) this, of tid]
  have no: "\<not> got_record lag Q l t" if "pool_frame s t" for l t
    using growing_frame [OF that] assms(2) by (fastforce simp: got_record_def took_def)
  from round no obtain t where
    k: "\<And>k. run (bind (try_queue fuel 16 False tid (?N - 1)) (\<lambda>r. case r of Some head \<Rightarrow> Ret (Some head) | None \<Rightarrow>
        bind (take_modulo fuel tid ?N ?N) (\<lambda>r. case r of Some head \<Rightarrow> Ret (Some head) | None \<Rightarrow>
        bind (scan_arrays fuel 16 True tid [0..<?N]) (\<lambda>r. case r of Some head \<Rightarrow> Ret (Some head) | None \<Rightarrow> k)))) s = run k t"
    and g: "growing_queues lag Q t" "pool_frame s t" by blast
  have nt: "ARRAYNUM t = ?N" using growing_frame [OF g(2)] by simp
  from add_array_run [OF g(1), of 0] assms(3) nt obtain u where
    u: "\<And>k :: (_, loc option) prog. run (add_array ?N k) t = run k u" "growing_queues lag Q u" "ARRAYNUM u = Suc ?N" by auto
  have Q: "Q ?N = [0..<2 ^ 16]" using assms(1,3) by (simp add: growing_queues_def)
  have ok: "pool_ok lag 16 (Suc ?N) Q u" using u(2,3) by (simp add: growing_queues_def)
  obtain f where f: "fuel = Suc (Suc f)" using assms(4) by (metis Suc_le_D numeral_2_eq_2 Suc_le_mono)
  have "length (Q ?N) \<noteq> 1" "hd (Q ?N) = 0" by (simp_all add: Q hd_upt)
  with try_queue_solo [OF ok, of ?N f False tid] obtain v where
    v: "run (try_queue fuel 16 False tid ?N) u = Done (Some (?N, 0)) v" "pool_frame u v" by (auto simp: f)
  have "run (growing_get (Suc (Suc rounds)) fuel tid) s = run (growing_get (Suc rounds) fuel tid) u"
    using assms(3) by (simp only: growing_get.simps(2) [of "Suc rounds"] run_ld k less_irrefl_nat if_False u(1) split: if_splits) auto
  then show ?thesis using v(1) u(3) growing_frame [OF v(2)] by (intro exI [of _ v]) simp
qed

lemma growing_one_left:
  defines "s \<equiv> (growing_init growing_empty)\<lparr>qhead := \<lambda>i. if i < 4 then 65535 else 0\<rparr>"
  shows "growing_queues False (\<lambda>a. if a < 4 then [2 ^ 16 - 1] else [0..<2 ^ 16]) s"
proof -
  have q: "growing_queues False (\<lambda>_. [0..<2 ^ 16]) (growing_init growing_empty)"
    by (rule growing_init_queues [OF growing_start_empty])
  have n: "ARRAYNUM s = 4" "ARRAYNUM (growing_init growing_empty) = 4"
    by (simp_all add: s_def growing_init_def growing_empty_def)
  have "free_queue False 16 a [2 ^ 16 - 1] s" if "a < 4" for a
  proof -
    have "free_queue False 16 a [0..<2 ^ 16] (growing_init growing_empty)"
      using q n(2) that by (simp add: growing_queues_def pool_ok_def)
    then obtain arr where arr: "Records (growing_init growing_empty) a = Some arr" "linked 16 arr [0..<2 ^ 16]"
      "\<forall>j < 2 ^ 16. r_self (arr j) = self_word 16 (a, j)" "ofs 16 (qtail (growing_init growing_empty) a) = last [0..<2 ^ 16]"
      unfolding free_queue_def by auto
    have l: "last [0..<2 ^ 16 :: nat] = 2 ^ 16 - 1" by (simp add: last_upt)
    have "ofs 16 (65535 :: 32 word) = 65535" using ofs_of_nat [of 16 65535] by simp
    with arr(1,3,4) linked_last [OF arr(2)] that show ?thesis
      unfolding free_queue_def l by (intro exI [of _ arr]) (simp add: s_def)
  qed
  moreover have "fresh_array a s" if "4 \<le> a" "a < 16" for a
  proof -
    have "fresh_array a (growing_init growing_empty)" using q n(2) that by (simp add: growing_queues_def ARRAYNUM_MAX_def)
    moreover have "Records (growing_init growing_empty) a = None" using that by (simp add: growing_init_def growing_empty_def)
    ultimately show ?thesis using that by (simp add: fresh_array_def s_def)
  qed
  ultimately show ?thesis by (simp add: growing_queues_def n(1) pool_ok_def ARRAYNUM_MAX_def)
qed

theorem growing_get_grows_witness:
  "\<exists>t. run (growing_get 2 2 0) ((growing_init growing_empty)\<lparr>qhead := \<lambda>i. if i < 4 then 65535 else 0\<rparr>) = Done (Some (4, 0)) t \<and> ARRAYNUM t = 5"
proof -
  have "take_range 4 ((growing_init growing_empty)\<lparr>qhead := \<lambda>i. if i < 4 then 65535 else 0\<rparr>)"
    "ARRAYNUM ((growing_init growing_empty)\<lparr>qhead := \<lambda>i. if i < 4 then 65535 else 0\<rparr>) = 4"
    by (simp_all add: take_range_def growing_init_def growing_empty_def)
  then have "\<exists>t. run (growing_get (Suc (Suc 0)) 2 0) ((growing_init growing_empty)\<lparr>qhead := \<lambda>i. if i < 4 then 65535 else 0\<rparr>)
      = Done (Some (ARRAYNUM ((growing_init growing_empty)\<lparr>qhead := \<lambda>i. if i < 4 then 65535 else 0\<rparr>), 0)) t \<and>
    ARRAYNUM t = Suc (ARRAYNUM ((growing_init growing_empty)\<lparr>qhead := \<lambda>i. if i < 4 then 65535 else 0\<rparr>))"
    by (intro growing_get_grows [OF growing_one_left]) (simp_all add: ARRAYNUM_MAX_def)
  with \<open>ARRAYNUM _ = 4\<close> show ?thesis unfolding numeral_2_eq_2 [symmetric] by simp
qed

section \<open>The counter of the round over the arrays wraps\<close>

text \<open>A client that takes \<open>n\<close> records and keeps them, and one that takes a record and gives it back \<open>n\<close>
  times.\<close>

fun growing_takes :: "nat \<Rightarrow> nat \<Rightarrow> nat \<Rightarrow> ((64 word, 'z) growing_map_scheme, unit) prog" where
  "growing_takes fuel tid 0 = Ret ()"
| "growing_takes fuel tid (Suc n) = bind (growing_get fuel fuel tid) (\<lambda>_. growing_takes fuel tid n)"

fun growing_uses :: "nat \<Rightarrow> nat \<Rightarrow> nat \<Rightarrow> ((64 word, 'z) growing_map_scheme, unit) prog" where
  "growing_uses fuel tid 0 = Ret ()"
| "growing_uses fuel tid (Suc n) = bind (growing_get fuel fuel tid) (\<lambda>r.
    case r of None \<Rightarrow> Ret () | Some l \<Rightarrow> bind (growing_return fuel tid l) (\<lambda>_. growing_uses fuel tid n))"

text \<open>One turn of the loop: the array has a record, it is down to its last one, or its index is negative.\<close>

lemma take_modulo_hit:
  assumes "growing_queues lag Q s" and "2 \<le> fuel" and "N = ARRAYNUM s"
    and "sint (recordTake s) smod int N = int a" and "a < N" and "2 \<le> length (Q a)"
  shows "\<exists>t. run (take_modulo fuel tid N (Suc i)) s = Done (Some (a, hd (Q a))) t \<and>
    growing_queues lag (Q(a := List.tl (Q a))) t \<and> recordTake t = recordTake s + 1 \<and> ARRAYNUM t = N"
proof -
  let ?s = "s\<lparr>recordTake := recordTake s + 1\<rparr>"
  obtain f where f: "fuel = Suc (Suc f)" using assms(2) by (metis Suc_le_D numeral_2_eq_2 Suc_le_mono)
  have gq: "growing_queues lag Q ?s" "ARRAYNUM ?s = N" using assms(1,3) by simp_all
  then have "pool_ok lag 16 N Q ?s" by (simp add: growing_queues_def)
  from try_queue_solo [OF this assms(5), of f False tid] assms(6) obtain t Q' where
    t: "run (try_queue fuel 16 False tid a) ?s = Done (Some (a, hd (Q a))) t" "took N Q (a, hd (Q a)) Q'" "pool_ok lag 16 N Q' t"
      "pool_frame ?s t" "others a ?s t"
    unfolding f [symmetric] by auto
  have "growing_queues lag Q' t" using growing_took [OF gq(1) _ _ _ t(4), of "(a, hd (Q a))"] t(2,3,5) gq(2) by simp
  moreover have "Q' = Q(a := List.tl (Q a))" using t(2) by (simp add: took_def)
  moreover have "recordTake t = recordTake s + 1" using t(5) by (simp add: others_def)
  moreover have "ARRAYNUM t = N" using growing_frame [OF t(4)] gq(2) by simp
  ultimately show ?thesis using t(1) assms(4) by (simp add: Let_def)
qed

lemma take_modulo_miss:
  assumes "growing_queues lag Q s" and "2 \<le> fuel" and "N = ARRAYNUM s"
    and "sint (recordTake s) smod int N = int a" and "a < N" and "length (Q a) = 1"
  shows "run (take_modulo fuel tid N (Suc i)) s = run (take_modulo fuel tid N i) (s\<lparr>recordTake := recordTake s + 1\<rparr>)"
proof -
  let ?s = "s\<lparr>recordTake := recordTake s + 1\<rparr>"
  obtain f where f: "fuel = Suc (Suc f)" using assms(2) by (metis Suc_le_D numeral_2_eq_2 Suc_le_mono)
  have "pool_ok lag 16 N Q ?s" using assms(1,3) by (simp add: growing_queues_def pool_ok_def)
  from try_queue_solo [OF this assms(5), of f False tid] assms(6) have
    "run (try_queue fuel 16 False tid a) ?s = Done None ?s" unfolding f [symmetric] by (auto simp: took_def)
  with assms(4) show ?thesis by (simp add: Let_def)
qed

lemma take_modulo_negative:
  assumes "sint (recordTake s) < 0" and "\<not> int N dvd sint (recordTake s)"
  shows "run (take_modulo fuel tid N (Suc i)) s = Crashed (s\<lparr>recordTake := recordTake s + 1\<rparr>)"
  using smod_neg [OF assms] by (simp add: Let_def)

text \<open>The last array in use is down to its last record and the others have one to spare, so that every
  \<open>get_Record\<close> goes on to the round.\<close>

definition last_used_up :: "bool \<Rightarrow> nat \<Rightarrow> (nat \<Rightarrow> nat list) \<Rightarrow> (64 word, 'z) growing_map_scheme \<Rightarrow> bool" where
  "last_used_up lag N Q s \<longleftrightarrow> growing_queues lag Q s \<and> ARRAYNUM s = Suc N \<and> 0 < N \<and> length (Q N) = 1 \<and> (\<forall>a<N. 2 \<le> length (Q a))"

lemma get_round:
  assumes "last_used_up lag N Q s" and "2 \<le> fuel"
  shows "run (take_modulo fuel tid (Suc N) (Suc N)) s = Done (Some l) t \<Longrightarrow> run (growing_get fuel fuel tid) s = Done (Some l) t"
    and "run (take_modulo fuel tid (Suc N) (Suc N)) s = Crashed t \<Longrightarrow> run (growing_get fuel fuel tid) s = Crashed t"
proof -
  obtain f where f: "fuel = Suc (Suc f)" using assms(2) by (metis Suc_le_D numeral_2_eq_2 Suc_le_mono)
  have q: "pool_ok lag 16 (Suc N) Q s" "N < Suc N" "length (Q N) = 1" "ARRAYNUM s = Suc N"
    using assms(1) unfolding last_used_up_def growing_queues_def by (metis, simp_all)
  from try_queue_solo [OF q(1,2), of f False tid] q(3)
  have "run (try_queue fuel 16 False tid N) s = Done None s" unfolding f [symmetric] by (auto simp: took_def)
  with q(4) have "run (growing_get fuel fuel tid) s = bind_outcome (run (take_modulo fuel tid (Suc N) (Suc N)) s)
    (\<lambda>r. case r of Some head \<Rightarrow> Ret (Some head) | None \<Rightarrow>
      bind (scan_arrays fuel 16 True tid [0..<Suc N]) (\<lambda>r. case r of Some head \<Rightarrow> Ret (Some head) | None \<Rightarrow>
      if Suc N = ARRAYNUM_MAX then Ret None else add_array (Suc N) (growing_get (Suc f) fuel tid)))"
    by (subst f, subst growing_get.simps(2)) (simp del: take_modulo.simps upt_Suc)
  then show "run (take_modulo fuel tid (Suc N) (Suc N)) s = Done (Some l) t \<Longrightarrow> run (growing_get fuel fuel tid) s = Done (Some l) t"
    and "run (take_modulo fuel tid (Suc N) (Suc N)) s = Crashed t \<Longrightarrow> run (growing_get fuel fuel tid) s = Crashed t"
    by (simp_all del: take_modulo.simps)
qed

text \<open>One pair of calls, when the round ends at array \<open>a\<close> in a state that differs from the one before
  in the counter only.\<close>

lemma one_use:
  assumes "last_used_up lag N Q s" and "2 \<le> fuel" and "a < N"
    and "\<And>t. run (take_modulo fuel tid (Suc N) (Suc i)) (s\<lparr>recordTake := w\<rparr>) = Done (Some (a, hd (Q a))) t \<Longrightarrow>
      run (take_modulo fuel tid (Suc N) (Suc N)) s = Done (Some (a, hd (Q a))) t"
    and "sint w smod int (Suc N) = int a"
  shows "\<exists>t Q'. (\<forall>n. run (growing_uses fuel tid (Suc n)) s = run (growing_uses fuel tid n) t) \<and>
    last_used_up lag N Q' t \<and> recordTake t = w + 1"
proof -
  let ?s = "s\<lparr>recordTake := w\<rparr>" and ?Q = "Q(a := List.tl (Q a))"
  have q: "growing_queues lag Q ?s" "Suc N = ARRAYNUM ?s" "2 \<le> length (Q a)" "a < Suc N" "length (Q N) = 1" "0 < N"
    "\<And>b. b < N \<Longrightarrow> 2 \<le> length (Q b)"
    using assms(1,3) by (simp_all add: last_used_up_def)
  from take_modulo_hit [OF q(1) assms(2) q(2) _ q(4,3), of tid i] assms(5) obtain t where
    t: "run (take_modulo fuel tid (Suc N) (Suc i)) ?s = Done (Some (a, hd (Q a))) t" "growing_queues lag ?Q t"
      "recordTake t = w + 1" "ARRAYNUM t = Suc N" by auto
  have g: "run (growing_get fuel fuel tid) s = Done (Some (a, hd (Q a))) t"
    by (rule get_round(1) [OF assms(1,2) assms(4) [OF t(1)]])
  obtain x xs where x: "Q a = x # xs" using q(3) by (cases "Q a") auto
  have N: "Suc N \<le> 2 ^ 4" "a < ARRAYNUM_MAX" using t(2,4) q(4) by (simp_all add: growing_queues_def ARRAYNUM_MAX_def)
  note d = growing_Q [OF q(1) N(2)]
  have p: "pool_ok lag 16 (Suc N) ?Q t" using t(2,4) by (simp add: growing_queues_def)
  from return_Record_run [OF p, of "(a, hd (Q a))" 4 fuel tid] q(4) N d assms(2) x obtain u where
    u: "run (growing_return fuel tid (a, hd (Q a))) t = Done () u" "pool_frame t u" "pool_ok lag 16 (Suc N) (Q(a := xs @ [x])) u" "others a t u"
    by (auto simp: growing_return_def)
  have "growing_queues lag (Q(a := xs @ [x])) u"
    using t(2,4) u(3) q(4) fresh_others [OF u(4)] growing_frame [OF u(2)] by (auto simp: growing_queues_def)
  moreover have "2 \<le> length (xs @ [x])" using q(3) x by simp
  ultimately have "last_used_up lag N (Q(a := xs @ [x])) u"
    using q assms(3) t(4) growing_frame [OF u(2)] by (auto simp: last_used_up_def)
  moreover have "recordTake u = w + 1" using u(4) t(3) by (simp add: others_def)
  ultimately show ?thesis using g u(1) by (intro exI [of _ u] exI [of _ "Q(a := xs @ [x])"]) simp
qed

definition crashes_within :: "nat \<Rightarrow> nat \<Rightarrow> nat \<Rightarrow> nat \<Rightarrow> (64 word, 'z) growing_map_scheme \<Rightarrow> bool" where
  "crashes_within fuel tid N b s \<longleftrightarrow> (\<exists>n\<le>b. \<exists>t. run (growing_uses fuel tid n) s = Crashed t \<and> sint (recordTake t - 1) smod int N < 0)"

lemma crashes_later:
  assumes "\<And>n. run (growing_uses fuel tid (Suc n)) s = run (growing_uses fuel tid n) t" and "crashes_within fuel tid N b t"
    and "Suc b \<le> c"
  shows "crashes_within fuel tid N c s"
proof -
  from assms(2) obtain n u where "n \<le> b" "run (growing_uses fuel tid n) t = Crashed u" "sint (recordTake u - 1) smod int N < 0"
    by (auto simp: crashes_within_def)
  with assms(1,3) show ?thesis unfolding crashes_within_def by (intro exI [of _ "Suc n"]) auto
qed

lemma crashes_now:
  assumes "last_used_up lag N Q s" and "2 \<le> fuel" and "0 < b"
    and "run (take_modulo fuel tid (Suc N) (Suc N)) s = Crashed (s\<lparr>recordTake := w + 1\<rparr>)" and "sint w smod int (Suc N) < 0"
  shows "crashes_within fuel tid (Suc N) b s"
proof -
  from get_round(2) [OF assms(1,2,4)] have "run (growing_uses fuel tid (Suc 0)) s = Crashed (s\<lparr>recordTake := w + 1\<rparr>)" by simp
  with assms(3,5) show ?thesis unfolding crashes_within_def
    by (intro exI [of _ "Suc 0"]) (auto simp del: growing_uses.simps)
qed

lemma crashes_negative:
  assumes "last_used_up lag N Q s" and "2 \<le> fuel" and "sint (recordTake s) < 0" and "\<not> int (Suc N) dvd sint (recordTake s)" and "0 < b"
  shows "crashes_within fuel tid (Suc N) b s"
  by (rule crashes_now [OF assms(1,2,5) take_modulo_negative [OF assms(3,4)] smod_neg [OF assms(3,4)]])

lemma dvd_next: "int (Suc N) dvd x \<Longrightarrow> 0 < N \<Longrightarrow> \<not> int (Suc N) dvd x + 1"
  by (simp add: dvd_add_right_iff del: of_nat_Suc)

lemma crashes_least:
  assumes "last_used_up lag N Q s" and "2 \<le> fuel" and "sint (recordTake s) = - (2 ^ 63)"
  shows "crashes_within fuel tid (Suc N) 2 s"
proof (cases "int (Suc N) dvd sint (recordTake s)")
  case True
  have N: "0 < N" using assms(1) by (simp add: last_used_up_def)
  from one_use [OF assms(1,2) N, of tid N "recordTake s"] smod_dvd [OF True] obtain t Q' where
    t: "\<And>n. run (growing_uses fuel tid (Suc n)) s = run (growing_uses fuel tid n) t" "last_used_up lag N Q' t" "recordTake t = recordTake s + 1"
    by auto
  have r: "sint (recordTake t) = - (2 ^ 63) + 1" using assms(3) by (simp add: t(3) sint_succ)
  have "\<not> int (Suc N) dvd sint (recordTake t)" using dvd_next [OF True N] assms(3) r by (simp del: of_nat_Suc)
  from crashes_negative [OF t(2) assms(2) _ this, of "Suc 0"] r show ?thesis
    by (intro crashes_later [OF t(1), of "Suc N" "Suc 0"]) simp_all
next
  case False
  with crashes_negative [OF assms(1,2)] assms(3) show ?thesis by simp
qed

lemma crashes_mono: "crashes_within fuel tid N b s \<Longrightarrow> b \<le> c \<Longrightarrow> crashes_within fuel tid N c s"
  unfolding crashes_within_def by (meson order_trans)

text \<open>The round begins at the array that is used up and goes on to the first one.\<close>

lemma use_behind_last:
  assumes "last_used_up lag N Q s" and "2 \<le> fuel" and "0 \<le> sint (recordTake s)" and m: "sint (recordTake s) smod int (Suc N) = int N"
  shows "crashes_within fuel tid (Suc N) 2 s \<or> (\<exists>t Q'. (\<forall>n. run (growing_uses fuel tid (Suc n)) s = run (growing_uses fuel tid n) t) \<and>
    last_used_up lag N Q' t \<and> (sint (recordTake s) < sint (recordTake t) \<or> sint (recordTake t) = - (2 ^ 63)))"
proof -
  let ?r = "sint (recordTake s)" and ?w = "recordTake s + 1"
  have N: "0 < N" "length (Q N) = 1" "growing_queues lag Q s" "Suc N = ARRAYNUM s" using assms(1) by (simp_all add: last_used_up_def)
  obtain i where i: "N = Suc i" using N(1) by (cases N) auto
  have miss: "run (take_modulo fuel tid (Suc N) (Suc N)) s = run (take_modulo fuel tid (Suc N) (Suc i)) (s\<lparr>recordTake := ?w\<rparr>)"
    unfolding i [symmetric] by (rule take_modulo_miss [OF N(3) assms(2) N(4) m]) (simp_all add: N(2))
  show ?thesis
  proof (cases "int (Suc N) dvd sint ?w")
    case True
    from one_use [OF assms(1,2) N(1), of tid i ?w] miss smod_dvd [OF True] obtain t Q' where
      t: "\<And>n. run (growing_uses fuel tid (Suc n)) s = run (growing_uses fuel tid n) t" "last_used_up lag N Q' t" "recordTake t = ?w + 1"
      by auto
    show ?thesis
    proof (cases "?r = 2 ^ 63 - 1")
      case wrap: True
      then have "sint ?w = - (2 ^ 63)" by (simp add: sint_succ)
      then have w: "sint ?w = - (2 ^ 63)" "sint (recordTake t) = - (2 ^ 63) + 1" unfolding t(3) sint_succ [of ?w] by simp_all
      have "\<not> int (Suc N) dvd sint (recordTake t)" using dvd_next [OF True N(1)] w by (simp del: of_nat_Suc)
      from crashes_later [OF t(1) crashes_negative [OF t(2) assms(2) _ this, of "Suc 0"]] w(2) show ?thesis by simp
    next
      case False
      then have "sint ?w = ?r + 1" by (simp add: sint_succ)
      then have "?r < sint (recordTake t) \<or> sint (recordTake t) = - (2 ^ 63)" unfolding t(3) sint_succ [of ?w] by simp
      with t(1,2) show ?thesis by blast
    qed
  next
    case False
    have "int N = ?r mod int (Suc N)" using m smod_nonneg [OF assms(3), of "Suc N"] by simp
    then have "(?r + 1) mod int (Suc N) = (int N + 1) mod int (Suc N)" by (metis mod_add_left_eq)
    also have "int N + 1 = int (Suc N)" by simp
    finally have "int (Suc N) dvd ?r + 1" by (simp add: dvd_eq_mod_eq_0 del: of_nat_Suc)
    with False have "sint ?w < 0" by (auto simp: sint_succ split: if_splits)
    note n = this False
    have "run (take_modulo fuel tid (Suc N) (Suc N)) s = Crashed (s\<lparr>recordTake := ?w + 1\<rparr>)"
      unfolding miss using take_modulo_negative [of "s\<lparr>recordTake := ?w\<rparr>" "Suc N" fuel tid i] n by simp
    from crashes_now [OF assms(1,2) _ this smod_neg [OF n]] show ?thesis by simp
  qed
qed

lemma crashes_nonneg:
  assumes "last_used_up lag N Q s" and "2 \<le> fuel" and "0 \<le> sint (recordTake s)"
  shows "crashes_within fuel tid (Suc N) (nat (2 ^ 63 - sint (recordTake s)) + 2) s"
  using assms(1,3)
proof (induction "nat (2 ^ 63 - sint (recordTake s))" arbitrary: s Q rule: less_induct)
  case less
  let ?r = "sint (recordTake s)"
  have b: "?r < 2 ^ 63" using sint_less [of "recordTake s"] by simp
  have on: "crashes_within fuel tid (Suc N) (nat (2 ^ 63 - ?r) + 2) s"
    if t: "\<And>n. run (growing_uses fuel tid (Suc n)) s = run (growing_uses fuel tid n) t" "last_used_up lag N Q' t"
      and r: "?r < sint (recordTake t) \<or> sint (recordTake t) = - (2 ^ 63)" for t Q'
  proof (cases "sint (recordTake t) = - (2 ^ 63)")
    case True
    from crashes_later [OF t(1) crashes_least [OF t(2) assms(2) this]] b show ?thesis by simp
  next
    case False
    with r less.prems(2) b have d: "nat (2 ^ 63 - sint (recordTake t)) < nat (2 ^ 63 - ?r)" "0 \<le> sint (recordTake t)" by linarith+
    show ?thesis by (rule crashes_later [OF t(1) less.hyps [OF d(1) t(2) d(2)]]) (use d(1) in linarith)
  qed
  define a where "a = nat ?r mod Suc N"
  have m: "?r smod int (Suc N) = int a"
    using less.prems(2) smod_nonneg [of ?r "Suc N"] by (simp add: a_def zmod_int)
  have "a < Suc N" unfolding a_def by simp
  then consider "a < N" | "a = N" by linarith
  then show ?case
  proof cases
    case 1
    from one_use [OF less.prems(1) assms(2) 1, of tid N "recordTake s"] m obtain t Q' where
      t: "\<And>n. run (growing_uses fuel tid (Suc n)) s = run (growing_uses fuel tid n) t" "last_used_up lag N Q' t" "recordTake t = recordTake s + 1" by auto
    from on [OF t(1,2)] show ?thesis by (auto simp: t(3) sint_succ)
  next
    case 2
    from use_behind_last [OF less.prems(1) assms(2) less.prems(2), of tid] m 2 on show ?thesis
      by (auto intro: crashes_mono)
  qed
qed

lemma growing_takes_run:
  assumes "growing_queues lag Q s" and "ARRAYNUM s = Suc N" and "length (Q N) = Suc n" and "2 \<le> fuel"
  shows "\<exists>t. run (growing_takes fuel tid n) s = Done () t \<and> growing_queues lag (Q(N := drop n (Q N))) t \<and>
    ARRAYNUM t = Suc N \<and> recordTake t = recordTake s"
  using assms(1-3)
proof (induction n arbitrary: s Q)
  case 0
  then show ?case by simp
next
  case (Suc n)
  obtain f where f: "fuel = Suc (Suc f)" using assms(4) by (metis Suc_le_D numeral_2_eq_2 Suc_le_mono)
  let ?Q = "Q(N := List.tl (Q N))"
  have "pool_ok lag 16 (Suc N) Q s" using Suc.prems(1,2) unfolding growing_queues_def by metis
  from try_queue_solo [OF this lessI, of f False tid] Suc.prems(3) obtain u Q' where
    u: "run (try_queue fuel 16 False tid N) s = Done (Some (N, hd (Q N))) u" "took (Suc N) Q (N, hd (Q N)) Q'"
      "pool_ok lag 16 (Suc N) Q' u" "pool_frame s u" "others N s u"
    unfolding f [symmetric] by auto
  have Q': "Q' = ?Q" using u(2) by (simp add: took_def)
  have gq: "growing_queues lag ?Q u" using growing_took [OF Suc.prems(1) _ _ _ u(4), of "(N, hd (Q N))" Q'] u(2,3,5) Suc.prems(2) Q' by simp
  have n: "ARRAYNUM u = Suc N" "recordTake u = recordTake s" using growing_frame [OF u(4)] Suc.prems(2) u(5) by (simp_all add: others_def)
  have "length (?Q N) = Suc n" using Suc.prems(3) by simp
  from Suc.IH [OF gq n(1) this, unfolded n(2)] obtain t where
    t: "run (growing_takes fuel tid n) u = Done () t" "growing_queues lag (?Q(N := drop n (?Q N))) t" "ARRAYNUM t = Suc N" "recordTake t = recordTake s"
    by blast
  have "run (growing_get fuel fuel tid) s = Done (Some (N, hd (Q N))) u"
    using u(1) Suc.prems(2) by (simp add: f del: try_queue.simps)
  then have "run (growing_takes fuel tid (Suc n)) s = Done () t" using t(1) by simp
  moreover have "?Q(N := drop n (?Q N)) = Q(N := drop (Suc n) (Q N))" by (simp add: drop_Suc)
  ultimately show ?case using t(2-4) by metis
qed

text \<open>C40: The counter \<open>recordTake\<close> of \<open>get_Record\<close> is taken modulo the number of arrays as a signed number and
  never stops growing. Start from any well-formed pool of at least two arrays that each have a
  record to spare, take the records of the last array in use down to its last one and keep them:
  then at most \<open>2 ^ 63 + 2\<close> times taking one record and giving it back, however many records
  are free all the time, ends in a \<open>get_Record\<close> that uses a queue before the first one, because the counter
  has wrapped and its remainder is negative. All calls run alone.\<close>

theorem growing_get_wraps:
  assumes "growing_queues lag Q s" and "2 \<le> ARRAYNUM s" and "\<And>a. a < ARRAYNUM s \<Longrightarrow> 2 \<le> length (Q a)"
    and "0 \<le> sint (recordTake s)" and "2 \<le> fuel"
  shows "\<exists>n \<le> 2 ^ 63 + 2. \<exists>t.
    run (bind (growing_takes fuel tid (length (Q (ARRAYNUM s - 1)) - 1)) (\<lambda>_. growing_uses fuel tid n)) s = Crashed t \<and>
    sint (recordTake t - 1) smod int (ARRAYNUM s) < 0"
proof -
  obtain N where N: "ARRAYNUM s = Suc N" "0 < N" using assms(2) by (cases "ARRAYNUM s") auto
  let ?n = "length (Q N) - 1"
  have "length (Q N) = Suc ?n" using assms(3) [of N] N(1) by simp
  from growing_takes_run [OF assms(1) N(1) this assms(5), of tid] obtain t where
    t: "run (growing_takes fuel tid ?n) s = Done () t" "growing_queues lag (Q(N := drop ?n (Q N))) t"
      "ARRAYNUM t = Suc N" "recordTake t = recordTake s" by blast
  have "last_used_up lag N (Q(N := drop ?n (Q N))) t"
    using t(2,3) N assms(3) \<open>length (Q N) = Suc ?n\<close> by (simp add: last_used_up_def)
  from crashes_nonneg [OF this assms(5), of tid] assms(4) t(4) obtain n u where
    "n \<le> nat (2 ^ 63 - sint (recordTake s)) + 2" "run (growing_uses fuel tid n) t = Crashed u" "sint (recordTake u - 1) smod int (Suc N) < 0"
    unfolding crashes_within_def by auto
  then show ?thesis using N(1) t(1) assms(4) by (intro exI [of _ n] conjI exI [of _ u]) simp_all
qed

theorem growing_get_wraps_witness:
  "\<exists>n \<le> 2 ^ 63 + 2. \<exists>t. run (bind (growing_takes 2 0 65535) (\<lambda>_. growing_uses 2 0 n)) (growing_init growing_empty) = Crashed t \<and>
    sint (recordTake t - 1) smod 4 < 0"
proof -
  have "ARRAYNUM (growing_init growing_empty) = 4" "recordTake (growing_init growing_empty) = 0"
    by (simp_all add: growing_init_def growing_empty_def)
  with growing_get_wraps [OF growing_init_queues [OF growing_start_empty], where fuel = 2 and tid = 0] show ?thesis by simp
qed

text \<open>After \<open>INIT_RESOURCE(131072)\<close> the counter \<open>i\<close> is 131072, so the end of the program frees
  outside the array whatever happened before.\<close>

lemma growing_UNINIT_undefined:
  assumes "growing_queues lag Q s"
  shows "growing_UNINIT 131072 131072 s = None"
  using assms by (cases "ARRAYNUM s") (simp_all add: growing_UNINIT_def growing_queues_def ARRAYNUM_MAX_def)

end
