(* ===== verification/GrowingFiles.thy ===== *)
theory GrowingFiles
  imports GrowingPool
begin

text \<open>
  The other files with the growing pool and the list with the cache: \<^verbatim>\<open>mayijin/hazard_long2.c\<close> (prefix
  \<open>h2m\<close>), \<^verbatim>\<open>hazard_long2.c\<close> (\<open>h2\<close>) and \<^verbatim>\<open>test_C_hazard_map.c\<close> (\<open>tch\<close>). Pool and list are those of
  \<^verbatim>\<open>mayijin/mapLockFreeList-concurrentqueues.c\<close>, statement for statement; \<open>UNINIT_RESOURCE\<close> is not: the
  first two free every array and every list, the third every array and no list, because its
  second loop tests the \<open>i\<close> that \<open>INIT_RESOURCE\<close> left at the number of lists.
\<close>

section \<open>Freeing the arrays\<close>

lemma free_arrays_ok:
  "distinct is \<Longrightarrow> (\<And>i. i \<in> set is \<Longrightarrow> i < ARRAYNUM_MAX \<and> Records s i \<noteq> None) \<Longrightarrow>
    free_arrays is s = Some (s\<lparr>Records := (\<lambda>i. if i \<in> set is then None else Records s i)\<rparr>)"
proof (induction "is" arbitrary: s)
  case Nil
  have "s = s\<lparr>Records := Records s\<rparr>" by simp
  then show ?case by simp
next
  case (Cons i "is")
  let ?s = "s\<lparr>Records := (Records s)(i := None)\<rparr>"
  have i: "i < ARRAYNUM_MAX \<and> Records s i \<noteq> None" using Cons.prems(2) [of i] by simp
  have *: "j < ARRAYNUM_MAX \<and> Records ?s j \<noteq> None" if "j \<in> set is" for j
    using Cons.prems(2) [of j] Cons.prems(1) that by auto
  have "distinct is" using Cons.prems(1) by simp
  then have "free_arrays is ?s = Some (?s\<lparr>Records := (\<lambda>j. if j \<in> set is then None else Records ?s j)\<rparr>)"
    using * by (rule Cons.IH)
  moreover have "(\<lambda>j. if j \<in> set is then None else Records ?s j) = (\<lambda>j. if j \<in> set (i # is) then None else Records s j)" by auto
  ultimately show ?case using i by simp
qed

definition freed :: "(64 word, 'z) growing_map_scheme \<Rightarrow> (64 word, 'z) growing_map_scheme" where
  "freed s = s\<lparr>Records := (\<lambda>i. if i < ARRAYNUM s then None else Records s i)\<rparr>"

lemma free_all_arrays:
  assumes "growing_map_ok tid lag b F E s"
  shows "free_arrays [0..<ARRAYNUM s] s = Some (freed s)"
proof -
  from assms have "growing.ok' lag tid b F s" by (simp add: lists_ok_def)
  then have "growing_ok lag b F s" by (simp add: growing.ok'_def)
  then obtain Q where q: "growing_queues lag Q s" by (auto simp: growing_ok_def)
  then have "ARRAYNUM s \<le> ARRAYNUM_MAX" "\<And>a. a < ARRAYNUM s \<Longrightarrow> free_queue lag 16 a (Q a) s"
    by (simp_all add: growing_queues_def pool_ok_def)
  then have "i < ARRAYNUM_MAX \<and> Records s i \<noteq> None" if "i < ARRAYNUM s" for i
    using that free_queue_alloc [of lag 16 i "Q i" s 0] by (auto simp: rget_def)
  then show ?thesis by (subst free_arrays_ok) (auto simp: freed_def)
qed

lemma growing_freed:
  assumes "growing_start s" and "2 ^ 20 \<le> fuel" and "length ops < 65536"
  shows "\<exists>t. run (bind (growing_INIT (2 ^ 17) fuel tid) (\<lambda>_. script (growing_op fuel tid) ops)) s
      = Done (counter ops (\<lambda>_. 0)) t \<and> free_arrays [0..<ARRAYNUM t] t = Some (freed t)"
  using growing_program_run [OF assms, of tid] free_all_arrays by blast

section \<open>\<^verbatim>\<open>mayijin/hazard_long2.c\<close>\<close>

definition h2m_get_Record :: "nat \<Rightarrow> nat \<Rightarrow> ((64 word, 'z) growing_map_scheme, loc option) prog" where
  "h2m_get_Record fuel tid = growing_get fuel fuel tid"

definition h2m_return_Record :: "nat \<Rightarrow> nat \<Rightarrow> loc \<Rightarrow> ((64 word, 'z) growing_map_scheme, unit) prog" where
  "h2m_return_Record fuel tid record = return_Record fuel 16 4 tid record"

definition h2m_handle_records :: "nat \<Rightarrow> nat \<Rightarrow> 64 word \<Rightarrow> flag \<Rightarrow> loc \<Rightarrow> loc \<Rightarrow> ((64 word, 'z) growing_map_scheme, int) prog" where
  "h2m_handle_records fuel tid pointer flag head tail = st (prevs_start tid) (handle_records fuel
     \<lparr>e_layout = layout_map, e_head = head, e_tail = tail, e_pointer = pointer, e_flag = flag,
      e_get = h2m_get_Record fuel tid, e_return = h2m_return_Record fuel tid,
      e_restart = restart_prevs fuel tid layout_map, e_note = note_prev tid\<rparr>)"

definition h2m_psly_record :: "nat \<Rightarrow> nat \<Rightarrow> 64 word \<Rightarrow> ((64 word, 'z) growing_map_scheme, int) prog" where
  "h2m_psly_record fuel tid pointer = ldp (\<lambda>s. lists s (pointer_bucket pointer)) (\<lambda>(head, tail).
     h2m_handle_records fuel tid pointer RECORD head tail)"

definition h2m_psly_remove :: "nat \<Rightarrow> nat \<Rightarrow> 64 word \<Rightarrow> ((64 word, 'z) growing_map_scheme, int) prog" where
  "h2m_psly_remove fuel tid pointer = ldp (\<lambda>s. lists s (pointer_bucket pointer)) (\<lambda>(head, tail).
     h2m_handle_records fuel tid pointer REMOVE head tail)"

definition h2m_psly_search :: "nat \<Rightarrow> nat \<Rightarrow> 64 word \<Rightarrow> ((64 word, 'z) growing_map_scheme, int) prog" where
  "h2m_psly_search fuel tid pointer = ldp (\<lambda>s. lists s (pointer_bucket pointer)) (\<lambda>(head, tail).
     h2m_handle_records fuel tid pointer SEARCH head tail)"

definition h2m_INIT :: "nat \<Rightarrow> nat \<Rightarrow> nat \<Rightarrow> ((64 word, 'z) growing_map_scheme, unit) prog" where
  "h2m_INIT listNum fuel tid = st growing_init (init_lists layout_map (h2m_get_Record fuel tid) [0..<listNum])"

definition h2m_UNINIT :: "nat \<Rightarrow> (64 word, 'z) growing_map_scheme \<Rightarrow> (64 word, 'z) growing_map_scheme option" where
  "h2m_UNINIT listNum s = map_option (\<lambda>s. s\<lparr>lists := (\<lambda>j. if j < listNum then None else lists s j)\<rparr>) (free_arrays [0..<ARRAYNUM s] s)"

definition h2m_op :: "nat \<Rightarrow> nat \<Rightarrow> flag \<Rightarrow> 64 word \<Rightarrow> ((64 word, 'z) growing_map_scheme, int) prog" where
  "h2m_op fuel tid f p = (case f of RECORD \<Rightarrow> h2m_psly_record fuel tid p
     | SEARCH \<Rightarrow> h2m_psly_search fuel tid p | REMOVE \<Rightarrow> h2m_psly_remove fuel tid p)"

lemma h2m_same_op: "h2m_op fuel tid = growing_op fuel tid"
  by (intro ext) (simp add: h2m_op_def h2m_psly_record_def h2m_psly_remove_def h2m_psly_search_def growing_op_def prevs_op_def
      prevs_handle_records_def prevs_env_def h2m_handle_records_def growing_return_def h2m_get_Record_def
      h2m_return_Record_def [abs_def] split: flag.split)

lemma h2m_same_INIT: "h2m_INIT listNum fuel tid = growing_INIT listNum fuel tid"
  by (simp add: h2m_INIT_def growing_INIT_def h2m_get_Record_def)

section \<open>\<^verbatim>\<open>hazard_long2.c\<close>\<close>

definition h2_get_Record :: "nat \<Rightarrow> nat \<Rightarrow> ((64 word, 'z) growing_map_scheme, loc option) prog" where
  "h2_get_Record fuel tid = growing_get fuel fuel tid"

definition h2_return_Record :: "nat \<Rightarrow> nat \<Rightarrow> loc \<Rightarrow> ((64 word, 'z) growing_map_scheme, unit) prog" where
  "h2_return_Record fuel tid record = return_Record fuel 16 4 tid record"

definition h2_handle_records :: "nat \<Rightarrow> nat \<Rightarrow> 64 word \<Rightarrow> flag \<Rightarrow> loc \<Rightarrow> loc \<Rightarrow> ((64 word, 'z) growing_map_scheme, int) prog" where
  "h2_handle_records fuel tid pointer flag head tail = st (prevs_start tid) (handle_records fuel
     \<lparr>e_layout = layout_map, e_head = head, e_tail = tail, e_pointer = pointer, e_flag = flag,
      e_get = h2_get_Record fuel tid, e_return = h2_return_Record fuel tid,
      e_restart = restart_prevs fuel tid layout_map, e_note = note_prev tid\<rparr>)"

definition h2_psly_record :: "nat \<Rightarrow> nat \<Rightarrow> 64 word \<Rightarrow> ((64 word, 'z) growing_map_scheme, int) prog" where
  "h2_psly_record fuel tid pointer = ldp (\<lambda>s. lists s (pointer_bucket pointer)) (\<lambda>(head, tail).
     h2_handle_records fuel tid pointer RECORD head tail)"

definition h2_psly_remove :: "nat \<Rightarrow> nat \<Rightarrow> 64 word \<Rightarrow> ((64 word, 'z) growing_map_scheme, int) prog" where
  "h2_psly_remove fuel tid pointer = ldp (\<lambda>s. lists s (pointer_bucket pointer)) (\<lambda>(head, tail).
     h2_handle_records fuel tid pointer REMOVE head tail)"

definition h2_psly_search :: "nat \<Rightarrow> nat \<Rightarrow> 64 word \<Rightarrow> ((64 word, 'z) growing_map_scheme, int) prog" where
  "h2_psly_search fuel tid pointer = ldp (\<lambda>s. lists s (pointer_bucket pointer)) (\<lambda>(head, tail).
     h2_handle_records fuel tid pointer SEARCH head tail)"

definition h2_INIT :: "nat \<Rightarrow> nat \<Rightarrow> nat \<Rightarrow> ((64 word, 'z) growing_map_scheme, unit) prog" where
  "h2_INIT listNum fuel tid = st growing_init (init_lists layout_map (h2_get_Record fuel tid) [0..<listNum])"

definition h2_UNINIT :: "nat \<Rightarrow> (64 word, 'z) growing_map_scheme \<Rightarrow> (64 word, 'z) growing_map_scheme option" where
  "h2_UNINIT listNum s = map_option (\<lambda>s. s\<lparr>lists := (\<lambda>j. if j < listNum then None else lists s j)\<rparr>) (free_arrays [0..<ARRAYNUM s] s)"

definition h2_op :: "nat \<Rightarrow> nat \<Rightarrow> flag \<Rightarrow> 64 word \<Rightarrow> ((64 word, 'z) growing_map_scheme, int) prog" where
  "h2_op fuel tid f p = (case f of RECORD \<Rightarrow> h2_psly_record fuel tid p
     | SEARCH \<Rightarrow> h2_psly_search fuel tid p | REMOVE \<Rightarrow> h2_psly_remove fuel tid p)"

lemma h2_same_op: "h2_op fuel tid = growing_op fuel tid"
  by (intro ext) (simp add: h2_op_def h2_psly_record_def h2_psly_remove_def h2_psly_search_def growing_op_def prevs_op_def
      prevs_handle_records_def prevs_env_def h2_handle_records_def growing_return_def h2_get_Record_def
      h2_return_Record_def [abs_def] split: flag.split)

lemma h2_same_INIT: "h2_INIT listNum fuel tid = growing_INIT listNum fuel tid"
  by (simp add: h2_INIT_def growing_INIT_def h2_get_Record_def)

section \<open>\<^verbatim>\<open>test_C_hazard_map.c\<close>\<close>

definition tch_get_Record :: "nat \<Rightarrow> nat \<Rightarrow> ((64 word, 'z) growing_map_scheme, loc option) prog" where
  "tch_get_Record fuel tid = growing_get fuel fuel tid"

definition tch_return_Record :: "nat \<Rightarrow> nat \<Rightarrow> loc \<Rightarrow> ((64 word, 'z) growing_map_scheme, unit) prog" where
  "tch_return_Record fuel tid record = return_Record fuel 16 4 tid record"

definition tch_handle_records :: "nat \<Rightarrow> nat \<Rightarrow> 64 word \<Rightarrow> flag \<Rightarrow> loc \<Rightarrow> loc \<Rightarrow> ((64 word, 'z) growing_map_scheme, int) prog" where
  "tch_handle_records fuel tid pointer flag head tail = st (prevs_start tid) (handle_records fuel
     \<lparr>e_layout = layout_map, e_head = head, e_tail = tail, e_pointer = pointer, e_flag = flag,
      e_get = tch_get_Record fuel tid, e_return = tch_return_Record fuel tid,
      e_restart = restart_prevs fuel tid layout_map, e_note = note_prev tid\<rparr>)"

definition tch_psly_record :: "nat \<Rightarrow> nat \<Rightarrow> 64 word \<Rightarrow> ((64 word, 'z) growing_map_scheme, int) prog" where
  "tch_psly_record fuel tid pointer = ldp (\<lambda>s. lists s (pointer_bucket pointer)) (\<lambda>(head, tail).
     tch_handle_records fuel tid pointer RECORD head tail)"

definition tch_psly_remove :: "nat \<Rightarrow> nat \<Rightarrow> 64 word \<Rightarrow> ((64 word, 'z) growing_map_scheme, int) prog" where
  "tch_psly_remove fuel tid pointer = ldp (\<lambda>s. lists s (pointer_bucket pointer)) (\<lambda>(head, tail).
     tch_handle_records fuel tid pointer REMOVE head tail)"

definition tch_psly_search :: "nat \<Rightarrow> nat \<Rightarrow> 64 word \<Rightarrow> ((64 word, 'z) growing_map_scheme, int) prog" where
  "tch_psly_search fuel tid pointer = ldp (\<lambda>s. lists s (pointer_bucket pointer)) (\<lambda>(head, tail).
     tch_handle_records fuel tid pointer SEARCH head tail)"

definition tch_INIT :: "nat \<Rightarrow> nat \<Rightarrow> nat \<Rightarrow> ((64 word, 'z) growing_map_scheme, unit) prog" where
  "tch_INIT listNum fuel tid = st growing_init (init_lists layout_map (tch_get_Record fuel tid) [0..<listNum])"

text \<open>The second loop counts \<open>j\<close> and tests \<open>i\<close>: it is not entered, or it frees without end past the array
  of lists.\<close>

definition tch_UNINIT :: "nat \<Rightarrow> nat \<Rightarrow> (64 word, 'z) growing_map_scheme \<Rightarrow> (64 word, 'z) growing_map_scheme option" where
  "tch_UNINIT listNum i s = (case free_arrays [0..<ARRAYNUM s] s of None \<Rightarrow> None
     | Some s \<Rightarrow> if i < listNum then None else Some s)"

definition tch_op :: "nat \<Rightarrow> nat \<Rightarrow> flag \<Rightarrow> 64 word \<Rightarrow> ((64 word, 'z) growing_map_scheme, int) prog" where
  "tch_op fuel tid f p = (case f of RECORD \<Rightarrow> tch_psly_record fuel tid p
     | SEARCH \<Rightarrow> tch_psly_search fuel tid p | REMOVE \<Rightarrow> tch_psly_remove fuel tid p)"

lemma tch_same_op: "tch_op fuel tid = growing_op fuel tid"
  by (intro ext) (simp add: tch_op_def tch_psly_record_def tch_psly_remove_def tch_psly_search_def growing_op_def prevs_op_def
      prevs_handle_records_def prevs_env_def tch_handle_records_def growing_return_def tch_get_Record_def
      tch_return_Record_def [abs_def] split: flag.split)

lemma tch_same_INIT: "tch_INIT listNum fuel tid = growing_INIT listNum fuel tid"
  by (simp add: tch_INIT_def growing_INIT_def tch_get_Record_def)

section \<open>The three files\<close>

text \<open>C32: from the start of the program the maps of the three files return what a counter of keys returns,
  for fewer than 65536 calls, and their \<open>UNINIT_RESOURCE\<close> then frees every array in use, also those
  added on demand, each once; the lists are freed by the first two and kept by the third.\<close>

theorem growing_files_count:
  assumes "growing_start s" and "length ops < 65536" and "2 ^ 20 \<le> fuel"
    and "(init, opr, uninit, rest) \<in> {
      (h2m_INIT (2 ^ 17) fuel tid, h2m_op fuel tid, h2m_UNINIT (2 ^ 17), \<lambda>t j. if j < 2 ^ 17 then None else lists t j),
      (h2_INIT (2 ^ 17) fuel tid, h2_op fuel tid, h2_UNINIT (2 ^ 17), \<lambda>t j. if j < 2 ^ 17 then None else lists t j),
      (tch_INIT (2 ^ 17) fuel tid, tch_op fuel tid, tch_UNINIT (2 ^ 17) (2 ^ 17), lists)}"
  shows "\<exists>t. run (bind init (\<lambda>_. script opr ops)) s = Done (counter ops (\<lambda>_. 0)) t \<and>
    uninit t = Some (t\<lparr>Records := (\<lambda>i. if i < ARRAYNUM t then None else Records t i), lists := rest t\<rparr>)"
proof -
  from growing_freed [OF assms(1,3,2), of tid] assms(4) show ?thesis
    by (auto simp: h2m_same_op h2m_same_INIT h2m_UNINIT_def h2_same_op h2_same_INIT h2_UNINIT_def
        tch_same_op tch_same_INIT tch_UNINIT_def freed_def cong: if_cong)
qed

theorem growing_files_count_witness:
  "\<exists>t u. run (bind (tch_INIT (2 ^ 17) (2 ^ 20) 0) (\<lambda>_. script (tch_op (2 ^ 20) 0) [(RECORD, 64), (REMOVE, 64), (SEARCH, 64)])) growing_empty
      = Done [1, 0, 0] t \<and> tch_UNINIT (2 ^ 17) (2 ^ 17) t = Some u \<and> lists u = lists t"
  using growing_files_count [OF growing_start_empty, where fuel = "2 ^ 20" and tid = 0 and init = "tch_INIT (2 ^ 17) (2 ^ 20) 0"
      and ops = "[(RECORD, 64), (REMOVE, 64), (SEARCH, 64)]" and opr = "tch_op (2 ^ 20) 0"
      and uninit = "tch_UNINIT (2 ^ 17) (2 ^ 17)" and rest = lists]
  by (fastforce simp: op_count_def)

end
