(* ===== verification/HazardLong.thy ===== *)
theory HazardLong
  imports GrowingFiles
begin

text \<open>
  \<^verbatim>\<open>hazard_long.c\<close>: the list with the cache of predecessors over the pool of
  \<^verbatim>\<open>mayijin/lockfreePro.c\<close>, 16 arrays of 65536 records that \<open>INIT_RESOURCE\<close> makes, none added
  later. The two components meet at the locale \<open>cached_pool\<close>, which this pool is shown to
  provide.
\<close>

section \<open>The pool serves the list with the cache\<close>

lemma pool_keeps_steps: "pool_keeps N s t \<Longrightarrow> steps t = steps s"
proof -
  assume "pool_keeps N s t"
  then have "pool.more t = pool.more s" by (auto simp: pool_keeps_def dest: pool_rest_more)
  then show ?thesis by (cases s, cases t) simp
qed

lemma cached_records_pro:
  assumes L: "layout_ok L"
  shows "cached_records L (get_Record (Suc (Suc u)) (idxNum L) (arrNum L) tid :: ((32 word, 'z) prevs_map_scheme, loc option) prog)
    (return_Record (Suc (Suc u)) (idxNum L) (arrNum L) tid) (pro_ok lag L)"
proof -
  have rp: "record_pool L (get_Record (Suc (Suc u)) (idxNum L) (arrNum L) tid :: ((32 word, 'z) prevs_map_scheme, loc option) prog)
      (return_Record (Suc (Suc u)) (idxNum L) (arrNum L) tid) (pro_ok lag L) pool_keeps"
    by (rule record_pool_pro [OF L])
  show ?thesis
  proof (unfold_locales, goal_cases)
    case 1
    show ?case by (rule L)
  next
    case (2 b F s)
    then show ?case by (rule record_pool.ok_less [OF rp])
  next
    case (3 b F s l r)
    then show ?case by (rule record_pool.ok_self [OF rp])
  next
    case (4 b F s f l)
    then show ?case by (rule record_pool.ok_rset [OF rp])
  next
    case (5 b F s x)
    show ?case by (simp add: pro_ok_def pool_ok_def free_queue_def)
  next
    case (6 b F s x)
    show ?case by (simp add: pro_ok_def pool_ok_def free_queue_def)
  next
    case (7 b F s x)
    show ?case by (simp add: pro_ok_def pool_ok_def free_queue_def)
  next
    case (8 b F s x)
    then show ?case by (simp add: pro_ok_def pool_ok_def)
  next
    case (9 b F s)
    from record_pool.get_ok [OF rp this] show ?case using map_keeps_pool pool_keeps_steps by blast
  next
    case (10 b F s l)
    from record_pool.ret_ok [OF rp this] show ?case using map_keeps_pool pool_keeps_steps by blast
  qed
qed

interpretation hl: cached_pool layout_map "get_Record (Suc (Suc u)) 16 4 tid :: ((32 word, 'z) prevs_map_scheme, loc option) prog"
  "return_Record (Suc (Suc u)) 16 4 tid" "pro_ok lag layout_map" tid for u tid lag
  using cached_records_pro [OF layout_instances(2), where u = u and tid = tid and lag = lag] by (simp add: layout_map_def cached_pool_def)

section \<open>The operations\<close>

definition hl_get_Record :: "nat \<Rightarrow> nat \<Rightarrow> ((32 word, 'z) prevs_map_scheme, loc option) prog" where
  "hl_get_Record fuel tid = get_Record fuel 16 4 tid"

definition hl_return_Record :: "nat \<Rightarrow> nat \<Rightarrow> loc \<Rightarrow> ((32 word, 'z) prevs_map_scheme, unit) prog" where
  "hl_return_Record fuel tid record = return_Record fuel 16 4 tid record"

definition hl_handle_records :: "nat \<Rightarrow> nat \<Rightarrow> 64 word \<Rightarrow> flag \<Rightarrow> loc \<Rightarrow> loc \<Rightarrow> ((32 word, 'z) prevs_map_scheme, int) prog" where
  "hl_handle_records fuel tid pointer flag head tail = st (prevs_start tid) (handle_records fuel
     \<lparr>e_layout = layout_map, e_head = head, e_tail = tail, e_pointer = pointer, e_flag = flag,
      e_get = hl_get_Record fuel tid, e_return = hl_return_Record fuel tid,
      e_restart = restart_prevs fuel tid layout_map, e_note = note_prev tid\<rparr>)"

definition hl_psly_record :: "nat \<Rightarrow> nat \<Rightarrow> 64 word \<Rightarrow> ((32 word, 'z) prevs_map_scheme, int) prog" where
  "hl_psly_record fuel tid pointer = ldp (\<lambda>s. lists s (pointer_bucket pointer)) (\<lambda>(head, tail).
     hl_handle_records fuel tid pointer RECORD head tail)"

definition hl_psly_remove :: "nat \<Rightarrow> nat \<Rightarrow> 64 word \<Rightarrow> ((32 word, 'z) prevs_map_scheme, int) prog" where
  "hl_psly_remove fuel tid pointer = ldp (\<lambda>s. lists s (pointer_bucket pointer)) (\<lambda>(head, tail).
     hl_handle_records fuel tid pointer REMOVE head tail)"

definition hl_psly_search :: "nat \<Rightarrow> nat \<Rightarrow> 64 word \<Rightarrow> ((32 word, 'z) prevs_map_scheme, int) prog" where
  "hl_psly_search fuel tid pointer = ldp (\<lambda>s. lists s (pointer_bucket pointer)) (\<lambda>(head, tail).
     hl_handle_records fuel tid pointer SEARCH head tail)"

definition hl_INIT :: "nat \<Rightarrow> nat \<Rightarrow> nat \<Rightarrow> ((32 word, 'z) prevs_map_scheme, unit) prog" where
  "hl_INIT listNum fuel tid = st (init_pool 16 4) (init_lists layout_map (hl_get_Record fuel tid) [0..<listNum])"

definition hl_UNINIT :: "nat \<Rightarrow> (32 word, 'z) prevs_map_scheme \<Rightarrow> (32 word, 'z) prevs_map_scheme option" where
  "hl_UNINIT listNum s = map_option (\<lambda>s. s\<lparr>lists := (\<lambda>j. if j < listNum then None else lists s j)\<rparr>) (free_arrays [0..<2 ^ 4] s)"

definition hl_op :: "nat \<Rightarrow> nat \<Rightarrow> flag \<Rightarrow> 64 word \<Rightarrow> ((32 word, 'z) prevs_map_scheme, int) prog" where
  "hl_op fuel tid f p = (case f of RECORD \<Rightarrow> hl_psly_record fuel tid p
     | SEARCH \<Rightarrow> hl_psly_search fuel tid p | REMOVE \<Rightarrow> hl_psly_remove fuel tid p)"

lemma hl_same_op: "hl_op fuel tid = prevs_op layout_map (get_Record fuel 16 4 tid) (return_Record fuel 16 4 tid) fuel tid"
  by (intro ext) (simp add: hl_op_def hl_psly_record_def hl_psly_remove_def hl_psly_search_def prevs_op_def prevs_handle_records_def
      prevs_env_def hl_handle_records_def hl_get_Record_def hl_return_Record_def [abs_def] split: flag.split)

section \<open>The map counts its keys\<close>

abbreviation hl_map_ok :: "nat \<Rightarrow> bool \<Rightarrow> nat \<Rightarrow> loc set \<Rightarrow> (nat \<Rightarrow> entry list) \<Rightarrow> (32 word, 'z) prevs_map_scheme \<Rightarrow> bool" where
  "hl_map_ok tid lag b \<equiv> lists_ok layout_map (hl.ok' lag tid b) {..<2 ^ 17}"

lemma hl_init_run:
  assumes "steps s tid = 0" and fuel: "2 ^ 20 \<le> fuel" and b: "b \<le> 786416"
  shows "\<exists>t F. run (hl_INIT (2 ^ 17) fuel tid) s = Done () t \<and> hl_map_ok tid False b F (\<lambda>_. []) t"
proof -
  obtain g where g: "fuel = Suc (Suc g)" using fuel_2 [OF fuel] by blast
  let ?F = "free_set 4 (\<lambda>_. [0..<2 ^ 16])" and ?s = "init_pool 16 4 s"
  have st: "steps ?s tid = 0" using assms(1) by (simp add: init_pool_def)
  have "pool_ok False 16 (2 ^ 4) (\<lambda>_. [0..<2 ^ 16]) ?s" by (rule init_pool_lists) simp
  then have "\<exists>Q. pool_ok False (idxNum layout_map) (2 ^ arrNum layout_map) Q ?s \<and> ?F = free_set (arrNum layout_map) Q"
    by (intro exI [of _ "\<lambda>_. [0..<2 ^ 16]"]) (simp add: layout_map_def)
  moreover have "2 ^ arrNum layout_map + (b + 2 * length [0..<2 ^ 17]) \<le> card ?F"
    using b unfolding card_all16 by (simp add: layout_map_def)
  ultimately have "pro_ok False layout_map (b + 2 * length [0..<2 ^ 17]) ?F ?s" unfolding pro_ok_def by blast
  then have "hl.ok' False tid (b + 2 * length [0..<2 ^ 17]) ?F ?s" using st unfolding hl.ok'_def by simp
  then have "lists_ok layout_map (hl.ok' False tid (b + 2 * length [0..<2 ^ 17])) {} ?F (\<lambda>_. []) ?s"
    by (simp add: lists_ok_def)
  from hl.init_run [where u = g, folded g, OF this] obtain t F where
    "run (init_lists layout_map (get_Record fuel 16 4 tid) [0..<2 ^ 17]) ?s = Done () t"
    "lists_ok layout_map (hl.ok' False tid b) ({} \<union> set [0..<2 ^ 17]) F (\<lambda>_. []) t" by auto
  moreover have "{} \<union> set [0..<2 ^ 17] = {..<2 ^ 17 :: nat}" by auto
  ultimately show ?thesis by (auto simp: hl_INIT_def hl_get_Record_def)
qed

lemma hl_free:
  assumes "hl_map_ok tid lag b F E s"
  shows "hl_UNINIT (2 ^ 17) s = Some (s\<lparr>Records := (\<lambda>i. if i < 2 ^ 4 then None else Records s i),
     lists := (\<lambda>j. if j < 2 ^ 17 then None else lists s j)\<rparr>)"
proof -
  from assms have "hl.ok' lag tid b F s" by (simp add: lists_ok_def)
  then have "pro_ok lag layout_map b F s" by (simp add: hl.ok'_def)
  then obtain Q where "pool_ok lag 16 (2 ^ 4) Q s" by (auto simp: pro_ok_def layout_map_def)
  then have "i < ARRAYNUM_MAX \<and> Records s i \<noteq> None" if "i < 2 ^ 4" for i
    using that free_queue_alloc [of lag 16 i "Q i" s 0] by (auto simp: pool_ok_def rget_def ARRAYNUM_MAX_def)
  then have "free_arrays [0..<2 ^ 4] s = Some (s\<lparr>Records := (\<lambda>i. if i \<in> set [0..<2 ^ 4] then None else Records s i)\<rparr>)"
    by (intro free_arrays_ok) auto
  then show ?thesis by (simp add: hl_UNINIT_def cong: if_cong)
qed

text \<open>C33: the map of \<^verbatim>\<open>hazard_long.c\<close> returns what a counter of keys returns, for fewer than 65536 calls
  from the start of the program, and then frees every array and every list once.\<close>

theorem hazard_long_counts:
  assumes "steps s tid = 0" and "length ops < 65536" and "2 ^ 20 \<le> fuel"
  shows "\<exists>t. run (bind (hl_INIT (2 ^ 17) fuel tid) (\<lambda>_. script (hl_op fuel tid) ops)) s = Done (counter ops (\<lambda>_. 0)) t \<and>
    hl_UNINIT (2 ^ 17) t = Some (t\<lparr>Records := (\<lambda>i. if i < 2 ^ 4 then None else Records t i),
     lists := (\<lambda>j. if j < 2 ^ 17 then None else lists t j)\<rparr>)"
proof -
  obtain g where g: "fuel = Suc (Suc g)" using fuel_2 [OF assms(3)] by blast
  have "0 + inserts ops \<le> 786416" using inserts_le [of ops] assms(2) by simp
  from hl_init_run [OF assms(1,3) this] obtain s1 F where
    s: "run (hl_INIT (2 ^ 17) fuel tid) s = Done () s1" "hl_map_ok tid False (0 + inserts ops) F (\<lambda>_. []) s1" by blast
  have b: "2 ^ (arrNum layout_map + idxNum layout_map) \<le> fuel"
    "\<And>k. mcnt pointer_bucket (\<lambda>_. []) k + length ops < 2 ^ refNum layout_map"
    using assms(2,3) by (simp_all add: layout_map_def)
  from hl.prevs_script_run [where u = g, folded g, OF s(2) b] obtain t E F' where
    t: "run (script (hl_op fuel tid) ops) s1 = Done (counter ops (\<lambda>_. 0)) t" "hl_map_ok tid False 0 F' E t"
    unfolding hl_same_op by auto
  with s(1) hl_free [OF t(2)] show ?thesis by auto
qed

theorem hazard_long_counts_witness:
  "\<exists>t. run (bind (hl_INIT (2 ^ 17) (2 ^ 20) 0) (\<lambda>_. script (hl_op (2 ^ 20) 0) [(RECORD, 64), (RECORD, 64), (REMOVE, 64)])) (passed_two\<lparr>steps := \<lambda>_. 0\<rparr>)
      = Done [1, 2, 1] t \<and> hl_UNINIT (2 ^ 17) t \<noteq> None"
  using hazard_long_counts [where s = "passed_two\<lparr>steps := \<lambda>_. 0\<rparr>" and fuel = "2 ^ 20" and tid = 0
      and ops = "[(RECORD, 64), (RECORD, 64), (REMOVE, 64)]"]
  by (fastforce simp: op_count_def)

end
