(* ===== verification/MapQueues.thy ===== *)
theory MapQueues
  imports CountedQueue HazardLong
begin

text \<open>
  The queues of the five files that keep their nodes alive by the map: \<^verbatim>\<open>mayijin/mapLockFreeList-concurrentqueues.c\<close>
  (prefix \<open>mc\<close>), \<^verbatim>\<open>mayijin/hazard_long2.c\<close> (\<open>h2m\<close>), \<^verbatim>\<open>hazard_long2.c\<close> (\<open>h2\<close>), \<^verbatim>\<open>test_C_hazard_map.c\<close>
  (\<open>tch\<close>) and \<^verbatim>\<open>hazard_long.c\<close> (\<open>hl\<close>). Each is the queue of \<^verbatim>\<open>CountedQueue\<close> over the operations of its own
  map; the two kinds of map are shown to be a \<open>key_counter\<close>.
\<close>

section \<open>The operations of each file\<close>

subsection \<open>\<^verbatim>\<open>mayijin/mapLockFreeList-concurrentqueues.c\<close>\<close>

definition mc_allocateHPRec :: "nat \<Rightarrow> queue_cfg \<Rightarrow> nat \<Rightarrow> (64 word growing_map mapq, unit) prog" where
  "mc_allocateHPRec fuel c tid = allocateHPRec fuel c tid"

definition mc_retireHPrec :: "nat \<Rightarrow> (64 word growing_map mapq, unit) prog" where
  "mc_retireHPrec tid = retireHPrec tid"

definition mc_isIn :: "nat \<Rightarrow> nat \<Rightarrow> addr \<Rightarrow> (64 word growing_map mapq, bool) prog" where
  "mc_isIn fuel tid = mq_isIn (growing_op fuel tid)"

definition mc_scan :: "nat \<Rightarrow> nat \<Rightarrow> nat \<Rightarrow> (64 word growing_map mapq, unit) prog" where
  "mc_scan fuel tid local = scan (mc_isIn fuel tid) fuel local"

definition mc_retireNode :: "queue_cfg \<Rightarrow> nat \<Rightarrow> nat \<Rightarrow> addr \<Rightarrow> (64 word growing_map mapq, unit) prog" where
  "mc_retireNode c fuel tid node = retireNode (mc_isIn fuel tid) c fuel tid node"

definition mc_enqueue :: "queue_cfg \<Rightarrow> nat \<Rightarrow> nat \<Rightarrow> 32 word \<Rightarrow> (64 word growing_map mapq, unit) prog" where
  "mc_enqueue c fuel tid = mq_enqueue (growing_op fuel tid) Strict c fuel"

definition mc_dequeue :: "queue_cfg \<Rightarrow> nat \<Rightarrow> nat \<Rightarrow> (64 word growing_map mapq, 32 word) prog" where
  "mc_dequeue c fuel tid = mq_dequeue (growing_op fuel tid) Strict c fuel tid"

definition mc_thread_routine :: "queue_cfg \<Rightarrow> nat \<Rightarrow> nat \<Rightarrow> nat \<Rightarrow> (64 word growing_map mapq, 32 word list \<times> nat) prog" where
  "mc_thread_routine c fuel tid argv = mq_thread_routine (growing_op fuel tid) Strict c fuel tid argv"

subsection \<open>\<^verbatim>\<open>mayijin/hazard_long2.c\<close>\<close>

definition h2m_allocateHPRec :: "nat \<Rightarrow> queue_cfg \<Rightarrow> nat \<Rightarrow> (64 word growing_map mapq, unit) prog" where
  "h2m_allocateHPRec fuel c tid = allocateHPRec fuel c tid"

definition h2m_retireHPrec :: "nat \<Rightarrow> (64 word growing_map mapq, unit) prog" where
  "h2m_retireHPrec tid = retireHPrec tid"

definition h2m_isIn :: "nat \<Rightarrow> nat \<Rightarrow> addr \<Rightarrow> (64 word growing_map mapq, bool) prog" where
  "h2m_isIn fuel tid = mq_isIn (h2m_op fuel tid)"

definition h2m_scan :: "nat \<Rightarrow> nat \<Rightarrow> nat \<Rightarrow> (64 word growing_map mapq, unit) prog" where
  "h2m_scan fuel tid local = scan (h2m_isIn fuel tid) fuel local"

definition h2m_retireNode :: "queue_cfg \<Rightarrow> nat \<Rightarrow> nat \<Rightarrow> addr \<Rightarrow> (64 word growing_map mapq, unit) prog" where
  "h2m_retireNode c fuel tid node = retireNode (h2m_isIn fuel tid) c fuel tid node"

definition h2m_enqueue :: "queue_cfg \<Rightarrow> nat \<Rightarrow> nat \<Rightarrow> 32 word \<Rightarrow> (64 word growing_map mapq, unit) prog" where
  "h2m_enqueue c fuel tid = mq_enqueue (h2m_op fuel tid) Checked c fuel"

definition h2m_dequeue :: "queue_cfg \<Rightarrow> nat \<Rightarrow> nat \<Rightarrow> (64 word growing_map mapq, 32 word) prog" where
  "h2m_dequeue c fuel tid = mq_dequeue (h2m_op fuel tid) Checked c fuel tid"

definition h2m_thread_routine :: "queue_cfg \<Rightarrow> nat \<Rightarrow> nat \<Rightarrow> nat \<Rightarrow> (64 word growing_map mapq, 32 word list \<times> nat) prog" where
  "h2m_thread_routine c fuel tid argv = mq_thread_routine (h2m_op fuel tid) Checked c fuel tid argv"

subsection \<open>\<^verbatim>\<open>hazard_long2.c\<close>\<close>

definition h2_allocateHPRec :: "nat \<Rightarrow> queue_cfg \<Rightarrow> nat \<Rightarrow> (64 word growing_map mapq, unit) prog" where
  "h2_allocateHPRec fuel c tid = allocateHPRec fuel c tid"

definition h2_retireHPrec :: "nat \<Rightarrow> (64 word growing_map mapq, unit) prog" where
  "h2_retireHPrec tid = retireHPrec tid"

definition h2_isIn :: "nat \<Rightarrow> nat \<Rightarrow> addr \<Rightarrow> (64 word growing_map mapq, bool) prog" where
  "h2_isIn fuel tid = mq_isIn (h2_op fuel tid)"

definition h2_scan :: "nat \<Rightarrow> nat \<Rightarrow> nat \<Rightarrow> (64 word growing_map mapq, unit) prog" where
  "h2_scan fuel tid local = scan (h2_isIn fuel tid) fuel local"

definition h2_retireNode :: "queue_cfg \<Rightarrow> nat \<Rightarrow> nat \<Rightarrow> addr \<Rightarrow> (64 word growing_map mapq, unit) prog" where
  "h2_retireNode c fuel tid node = retireNode (h2_isIn fuel tid) c fuel tid node"

definition h2_enqueue :: "queue_cfg \<Rightarrow> nat \<Rightarrow> nat \<Rightarrow> 32 word \<Rightarrow> (64 word growing_map mapq, unit) prog" where
  "h2_enqueue c fuel tid = mq_enqueue (h2_op fuel tid) Checked c fuel"

definition h2_dequeue :: "queue_cfg \<Rightarrow> nat \<Rightarrow> nat \<Rightarrow> (64 word growing_map mapq, 32 word) prog" where
  "h2_dequeue c fuel tid = mq_dequeue (h2_op fuel tid) Checked c fuel tid"

definition h2_thread_routine :: "queue_cfg \<Rightarrow> nat \<Rightarrow> nat \<Rightarrow> nat \<Rightarrow> (64 word growing_map mapq, 32 word list \<times> nat) prog" where
  "h2_thread_routine c fuel tid argv = mq_thread_routine (h2_op fuel tid) Checked c fuel tid argv"

subsection \<open>\<^verbatim>\<open>test_C_hazard_map.c\<close>\<close>

definition tch_allocateHPRec :: "nat \<Rightarrow> queue_cfg \<Rightarrow> nat \<Rightarrow> (64 word growing_map mapq, unit) prog" where
  "tch_allocateHPRec fuel c tid = allocateHPRec fuel c tid"

definition tch_retireHPrec :: "nat \<Rightarrow> (64 word growing_map mapq, unit) prog" where
  "tch_retireHPrec tid = retireHPrec tid"

definition tch_isIn :: "nat \<Rightarrow> nat \<Rightarrow> addr \<Rightarrow> (64 word growing_map mapq, bool) prog" where
  "tch_isIn fuel tid = mq_isIn (tch_op fuel tid)"

definition tch_scan :: "nat \<Rightarrow> nat \<Rightarrow> nat \<Rightarrow> (64 word growing_map mapq, unit) prog" where
  "tch_scan fuel tid local = scan (tch_isIn fuel tid) fuel local"

definition tch_retireNode :: "queue_cfg \<Rightarrow> nat \<Rightarrow> nat \<Rightarrow> addr \<Rightarrow> (64 word growing_map mapq, unit) prog" where
  "tch_retireNode c fuel tid node = retireNode (tch_isIn fuel tid) c fuel tid node"

definition tch_enqueue :: "queue_cfg \<Rightarrow> nat \<Rightarrow> nat \<Rightarrow> 32 word \<Rightarrow> (64 word growing_map mapq, unit) prog" where
  "tch_enqueue c fuel tid = mq_enqueue (tch_op fuel tid) Checked c fuel"

definition tch_dequeue :: "queue_cfg \<Rightarrow> nat \<Rightarrow> nat \<Rightarrow> (64 word growing_map mapq, 32 word) prog" where
  "tch_dequeue c fuel tid = mq_dequeue (tch_op fuel tid) Checked c fuel tid"

definition tch_thread_routine :: "queue_cfg \<Rightarrow> nat \<Rightarrow> nat \<Rightarrow> nat \<Rightarrow> (64 word growing_map mapq, 32 word list \<times> nat) prog" where
  "tch_thread_routine c fuel tid argv = mq_thread_routine (tch_op fuel tid) Checked c fuel tid argv"

subsection \<open>\<^verbatim>\<open>hazard_long.c\<close>\<close>

definition hl_allocateHPRec :: "nat \<Rightarrow> queue_cfg \<Rightarrow> nat \<Rightarrow> (32 word prevs_map mapq, unit) prog" where
  "hl_allocateHPRec fuel c tid = allocateHPRec fuel c tid"

definition hl_retireHPrec :: "nat \<Rightarrow> (32 word prevs_map mapq, unit) prog" where
  "hl_retireHPrec tid = retireHPrec tid"

definition hl_isIn :: "nat \<Rightarrow> nat \<Rightarrow> addr \<Rightarrow> (32 word prevs_map mapq, bool) prog" where
  "hl_isIn fuel tid = mq_isIn (hl_op fuel tid)"

definition hl_scan :: "nat \<Rightarrow> nat \<Rightarrow> nat \<Rightarrow> (32 word prevs_map mapq, unit) prog" where
  "hl_scan fuel tid local = scan (hl_isIn fuel tid) fuel local"

definition hl_retireNode :: "queue_cfg \<Rightarrow> nat \<Rightarrow> nat \<Rightarrow> addr \<Rightarrow> (32 word prevs_map mapq, unit) prog" where
  "hl_retireNode c fuel tid node = retireNode (hl_isIn fuel tid) c fuel tid node"

definition hl_enqueue :: "queue_cfg \<Rightarrow> nat \<Rightarrow> nat \<Rightarrow> 32 word \<Rightarrow> (32 word prevs_map mapq, unit) prog" where
  "hl_enqueue c fuel tid = mq_enqueue (hl_op fuel tid) Plain c fuel"

definition hl_dequeue :: "queue_cfg \<Rightarrow> nat \<Rightarrow> nat \<Rightarrow> (32 word prevs_map mapq, 32 word) prog" where
  "hl_dequeue c fuel tid = mq_dequeue (hl_op fuel tid) Plain c fuel tid"

definition hl_thread_routine :: "queue_cfg \<Rightarrow> nat \<Rightarrow> nat \<Rightarrow> nat \<Rightarrow> (32 word prevs_map mapq, 32 word list \<times> nat) prog" where
  "hl_thread_routine c fuel tid argv = mq_thread_routine (hl_op fuel tid) Plain c fuel tid argv"

section \<open>The maps count keys\<close>

definition growing_minv :: "nat \<Rightarrow> nat \<Rightarrow> nat \<Rightarrow> (addr \<Rightarrow> nat) \<Rightarrow> 64 word growing_map \<Rightarrow> bool" where
  "growing_minv fuel tid b g m \<longleftrightarrow> 2 ^ 20 \<le> fuel \<and> (\<exists>F E. growing_map_ok tid False b F E m \<and> mcnt pointer_bucket E = g)"

definition hl_minv :: "nat \<Rightarrow> nat \<Rightarrow> nat \<Rightarrow> (addr \<Rightarrow> nat) \<Rightarrow> 32 word prevs_map \<Rightarrow> bool" where
  "hl_minv fuel tid b g m \<longleftrightarrow> 2 ^ 20 \<le> fuel \<and> (\<exists>F E. hl_map_ok tid False b F E m \<and> mcnt pointer_bucket E = g)"

lemma lists_ok_mono: "lists_ok L ok I F E s \<Longrightarrow> ok' F s \<Longrightarrow> lists_ok L ok' I F E s"
  by (simp add: lists_ok_def)

interpretation growing_keys: key_counter "growing_op fuel tid" "growing_minv fuel tid" 65535 for fuel tid
proof (unfold_locales, goal_cases)
  case (1 f b g m p)
  then obtain F E where m: "growing_map_ok tid False (need f b) F E m" "2 ^ 20 \<le> fuel" and g: "g = mcnt pointer_bucket E"
    by (auto simp: growing_minv_def)
  have "f = RECORD \<Longrightarrow> mcnt pointer_bucket E p < 65535" using 1(2) g by simp
  from growing_op_run [OF m this] show ?case unfolding g growing_minv_def using m(2) by blast
next
  case (2 b g m)
  then obtain F E where m: "growing_map_ok tid False (Suc b) F E m" "2 ^ 20 \<le> fuel" "mcnt pointer_bucket E = g"
    by (auto simp: growing_minv_def)
  have "growing.ok' False tid b F m"
    using m(1) by (auto simp: lists_ok_def growing.ok'_def growing_ok_def)
  from lists_ok_mono [OF m(1), of "growing.ok' False tid b", OF this] m(2,3) show ?case unfolding growing_minv_def by blast
qed

interpretation hl_keys: key_counter "hl_op fuel tid" "hl_minv fuel tid" 65535 for fuel tid
proof (unfold_locales, goal_cases)
  case (1 f b g m p)
  then obtain F E where m: "hl_map_ok tid False (need f b) F E m" "2 ^ 20 \<le> fuel" and g: "g = mcnt pointer_bucket E"
    by (auto simp: hl_minv_def)
  obtain u where u: "fuel = Suc (Suc u)" using fuel_2 [OF m(2)] by blast
  have "2 ^ (arrNum layout_map + idxNum layout_map) \<le> fuel" using m(2) by (simp add: layout_map_def)
  moreover have "f = RECORD \<Longrightarrow> mcnt pointer_bucket E p < 2 ^ refNum layout_map - 1" using 1(2) g by (simp add: layout_map_def)
  ultimately show ?case using hl.prevs_op_run [where u = u, folded u, OF m(1)] m(2) unfolding g hl_minv_def hl_same_op by blast
next
  case (2 b g m)
  then obtain F E where m: "hl_map_ok tid False (Suc b) F E m" "2 ^ 20 \<le> fuel" "mcnt pointer_bucket E = g"
    by (auto simp: hl_minv_def)
  have "hl.ok' False tid b F m"
    using m(1) by (auto simp: lists_ok_def hl.ok'_def dest: hl.less)
  from lists_ok_mono [OF m(1), of "hl.ok' False tid b", OF this] m(2,3) show ?case unfolding hl_minv_def by blast
qed

lemma thread_start_qmap [simp]: "thread_start k c fuel N ns m (s\<lparr>qmap := x\<rparr>) = thread_start k c fuel N ns m s"
proof -
  have "rec_chain (s\<lparr>qmap := x\<rparr>) p rs = rec_chain s p rs" for p rs by (induction rs arbitrary: p) simp_all
  then show ?thesis by (simp add: thread_start_def rec_active_def)
qed

text \<open>Where the nodes come from \<open>posix_memalign\<close>, the checks make no difference to what is needed.\<close>

lemma memalign_start: "thread_start Strict c fuel N ns m s \<Longrightarrow> k \<noteq> Tagged \<Longrightarrow> thread_start k c fuel N ns m s"
  "\<forall>a \<in> A. a AND 63 = 0 \<Longrightarrow> k \<noteq> Tagged \<Longrightarrow> aligned k A"
  by (simp_all add: thread_start_def aligned_def fits_def)

lemma few_none: "0 < MAXTHRES c \<Longrightarrow> few_guards c (\<lambda>_. 0)"
  by (simp add: few_guards_def)

section \<open>The queues of the files\<close>

text \<open>Before and after the program nothing is counted.\<close>

lemma growing_queue_run:
  assumes "growing_start (qmap s)" and "2 ^ 20 \<le> fuel" and "0 < MAXTHRES c" and "b \<le> 786416"
    and go: "\<And>m. growing_minv fuel tid b (\<lambda>_. 0) m \<Longrightarrow> \<exists>t. run body (s\<lparr>qmap := m\<rparr>) = Done x t \<and> growing_minv fuel tid 0 (\<lambda>_. 0) (qmap t)"
  shows "\<exists>t. run (bind (on_map (growing_INIT (2 ^ 17) fuel tid)) (\<lambda>_. body)) s = Done x t \<and>
    (\<forall>p. \<exists>u. run (mq_isIn (growing_op fuel tid) p) t = Done False u)"
proof -
  from growing_init_run [OF assms(1,2,4)] obtain m F where
    m: "run (growing_INIT (2 ^ 17) fuel tid) (qmap s) = Done () m" "growing_map_ok tid False b F (\<lambda>_. []) m" by blast
  have "growing_minv fuel tid b (\<lambda>_. 0) m" using m(2) assms(2) mcnt_empty unfolding growing_minv_def by blast
  from go [OF this] obtain t where t: "run body (s\<lparr>qmap := m\<rparr>) = Done x t" "growing_minv fuel tid 0 (\<lambda>_. 0) (qmap t)" by blast
  have "\<exists>u. run (mq_isIn (growing_op fuel tid) p) t = Done False u" for p
    using growing_keys.cq_isIn_run [OF t(2), of p] by auto
  with m(1) t(1) show ?thesis by auto
qed

lemma hl_queue_run:
  assumes "steps (qmap s) tid = 0" and "2 ^ 20 \<le> fuel" and "0 < MAXTHRES c" and "b \<le> 786416"
    and go: "\<And>m. hl_minv fuel tid b (\<lambda>_. 0) m \<Longrightarrow> \<exists>t. run body (s\<lparr>qmap := m\<rparr>) = Done x t \<and> hl_minv fuel tid 0 (\<lambda>_. 0) (qmap t)"
  shows "\<exists>t. run (bind (on_map (hl_INIT (2 ^ 17) fuel tid)) (\<lambda>_. body)) s = Done x t \<and>
    (\<forall>p. \<exists>u. run (hl_isIn fuel tid p) t = Done False u)"
proof -
  from hl_init_run [OF assms(1,2,4)] obtain m F where
    m: "run (hl_INIT (2 ^ 17) fuel tid) (qmap s) = Done () m" "hl_map_ok tid False b F (\<lambda>_. []) m" by blast
  have "hl_minv fuel tid b (\<lambda>_. 0) m" using m(2) assms(2) mcnt_empty unfolding hl_minv_def by blast
  from go [OF this] obtain t where t: "run body (s\<lparr>qmap := m\<rparr>) = Done x t" "hl_minv fuel tid 0 (\<lambda>_. 0) (qmap t)" by blast
  have "\<exists>u. run (hl_isIn fuel tid p) t = Done False u" for p
    using hl_keys.cq_isIn_run [OF t(2), of p] by (auto simp: hl_isIn_def)
  with m(1) t(1) show ?thesis by auto
qed

lemmas growing_same = h2m_same_op h2_same_op tch_same_op h2m_same_INIT h2_same_INIT tch_same_INIT
  h2m_isIn_def h2_isIn_def tch_isIn_def mc_isIn_def

lemmas growing_enq_deq = h2m_enqueue_def h2_enqueue_def tch_enqueue_def mc_enqueue_def
  h2m_dequeue_def h2_dequeue_def tch_dequeue_def mc_dequeue_def
  h2m_allocateHPRec_def h2_allocateHPRec_def tch_allocateHPRec_def mc_allocateHPRec_def

lemmas growing_threads = h2m_thread_routine_def h2_thread_routine_def tch_thread_routine_def mc_thread_routine_def

text \<open>C9: the queues of the four files with the growing pool, used by one thread from \<open>INIT_RESOURCE\<close> on,
  are first in first out, and afterwards no node is counted in the map: whatever an operation
  protected it has released.\<close>

theorem growing_queues_fifo:
  assumes "growing_start (qmap s)" and "2 ^ 20 \<le> fuel" and "0 < MAXTHRES c" and "4 * length ops + length ns \<le> 786416"
    and "thread_start Strict c fuel N ns (puts ops) s" and "\<forall>a \<in> fst ` set ns. a AND 63 = 0"
    and "(init, allocate, enq, deq, asks) \<in> {
      (growing_INIT (2 ^ 17) fuel tid, mc_allocateHPRec fuel c tid, mc_enqueue c fuel tid, mc_dequeue c fuel tid, mc_isIn fuel tid),
      (h2m_INIT (2 ^ 17) fuel tid, h2m_allocateHPRec fuel c tid, h2m_enqueue c fuel tid, h2m_dequeue c fuel tid, h2m_isIn fuel tid),
      (h2_INIT (2 ^ 17) fuel tid, h2_allocateHPRec fuel c tid, h2_enqueue c fuel tid, h2_dequeue c fuel tid, h2_isIn fuel tid),
      (tch_INIT (2 ^ 17) fuel tid, tch_allocateHPRec fuel c tid, tch_enqueue c fuel tid, tch_dequeue c fuel tid, tch_isIn fuel tid)}"
  shows "\<exists>t. run (bind (on_map init) (\<lambda>_. bind allocate (\<lambda>_. qscript enq deq ops))) s = Done (fifo ops (queue_values ns)) t \<and>
    (\<forall>p. \<exists>u. run (asks p) t = Done False u)"
proof -
  note al = memalign_start(2) [OF assms(6)] and start = memalign_start(1) [OF assms(5)]
  have "\<exists>t. run (bind (on_map (growing_INIT (2 ^ 17) fuel tid)) (\<lambda>_. bind (allocateHPRec fuel c tid)
      (\<lambda>_. qscript (mq_enqueue (growing_op fuel tid) k c fuel) (mq_dequeue (growing_op fuel tid) k c fuel tid) ops))) s
      = Done (fifo ops (queue_values ns)) t \<and> (\<forall>p. \<exists>u. run (mq_isIn (growing_op fuel tid) p) t = Done False u)" if k: "k \<noteq> Tagged" for k
    by (rule growing_queue_run [OF assms(1-4)], rule growing_keys.mq.cq_program_run [OF _ al [OF k]])
      (use assms(3) few_none start [OF k] in simp_all)
  with assms(7) show ?thesis by (auto simp: growing_same growing_enq_deq)
qed

text \<open>The dummy node and room for a thousand nodes.\<close>

definition mq_cfg :: queue_cfg where
  "mq_cfg = \<lparr>q_malloc = lowest_free 1000 64, THRESHOLD = 1, MAXTHRES = 10000, flagRet = True\<rparr>"

definition mq_empty :: "'m \<Rightarrow> 'm mapq" where
  "mq_empty m = \<lparr>node_at = [64 \<mapsto> \<lparr>n_value = - 1, n_next = 0\<rparr>], Head = 64, Tail = 64, GlobalHP = \<lambda>_. 0, HPnum = 0, recs = [],
     hp_head = None, myhprec = Map.empty, numOfRetire = 0, qmap = m\<rparr>"

lemma aligned_unat: "(a :: addr) AND 63 = 0 \<longleftrightarrow> unat a mod 64 = 0"
proof -
  have "(63 :: addr) = mask 6" by (simp add: mask_eq_exp_minus_1)
  then have "a AND 63 = take_bit 6 a" by (simp add: take_bit_eq_mask)
  moreover have "unat (take_bit 6 a) = unat a mod 64" by (simp only: unsigned_take_bit_eq) (simp add: take_bit_eq_mod)
  ultimately show ?thesis by (metis unat_eq_zero)
qed

lemma lowest_free_aligned: "a AND 63 = 0 \<Longrightarrow> lowest_free n a m AND 63 = 0"
proof (induction n arbitrary: a)
  case (Suc n)
  have "unat (a + 64) mod 64 = unat a mod 64" by (simp add: unat_word_ariths mod_mod_cancel)
  then have "(a + 64) AND 63 = 0" using Suc.prems by (simp add: aligned_unat)
  with Suc show ?case by simp
qed simp

lemma fits_all: "a AND 63 = 0 \<Longrightarrow> fits k a"
proof -
  have "(15 :: addr) = 63 AND 15" by simp
  then have "a AND 15 = (a AND 63) AND 15" by (simp only: and.assoc)
  moreover assume "a AND 63 = 0"
  ultimately show ?thesis by (simp add: fits_def)
qed

lemma mq_empty_start: "m \<le> 900 \<Longrightarrow> thread_start k mq_cfg (2 ^ 20) 1000 [(64, - 1)] m (mq_empty x)"
  using lowest_free_room lowest_free_aligned [of 64 1000] fits_all
  by (auto simp: thread_start_def mq_cfg_def mq_empty_def HPK_def MAXTHREADS_def queue_ok_def intro!: exI [of _ "[]"])

theorem growing_queues_fifo_witness:
  "\<exists>t. run (bind (on_map (h2_INIT (2 ^ 17) (2 ^ 20) 0)) (\<lambda>_. bind (h2_allocateHPRec (2 ^ 20) mq_cfg 0)
      (\<lambda>_. qscript (h2_enqueue mq_cfg (2 ^ 20) 0) (h2_dequeue mq_cfg (2 ^ 20) 0) [Enqueue 7, Enqueue 8, Dequeue, Dequeue, Dequeue])))
      (mq_empty growing_empty) = Done [7, 8, EMPTY] t \<and> (\<forall>p. \<exists>u. run (h2_isIn (2 ^ 20) 0 p) t = Done False u)"
proof -
  have "growing_start (qmap (mq_empty growing_empty))" "0 < MAXTHRES mq_cfg" using growing_start_empty by (simp_all add: mq_empty_def mq_cfg_def)
  from growing_queues_fifo [OF this(1) _ this(2) _ mq_empty_start, where tid = 0
      and ops = "[Enqueue 7, Enqueue 8, Dequeue, Dequeue, Dequeue]" and init = "h2_INIT (2 ^ 17) (2 ^ 20) 0" and allocate = "h2_allocateHPRec (2 ^ 20) mq_cfg 0"
      and enq = "h2_enqueue mq_cfg (2 ^ 20) 0" and deq = "h2_dequeue mq_cfg (2 ^ 20) 0" and asks = "h2_isIn (2 ^ 20) 0"]
  show ?thesis by (simp add: queue_values_def)
qed

text \<open>The same for \<^verbatim>\<open>hazard_long.c\<close>, whose pool does not grow and whose \<open>enqueue\<close> checks nothing.\<close>

theorem hazard_long_queue_fifo:
  assumes "steps (qmap s) tid = 0" and "2 ^ 20 \<le> fuel" and "0 < MAXTHRES c" and "4 * length ops + length ns \<le> 786416"
    and "thread_start Plain c fuel N ns (puts ops) s"
  shows "\<exists>t. run (bind (on_map (hl_INIT (2 ^ 17) fuel tid)) (\<lambda>_. bind (hl_allocateHPRec fuel c tid)
      (\<lambda>_. qscript (hl_enqueue c fuel tid) (hl_dequeue c fuel tid) ops))) s = Done (fifo ops (queue_values ns)) t \<and>
    (\<forall>p. \<exists>u. run (hl_isIn fuel tid p) t = Done False u)"
  unfolding hl_enqueue_def hl_dequeue_def hl_allocateHPRec_def
  by (rule hl_queue_run [OF assms(1-4)], rule hl_keys.mq.cq_program_run)
    (use assms(3,5) few_none in \<open>simp_all add: aligned_def\<close>)

theorem hazard_long_queue_fifo_witness:
  "\<exists>t. run (bind (on_map (hl_INIT (2 ^ 17) (2 ^ 20) 0)) (\<lambda>_. bind (hl_allocateHPRec (2 ^ 20) mq_cfg 0)
      (\<lambda>_. qscript (hl_enqueue mq_cfg (2 ^ 20) 0) (hl_dequeue mq_cfg (2 ^ 20) 0) [Enqueue 7, Dequeue, Dequeue])))
      (mq_empty (passed_two\<lparr>steps := \<lambda>_. 0\<rparr>)) = Done [7, EMPTY] t"
proof -
  have "steps (qmap (mq_empty (passed_two\<lparr>steps := \<lambda>_. 0\<rparr>))) 0 = 0" "0 < MAXTHRES mq_cfg" by (simp_all add: mq_empty_def mq_cfg_def)
  from hazard_long_queue_fifo [OF this(1) _ this(2) _ mq_empty_start, where ops = "[Enqueue 7, Dequeue, Dequeue]"]
  show ?thesis by (auto simp: queue_values_def)
qed

text \<open>C19: a thread of any of the four files that runs alone takes what was in the queue and then the
  numbers it queued itself, finds only the former wrong, and leaves nothing counted.\<close>

theorem growing_threads_end:
  assumes "growing_start (qmap s)" and "2 ^ 20 \<le> fuel" and "0 < MAXTHRES c" and "8 * n + 5 * length ns \<le> 786416"
    and "thread_start Strict c fuel N ns n s" and "\<forall>a \<in> fst ` set ns. a AND 63 = 0" and "EMPTY \<notin> set (queue_values ns)"
    and "(init, routine, asks) \<in> {
      (growing_INIT (2 ^ 17) fuel tid, mc_thread_routine c fuel tid n, mc_isIn fuel tid),
      (h2m_INIT (2 ^ 17) fuel tid, h2m_thread_routine c fuel tid n, h2m_isIn fuel tid),
      (h2_INIT (2 ^ 17) fuel tid, h2_thread_routine c fuel tid n, h2_isIn fuel tid),
      (tch_INIT (2 ^ 17) fuel tid, tch_thread_routine c fuel tid n, tch_isIn fuel tid)}"
  shows "\<exists>t. run (bind (on_map init) (\<lambda>_. routine)) s =
      Done (queue_values ns @ replicate n 3781, length (filter (\<lambda>v. v \<noteq> 3781) (queue_values ns))) t \<and>
    (\<forall>p. \<exists>u. run (asks p) t = Done False u)"
proof -
  note al = memalign_start(2) [OF assms(6)] and start = memalign_start(1) [OF assms(5)]
  have "\<exists>t. run (bind (on_map (growing_INIT (2 ^ 17) fuel tid)) (\<lambda>_. mq_thread_routine (growing_op fuel tid) k c fuel tid n)) s =
      Done (queue_values ns @ replicate n 3781, length (filter (\<lambda>v. v \<noteq> 3781) (queue_values ns))) t \<and>
      (\<forall>p. \<exists>u. run (mq_isIn (growing_op fuel tid) p) t = Done False u)" if k: "k \<noteq> Tagged" for k
    by (rule growing_queue_run [OF assms(1-4)], rule growing_keys.mq_thread_run [OF _ al [OF k]])
      (use assms(3,7) few_none start [OF k] in simp_all)
  with assms(8) show ?thesis by (auto simp: growing_same growing_threads)
qed

theorem growing_threads_end_witness:
  "\<exists>t. run (bind (on_map (growing_INIT (2 ^ 17) (2 ^ 20) 0)) (\<lambda>_. mc_thread_routine mq_cfg (2 ^ 20) 0 2)) (mq_empty growing_empty)
    = Done ([3781, 3781], 0) t"
proof -
  have "growing_start (qmap (mq_empty growing_empty))" "0 < MAXTHRES mq_cfg" using growing_start_empty by (simp_all add: mq_empty_def mq_cfg_def)
  from growing_threads_end [OF this(1) _ this(2) _ mq_empty_start, where tid = 0 and n = 2 and asks = "mc_isIn (2 ^ 20) 0"
      and init = "growing_INIT (2 ^ 17) (2 ^ 20) 0" and routine = "mc_thread_routine mq_cfg (2 ^ 20) 0 2"]
  show ?thesis by (auto simp: queue_values_def numeral_2_eq_2)
qed

text \<open>C16: \<open>dequeue\<close> of the four files with reclamation, run alone on a queue that is not empty, frees no node that any thread has counted in the map: a node that
  was allocated before and is not afterwards has count 0, and what other threads counted is
  still counted.\<close>

theorem growing_dequeue_spares:
  assumes "hp_queue c tid ns R s" and "\<forall>a \<in> fst ` set ns. a AND 63 = 0" and "queue_values ns = v # vs" and "flagRet c"
    and "growing_minv fuel tid (4 + length ns) g (qmap s)" and "\<forall>p. g p < 65535" and "few_guards c g" and "MAXTHRES c < fuel"
    and "deq \<in> {mc_dequeue c fuel tid, h2m_dequeue c fuel tid, h2_dequeue c fuel tid, tch_dequeue c fuel tid}"
  shows "\<exists>t R'. run deq s = Done v t \<and> hp_queue c tid (List.tl ns) R' t \<and> growing_minv fuel tid 0 g (qmap t) \<and>
    R' \<subseteq> insert (Head s) R \<and> {a. node_at s a \<noteq> None \<and> node_at t a = None} \<subseteq> {a \<in> insert (Head s) R. g a = 0} \<and>
    (int (card R') < THRESHOLD c \<or> (\<forall>a \<in> R'. 0 < g a))"
proof -
  have f: "2 \<le> fuel" using assms(5) by (simp add: growing_minv_def)
  from assms(1) have "Tail s \<in> fst ` set ns" by (simp add: hp_queue_def queue_ok_def)
  then obtain w where "(Tail s, w) \<in> set ns" by auto
  then obtain xs ys where ns: "ns = xs @ (Tail s, w) # ys" by (meson split_list)
  have "growing_minv fuel tid (0 + 4 + length ys) g (qmap s)" by (rule growing_keys.minv_le [OF assms(5)]) (simp add: ns)
  then have q: "growing_keys.cq_state fuel tid k c tid g (0 + 4) ns R s" if "k \<noteq> Tagged" for k
    using assms(1) memalign_start(2) [OF assms(2) that] ns unfolding growing_keys.cq_state_def by blast
  have "\<exists>t R'. run (mq_dequeue (growing_op fuel tid) k c fuel tid) s = Done v t \<and> hp_queue c tid (List.tl ns) R' t \<and>
      growing_minv fuel tid 0 g (qmap t) \<and> counted_post c g (insert (Head s) R) s R' t" if "k \<noteq> Tagged" for k
    using growing_keys.cq_dequeue_run [OF q [OF that] assms(3) f assms(8,7,6)] growing_keys.minv_le
    unfolding growing_keys.cq_state_def by blast
  moreover obtain k where "deq = mq_dequeue (growing_op fuel tid) k c fuel tid" "k \<noteq> Tagged"
    using assms(9) by (auto simp: growing_same growing_enq_deq)
  ultimately obtain t R' where t: "run deq s = Done v t" "hp_queue c tid (List.tl ns) R' t" "growing_minv fuel tid 0 g (qmap t)"
    "counted_post c g (insert (Head s) R) s R' t" by blast
  have "{a. node_at s a \<noteq> None \<and> node_at t a = None} \<subseteq> {a \<in> insert (Head s) R. g a = 0}"
    using t(4) assms(4) by (auto simp: counted_post_def split: if_splits)
  with t assms(4) show ?thesis by (auto simp: counted_post_def)
qed

theorem growing_dequeue_spares_witness:
  "\<exists>s t u. run (h2_dequeue mq_cfg (2 ^ 20) 0) s = Done 7 t \<and> run (mq_isIn (growing_op (2 ^ 20) 0) 64) t = Done False u"
proof -
  have g: "growing_start growing_empty" "(2::nat) ^ 20 \<le> 2 ^ 20" "(50::nat) \<le> 786416" using growing_start_empty by simp_all
  from growing_init_run [OF g, of 0] obtain m :: "64 word growing_map" and F where "growing_map_ok 0 False 50 F (\<lambda>_. []) m" by blast
  then have m: "growing_minv (2 ^ 20) 0 50 (\<lambda>_. 0) m" using mcnt_empty unfolding growing_minv_def by blast
  have few: "few_guards mq_cfg (\<lambda>_. 0)" by (rule few_none) (simp add: mq_cfg_def)
  have "aligned Strict (fst ` set [(64, - 1 :: 32 word)])" by (simp add: aligned_def fits_def)
  moreover have "growing_minv (2 ^ 20) 0 (4 * 11 + length [(64 :: addr, - 1 :: 32 word)]) (\<lambda>_. 0) (qmap (mq_empty m))"
    by (rule growing_keys.minv_le [of _ _ 50]) (use m in \<open>simp_all add: mq_empty_def\<close>)
  ultimately obtain s1 where
    "growing_keys.mq.cq_fifo (2 ^ 20) 0 Strict mq_cfg (2 ^ 20) 0 1000 (\<lambda>_. 0) (Suc 0) (Suc 10) (queue_values [(64, - 1)]) s1"
    using growing_keys.mq.started [OF mq_empty_start [of 1] _ _ few] by fastforce
  from growing_keys.mq.fifo.enq_run [OF this, of 7] obtain s where
    "growing_keys.mq.cq_fifo (2 ^ 20) 0 Strict mq_cfg (2 ^ 20) 0 1000 (\<lambda>_. 0) 0 10 [7] s" by (auto simp: queue_values_def)
  then obtain ns R where q: "growing_keys.cq_state (2 ^ 20) 0 Strict mq_cfg 0 (\<lambda>_. 0) 40 ns R s" "queue_values ns = 7 # []"
    by (auto simp: growing_keys.mq.cq_fifo_def)
  have len: "length ns \<le> 36" using arg_cong [OF q(2), of length] by (simp add: queue_values_def)
  from q(1) obtain ys where "growing_minv (2 ^ 20) 0 (40 + length (ys :: (addr \<times> 32 word) list)) (\<lambda>_. 0) (qmap s)"
    by (auto simp: growing_keys.cq_state_def)
  then have "growing_minv (2 ^ 20) 0 (4 + length ns) (\<lambda>_. 0) (qmap s)" by (rule growing_keys.minv_le) (use len in simp)
  moreover have "hp_queue mq_cfg 0 ns R s" "\<forall>a \<in> fst ` set ns. a AND 63 = 0" using q(1) by (simp_all add: growing_keys.cq_state_def aligned_def fits_def)
  ultimately obtain t R' where
    "run (h2_dequeue mq_cfg (2 ^ 20) 0) s = Done 7 t" "growing_minv (2 ^ 20) 0 0 (\<lambda>_. 0) (qmap t)"
    using growing_dequeue_spares [OF _ _ q(2), where tid = 0 and fuel = "2 ^ 20" and c = mq_cfg and s = s and R = R and g = "\<lambda>_. 0"
       and deq = "h2_dequeue mq_cfg (2 ^ 20) 0"] few by (auto simp: mq_cfg_def)
  then show ?thesis using growing_keys.cq_isIn_run by (metis less_irrefl)
qed

end
