(* ===== verification/FastMaps.thy ===== *)
theory FastMaps
  imports HazardLong
begin

text \<open>
  The maps of \<^verbatim>\<open>hazardpointer_fast.c\<close> (prefix \<open>fast\<close>) and \<^verbatim>\<open>hazardpointer_fastCopy.c\<close> (\<open>fcp\<close>): the pool of
  \<^verbatim>\<open>RecordPool\<close> with 16 arrays and the list of \<^verbatim>\<open>RecordList\<close>, without a cache, in 131072 lists. The first
  file writes the loop out as \<^verbatim>\<open>mayijin/lockfreePro.c\<close> does, the second with \<open>goto\<close>; both count
  their iterations only to print a message, which is left out. They differ in how a pointer
  chooses its list, so what they share is proved over that choice (locale \<open>fixed_map\<close>).
\<close>

section \<open>The operations of each file\<close>

subsection \<open>\<^verbatim>\<open>hazardpointer_fast.c\<close>\<close>

definition fast_get_Record :: "nat \<Rightarrow> nat \<Rightarrow> ((32 word, 'z) map_pool_scheme, loc option) prog" where
  "fast_get_Record fuel tid = get_Record fuel 16 4 tid"

definition fast_return_Record :: "nat \<Rightarrow> nat \<Rightarrow> loc \<Rightarrow> ((32 word, 'z) map_pool_scheme, unit) prog" where
  "fast_return_Record fuel tid record = return_Record fuel 16 4 tid record"

definition fast_handle_records :: "nat \<Rightarrow> nat \<Rightarrow> 64 word \<Rightarrow> flag \<Rightarrow> loc \<Rightarrow> loc \<Rightarrow> ((32 word, 'z) map_pool_scheme, int) prog" where
  "fast_handle_records fuel tid pointer flag head tail = handle_records fuel
     \<lparr>e_layout = layout_map, e_head = head, e_tail = tail, e_pointer = pointer, e_flag = flag,
      e_get = fast_get_Record fuel tid, e_return = fast_return_Record fuel tid,
      e_restart = restart_head layout_map head, e_note = (\<lambda>_ k. k)\<rparr>"

definition fast_psly_record :: "nat \<Rightarrow> nat \<Rightarrow> 64 word \<Rightarrow> ((32 word, 'z) map_pool_scheme, int) prog" where
  "fast_psly_record fuel tid pointer = ldp (\<lambda>s. lists s (pointer_bucket pointer)) (\<lambda>(head, tail).
     fast_handle_records fuel tid pointer RECORD head tail)"

definition fast_psly_remove :: "nat \<Rightarrow> nat \<Rightarrow> 64 word \<Rightarrow> ((32 word, 'z) map_pool_scheme, int) prog" where
  "fast_psly_remove fuel tid pointer = ldp (\<lambda>s. lists s (pointer_bucket pointer)) (\<lambda>(head, tail).
     fast_handle_records fuel tid pointer REMOVE head tail)"

definition fast_psly_search :: "nat \<Rightarrow> nat \<Rightarrow> 64 word \<Rightarrow> ((32 word, 'z) map_pool_scheme, int) prog" where
  "fast_psly_search fuel tid pointer = ldp (\<lambda>s. lists s (pointer_bucket pointer)) (\<lambda>(head, tail).
     fast_handle_records fuel tid pointer SEARCH head tail)"

definition fast_INIT :: "nat \<Rightarrow> nat \<Rightarrow> nat \<Rightarrow> ((32 word, 'z) map_pool_scheme, unit) prog" where
  "fast_INIT listNum fuel tid = st (init_pool 16 4) (init_lists layout_map (fast_get_Record fuel tid) [0..<listNum])"

definition fast_UNINIT :: "nat \<Rightarrow> (32 word, 'z) map_pool_scheme \<Rightarrow> (32 word, 'z) map_pool_scheme option" where
  "fast_UNINIT listNum s = map_option (\<lambda>s. s\<lparr>lists := (\<lambda>j. if j < listNum then None else lists s j)\<rparr>) (free_arrays [0..<2 ^ 4] s)"

definition fast_op :: "nat \<Rightarrow> nat \<Rightarrow> flag \<Rightarrow> 64 word \<Rightarrow> ((32 word, 'z) map_pool_scheme, int) prog" where
  "fast_op fuel tid f p = (case f of RECORD \<Rightarrow> fast_psly_record fuel tid p
     | SEARCH \<Rightarrow> fast_psly_search fuel tid p | REMOVE \<Rightarrow> fast_psly_remove fuel tid p)"

subsection \<open>\<^verbatim>\<open>hazardpointer_fastCopy.c\<close>\<close>

definition fcp_get_Record :: "nat \<Rightarrow> nat \<Rightarrow> ((32 word, 'z) map_pool_scheme, loc option) prog" where
  "fcp_get_Record fuel tid = get_Record fuel 16 4 tid"

definition fcp_return_Record :: "nat \<Rightarrow> nat \<Rightarrow> loc \<Rightarrow> ((32 word, 'z) map_pool_scheme, unit) prog" where
  "fcp_return_Record fuel tid record = return_Record fuel 16 4 tid record"

definition fcp_handle_records :: "nat \<Rightarrow> nat \<Rightarrow> 64 word \<Rightarrow> flag \<Rightarrow> loc \<Rightarrow> loc \<Rightarrow> ((32 word, 'z) map_pool_scheme, int) prog" where
  "fcp_handle_records fuel tid pointer flag head tail = handle_records fuel
     \<lparr>e_layout = layout_map, e_head = head, e_tail = tail, e_pointer = pointer, e_flag = flag,
      e_get = fcp_get_Record fuel tid, e_return = fcp_return_Record fuel tid,
      e_restart = restart_head layout_map head, e_note = (\<lambda>_ k. k)\<rparr>"

definition fcp_psly_record :: "nat \<Rightarrow> nat \<Rightarrow> 64 word \<Rightarrow> ((32 word, 'z) map_pool_scheme, int) prog" where
  "fcp_psly_record fuel tid pointer = ldp (\<lambda>s. lists s (bucket 131072 pointer)) (\<lambda>(head, tail).
     fcp_handle_records fuel tid pointer RECORD head tail)"

definition fcp_psly_remove :: "nat \<Rightarrow> nat \<Rightarrow> 64 word \<Rightarrow> ((32 word, 'z) map_pool_scheme, int) prog" where
  "fcp_psly_remove fuel tid pointer = ldp (\<lambda>s. lists s (bucket 131072 pointer)) (\<lambda>(head, tail).
     fcp_handle_records fuel tid pointer REMOVE head tail)"

definition fcp_psly_search :: "nat \<Rightarrow> nat \<Rightarrow> 64 word \<Rightarrow> ((32 word, 'z) map_pool_scheme, int) prog" where
  "fcp_psly_search fuel tid pointer = ldp (\<lambda>s. lists s (bucket 131072 pointer)) (\<lambda>(head, tail).
     fcp_handle_records fuel tid pointer SEARCH head tail)"

definition fcp_INIT :: "nat \<Rightarrow> nat \<Rightarrow> nat \<Rightarrow> ((32 word, 'z) map_pool_scheme, unit) prog" where
  "fcp_INIT listNum fuel tid = st (init_pool 16 4) (init_lists layout_map (fcp_get_Record fuel tid) [0..<listNum])"

definition fcp_UNINIT :: "nat \<Rightarrow> (32 word, 'z) map_pool_scheme \<Rightarrow> (32 word, 'z) map_pool_scheme option" where
  "fcp_UNINIT listNum s = map_option (\<lambda>s. s\<lparr>lists := (\<lambda>j. if j < listNum then None else lists s j)\<rparr>) (free_arrays [0..<2 ^ 4] s)"

definition fcp_op :: "nat \<Rightarrow> nat \<Rightarrow> flag \<Rightarrow> 64 word \<Rightarrow> ((32 word, 'z) map_pool_scheme, int) prog" where
  "fcp_op fuel tid f p = (case f of RECORD \<Rightarrow> fcp_psly_record fuel tid p
     | SEARCH \<Rightarrow> fcp_psly_search fuel tid p | REMOVE \<Rightarrow> fcp_psly_remove fuel tid p)"

text \<open>The records that \<open>main\<close> of the first file counts in the lists before it frees them, which it prints as
  \<open>the rest\<close>; \<open>None\<close> where the walk leaves memory.\<close>

definition fast_rest :: "nat \<Rightarrow> (32 word, 'z) map_pool_scheme \<Rightarrow> nat option" where
  "fast_rest fuel s = count_lists fuel layout_map s [0..<131072]"

section \<open>Any choice of the list\<close>

definition fixed_op :: "(64 word \<Rightarrow> nat) \<Rightarrow> nat \<Rightarrow> nat \<Rightarrow> flag \<Rightarrow> 64 word \<Rightarrow> ((32 word, 'z) map_pool_scheme, int) prog" where
  "fixed_op B fuel tid f p = on_list fuel (list_env layout_map fuel tid p f) (B p)"

lemma fixed_room: "b \<le> 786416 \<Longrightarrow> room layout_map 17 b"
  using layout_instances(2) by (simp add: room_def layout_map_def)

abbreviation fixed_ok :: "nat \<Rightarrow> loc set \<Rightarrow> (nat \<Rightarrow> entry list) \<Rightarrow> (32 word, 'z) map_pool_scheme \<Rightarrow> bool" where
  "fixed_ok b \<equiv> map_ok False layout_map 17 b"

locale fixed_map =
  fixes B :: "64 word \<Rightarrow> nat"
  assumes B_lt: "B p < 2 ^ 17"
begin

sublocale record_map layout_map "get_Record (Suc (Suc u)) 16 4 tid :: ((32 word, 'z) map_pool_scheme, loc option) prog"
  "return_Record (Suc (Suc u)) 16 4 tid" "pro_ok False layout_map" pool_keeps B "2 ^ 17" for u tid
proof -
  have "record_pool layout_map (get_Record (Suc (Suc u)) 16 4 tid :: ((32 word, 'z) map_pool_scheme, loc option) prog)
      (return_Record (Suc (Suc u)) 16 4 tid) (pro_ok False layout_map) pool_keeps"
    using record_pool_pro [OF layout_instances(2), where fuel = u and tid = tid and lag = False] by (simp add: layout_map_def)
  then show "record_map layout_map (get_Record (Suc (Suc u)) 16 4 tid :: ((32 word, 'z) map_pool_scheme, loc option) prog)
      (return_Record (Suc (Suc u)) 16 4 tid) (pro_ok False layout_map) pool_keeps B (2 ^ 17)"
    using B_lt by (intro record_map.intro record_map_axioms.intro) (auto simp: pro_ok_def pool_ok_def dest: pool_keeps_lists)
qed

lemma fixed_env_ok:
  "env_ok u tid (list_env layout_map (Suc (Suc u)) tid p f h z) z p \<and>
    e_head (list_env layout_map (Suc (Suc u)) tid p f h z) = h \<and> e_flag (list_env layout_map (Suc (Suc u)) tid p f h z) = f"
  using list_env_ok [OF layout_instances(2), where fuel = u and tid = tid and lag = False] by (simp add: layout_map_def)

lemma fixed_op_run:
  assumes "fixed_ok (need f b) F E s" and "2 ^ 20 \<le> fuel" and "f = RECORD \<Longrightarrow> mcnt B E p < 65535"
  shows "\<exists>t E' F'. run (fixed_op B fuel tid f p) s = Done (int (op_count f (mcnt B E p))) t \<and> fixed_ok b F' E' t \<and>
    mcnt B E' = (mcnt B E)(p := op_count f (mcnt B E p)) \<and>
    (\<Union>i<2 ^ 17. nodes t E' i) \<union> F' = (\<Union>i<2 ^ 17. nodes s E i) \<union> F"
proof -
  obtain u where u: "fuel = Suc (Suc u)" using fuel_2 [OF assms(2)] by blast
  have "2 ^ (arrNum layout_map + idxNum layout_map) \<le> fuel" "f = RECORD \<Longrightarrow> mcnt B E p < 2 ^ refNum layout_map - 1"
    using assms(2,3) by (simp_all add: layout_map_def)
  from map_run [where u = u and tid = tid, folded u, OF assms(1) fixed_env_ok [where u = u, folded u] this] show ?thesis
    unfolding fixed_op_def by blast
qed

text \<open>The whole life of a map: what its operations return, and which records are free at the end.\<close>

lemma fixed_program:
  assumes "length ops < 65536" and "2 ^ 20 \<le> fuel"
  shows "\<exists>t num free. run (bind (INIT_RESOURCE layout_map (2 ^ 17) fuel tid) (\<lambda>_. script (fixed_op B fuel tid) ops)) s
      = Done (counter ops (\<lambda>_. 0)) t \<and> count_lists fuel layout_map t [0..<2 ^ 17] = Some num \<and>
    count_free 16 t [0..<2 ^ 4] = Some free \<and> free + num + 2 ^ 17 * 2 = 2 ^ 20 \<and>
    (\<forall>i < 2 ^ 4. Records t i \<noteq> None)"
proof -
  obtain u where u: "fuel = Suc (Suc u)" using fuel_2 [OF assms(2)] by blast
  have f: "2 ^ (arrNum layout_map + idxNum layout_map) \<le> fuel" "\<And>k. mcnt B (\<lambda>_. []) k + length ops < 2 ^ refNum layout_map"
    using assms by (simp_all add: layout_map_def)
  have "room layout_map 17 (0 + inserts ops)" using inserts_le [of ops] assms(1) by (intro fixed_room) simp
  from init_map_run [OF this f(1)] obtain s1 F where
    s: "run (INIT_RESOURCE layout_map (2 ^ 17) fuel tid) s = Done () s1" "fixed_ok (0 + inserts ops) F (\<lambda>_. []) s1"
      "(\<Union>i<2 ^ 17. nodes s1 (\<lambda>_. []) i) \<union> F = all_records layout_map" by blast
  from script_run [where u = u and tid = tid, folded u, where mk = "\<lambda>f p. list_env layout_map fuel tid p f" and pre = id,
      OF s(2) f _ _ fixed_env_ok [where u = u, folded u], of "fixed_op B fuel tid"] obtain t E F' where
    t: "run (script (fixed_op B fuel tid) ops) s1 = Done (counter ops (\<lambda>_. 0)) t" "fixed_ok 0 F' E t"
      "(\<Union>i<2 ^ 17. nodes t E i) \<union> F' = all_records layout_map"
    unfolding s(3) by (auto simp: fixed_op_def on_list_def pool_keeps_def)
  from leak_check [OF t(2,3) f(1)] obtain num where
    "count_lists fuel layout_map t [0..<2 ^ 17] = Some num" "UNINIT_RESOURCE layout_map (2 ^ 17) num t = Some False" by blast
  moreover from this(2) obtain free where "count_free 16 t [0..<2 ^ 4] = Some free" "free + num + 2 ^ 17 * 2 = 2 ^ 20"
    by (auto simp: UNINIT_RESOURCE_def layout_map_def)
  moreover have "\<forall>i < 2 ^ 4. Records t i \<noteq> None"
    using t(2) by (auto simp: lists_ok_def pro_ok_def pool_ok_def free_queue_def layout_map_def)
  ultimately show ?thesis using s(1) t(1) by (intro exI [of _ t] exI [of _ num] exI [of _ free]) simp
qed

end

interpretation fast_map: fixed_map pointer_bucket
  by unfold_locales (rule hl.bucket_lt)

interpretation fcp_map: fixed_map "bucket 131072"
  using bucket_lt [of 17] by unfold_locales simp

lemma fast_same_op: "fast_op fuel tid = fixed_op pointer_bucket fuel tid"
  by (intro ext) (simp add: fast_op_def fast_psly_record_def fast_psly_remove_def fast_psly_search_def fixed_op_def on_list_def
      fast_handle_records_def list_env_def fast_get_Record_def [abs_def] fast_return_Record_def [abs_def] layout_map_def split: flag.split)

lemma fcp_same_op: "fcp_op fuel tid = fixed_op (bucket 131072) fuel tid"
  by (intro ext) (simp add: fcp_op_def fcp_psly_record_def fcp_psly_remove_def fcp_psly_search_def fixed_op_def on_list_def
      fcp_handle_records_def list_env_def fcp_get_Record_def [abs_def] fcp_return_Record_def [abs_def] layout_map_def split: flag.split)

lemma fast_same_INIT: "fast_INIT n fuel tid = INIT_RESOURCE layout_map n fuel tid" "fcp_INIT n fuel tid = INIT_RESOURCE layout_map n fuel tid"
  by (simp_all add: fast_INIT_def fcp_INIT_def INIT_RESOURCE_def fast_get_Record_def fcp_get_Record_def layout_map_def)

lemma fast_same_UNINIT: "fcp_UNINIT = fast_UNINIT"
  by (intro ext) (simp add: fcp_UNINIT_def fast_UNINIT_def)

lemma fast_UNINIT_ok:
  assumes "\<forall>i < 2 ^ 4. Records t i \<noteq> None"
  shows "fast_UNINIT n t = Some (t\<lparr>Records := (\<lambda>i. if i < 2 ^ 4 then None else Records t i),
     lists := (\<lambda>j. if j < n then None else lists t j)\<rparr>)"
proof -
  have "free_arrays [0..<2 ^ 4] t = Some (t\<lparr>Records := (\<lambda>i. if i \<in> set [0..<2 ^ 4] then None else Records t i)\<rparr>)"
    using assms by (intro free_arrays_ok) (auto simp: ARRAYNUM_MAX_def)
  then show ?thesis by (simp add: fast_UNINIT_def cong: if_cong)
qed

text \<open>C31: the maps of \<^verbatim>\<open>hazardpointer_fast.c\<close> and \<^verbatim>\<open>hazardpointer_fastCopy.c\<close> return what a counter of keys
  returns, for fewer than 65536 calls from \<open>INIT_RESOURCE\<close> on. At the end the walk of \<open>main\<close> over the lists finds
  every record that is neither free nor the end of a list, and each array and list is freed once.\<close>

theorem fast_files_count:
  assumes "length ops < 65536" and "2 ^ 20 \<le> fuel"
    and "(init, opr, uninit) \<in> {(fast_INIT (2 ^ 17) fuel tid, fast_op fuel tid, fast_UNINIT (2 ^ 17)),
      (fcp_INIT (2 ^ 17) fuel tid, fcp_op fuel tid, fcp_UNINIT (2 ^ 17))}"
  shows "\<exists>t num free. run (bind init (\<lambda>_. script opr ops)) s = Done (counter ops (\<lambda>_. 0)) t \<and>
    fast_rest fuel t = Some num \<and> count_free 16 t [0..<2 ^ 4] = Some free \<and> free + num + 2 ^ 17 * 2 = 2 ^ 20 \<and>
    uninit t = Some (t\<lparr>Records := (\<lambda>i. if i < 2 ^ 4 then None else Records t i),
     lists := (\<lambda>j. if j < 2 ^ 17 then None else lists t j)\<rparr>)"
proof -
  have r: "fast_rest fuel t = count_lists fuel layout_map t [0..<2 ^ 17]" for t :: "(32 word, 'z) map_pool_scheme"
    by (simp add: fast_rest_def)
  from assms(3) consider "init = fast_INIT (2 ^ 17) fuel tid" "opr = fast_op fuel tid" "uninit = fast_UNINIT (2 ^ 17)"
    | "init = fcp_INIT (2 ^ 17) fuel tid" "opr = fcp_op fuel tid" "uninit = fcp_UNINIT (2 ^ 17)" by blast
  then show ?thesis
  proof cases
    case 1
    from fast_map.fixed_program [OF assms(1,2), of tid s] show ?thesis
      unfolding 1 fast_same_op fast_same_INIT r using fast_UNINIT_ok by blast
  next
    case 2
    from fcp_map.fixed_program [OF assms(1,2), of tid s] show ?thesis
      unfolding 2 fcp_same_op fast_same_INIT fast_same_UNINIT r using fast_UNINIT_ok by blast
  qed
qed

theorem fast_files_count_witness:
  "\<exists>t num. run (bind (fast_INIT (2 ^ 17) (2 ^ 20) 0) (\<lambda>_. script (fast_op (2 ^ 20) 0) [(RECORD, 64), (RECORD, 64), (REMOVE, 64), (SEARCH, 80)])) empty_map
      = Done [1, 2, 1, 0] t \<and> fast_rest (2 ^ 20) t = Some num"
  using fast_files_count [where ops = "[(RECORD, 64), (RECORD, 64), (REMOVE, 64), (SEARCH, 80)]" and fuel = "2 ^ 20" and tid = 0 and s = empty_map
    and init = "fast_INIT (2 ^ 17) (2 ^ 20) 0" and opr = "fast_op (2 ^ 20) 0" and uninit = "fast_UNINIT (2 ^ 17)"]
  by (fastforce simp: op_count_def)

end
