(* ===== verification/FastQueues.thy ===== *)
theory FastQueues
  imports MapQueues FastMaps
begin

text \<open>
  The queues of \<^verbatim>\<open>hazardpointer_fast.c\<close> (prefix \<open>fast\<close>) and \<^verbatim>\<open>hazardpointer_fastCopy.c\<close> (\<open>fcp\<close>): the queue of
  \<^verbatim>\<open>CountedQueue\<close> over the maps of \<^verbatim>\<open>FastMaps\<close>. The first takes its nodes from \<open>posix_memalign\<close>, the
  second from \<open>malloc\<close>, and exits when \<open>Tail\<close> is odd.
\<close>

section \<open>The operations of each file\<close>

subsection \<open>\<^verbatim>\<open>hazardpointer_fast.c\<close>\<close>

definition fast_allocateHPRec :: "nat \<Rightarrow> queue_cfg \<Rightarrow> nat \<Rightarrow> (32 word map_pool mapq, unit) prog" where
  "fast_allocateHPRec fuel c tid = allocateHPRec fuel c tid"

definition fast_retireHPrec :: "nat \<Rightarrow> (32 word map_pool mapq, unit) prog" where
  "fast_retireHPrec tid = retireHPrec tid"

definition fast_isIn :: "nat \<Rightarrow> nat \<Rightarrow> addr \<Rightarrow> (32 word map_pool mapq, bool) prog" where
  "fast_isIn fuel tid = mq_isIn (fast_op fuel tid)"

definition fast_scan :: "nat \<Rightarrow> nat \<Rightarrow> nat \<Rightarrow> (32 word map_pool mapq, unit) prog" where
  "fast_scan fuel tid local = scan (fast_isIn fuel tid) fuel local"

definition fast_retireNode :: "queue_cfg \<Rightarrow> nat \<Rightarrow> nat \<Rightarrow> addr \<Rightarrow> (32 word map_pool mapq, unit) prog" where
  "fast_retireNode c fuel tid node = retireNode (fast_isIn fuel tid) c fuel tid node"

definition fast_enqueue :: "queue_cfg \<Rightarrow> nat \<Rightarrow> nat \<Rightarrow> 32 word \<Rightarrow> (32 word map_pool mapq, unit) prog" where
  "fast_enqueue c fuel tid = mq_enqueue (fast_op fuel tid) Plain c fuel"

definition fast_dequeue :: "queue_cfg \<Rightarrow> nat \<Rightarrow> nat \<Rightarrow> (32 word map_pool mapq, 32 word) prog" where
  "fast_dequeue c fuel tid = mq_dequeue (fast_op fuel tid) Plain c fuel tid"

definition fast_thread_routine :: "queue_cfg \<Rightarrow> nat \<Rightarrow> nat \<Rightarrow> nat \<Rightarrow> (32 word map_pool mapq, 32 word list \<times> nat) prog" where
  "fast_thread_routine c fuel tid argv = mq_thread_routine (fast_op fuel tid) Plain c fuel tid argv"

subsection \<open>\<^verbatim>\<open>hazardpointer_fastCopy.c\<close>\<close>

definition fcp_allocateHPRec :: "nat \<Rightarrow> queue_cfg \<Rightarrow> nat \<Rightarrow> (32 word map_pool mapq, unit) prog" where
  "fcp_allocateHPRec fuel c tid = allocateHPRec fuel c tid"

definition fcp_retireHPrec :: "nat \<Rightarrow> (32 word map_pool mapq, unit) prog" where
  "fcp_retireHPrec tid = retireHPrec tid"

definition fcp_isIn :: "nat \<Rightarrow> nat \<Rightarrow> addr \<Rightarrow> (32 word map_pool mapq, bool) prog" where
  "fcp_isIn fuel tid = mq_isIn (fcp_op fuel tid)"

definition fcp_scan :: "nat \<Rightarrow> nat \<Rightarrow> nat \<Rightarrow> (32 word map_pool mapq, unit) prog" where
  "fcp_scan fuel tid local = scan (fcp_isIn fuel tid) fuel local"

definition fcp_retireNode :: "queue_cfg \<Rightarrow> nat \<Rightarrow> nat \<Rightarrow> addr \<Rightarrow> (32 word map_pool mapq, unit) prog" where
  "fcp_retireNode c fuel tid node = retireNode (fcp_isIn fuel tid) c fuel tid node"

definition fcp_enqueue :: "queue_cfg \<Rightarrow> nat \<Rightarrow> nat \<Rightarrow> 32 word \<Rightarrow> (32 word map_pool mapq, unit) prog" where
  "fcp_enqueue c fuel tid = mq_enqueue (fcp_op fuel tid) Tagged c fuel"

definition fcp_dequeue :: "queue_cfg \<Rightarrow> nat \<Rightarrow> nat \<Rightarrow> (32 word map_pool mapq, 32 word) prog" where
  "fcp_dequeue c fuel tid = mq_dequeue (fcp_op fuel tid) Tagged c fuel tid"

definition fcp_thread_routine :: "queue_cfg \<Rightarrow> nat \<Rightarrow> nat \<Rightarrow> nat \<Rightarrow> (32 word map_pool mapq, 32 word list \<times> nat) prog" where
  "fcp_thread_routine c fuel tid argv = mq_thread_routine (fcp_op fuel tid) Tagged c fuel tid argv"

section \<open>The maps count keys\<close>

definition fixed_minv :: "(64 word \<Rightarrow> nat) \<Rightarrow> nat \<Rightarrow> nat \<Rightarrow> (addr \<Rightarrow> nat) \<Rightarrow> 32 word map_pool \<Rightarrow> bool" where
  "fixed_minv B fuel b g m \<longleftrightarrow> 2 ^ 20 \<le> fuel \<and> (\<exists>F E. fixed_ok b F E m \<and> mcnt B E = g)"

context fixed_map
begin

sublocale keys: key_counter "fixed_op B fuel tid" "fixed_minv B fuel" 65535 for fuel tid
proof (unfold_locales, goal_cases)
  case (1 f b g m p)
  then obtain F E where m: "fixed_ok (need f b) F E m" "2 ^ 20 \<le> fuel" and g: "g = mcnt B E"
    by (auto simp: fixed_minv_def)
  have "f = RECORD \<Longrightarrow> mcnt B E p < 65535" using 1(2) g by simp
  from fixed_op_run [OF m this] show ?case unfolding g fixed_minv_def using m(2) by blast
next
  case (2 b g m)
  then obtain F E where m: "fixed_ok (Suc b) F E m" "2 ^ 20 \<le> fuel" "mcnt B E = g"
    by (auto simp: fixed_minv_def)
  have "pro_ok False layout_map b F m" using m(1) by (auto simp: lists_ok_def pro_ok_def)
  from lists_ok_mono [OF m(1), of "pro_ok False layout_map b", OF this] m(2,3) show ?case unfolding fixed_minv_def by blast
qed

text \<open>Before and after the program nothing is counted.\<close>

lemma fixed_queue_run:
  assumes "2 ^ 20 \<le> fuel" and "b \<le> 786416"
    and go: "\<And>m. fixed_minv B fuel b (\<lambda>_. 0) m \<Longrightarrow> \<exists>t. run body (s\<lparr>qmap := m\<rparr>) = Done x t \<and> fixed_minv B fuel 0 (\<lambda>_. 0) (qmap t)"
  shows "\<exists>t. run (bind (on_map (INIT_RESOURCE layout_map (2 ^ 17) fuel tid)) (\<lambda>_. body)) s = Done x t \<and>
    (\<forall>p. \<exists>u. run (mq_isIn (fixed_op B fuel tid) p) t = Done False u)"
proof -
  have "2 ^ (arrNum layout_map + idxNum layout_map) \<le> fuel" using assms(1) by (simp add: layout_map_def)
  from init_map_run [OF fixed_room [OF assms(2)] this] obtain m F where
    m: "run (INIT_RESOURCE layout_map (2 ^ 17) fuel tid) (qmap s) = Done () m" "fixed_ok b F (\<lambda>_. []) m" by blast
  have "fixed_minv B fuel b (\<lambda>_. 0) m" using m(2) assms(1) mcnt_empty unfolding fixed_minv_def by blast
  from go [OF this] obtain t where t: "run body (s\<lparr>qmap := m\<rparr>) = Done x t" "fixed_minv B fuel 0 (\<lambda>_. 0) (qmap t)" by blast
  have "\<exists>u. run (mq_isIn (fixed_op B fuel tid) p) t = Done False u" for p
    using keys.cq_isIn_run [OF t(2), of tid p] by auto
  with m(1) t(1) show ?thesis by auto
qed

lemma fixed_queue_fifo:
  fixes s :: "32 word map_pool mapq"
  assumes "2 ^ 20 \<le> fuel" and "0 < MAXTHRES c" and "4 * length ops + length ns \<le> 786416"
    and "thread_start k c fuel N ns (puts ops) s" and "aligned k (fst ` set ns)"
  shows "\<exists>t. run (bind (on_map (INIT_RESOURCE layout_map (2 ^ 17) fuel tid)) (\<lambda>_. bind (allocateHPRec fuel c tid)
      (\<lambda>_. qscript (mq_enqueue (fixed_op B fuel tid) k c fuel) (mq_dequeue (fixed_op B fuel tid) k c fuel tid) ops))) s
      = Done (fifo ops (queue_values ns)) t \<and> (\<forall>p. \<exists>u. run (mq_isIn (fixed_op B fuel tid) p) t = Done False u)"
  by (rule fixed_queue_run [OF assms(1,3)], rule keys.mq.cq_program_run [OF _ assms(5)])
    (use assms(2,4) few_none in simp_all)

lemma fixed_thread_end:
  fixes s :: "32 word map_pool mapq"
  assumes "2 ^ 20 \<le> fuel" and "0 < MAXTHRES c" and "8 * n + 5 * length ns \<le> 786416"
    and "thread_start k c fuel N ns n s" and "aligned k (fst ` set ns)" and "EMPTY \<notin> set (queue_values ns)"
  shows "\<exists>t. run (bind (on_map (INIT_RESOURCE layout_map (2 ^ 17) fuel tid)) (\<lambda>_. mq_thread_routine (fixed_op B fuel tid) k c fuel tid n)) s =
      Done (queue_values ns @ replicate n 3781, length (filter (\<lambda>v. v \<noteq> 3781) (queue_values ns))) t \<and>
    (\<forall>p. \<exists>u. run (mq_isIn (fixed_op B fuel tid) p) t = Done False u)"
  by (rule fixed_queue_run [OF assms(1,3)], rule keys.mq_thread_run [OF _ assms(5)])
    (use assms(2,4,6) few_none in simp_all)

end

section \<open>The queues of the files\<close>

lemmas fast_queue_defs = fast_enqueue_def fast_dequeue_def fast_isIn_def fast_allocateHPRec_def fast_thread_routine_def
  fcp_enqueue_def fcp_dequeue_def fcp_isIn_def fcp_allocateHPRec_def fcp_thread_routine_def

text \<open>C34: the queues of \<^verbatim>\<open>hazardpointer_fast.c\<close> and \<^verbatim>\<open>hazardpointer_fastCopy.c\<close>, used by one thread from
  \<open>INIT_RESOURCE\<close> on, are first in first out and leave no node counted in the map; and so does a whole
  \<open>thread_routine\<close>, which takes what was in the queue and then its own numbers.\<close>

theorem fast_queues_fifo:
  assumes "2 ^ 20 \<le> fuel" and "0 < MAXTHRES c" and "4 * length ops + length ns \<le> 786416" and "8 * n + 5 * length ns \<le> 786416"
    and "thread_start k c fuel N ns (puts ops + n) s" and "aligned k (fst ` set ns)" and "EMPTY \<notin> set (queue_values ns)"
    and "(k, init, allocate, enq, deq, routine, asks) \<in> {
      (Plain, fast_INIT (2 ^ 17) fuel tid, fast_allocateHPRec fuel c tid, fast_enqueue c fuel tid, fast_dequeue c fuel tid,
        fast_thread_routine c fuel tid n, fast_isIn fuel tid),
      (Tagged, fcp_INIT (2 ^ 17) fuel tid, fcp_allocateHPRec fuel c tid, fcp_enqueue c fuel tid, fcp_dequeue c fuel tid,
        fcp_thread_routine c fuel tid n, fcp_isIn fuel tid)}"
  shows "\<exists>t u. run (bind (on_map init) (\<lambda>_. bind allocate (\<lambda>_. qscript enq deq ops))) s = Done (fifo ops (queue_values ns)) t \<and>
    run (bind (on_map init) (\<lambda>_. routine)) s = Done (queue_values ns @ replicate n 3781, length (filter (\<lambda>v. v \<noteq> 3781) (queue_values ns))) u \<and>
    (\<forall>p. (\<exists>x. run (asks p) t = Done False x) \<and> (\<exists>x. run (asks p) u = Done False x))"
proof -
  have st: "thread_start k c fuel N ns (puts ops) s" "thread_start k c fuel N ns n s"
    using assms(5) by (simp_all add: thread_start_def)
  note fast = fast_map.fixed_queue_fifo [OF assms(1-3) st(1) assms(6), of tid] fast_map.fixed_thread_end [OF assms(1,2,4) st(2) assms(6,7), of tid]
  note fcp = fcp_map.fixed_queue_fifo [OF assms(1-3) st(1) assms(6), of tid] fcp_map.fixed_thread_end [OF assms(1,2,4) st(2) assms(6,7), of tid]
  from assms(8) consider "k = Plain" "init = fast_INIT (2 ^ 17) fuel tid" "allocate = fast_allocateHPRec fuel c tid" "enq = fast_enqueue c fuel tid"
      "deq = fast_dequeue c fuel tid" "routine = fast_thread_routine c fuel tid n" "asks = fast_isIn fuel tid"
    | "k = Tagged" "init = fcp_INIT (2 ^ 17) fuel tid" "allocate = fcp_allocateHPRec fuel c tid" "enq = fcp_enqueue c fuel tid"
      "deq = fcp_dequeue c fuel tid" "routine = fcp_thread_routine c fuel tid n" "asks = fcp_isIn fuel tid" by blast
  then show ?thesis
  proof cases
    case 1
    from fast show ?thesis unfolding 1 fast_queue_defs fast_same_op fast_same_INIT by blast
  next
    case 2
    from fcp show ?thesis unfolding 2 fast_queue_defs fcp_same_op fast_same_INIT by blast
  qed
qed

theorem fast_queues_fifo_witness:
  "\<exists>t u. run (bind (on_map (fcp_INIT (2 ^ 17) (2 ^ 20) 0)) (\<lambda>_. bind (fcp_allocateHPRec (2 ^ 20) mq_cfg 0)
      (\<lambda>_. qscript (fcp_enqueue mq_cfg (2 ^ 20) 0) (fcp_dequeue mq_cfg (2 ^ 20) 0) [Enqueue 7, Dequeue, Dequeue]))) (mq_empty empty_map)
      = Done [7, EMPTY] t \<and>
    run (bind (on_map (fcp_INIT (2 ^ 17) (2 ^ 20) 0)) (\<lambda>_. fcp_thread_routine mq_cfg (2 ^ 20) 0 2)) (mq_empty empty_map)
      = Done ([3781, 3781], 0) u"
proof -
  have "0 < MAXTHRES mq_cfg" "aligned Tagged (fst ` set [(64, - 1 :: 32 word)])" by (simp_all add: mq_cfg_def aligned_def fits_def)
  from fast_queues_fifo [OF _ this(1) _ _ mq_empty_start [of _ _ empty_map] this(2), where tid = 0 and n = 2 and ops = "[Enqueue 7, Dequeue, Dequeue]"
      and init = "fcp_INIT (2 ^ 17) (2 ^ 20) 0" and allocate = "fcp_allocateHPRec (2 ^ 20) mq_cfg 0" and enq = "fcp_enqueue mq_cfg (2 ^ 20) 0"
      and deq = "fcp_dequeue mq_cfg (2 ^ 20) 0" and routine = "fcp_thread_routine mq_cfg (2 ^ 20) 0 2" and asks = "fcp_isIn (2 ^ 20) 0"]
  show ?thesis by (auto simp: queue_values_def numeral_2_eq_2)
qed

end
