(* ===== verification/EarlyList.thy ===== *)
theory EarlyList
  imports RecordList
begin

text \<open>
  The sorted list of the earlier files: \<open>psly_handle_records\<close> as \<^verbatim>\<open>simple64.c\<close>,
  \<^verbatim>\<open>simple64T.c\<close> and their kin have it, before \<^verbatim>\<open>mayijin/lockfreePro.c\<close> rewrote it. It keeps
  walking after it has found the key: the record is kept in \<open>found\<close>, and only when the next key
  is reached is its count changed. A record counted down to zero is unlinked together with the
  deleted ones before it (\<open>CasRemove\<close>), and a new one is taken from the pool behind
  \<open>CasAppend\<close>.

  The files differ in six places, which are the fields of the environment: whether a
  compare-and-swap returns the word it found (\<open>a_val\<close>; these files also look at \<open>found\<close> again in
  each turn) or the word is read again after it failed, the word of a new record, the order in
  which a record given back is cleared and read (\<open>a_fetch\<close>), and how a record that could not be
  linked is restored (\<open>a_undo\<close>).
\<close>

unbundle bit_operations_syntax

section \<open>Local variables and environment\<close>

record early_locals = locals +
  v_found :: "loc option"
  v_foundNext :: "64 word"

record 's early_env =
  a_layout :: layout
  a_head :: loc
  a_tail :: loc
  a_pointer :: "64 word"
  a_flag :: flag
  a_get :: "('s, loc option) prog"
  a_return :: "loc \<Rightarrow> ('s, unit) prog"
  a_newNext :: "64 word \<Rightarrow> 32 word \<Rightarrow> 64 word"
  a_val :: bool
  a_fetch :: "loc \<Rightarrow> (64 word \<Rightarrow> ('s, int) prog) \<Rightarrow> ('s, int) prog"
  a_undo :: "loc \<Rightarrow> 64 word \<Rightarrow> 64 word \<Rightarrow> ('s, int) prog \<Rightarrow> ('s, int) prog"

section \<open>The jumps of the loop\<close>

text \<open>\<open>goto Restart\<close> and \<open>goto JUSTNEXTCHANGE\<close>; \<open>kp\<close> is \<open>goto KeepPrev\<close>.\<close>

definition goto_Restart :: "('c, 'z) pool_scheme early_env \<Rightarrow> early_locals \<Rightarrow> (early_locals \<Rightarrow> (('c, 'z) pool_scheme, int) prog) \<Rightarrow> (('c, 'z) pool_scheme, int) prog" where
  "goto_Restart e v kp =
    rd r_nextRecord (a_head e) (\<lambda>prevNext.
    kp (v\<lparr>v_prev := a_head e, v_prevNext := prevNext, v_curr := loc_of (a_layout e) prevNext, v_found := None\<rparr>))"

definition JUSTNEXTCHANGE :: "layout \<Rightarrow> 64 word \<Rightarrow> early_locals \<Rightarrow> early_locals" where
  "JUSTNEXTCHANGE L New v = v\<lparr>v_prevNext := New, v_curr := loc_of L New, v_found := None\<rparr>"

text \<open>The two tests on the word read from \<open>prev\<close>, then \<open>prevNext = New\<close>.\<close>

definition check_prev :: "('c, 'z) pool_scheme early_env \<Rightarrow> 64 word \<Rightarrow> early_locals \<Rightarrow> (early_locals \<Rightarrow> (('c, 'z) pool_scheme, int) prog) \<Rightarrow>
    (early_locals \<Rightarrow> (('c, 'z) pool_scheme, int) prog) \<Rightarrow> (('c, 'z) pool_scheme, int) prog" where
  "check_prev e New v kp k =
    (if stale (a_layout e) (v_prevNext v) New then goto_Restart e v kp
     else if moved (a_layout e) (v_prevNext v) New then kp (JUSTNEXTCHANGE (a_layout e) New v)
     else k (v\<lparr>v_prevNext := New\<rparr>))"

text \<open>A record was reused: \<open>prev\<close> is read again, and the loop goes on behind it or restarts.\<close>

definition reused :: "('c, 'z) pool_scheme early_env \<Rightarrow> early_locals \<Rightarrow> (early_locals \<Rightarrow> (('c, 'z) pool_scheme, int) prog) \<Rightarrow> (('c, 'z) pool_scheme, int) prog" where
  "reused e v kp =
    rd r_nextRecord (v_prev v) (\<lambda>New.
    if stale (a_layout e) (v_prevNext v) New then goto_Restart e v kp
    else kp (JUSTNEXTCHANGE (a_layout e) New v))"

text \<open>A compare-and-swap of \<open>nextRecord\<close>. \<open>no\<close> gets the way \<open>New\<close> is looked up after it failed: the
  word the compare-and-swap returned, or a new read.\<close>

definition swap :: "('c, 'z) pool_scheme early_env \<Rightarrow> loc \<Rightarrow> 64 word \<Rightarrow> 64 word \<Rightarrow> (('c, 'z) pool_scheme, int) prog \<Rightarrow>
    (((64 word \<Rightarrow> (('c, 'z) pool_scheme, int) prog) \<Rightarrow> (('c, 'z) pool_scheme, int) prog) \<Rightarrow> (('c, 'z) pool_scheme, int) prog) \<Rightarrow> (('c, 'z) pool_scheme, int) prog" where
  "swap e l old new yes no =
    (if a_val e then vcas_next l old new (\<lambda>prevBefore. if prevBefore = old then yes else no (\<lambda>k. k prevBefore))
     else casp (\<lambda>s. map_option r_nextRecord (rget l s)) old (rset l (set_nextRecord new))
       (\<lambda>ok. if ok then yes else no (rd r_nextRecord l)))"

section \<open>\<open>CasAppend\<close> and \<open>CasRemove\<close>\<close>

text \<open>\<open>get_Record\<close> may return \<open>NULL\<close>, which both tests and the code behind them dereference. The
  old \<open>pointer\<close> (\<open>b\<close>) is needed only by the file that restores it.\<close>

fun CasAppend :: "(early_locals \<Rightarrow> (('c, 'z) pool_scheme, int) prog) \<Rightarrow> nat \<Rightarrow> ('c, 'z) pool_scheme early_env \<Rightarrow> early_locals \<Rightarrow> (('c, 'z) pool_scheme, int) prog" where
  "CasAppend kp 0 e v = Spin"
| "CasAppend kp (Suc n) e v =
    bind (a_get e) (\<lambda>r. case r of None \<Rightarrow> Crash | Some my \<Rightarrow>
    rd r_nextRecord (v_prev v) (\<lambda>New.
    if stale (a_layout e) (v_prevNext v) New then
      bind (a_return e my) (\<lambda>_. goto_Restart e v kp)
    else if moved (a_layout e) (v_prevNext v) New then
      bind (a_return e my) (\<lambda>_. kp (JUSTNEXTCHANGE (a_layout e) New v))
    else
      rd r_nextRecord my (\<lambda>localN.
      rd r_pointer my (\<lambda>b.
      rd r_self (v_curr v) (\<lambda>self.
      wr (set_pointer (a_pointer e)) my (
      wr (set_nextRecord (a_newNext e localN self)) my (
      rd r_self my (\<lambda>self.
      swap e (v_prev v) (v_prevNext v) (nxtAddrV (a_layout e) (v_prevNext v) self)
        (Ret 1)
        (\<lambda>look.
          a_undo e my localN b (
          bind (a_return e my) (\<lambda>_.
          look (\<lambda>New. check_prev e New v kp (\<lambda>v. CasAppend kp n e v)))))))))))))"

text \<open>The \<open>do\<close> loop that gives back the unlinked records; \<open>STEP\<close> collects what \<open>RECORD\<close> finds when it
  reads \<open>prev\<close> again: 0 is \<open>NONE\<close>, 1 \<open>KEEPPREV\<close>, 2 \<open>RESTART\<close>.\<close>

definition next_STEP :: "layout \<Rightarrow> 64 word \<Rightarrow> 64 word \<Rightarrow> nat \<Rightarrow> nat" where
  "next_STEP L old New STEP =
    (let STEP = if stale L old New then (if STEP < 2 then 2 else STEP) else STEP
     in if moved L old New then (if STEP < 1 then 1 else STEP) else STEP)"

definition look_prev :: "('c, 'z) pool_scheme early_env \<Rightarrow> early_locals \<Rightarrow> nat \<Rightarrow> (early_locals \<Rightarrow> nat \<Rightarrow> (('c, 'z) pool_scheme, int) prog) \<Rightarrow> (('c, 'z) pool_scheme, int) prog" where
  "look_prev e v STEP k =
    (if a_flag e = RECORD then
       rd r_nextRecord (v_prev v) (\<lambda>New.
       k (v\<lparr>v_prevNext := New\<rparr>) (next_STEP (a_layout e) (v_prevNext v) New STEP))
     else k v STEP)"

fun give_back :: "nat \<Rightarrow> ('c, 'z) pool_scheme early_env \<Rightarrow> 64 word \<Rightarrow> early_locals \<Rightarrow> nat \<Rightarrow> (early_locals \<Rightarrow> nat \<Rightarrow> (('c, 'z) pool_scheme, int) prog) \<Rightarrow> (('c, 'z) pool_scheme, int) prog" where
  "give_back 0 e local v STEP k = Spin"
| "give_back (Suc fuel) e local v STEP k =
    (let first = loc_of (a_layout e) local in
    a_fetch e first (\<lambda>local.
    bind (a_return e first) (\<lambda>_.
    look_prev e v STEP (\<lambda>v STEP.
    rd r_self (v_curr v) (\<lambda>self.
    if local AND ARRIDXBITL (a_layout e) \<noteq> scast self AND ARRIDXBITL (a_layout e)
    then give_back fuel e local v STEP k
    else k v STEP)))))"

fun CasRemove :: "(early_locals \<Rightarrow> (('c, 'z) pool_scheme, int) prog) \<Rightarrow> nat \<Rightarrow> nat \<Rightarrow> ('c, 'z) pool_scheme early_env \<Rightarrow> early_locals \<Rightarrow> (('c, 'z) pool_scheme, int) prog" where
  "CasRemove kp fuel 0 e v = Spin"
| "CasRemove kp fuel (Suc n) e v =
    rd r_self (v_curr v) (\<lambda>self.
    let New = nxtAddrV (a_layout e) (v_prevNext v) self in
    swap e (v_prev v) (v_prevNext v) New
      (give_back fuel e (v_prevNext v) (v\<lparr>v_prevNext := New\<rparr>) 0 (\<lambda>v STEP.
        if a_flag e = REMOVE then Ret 0
        else if STEP = 2 then goto_Restart e v kp
        else if STEP = 1 then kp (JUSTNEXTCHANGE (a_layout e) (v_prevNext v) v)
        else CasAppend kp fuel e v))
      (\<lambda>look. look (\<lambda>New. check_prev e New v kp (\<lambda>v. CasRemove kp fuel n e v))))"

section \<open>The found record\<close>

text \<open>The inner loop on \<open>found\<close> (\<open>f\<close>), after its word \<open>New\<close> has been looked up.\<close>

fun found_loop :: "(early_locals \<Rightarrow> (('c, 'z) pool_scheme, int) prog) \<Rightarrow> nat \<Rightarrow> nat \<Rightarrow> ('c, 'z) pool_scheme early_env \<Rightarrow> loc \<Rightarrow> 64 word \<Rightarrow> early_locals \<Rightarrow> (('c, 'z) pool_scheme, int) prog" where
  "found_loop kp fuel 0 e f New v = Spin"
| "found_loop kp fuel (Suc n) e f New v =
    (if v_foundNext v AND NODEBITS (a_layout e) \<noteq> New AND NODEBITS (a_layout e) then
       (if a_flag e = REMOVE then Ret 0 else reused e v kp)
     else
       let v = v\<lparr>v_foundNext := New\<rparr> in
       if New AND REFCBITS (a_layout e) = DELETED then
         CasRemove kp fuel fuel e (v\<lparr>v_curr := loc_of (a_layout e) New\<rparr>)
       else if a_flag e = REMOVE then
         rmwp (\<lambda>s. map_option (\<lambda>r. (sub_REFONE (a_layout e) (r_nextRecord r),
                    rset f (set_nextRecord (sub_REFONE (a_layout e) (r_nextRecord r))) s)) (rget f s)) (\<lambda>refNum.
         if refNum AND REFCBITS (a_layout e) \<noteq> DELETED then Ret (count_of (a_layout e) refNum)
         else
           let v = v\<lparr>v_removed := True\<rparr> in
           if a_val e then found_loop kp fuel n e f refNum v
           else rd r_nextRecord f (\<lambda>New. found_loop kp fuel n e f New v))
       else
         let refNum = plusRecord (a_layout e) New in
         swap e f New refNum
           (Ret (count_of (a_layout e) refNum))
           (\<lambda>look. look (\<lambda>New. found_loop kp fuel n e f New v)))"

section \<open>The loop\<close>

text \<open>The end of the walk: \<open>curr\<close> is the tail or its key is beyond \<open>key\<close>.\<close>

definition walk_end :: "(early_locals \<Rightarrow> (('c, 'z) pool_scheme, int) prog) \<Rightarrow> nat \<Rightarrow> ('c, 'z) pool_scheme early_env \<Rightarrow> early_locals \<Rightarrow> (('c, 'z) pool_scheme, int) prog" where
  "walk_end kp fuel e v =
    (case v_found v of
       Some f \<Rightarrow>
         if a_flag e = SEARCH then Ret (count_of (a_layout e) (v_foundNext v))
         else rd r_nextRecord f (\<lambda>New. found_loop kp fuel fuel e f New v)
     | None \<Rightarrow>
         if a_flag e = SEARCH then Ret 0
         else
           rd r_self (v_curr v) (\<lambda>self.
           if v_prevNext v AND ARRIDXBITL (a_layout e) \<noteq> scast self AND ARRIDXBITL (a_layout e)
           then CasRemove kp fuel fuel e v
           else if v_removed v then Ret 0
           else CasAppend kp fuel e v))"

text \<open>A turn at a record that is not beyond \<open>key\<close>; \<open>currNext\<close> and \<open>currKey\<close> were read from it.\<close>

definition walk_on :: "(early_locals \<Rightarrow> (('c, 'z) pool_scheme, int) prog) \<Rightarrow> ('c, 'z) pool_scheme early_env \<Rightarrow> 64 word \<Rightarrow> 64 word \<Rightarrow> early_locals \<Rightarrow> (('c, 'z) pool_scheme, int) prog" where
  "walk_on kp e currKey currNext v =
    rd r_nextRecord (v_curr v) (\<lambda>New.
    if currNext AND NODEBITS (a_layout e) \<noteq> New AND NODEBITS (a_layout e) then reused e v kp
    else
      let currNext = New; succ = loc_of (a_layout e) currNext in
      if currNext AND REFCBITS (a_layout e) = DELETED then kp (v\<lparr>v_curr := succ\<rparr>)
      else if currKey \<noteq> a_pointer e then kp (v\<lparr>v_prev := v_curr v, v_prevNext := currNext, v_curr := succ\<rparr>)
      else if v_removed v then Ret 0
      else kp (v\<lparr>v_found := Some (v_curr v), v_foundNext := currNext, v_curr := succ\<rparr>))"

text \<open>The files with \<open>a_val\<close> look whether the link of \<open>found\<close> has changed.\<close>

definition check_found :: "('c, 'z) pool_scheme early_env \<Rightarrow> early_locals \<Rightarrow> (early_locals \<Rightarrow> (('c, 'z) pool_scheme, int) prog) \<Rightarrow>
    (early_locals \<Rightarrow> (('c, 'z) pool_scheme, int) prog) \<Rightarrow> (('c, 'z) pool_scheme, int) prog" where
  "check_found e v kp k =
    (case v_found v of
       Some f \<Rightarrow>
         if a_val e then
           rd r_nextRecord f (\<lambda>New.
           if moved (a_layout e) (v_foundNext v) New then
             let foundNext = (v_foundNext v AND NOT (NEXTTT (a_layout e))) OR (New AND NEXTTT (a_layout e))
             in kp (v\<lparr>v_foundNext := foundNext, v_curr := loc_of (a_layout e) foundNext\<rparr>)
           else k v)
         else k v
     | None \<Rightarrow> k v)"

definition walk :: "(early_locals \<Rightarrow> (('c, 'z) pool_scheme, int) prog) \<Rightarrow> nat \<Rightarrow> ('c, 'z) pool_scheme early_env \<Rightarrow> early_locals \<Rightarrow> (('c, 'z) pool_scheme, int) prog" where
  "walk kp fuel e v =
    rd r_nextRecord (v_curr v) (\<lambda>currNext.
    rd r_pointer (v_curr v) (\<lambda>currKey.
    rd r_nextRecord (v_prev v) (\<lambda>New.
    check_prev e New v kp (\<lambda>v.
    check_found e v kp (\<lambda>v.
    if v_curr v = a_tail e \<or> sint (a_pointer e) < sint currKey then walk_end kp fuel e v
    else walk_on kp e currKey currNext v)))))"

fun KeepPrev :: "nat \<Rightarrow> nat \<Rightarrow> ('c, 'z) pool_scheme early_env \<Rightarrow> early_locals \<Rightarrow> (('c, 'z) pool_scheme, int) prog" where
  "KeepPrev 0 fuel e v = Spin"
| "KeepPrev (Suc n) fuel e v = walk (KeepPrev n fuel e) fuel e v"

definition early_handle_records :: "nat \<Rightarrow> ('c, 'z) pool_scheme early_env \<Rightarrow> (('c, 'z) pool_scheme, int) prog" where
  "early_handle_records fuel e =
    goto_Restart e
      \<lparr>v_my = None, v_localN = 0, v_removed = False, v_prev = a_head e, v_prevNext = 0, v_curr = a_head e,
       v_found = None, v_foundNext = 0\<rparr>
      (KeepPrev fuel fuel e)"

section \<open>The loop run alone\<close>

text \<open>The free records have count 0: this is what makes the count of a new record one.\<close>

definition unused :: "layout \<Rightarrow> loc set \<Rightarrow> ('c, 'z) pool_scheme \<Rightarrow> bool" where
  "unused L F s \<longleftrightarrow> (\<forall>l \<in> F. is_loc L l \<and> (\<exists>w k. view l s = Some (w, k) \<and> refc L w = 0))"

text \<open>No record of the list is deleted.\<close>

definition live :: "entry list \<Rightarrow> bool" where
  "live es \<longleftrightarrow> (\<forall>x \<in> set es. 0 < count x)"

lemma live_simps [simp]: "live []" "live (x # es) \<longleftrightarrow> 0 < count x \<and> live es" "live (es @ fs) \<longleftrightarrow> live es \<and> live fs"
  by (auto simp: live_def)

lemma run_swap [simp]: "run (swap e l old new yes no) s = (case rget l s of None \<Rightarrow> Crashed s
    | Some r \<Rightarrow> if r_nextRecord r = old then run yes (rset l (set_nextRecord new) s)
        else run (no (if a_val e then (\<lambda>k. k (r_nextRecord r)) else rd r_nextRecord l)) s)"
  by (simp add: swap_def split: option.split)

text \<open>What a call does to the count of its key, and how many records it may take. A \<open>REMOVE\<close> of an
  absent key inserts it (with count one, which it returns) unless there are deleted records (\<open>d\<close>)
  at the place of the key.\<close>

definition early_op :: "bool \<Rightarrow> flag \<Rightarrow> nat \<Rightarrow> nat" where
  "early_op d f c = (case f of RECORD \<Rightarrow> c + 1 | SEARCH \<Rightarrow> c | REMOVE \<Rightarrow> if 0 < c then c - 1 else if d then 0 else 1)"

definition early_need :: "flag \<Rightarrow> nat \<Rightarrow> nat" where
  "early_need f b = (if f = SEARCH then b else Suc b)"

lemma early_op_simps [simp]:
  "early_op d RECORD c = Suc c" "early_op d SEARCH c = c" "early_op d REMOVE 0 = (if d then 0 else 1)"
  "0 < c \<Longrightarrow> early_op d REMOVE c = c - 1"
  by (simp_all add: early_op_def)

lemma unused_subset: "unused L F s \<Longrightarrow> F' \<subseteq> F \<Longrightarrow> unused L F' s"
  by (auto simp: unused_def)

context record_pool
begin

lemma unused_keeps: "unused L F s \<Longrightarrow> keeps N s t \<Longrightarrow> F \<inter> N = {} \<Longrightarrow> unused L F t"
  unfolding unused_def by (metis disjoint_iff keeps_view option.distinct(1))

lemma unused_insert: "unused L F s \<Longrightarrow> is_loc L l \<Longrightarrow> view l s = Some (w, k) \<Longrightarrow> refc L w = 0 \<Longrightarrow> unused L (insert l F) s"
  by (auto simp: unused_def)

definition early_ok :: "('c, 'z) pool_scheme early_env \<Rightarrow> loc \<Rightarrow> 64 word \<Rightarrow> bool" where
  "early_ok e z key \<longleftrightarrow> a_layout e = L \<and> a_return e = ret \<and> a_get e = get \<and> a_tail e = z \<and> a_pointer e = key \<and>
     (\<forall>w l. refc L w = 0 \<longrightarrow> is_loc L l \<longrightarrow> refc L (a_newNext e w (self_word (idxNum L) l)) = 1 \<and>
        loc_of L (a_newNext e w (self_word (idxNum L) l)) = l) \<and>
     (\<forall>first k s r. rget first s = Some r \<longrightarrow>
        run (a_fetch e first k) s = run (k (r_nextRecord r)) (rset first (set_pointer 0) s))"

lemma early_okD:
  assumes "early_ok e z key"
  shows "a_layout e = L" "a_return e = ret" "a_get e = get" "a_tail e = z" "a_pointer e = key"
    and "refc L w = 0 \<Longrightarrow> is_loc L l \<Longrightarrow> refc L (a_newNext e w (self_word (idxNum L) l)) = 1"
    and "refc L w = 0 \<Longrightarrow> is_loc L l \<Longrightarrow> loc_of L (a_newNext e w (self_word (idxNum L) l)) = l"
    and "rget first s = Some r \<Longrightarrow> run (a_fetch e first k) s = run (k (r_nextRecord r)) (rset first (set_pointer 0) s)"
  using assms unfolding early_ok_def by blast+

lemma same_prev [simp]:
  "0 < refc L w \<Longrightarrow> \<not> stale L w w" "\<not> moved L w w" "0 < refc L w \<Longrightarrow> next_STEP L w w 0 = 0"
  by (simp_all add: stale_def moved_def next_STEP_def deleted_iff [OF layout])

text \<open>\<open>prev\<close> is as the loop read it.\<close>

definition prev_ok :: "('c, 'z) pool_scheme \<Rightarrow> early_locals \<Rightarrow> bool" where
  "prev_ok s v \<longleftrightarrow> is_loc L (v_prev v) \<and> (\<exists>k. view (v_prev v) s = Some (v_prevNext v, k)) \<and> 0 < refc L (v_prevNext v)"

lemma prev_ok_keeps: "prev_ok s v \<Longrightarrow> keeps N s t \<Longrightarrow> v_prev v \<notin> N \<Longrightarrow> prev_ok t v"
  unfolding prev_ok_def by (metis keeps_view option.distinct(1))

lemma run_look_prev: "prev_ok s v \<Longrightarrow> a_layout e = L \<Longrightarrow> run (look_prev e v 0 k) s = run (k v 0) s"
proof -
  assume p: "prev_ok s v" "a_layout e = L"
  then obtain r where "rget (v_prev v) s = Some r" "r_nextRecord r = v_prevNext v" "0 < refc L (v_prevNext v)"
    by (auto simp: prev_ok_def view_Some)
  moreover have "v\<lparr>v_prevNext := v_prevNext v\<rparr> = v" by simp
  ultimately show ?thesis by (simp add: look_prev_def p(2))
qed

lemma give_back_run:
  assumes "ok b F s" and "unused L F s" and "seg L s (loc_of L w) ds (v_curr v)" and "ds \<noteq> []" and "locs ds \<inter> F = {}"
    and "distinct (v_curr v # map fst ds)" and "\<forall>x \<in> insert (v_curr v) (locs ds). is_loc L x"
    and "view (v_curr v) s \<noteq> None" and "length ds \<le> fuel" and "\<forall>d \<in> set ds. count d = 0"
    and "prev_ok s v" and "v_prev v \<notin> locs ds" and e: "early_ok e z key"
  shows "\<exists>t. run (give_back fuel e w v 0 k) s = run (k v 0) t \<and> ok b (F \<union> locs ds) t \<and>
    unused L (F \<union> locs ds) t \<and> keeps (locs ds) s t"
  using assms(1-12)
proof (induction ds arbitrary: w s F fuel)
  case (Cons d ds)
  obtain x k0 n where d: "d = (x, k0, n)" by (cases d)
  from Cons.prems(9) obtain f where f: "fuel = Suc f" by (cases fuel) auto
  from Cons.prems(3,10) d obtain w' where w': "loc_of L w = x" "view x s = Some (w', k0)" "seg L s (loc_of L w') ds (v_curr v)" "refc L w' = 0"
    by auto
  then obtain r where r: "rget x s = Some r" "r_nextRecord r = w'" by (auto simp: view_Some)
  let ?s = "rset x (set_pointer 0) s"
  have x: "is_loc L x" "x \<notin> F" "x \<notin> locs ds" "x \<noteq> v_curr v" "v_prev v \<noteq> x" using Cons.prems(5,6,7,12) d by auto
  have "rget x ?s \<noteq> None" using r by simp
  from ret_ok [OF ok_set(2) [OF Cons.prems(1)] x(1,2) this] obtain t1 where
    t1: "run (ret x) ?s = Done () t1" "keeps {} ?s t1" "ok b (insert x F) t1" by blast
  have k1: "keeps {x} s t1" using keeps_trans [OF keeps_rset [of x s "set_pointer 0"] keeps_mono [OF t1(2)]] by simp
  have vx: "view x t1 = Some (w', 0)" using keeps_view [OF t1(2) x(1)] w'(2) by simp
  have u1: "unused L (insert x F) t1"
    by (rule unused_insert [OF unused_keeps [OF Cons.prems(2) k1] x(1) vx w'(4)]) (use x in auto)
  have s1: "seg L t1 (loc_of L w') ds (v_curr v)" using x Cons.prems(7) by (intro seg_keeps [OF k1 w'(3)]) auto
  have v1: "view (v_curr v) t1 \<noteq> None" using keeps_view [OF k1, of "v_curr v"] Cons.prems(7,8) x(4) by auto
  have p1: "prev_ok t1 v" by (rule prev_ok_keeps [OF Cons.prems(11) k1]) (use x(5) in simp)
  obtain rc where rc: "rget (v_curr v) t1 = Some rc" using v1 by (auto simp: view_def)
  have at: "w' AND ARRIDXBITL L \<noteq> scast (r_self rc) AND ARRIDXBITL L \<longleftrightarrow> ds \<noteq> []"
  proof (cases ds)
    case Nil
    with s1 at_self [OF t1(3) _ rc, of w'] Cons.prems(7) show ?thesis by auto
  next
    case (Cons d' ds')
    then have "loc_of L w' = fst d'" "fst d' \<noteq> v_curr v" using s1 Cons.prems(6) by (cases d'; auto)+
    with Cons at_self [OF t1(3) _ rc, of w'] Cons.prems(7) show ?thesis by auto
  qed
  have rn: "run (give_back fuel e w v 0 k) s = run (if ds \<noteq> [] then give_back f e w' v 0 k else k v 0) t1"
    using f w'(1) r t1(1) rc at by (simp add: Let_def early_okD [OF e] run_look_prev [OF p1])
  show ?case
  proof (cases "ds = []")
    case True
    with rn t1(3) u1 k1 d show ?thesis by (intro exI [of _ t1]) simp
  next
    case False
    have "\<exists>t. run (give_back f e w' v 0 k) t1 = run (k v 0) t \<and> ok b (insert x F \<union> locs ds) t \<and>
        unused L (insert x F \<union> locs ds) t \<and> keeps (locs ds) t1 t"
      by (rule Cons.IH [OF t1(3) u1 s1 False _ _ _ v1 _ _ p1]) (use Cons.prems d f x in auto)
    then obtain t where t: "run (give_back f e w' v 0 k) t1 = run (k v 0) t" "ok b (insert x F \<union> locs ds) t"
        "unused L (insert x F \<union> locs ds) t" "keeps (locs ds) t1 t" by blast
    have "keeps (locs (d # ds)) s t"
      by (rule keeps_trans [OF keeps_mono [OF k1] keeps_mono [OF t(4)]]) (auto simp: d)
    with rn False t(1-3) d show ?thesis by (intro exI [of _ t]) simp
  qed
qed simp

lemma link_prev:
  assumes "ok b F s" and "position L s z K pre (x, k, c) ds rst v" and "is_loc L app" and "rget app s = Some ra"
  defines "w \<equiv> nxtAddrV L (v_prevNext v) (r_self ra)" and "h \<equiv> fst (hd (pre @ [(x, k, c)]))"
  shows "seg L (rset x (set_nextRecord w) s) h (pre @ [(x, k, c)]) app" and "refc L w = c" and "loc_of L w = app"
    and "view x (rset x (set_nextRecord w) s) = Some (w, k)"
proof -
  note pd = positionD [OF assms(2)]
  from assms(2) have ch: "chain L s z (pre @ (x, k, c) # ds @ rst)" "view x s = Some (v_prevNext v, k)"
    by (auto simp: position_def)
  then have dist: "x \<notin> locs pre" unfolding chain_def by auto
  have "r_self ra = self_word (idxNum L) app" by (rule ok_self [OF assms(1,3,4)])
  then show w: "refc L w = c" "loc_of L w = app"
    using pd(4) loc_of_self [OF layout assms(3)]
    by (simp_all add: w_def nxtAddrV_fields [OF layout] loc_of_scast [OF layout])
  show v: "view x (rset x (set_nextRecord w) s) = Some (w, k)" using ch(2) by simp
  have "seg L (rset x (set_nextRecord w) s) h (pre @ [(x, k, refc L w)]) (loc_of L w)"
    unfolding h_def by (rule seg_relink [OF pd(1) dist v]) (use dist in auto)
  then show "seg L (rset x (set_nextRecord w) s) h (pre @ [(x, k, c)]) app" by (simp only: w)
qed

text \<open>\<open>CasRemove\<close>: the deleted records behind \<open>prev\<close> are unlinked and given back.\<close>

lemma CasRemove_run:
  assumes ok: "ok b F s" and un: "unused L F s" and pos: "position L s z (sint key) pre (x, k, c) ds rst v" and ds: "ds \<noteq> []"
    and K: "rst \<noteq> [] \<Longrightarrow> sint key < key_of (hd rst)"
    and dj: "insert z (locs (pre @ (x, k, c) # ds @ rst)) \<inter> F = {}"
    and e: "early_ok e z key" and len: "length ds \<le> fuel"
  shows "\<exists>t w. run (CasRemove kp fuel (Suc n) e v) s =
      (if a_flag e = REMOVE then Done 0 t else run (CasAppend kp fuel e (v\<lparr>v_prevNext := w\<rparr>)) t) \<and>
    ok b (F \<union> locs ds) t \<and> unused L (F \<union> locs ds) t \<and> keeps (insert x (locs ds)) s t \<and>
    position L t z (sint key) pre (x, k, c) [] rst (v\<lparr>v_prevNext := w\<rparr>)"
proof -
  note pd = positionD [OF pos] and pc = position_curr [OF pos]
  note le = early_okD(1-5) [OF e]
  from pos have p: "chain L s z (pre @ (x, k, c) # ds @ rst)" "v_prev v = x" "view x s = Some (v_prevNext v, k)" "0 < c"
      "\<forall>d \<in> set ds. count d = 0" "v_curr v = start rst z" "\<forall>y \<in> set (List.tl (pre @ [(x, k, c)])). key_of y < sint key"
    by (simp_all add: position_def)
  then have dist: "distinct (z # map fst (pre @ (x, k, c) # ds @ rst))" and
    il: "\<forall>l \<in> insert z (locs (pre @ (x, k, c) # ds @ rst)). is_loc L l" and vz: "view z s \<noteq> None"
    unfolding chain_def by blast+
  obtain rc where rc: "rget (v_curr v) s = Some rc" using pc(3) by blast
  let ?w = "nxtAddrV L (v_prevNext v) (r_self rc)" and ?v = "v\<lparr>v_prevNext := nxtAddrV L (v_prevNext v) (r_self rc)\<rparr>"
  let ?s = "rset x (set_nextRecord ?w) s"
  note lp = link_prev [OF ok pos pc(2) rc]
  have xx: "x \<notin> F" "x \<noteq> v_curr v" "x \<notin> locs ds" "is_loc L x" using dj dist pc(1) il by auto
  have k1: "keeps {x} s ?s" by (rule keeps_rset)
  have s1: "seg L ?s (loc_of L (v_prevNext v)) ds (v_curr ?v)" using pd(2) xx(3) by simp
  have v1: "view (v_curr ?v) ?s \<noteq> None" using rc by (auto simp: view_def)
  have p1: "prev_ok ?s ?v" using lp(2,4) p(2,4) xx(4) by (simp add: prev_ok_def del: view_rset)
  have cu: "v_curr v \<notin> locs ds" using pc(1) dist by auto
  have u1: "unused L F ?s" by (rule unused_keeps [OF un k1]) (use xx(1) in simp)
  let ?k = "\<lambda>v (STEP :: nat). if a_flag e = REMOVE then Ret 0 else if STEP = 2 then goto_Restart e v kp
        else if STEP = 1 then kp (JUSTNEXTCHANGE (a_layout e) (v_prevNext v) v) else CasAppend kp fuel e v"
  have "\<exists>t. run (give_back fuel e (v_prevNext v) ?v 0 ?k) ?s = run (?k ?v 0) t \<and> ok b (F \<union> locs ds) t \<and>
      unused L (F \<union> locs ds) t \<and> keeps (locs ds) ?s t"
    by (rule give_back_run [OF ok_set(1) [OF ok] u1 s1 ds _ _ _ v1 len p(5) p1 _ e]) (use dj dist il pc cu p(2) xx in auto)
  then obtain t where t: "run (give_back fuel e (v_prevNext v) ?v 0 ?k) ?s = run (?k ?v 0) t" "ok b (F \<union> locs ds) t"
      "unused L (F \<union> locs ds) t" "keeps (locs ds) ?s t" by blast
  have kt: "keeps (insert x (locs ds)) s t"
    by (rule keeps_trans [OF keeps_mono [OF k1] keeps_mono [OF t(4)]]) auto
  obtain rp where rp: "rget x s = Some rp" "r_nextRecord rp = v_prevNext v" using p(3) by (auto simp: view_Some)
  have rn: "run (CasRemove kp fuel (Suc n) e v) s = (if a_flag e = REMOVE then Done 0 t else run (CasAppend kp fuel e ?v) t)"
    using rc rp p(2) t(1) by (cases "a_flag e = REMOVE") (simp_all add: le Let_def)
  have sg: "seg L t (fst (hd (pre @ [(x, k, c)]))) (pre @ (x, k, c) # [] @ rst) z"
  proof -
    have "x \<notin> locs rst" using dist by auto
    then have "seg L ?s (v_curr v) rst z" using pd(3) by simp
    then have "seg L ?s (fst (hd (pre @ [(x, k, c)]))) ((pre @ [(x, k, c)]) @ rst) z"
      unfolding seg_append [of L ?s _ "pre @ [(x, k, c)]"] using lp(1) by blast
    then have "seg L t (fst (hd (pre @ [(x, k, c)]))) ((pre @ [(x, k, c)]) @ rst) z"
      by (rule seg_keeps [OF t(4)]) (use dist il in auto)
    then show ?thesis by simp
  qed
  have z: "is_loc L z" "z \<noteq> x" "z \<notin> locs ds" using dist il by auto
  then have "view z t \<noteq> None" using keeps_view [OF kt, of z] vz by auto
  from chain_insert [OF pos K sg this] have "chain L t z (pre @ (x, k, c) # rst)" by simp
  moreover have "view x t = Some (?w, k)" using keeps_view [OF t(4) xx(4,3)] lp(4) by (simp del: view_rset)
  ultimately have "position L t z (sint key) pre (x, k, c) [] rst ?v"
    using p by (simp add: position_def)
  with rn t(2,3) kt show ?thesis by blast
qed

text \<open>\<open>CasAppend\<close>: a new record with count one is linked behind \<open>prev\<close>.\<close>

lemma CasAppend_run:
  assumes ok: "ok (Suc b) F s" and un: "unused L F s" and pos: "position L s z (sint key) pre (x, k, c) [] rst v"
    and K: "rst \<noteq> [] \<Longrightarrow> sint key < key_of (hd rst)"
    and dj: "insert z (locs (pre @ (x, k, c) # rst)) \<inter> F = {}" and e: "early_ok e z key"
  shows "\<exists>l t. run (CasAppend kp (Suc n) e v) s = Done 1 t \<and> l \<in> F \<and> ok b (F - {l}) t \<and> unused L (F - {l}) t \<and>
    keeps {l, x} s t \<and> chain L t z (pre @ (x, k, c) # (l, key, 1) # rst)"
proof -
  note le = early_okD(1-5) [OF e]
  from get_ok [OF ok] obtain l s1 r1 where g: "run get s = Done (Some l) s1" "keeps {} s s1"
    and l: "l \<in> F" "is_loc L l" "rget l s1 = Some r1" "ok b (F - {l}) s1" by blast
  have lf: "l \<notin> insert z (locs (pre @ (x, k, c) # rst))" using dj l(1) by auto
  have "unused L F s1" by (rule unused_keeps [OF un g(2)]) simp
  then have r0: "refc L (r_nextRecord r1) = 0" using l(1,3) by (force simp: unused_def view_Some)
  have pos1: "position L s1 z (sint key) pre (x, k, c) [] rst v" by (rule position_keeps [OF g(2) pos]) simp
  obtain rc where rc: "rget (v_curr v) s1 = Some rc" using position_curr(3) [OF pos1] by auto
  have self: "r_self rc = self_word (idxNum L) (v_curr v)" by (rule ok_self [OF l(4) position_curr(2) [OF pos1] rc])
  let ?w = "a_newNext e (r_nextRecord r1) (r_self rc)"
  let ?s2 = "rset l (set_pointer key) s1"
  let ?s3 = "rset l (set_nextRecord ?w) ?s2"
  have k3: "keeps {l} s ?s3" by (intro keeps_rset_in keeps_mono [OF g(2)]) simp_all
  have o3: "ok b (F - {l}) ?s3" by (intro ok_set l(4))
  have p3: "position L ?s3 z (sint key) pre (x, k, c) [] rst v" by (rule position_keeps [OF k3 pos]) (use lf in auto)
  have w: "refc L ?w = 1" "loc_of L ?w = v_curr v"
    using early_okD(6,7) [OF e r0 position_curr(2) [OF pos1]] by (simp_all add: self)
  have vl: "view l ?s3 = Some (?w, key)" using l(3) by (simp add: view_def set_nextRecord_def set_pointer_def)
  then obtain ra where ra: "rget l ?s3 = Some ra" by (auto simp: view_def)
  let ?u = "nxtAddrV L (v_prevNext v) (r_self ra)"
  let ?t = "rset x (set_nextRecord ?u) ?s3"
  note lp = link_prev [OF o3 p3 l(2) ra]
  have pv: "v_prev v = x" "0 < c" "v_curr v = start rst z" "view x s1 = Some (v_prevNext v, k)" "chain L s z (pre @ (x, k, c) # rst)"
    "refc L (v_prevNext v) = c" using pos pos1 positionD(4) [OF pos] by (simp_all add: position_def)
  have xl: "x \<noteq> l" "x \<notin> F" using lf dj by auto
  have dist: "x \<notin> locs rst" "z \<noteq> x" using pv(5) by (auto simp: chain_def)
  have kt: "keeps {l, x} s ?t" by (rule keeps_rset_in [OF keeps_mono [OF k3]]) simp_all
  have ss: "r_self ra = r_self r1" using ra l(3) by auto
  have rn: "run (CasAppend kp (Suc n) e v) s = Done 1 ?t"
  proof -
    obtain rp where rp: "rget x s1 = Some rp" "r_nextRecord rp = v_prevNext v" using pv(4) by (auto simp: view_Some)
    then have x3: "rget x ?s3 = Some rp" using xl by simp
    show ?thesis using g(1) l(3) rc rp x3 pv(1,2,6) ss ra by (simp add: le)
  qed
  have "seg L ?t l ([(l, key, 1)] @ rst) z"
  proof -
    have "view l ?t = Some (?w, key)" using vl xl by simp
    moreover have "seg L ?t (v_curr v) rst z" using positionD(3) [OF p3] dist by simp
    ultimately show ?thesis using w by simp
  qed
  with lp(1) have "seg L ?t (fst (hd (pre @ [(x, k, c)]))) ((pre @ [(x, k, c)]) @ [(l, key, 1)] @ rst) z"
    unfolding seg_append [of L ?t _ "pre @ [(x, k, c)]"] by blast
  then have sg: "seg L ?t (fst (hd (pre @ [(x, k, c)]))) (pre @ (x, k, c) # [(l, key, 1)] @ rst) z" by simp
  have "view z ?t \<noteq> None" using keeps_view [OF kt, of z] lf dist pv(5) by (auto simp: chain_def)
  from chain_insert [OF pos K sg this] lf l(2) have "chain L ?t z (pre @ (x, k, c) # (l, key, 1) # rst)" by simp
  moreover have "ok b (F - {l}) ?t" by (rule ok_set(1) [OF o3])
  moreover have "unused L (F - {l}) ?t"
    by (rule unused_keeps [OF unused_subset [OF un] kt]) (use xl in auto)
  ultimately show ?thesis using rn l(1) kt by blast
qed

lemma run_walk:
  assumes "prev_ok s v" and "a_layout e = L" and "rget (v_curr v) s = Some r"
    and "\<And>f. v_found v = Some f \<Longrightarrow> \<exists>r. rget f s = Some r \<and> r_nextRecord r = v_foundNext v"
  shows "run (walk kp fuel e v) s =
    (if v_curr v = a_tail e \<or> sint (a_pointer e) < sint (r_pointer r) then run (walk_end kp fuel e v) s
     else run (walk_on kp e (r_pointer r) (r_nextRecord r) v) s)"
proof -
  obtain rp where rp: "rget (v_prev v) s = Some rp" "r_nextRecord rp = v_prevNext v" "0 < refc L (v_prevNext v)"
    using assms(1) by (auto simp: prev_ok_def view_Some)
  have "v\<lparr>v_prevNext := v_prevNext v\<rparr> = v" by simp
  moreover have "run (check_found e v kp k) s = run (k v) s" for k
    using assms(4) by (cases "v_found v") (auto simp: check_found_def assms(2))
  ultimately show ?thesis using assms(3) rp by (simp add: walk_def check_prev_def assms(2))
qed

definition early_outcome :: "nat \<Rightarrow> loc set \<Rightarrow> ('c, 'z) pool_scheme \<Rightarrow> loc \<Rightarrow> entry list \<Rightarrow> (64 word \<Rightarrow> nat) \<Rightarrow> ('c, 'z) pool_scheme \<Rightarrow> bool" where
  "early_outcome b F s z es g t \<longleftrightarrow> (\<exists>es' F'. chain L t z es' \<and> hd es' = hd es \<and> ok b F' t \<and> unused L F' t \<and>
     locs es' \<union> F' = locs es \<union> F \<and> locs es' \<inter> F' = {} \<and>
     keeps (locs es \<union> F) s t \<and> cnt (List.tl es') = g \<and> (live es \<longrightarrow> live es'))"

lemma early_outcomeI:
  assumes "chain L t z es'" and "hd es' = hd es" and "ok b F' t" and "unused L F' t"
    and "locs es' \<union> F' = locs es \<union> F" and "locs es' \<inter> F' = {}"
    and "keeps N s t" and "N \<subseteq> locs es \<union> F" and "cnt (List.tl es') = g" and "live es \<Longrightarrow> live es'"
  shows "early_outcome b F s z es g t"
  using assms keeps_mono [OF assms(7,8)] unfolding early_outcome_def by blast

lemma early_ok_need: "ok (early_need f b) F s \<Longrightarrow> ok b F s"
  by (auto simp: early_need_def intro: ok_less split: if_splits)

text \<open>The key is not in the list.\<close>

lemma absent_run:
  assumes ok: "ok (early_need (a_flag e) b) F s" and un: "unused L F s"
    and pos: "position L s z (sint key) pre x ds rst v"
    and K: "rst \<noteq> [] \<Longrightarrow> sint key < key_of (hd rst)" and dj: "insert z (locs (pre @ x # ds @ rst)) \<inter> F = {}"
    and e: "early_ok e z key" and len: "length ds \<le> fuel" "0 < fuel" and v: "v_found v = None" "\<not> v_removed v"
  defines "es \<equiv> pre @ x # ds @ rst"
  shows "\<exists>t d. run (walk_end kp fuel e v) s = Done (int (early_op d (a_flag e) (cnt (List.tl es) key))) t \<and>
    early_outcome b F s z es ((cnt (List.tl es))(key := early_op d (a_flag e) (cnt (List.tl es) key))) t \<and> (d \<longrightarrow> \<not> live es)"
proof -
  obtain y k c where x: "x = (y, k, c)" by (cases x)
  obtain f where f: "fuel = Suc f" using len by (cases fuel) auto
  note le = early_okD(1-5) [OF e] and pc = position_curr [OF pos]
  have zero: "\<forall>d \<in> set ds. count d = 0" and c: "0 < c" and ch: "chain L s z es"
    using pos by (simp_all add: position_def x es_def)
  have so: "sorted_wrt (<) (map key_of rst)"
    using ch unfolding es_def chain_def tl_whole(1) [of pre x "ds @ rst"] by (simp add: sorted_wrt_append)
  have c0: "cnt (List.tl es) key = 0"
    unfolding es_def cnt_position [OF pos] by (rule cnt_above [OF so K])
  have cn: "cnt (List.tl (pre @ x # rst)) = cnt (List.tl es)"
    by (rule ext) (simp add: es_def tl_whole(1) [of pre x "ds @ rst"] tl_whole(1) [of pre x rst] cnt_deleted [OF zero])
  have hd: "hd (pre @ x # rst') = hd es" for rst' unfolding es_def tl_whole(2) [of pre x rst'] tl_whole(2) [of pre x "ds @ rst"] ..
  have dist: "distinct (z # map fst es)" using ch by (simp add: chain_def)
  define U D where UD: "U = insert y (locs pre \<union> locs rst)" "D = locs ds"
  have sets: "locs es = U \<union> D" "U \<inter> D = {}" "U \<inter> F = {}" "D \<inter> F = {}" "locs (pre @ x # rst) = U" "z \<notin> U" "z \<notin> D" "z \<notin> F"
    using dist dj unfolding es_def UD x by auto
  obtain rc where rc: "rget (v_curr v) s = Some rc" using pc(3) by blast
  have at: "v_prevNext v AND ARRIDXBITL L \<noteq> scast (r_self rc) AND ARRIDXBITL L \<longleftrightarrow> ds \<noteq> []"
  proof (cases ds)
    case Nil
    with positionD(2) [OF pos [unfolded x]] at_self [OF ok pc(2) rc, of "v_prevNext v"] show ?thesis by auto
  next
    case (Cons d ds')
    then have "loc_of L (v_prevNext v) = fst d" "fst d \<notin> insert z (locs rst)"
      using positionD(2) [OF pos [unfolded x]] dist by (cases d; auto simp: es_def)+
    then have "loc_of L (v_prevNext v) \<noteq> v_curr v" using pc(1) by metis
    with Cons at_self [OF ok pc(2) rc, of "v_prevNext v"] show ?thesis by simp
  qed
  have rn: "run (walk_end kp fuel e v) s = (if a_flag e = SEARCH then Done 0 s
      else if ds \<noteq> [] then run (CasRemove kp fuel fuel e v) s else run (CasAppend kp fuel e v) s)"
    using rc at v by (simp add: walk_end_def le)
  have app: "\<exists>t'. run (CasAppend kp fuel e v') t = Done 1 t' \<and>
      early_outcome b F s z es ((cnt (List.tl es))(key := 1)) t'"
    if a: "ok (Suc b) (F \<union> locs ds) t" "unused L (F \<union> locs ds) t" "keeps (insert y (locs ds)) s t"
      "position L t z (sint key) pre x [] rst v'" for t v'
  proof -
    have "insert z (locs (pre @ x # rst)) \<inter> (F \<union> locs ds) = {}"
      using sets unfolding UD(2) by (simp only: sets(5)) blast
    from CasAppend_run [OF a(1,2) a(4) [unfolded x] K this [unfolded x] e, of kp f] obtain l t' where
      t': "run (CasAppend kp (Suc f) e v') t = Done 1 t'" "l \<in> F \<union> D" "ok b (F \<union> D - {l}) t'" "unused L (F \<union> D - {l}) t'"
        "keeps {l, y} t t'" "chain L t' z (pre @ x # (l, key, 1) # rst)" unfolding UD(2) x by blast
    have ll: "locs (pre @ x # (l, key, 1) # rst) = insert l U" by (auto simp: UD x)
    have k: "keeps (insert l (insert y D)) s t'"
      unfolding UD(2) by (rule keeps_trans [OF keeps_mono [OF a(3)] keeps_mono [OF t'(5)]]) auto
    have "early_outcome b F s z es ((cnt (List.tl es))(key := 1)) t'"
    proof (rule early_outcomeI [OF t'(6) hd t'(3,4) _ _ k])
      show "locs (pre @ x # (l, key, 1) # rst) \<union> (F \<union> D - {l}) = locs es \<union> F" unfolding ll sets(1) using t'(2) by blast
      show "locs (pre @ x # (l, key, 1) # rst) \<inter> (F \<union> D - {l}) = {}" unfolding ll using sets(2,3) t'(2) by blast
      show "insert l (insert y D) \<subseteq> locs es \<union> F" using t'(2) unfolding sets(1) UD(1) by blast
      show "cnt (List.tl (pre @ x # (l, key, 1) # rst)) = (cnt (List.tl es))(key := 1)"
        using c0 by (intro ext) (simp add: cn [symmetric] tl_whole(1) [of pre x "_ # rst"] tl_whole(1) [of pre x rst])
      show "live es \<Longrightarrow> live (pre @ x # (l, key, 1) # rst)" by (simp add: es_def)
    qed
    with t'(1) f show ?thesis by blast
  qed
  consider "a_flag e = SEARCH" | "a_flag e \<noteq> SEARCH" "ds = []" | "a_flag e \<noteq> SEARCH" "ds \<noteq> []" by blast
  then show ?thesis
  proof cases
    case 1
    have "early_outcome b F s z es (cnt (List.tl es)) s"
    proof (rule early_outcomeI [OF ch refl early_ok_need [OF ok] un _ _ keeps_refl])
      show "locs es \<inter> F = {}" unfolding sets(1) using sets(3,4) by blast
    qed simp_all
    with 1 rn c0 show ?thesis by (intro exI [of _ s] exI [of _ False]) (simp add: fun_upd_idem)
  next
    case 2
    then have "ok (Suc b) (F \<union> locs ds) s" "unused L (F \<union> locs ds) s" "keeps (insert y (locs ds)) s s"
      "position L s z (sint key) pre x [] rst v"
      using ok un pos keeps_mono [OF keeps_refl] by (simp_all add: early_need_def)
    from app [OF this] obtain t' where "run (CasAppend kp fuel e v) s = Done 1 t'"
      "early_outcome b F s z es ((cnt (List.tl es))(key := 1)) t'" by blast
    with rn 2 c0 show ?thesis
      by (intro exI [of _ t'] exI [of _ False]) (cases "a_flag e"; simp)
  next
    case 3
    then have o: "ok (Suc b) F s" using ok by (simp add: early_need_def)
    from CasRemove_run [OF o un pos [unfolded x] 3(2) K dj [unfolded x] e len(1), of kp f] obtain t w where
      t: "run (CasRemove kp fuel (Suc f) e v) s =
          (if a_flag e = REMOVE then Done 0 t else run (CasAppend kp fuel e (v\<lparr>v_prevNext := w\<rparr>)) t)"
        "ok (Suc b) (F \<union> locs ds) t" "unused L (F \<union> locs ds) t" "keeps (insert y (locs ds)) s t"
        "position L t z (sint key) pre x [] rst (v\<lparr>v_prevNext := w\<rparr>)" unfolding x by blast
    show ?thesis
    proof (cases "a_flag e = REMOVE")
      case True
      have c: "chain L t z (pre @ x # rst)" using t(5) by (simp add: position_def)
      have "early_outcome b F s z es (cnt (List.tl es)) t"
      proof (rule early_outcomeI [OF c hd ok_less [OF t(2)] t(3) _ _ t(4) _ cn])
        show "locs (pre @ x # rst) \<union> (F \<union> locs ds) = locs es \<union> F" unfolding sets(1,5) UD(2) by blast
        show "locs (pre @ x # rst) \<inter> (F \<union> locs ds) = {}" using sets(2,3) unfolding sets(5) UD(2) by blast
        show "insert y (locs ds) \<subseteq> locs es \<union> F" unfolding sets(1) UD by blast
      qed (simp add: es_def)
      moreover have "\<not> live es" using 3(2) zero by (cases ds) (auto simp: es_def)
      ultimately show ?thesis using True t(1) rn 3 c0 f
        by (intro exI [of _ t] exI [of _ True]) (simp add: fun_upd_idem)
    next
      case False
      with 3 have R: "a_flag e = RECORD" by (cases "a_flag e") auto
      from app [OF t(2-5)] obtain t' where "run (CasAppend kp fuel e (v\<lparr>v_prevNext := w\<rparr>)) t = Done 1 t'"
        "early_outcome b F s z es ((cnt (List.tl es))(key := 1)) t'" by blast
      with t(1) rn 3 R c0 f show ?thesis by (intro exI [of _ t'] exI [of _ False]) simp
    qed
  qed
qed

text \<open>The key is at \<open>l\<close> with a positive count, and the walk has gone one record further.\<close>

lemma present_run:
  assumes ok: "ok (early_need (a_flag e) b) F s" and un: "unused L F s"
    and pos: "position L s z (sint key) pre x ds ((l, key, n) # rst) v" and n: "0 < n"
    and dj: "insert z (locs (pre @ x # ds @ (l, key, n) # rst)) \<inter> F = {}" and e: "early_ok e z key"
    and len: "length ds < fuel" "1 < fuel" and max: "a_flag e = RECORD \<Longrightarrow> n < 2 ^ refNum L - 1"
    and w: "view l s = Some (w, key)"
  defines "es \<equiv> pre @ x # ds @ (l, key, n) # rst"
  shows "\<exists>t. run (walk_end kp fuel e (v\<lparr>v_found := Some l, v_foundNext := w, v_curr := start rst z\<rparr>)) s
      = Done (int (early_op d (a_flag e) n)) t \<and>
    early_outcome b F s z es ((cnt (List.tl es))(key := early_op d (a_flag e) n)) t"
proof -
  note le = early_okD(1-5) [OF e] and pr = position_rest [OF pos]
  obtain f where f: "fuel = Suc (Suc f)" using len(2) by (metis less_iff_Suc_add One_nat_def add_Suc)
  from pr(1) w have wn: "refc L w = n" "start rst z = loc_of L w" by auto
  obtain r where r: "rget l s = Some r" "r_nextRecord r = w" using w by (auto simp: view_Some)
  have ch: "chain L s z es" using pos by (simp add: position_def es_def)
  have sd: "locs es \<inter> F = {}" using dj by (auto simp: es_def)
  let ?es = "\<lambda>m. pre @ x # ds @ (l, key, m) # rst"
  have "hd (?es m) = hd es" for m unfolding es_def by (cases pre) simp_all
  then have lo: "locs (?es m) = locs es" "hd (?es m) = hd es" "0 < m \<Longrightarrow> live es \<Longrightarrow> live (?es m)" for m
    by (simp_all add: es_def)
  have upd: "early_outcome b F s z es ((cnt (List.tl es))(key := m)) (rset l (set_nextRecord w') s)"
    if m: "loc_of L w' = loc_of L w" "refc L w' = m" "0 < m" for w' m
  proof -
    note up = hit_update [OF early_ok_need [OF ok] pos dj w m(1,2)]
    have u: "unused L F (rset l (set_nextRecord w') s)"
      by (rule unused_keeps [OF un keeps_rset]) (use dj in auto)
    show ?thesis
    proof (rule early_outcomeI [OF up(2) lo(2) ok_set(1) [OF early_ok_need [OF ok]] u _ _ up(3)])
      show "cnt (List.tl (?es m)) = (cnt (List.tl es))(key := m)" unfolding es_def by (rule position_cnt [OF pos])
      show "locs (?es m) \<inter> F = {}" unfolding lo(1) by (rule sd)
    qed (simp_all add: lo m(3) es_def)
  qed
  have NB: "w AND REFCBITS L \<noteq> DELETED" using wn(1) n by (simp add: deleted_iff [OF layout])
  show ?thesis
  proof (cases "a_flag e")
    case SEARCH
    have "cnt (List.tl es) key = n" using position_cnt [OF pos, of n] unfolding es_def by (metis fun_upd_same)
    moreover have "early_outcome b F s z es (cnt (List.tl es)) s"
      by (rule early_outcomeI [OF ch refl early_ok_need [OF ok] un refl sd keeps_refl]) simp_all
    ultimately show ?thesis using SEARCH wn(1)
      by (intro exI [of _ s]) (auto simp: walk_end_def le count_of_refc [OF layout] fun_upd_idem)
  next
    case RECORD
    have p: "refc L (plusRecord L w) = n + 1" "loc_of L (plusRecord L w) = loc_of L w"
      using plusRecord_fields(1,4) [OF layout, of w] max [OF RECORD] wn(1) by auto
    have "run (walk_end kp fuel e (v\<lparr>v_found := Some l, v_foundNext := w, v_curr := start rst z\<rparr>)) s
        = Done (int (n + 1)) (rset l (set_nextRecord (plusRecord L w)) s)"
      using r RECORD f p(1) NB by (simp add: walk_end_def le Let_def count_of_refc [OF layout])
    with upd [OF p(2,1)] RECORD show ?thesis by auto
  next
    case REMOVE
    let ?w = "sub_REFONE L w" and ?s = "rset l (set_nextRecord (sub_REFONE L w)) s"
    have p: "refc L ?w = n - 1" "loc_of L ?w = loc_of L w" "?w AND NODEBITS L = w AND NODEBITS L"
      using n wn(1) sub_REFONE_fields [OF layout, of w] by auto
    show ?thesis
    proof (cases "n = 1")
      case False
      then have "?w AND REFCBITS L \<noteq> DELETED" using p(1) n by (simp add: deleted_iff [OF layout])
      then have "run (walk_end kp fuel e (v\<lparr>v_found := Some l, v_foundNext := w, v_curr := start rst z\<rparr>)) s = Done (int (n - 1)) ?s"
        using r REMOVE f p(1) NB by (simp add: walk_end_def le Let_def count_of_refc [OF layout])
      with upd [OF p(2,1)] REMOVE n False show ?thesis by auto
    next
      case True
      let ?v = "v\<lparr>v_found := Some l, v_foundNext := ?w, v_curr := start rst z, v_removed := True\<rparr>"
      obtain x1 x2 x3 where x: "x = (x1, x2, x3)" by (cases x)
      have o: "ok (Suc b) F s" using ok REMOVE by (simp add: early_need_def)
      note up = hit_update [OF o pos dj w p(2,1)]
      have "view (fst x) ?s = view (fst x) s" using pr(6) by simp
      then have "position L ?s z (sint key) pre x ds ((l, key, 0) # rst) v"
        using pos up(2) True by (simp add: position_def start_def)
      from position_skip [OF this] have p1: "position L ?s z (sint key) pre x (ds @ [(l, key, 0)]) rst ?v"
        by (simp add: position_def)
      have u1: "unused L F ?s" by (rule unused_keeps [OF un keeps_rset]) (use dj in auto)
      have dj1: "insert z (locs (pre @ x # (ds @ [(l, key, 0)]) @ rst)) \<inter> F = {}" using dj by simp
      from CasRemove_run [OF ok_set(1) [OF o] u1 p1 [unfolded x] _ pr(2) dj1 [unfolded x] e, of fuel kp "Suc f"] len(1) REMOVE obtain t w' where
        t: "run (CasRemove kp fuel fuel e ?v) ?s = Done 0 t" "ok (Suc b) (F \<union> locs (ds @ [(l, key, 0)])) t"
          "unused L (F \<union> locs (ds @ [(l, key, 0)])) t" "keeps (insert x1 (locs (ds @ [(l, key, 0)]))) ?s t"
          "position L t z (sint key) pre x [] rst (?v\<lparr>v_prevNext := w'\<rparr>)" unfolding x f by auto
      have "?w AND REFCBITS L = DELETED" using p(1) True by (simp add: deleted_iff [OF layout])
      then have rn: "run (walk_end kp fuel e (v\<lparr>v_found := Some l, v_foundNext := w, v_curr := start rst z\<rparr>)) s
          = run (CasRemove kp fuel fuel e ?v) ?s"
        using r REMOVE f p(2,3) wn(2) NB by (cases v) (simp add: walk_end_def le Let_def set_nextRecord_def del: CasRemove.simps)
      define U D where UD: "U = insert x1 (locs pre \<union> locs rst)" "D = locs (ds @ [(l, key, 0)])"
      have sets: "locs es = U \<union> D" "U \<inter> D = {}" "U \<inter> F = {}" "locs (pre @ x # rst) = U"
        using ch dj unfolding es_def UD x by (auto simp: chain_def)
      have k: "keeps (insert l (insert x1 D)) s t"
        unfolding UD(2) by (rule keeps_trans [OF keeps_mono [OF keeps_rset] keeps_mono [OF t(4)]]) auto
      have "early_outcome b F s z es ((cnt (List.tl es))(key := 0)) t"
      proof (rule early_outcomeI [OF _ _ ok_less [OF t(2)] t(3) _ _ k])
        show "chain L t z (pre @ x # rst)" using t(5) by (simp add: position_def)
        show "hd (pre @ x # rst) = hd es" unfolding es_def by (cases pre) simp_all
        show "locs (pre @ x # rst) \<union> (F \<union> locs (ds @ [(l, key, 0)])) = locs es \<union> F"
          unfolding sets(1,4) UD(2) [symmetric] by blast
        show "locs (pre @ x # rst) \<inter> (F \<union> locs (ds @ [(l, key, 0)])) = {}"
          using sets(2,3) unfolding sets(4) UD(2) [symmetric] by blast
        show "insert l (insert x1 D) \<subseteq> locs es \<union> F" unfolding sets(1) UD by auto
        show "live es \<Longrightarrow> live (pre @ x # rst)" by (simp add: es_def)
        have "\<forall>d \<in> set (ds @ [(l, key, 0)]). count d = 0" using p1 by (simp add: position_def)
        then have "cnt (List.tl (pre @ x # rst)) = cnt (List.tl (?es 0))"
          by (intro ext) (simp add: tl_whole(1) [of pre x "ds @ _"] tl_whole(1) [of pre x rst] cnt_deleted)
        then show "cnt (List.tl (pre @ x # rst)) = (cnt (List.tl es))(key := 0)"
          unfolding es_def by (simp only: position_cnt [OF pos, of 0])
      qed
      with rn t(1) REMOVE True show ?thesis by (intro exI [of _ t]) simp
    qed
  qed
qed

lemma position_prev_ok:
  assumes "position L s z K pre x ds rst v"
  shows "prev_ok s v"
proof -
  obtain y k c where x: "x = (y, k, c)" by (cases x)
  from assms have "chain L s z (pre @ x # ds @ rst)" "v_prev v = y" "view y s = Some (v_prevNext v, k)" "0 < c"
    by (simp_all add: position_def x)
  moreover have "refc L (v_prevNext v) = c" using positionD(4) [OF assms [unfolded x]] .
  ultimately show ?thesis by (simp add: prev_ok_def chain_def x)
qed

lemma position_end:
  assumes "position L s z K pre x ds rst v"
  shows "v_curr v = z \<longleftrightarrow> rst = []"
  using assms by (cases rst) (auto simp: position_def chain_def start_def)

lemma early_loop_run:
  assumes ok: "ok (early_need (a_flag e) b) F s" and un: "unused L F s" and pos: "position L s z (sint key) pre x ds rst v"
    and dj: "insert z (locs (pre @ x # ds @ rst)) \<inter> F = {}" and e: "early_ok e z key"
    and len: "length (pre @ x # ds @ rst) < fuel" "length rst + 1 < n" and v: "v_found v = None" "\<not> v_removed v"
    and max: "a_flag e = RECORD \<Longrightarrow> cnt (List.tl (pre @ x # ds @ rst)) key < 2 ^ refNum L - 1"
  defines "es \<equiv> pre @ x # ds @ rst"
  shows "\<exists>t d. run (KeepPrev n fuel e v) s = Done (int (early_op d (a_flag e) (cnt (List.tl es) key))) t \<and>
    early_outcome b F s z es ((cnt (List.tl es))(key := early_op d (a_flag e) (cnt (List.tl es) key))) t \<and> (d \<longrightarrow> \<not> live es)"
  using pos dj len v max unfolding es_def
proof (induction rst arbitrary: n pre x ds v)
  case Nil
  then obtain m where n: "n = Suc m" by (cases n) auto
  obtain r where r: "rget (v_curr v) s = Some r" using position_curr(3) [OF Nil.prems(1)] by auto
  have "run (KeepPrev n fuel e v) s = run (walk_end (KeepPrev m fuel e) fuel e v) s"
    using run_walk [OF position_prev_ok [OF Nil.prems(1)] early_okD(1) [OF e] r] Nil.prems(5) position_end [OF Nil.prems(1)]
    by (simp add: n early_okD(4) [OF e])
  with absent_run [OF ok un Nil.prems(1) _ Nil.prems(2) e _ _ Nil.prems(5,6), of fuel "KeepPrev m fuel e"] Nil.prems(3)
  show ?case by (simp add: fun_upd_def)
next
  case (Cons y rst)
  obtain m where n: "n = Suc (Suc m)" using Cons.prems(4) by (cases n; cases "n - 1") auto
  obtain l k c where y: "y = (l, k, c)" by (cases y)
  note le = early_okD(1-5) [OF e]
  have pos: "position L s z (sint key) pre x ds ((l, k, c) # rst) v" using Cons.prems(1) by (simp add: y)
  note pr = position_rest [OF pos]
  obtain w where w: "view l s = Some (w, k)" "refc L w = c" "v_curr v = l" "start rst z = loc_of L w" using pr(1) by blast
  obtain r where r: "rget l s = Some r" "r_nextRecord r = w" "r_pointer r = k" using w(1) by (auto simp: view_Some)
  have cur: "rget (v_curr v) s = Some r" using r(1) w(3) by simp
  have body: "run (KeepPrev n fuel e v) s = (if sint key < sint k then run (walk_end (KeepPrev (Suc m) fuel e) fuel e v) s
      else run (walk_on (KeepPrev (Suc m) fuel e) e k w v) s)"
    using run_walk [OF position_prev_ok [OF Cons.prems(1)] le(1) cur] Cons.prems(5) position_end [OF Cons.prems(1)] r
    by (simp add: n le)
  have same: "pre @ x # (ds @ [(l, k, c)]) @ rst = pre @ x # ds @ y # rst"
    "(pre @ x # ds) @ (l, k, c) # [] @ rst = pre @ x # ds @ y # rst" by (simp_all add: y)
  consider (over) "sint key < sint k" | (deleted) "\<not> sint key < sint k" "c = 0"
    | (pass) "\<not> sint key < sint k" "k \<noteq> key" "0 < c" | (hit) "k = key" "0 < c" by (cases "k = key") auto
  then show ?case
  proof cases
    case over
    then have "(y # rst) \<noteq> [] \<Longrightarrow> sint key < key_of (hd (y # rst))" by (simp add: y)
    from absent_run [OF ok un Cons.prems(1) this Cons.prems(2) e _ _ Cons.prems(5,6), of fuel "KeepPrev (Suc m) fuel e"] Cons.prems(3)
      body over show ?thesis by (simp add: fun_upd_def)
  next
    case deleted
    have "run (KeepPrev n fuel e v) s = run (KeepPrev (Suc m) fuel e (v\<lparr>v_curr := start rst z\<rparr>)) s"
      using body deleted r w by (simp add: walk_on_def le deleted_iff [OF layout])
    with Cons.IH [OF position_skip [OF pos [unfolded deleted(2)]], of "Suc m"] Cons.prems(2-7)
    show ?thesis unfolding same(1) [unfolded deleted(2)] by (simp add: n y deleted(2) fun_upd_def)
  next
    case pass
    then have lt: "sint k < sint key" by (metis linorder_less_linear signed_word_eqI)
    have "run (KeepPrev n fuel e v) s = run (KeepPrev (Suc m) fuel e (v\<lparr>v_prev := l, v_prevNext := w, v_curr := start rst z\<rparr>)) s"
      using body pass r w by (simp add: walk_on_def le deleted_iff [OF layout])
    with Cons.IH [OF position_pass [OF pos lt pass(3) w(1)], of "Suc m"] Cons.prems(2-7)
    show ?thesis unfolding same(2) by (simp add: n fun_upd_def)
  next
    case hit
    let ?v = "v\<lparr>v_found := Some l, v_foundNext := w, v_curr := start rst z\<rparr>"
    have ck: "cnt (List.tl (pre @ x # ds @ y # rst)) key = c"
      using position_cnt [OF pos [unfolded hit(1)], of c] unfolding y hit(1) by (metis fun_upd_same)
    have "run (KeepPrev n fuel e v) s = run (KeepPrev (Suc m) fuel e ?v) s"
      using body hit r w Cons.prems(6) by (simp add: walk_on_def le deleted_iff [OF layout])
    also have "\<dots> = run (walk_end (KeepPrev m fuel e) fuel e ?v) s"
    proof -
      have p: "prev_ok s ?v" using position_prev_ok [OF pos] by (simp add: prev_ok_def)
      obtain x1 x2 x3 where x: "x = (x1, x2, x3)" by (cases x)
      have "seg L s (start rst z) rst z" using positionD(3) [OF pos [unfolded x]] w by auto
      moreover have "view z s \<noteq> None" using pos by (simp add: position_def chain_def)
      ultimately have "\<exists>r. rget (start rst z) s = Some r \<and> (rst = [] \<or> r_pointer r = fst (snd (hd rst)))"
        by (cases rst) (auto simp: view_Some view_def start_def)
      then obtain r' where r': "rget (v_curr ?v) s = Some r'" "rst = [] \<or> r_pointer r' = fst (snd (hd rst))" by auto
      have "rst = [] \<or> sint key < sint (r_pointer r')" using pr(2) r'(2) hit(1) by (cases rst) auto
      moreover have "rst = [] \<Longrightarrow> start rst z = z" by (simp add: start_def)
      ultimately show ?thesis using run_walk [OF p le(1) r'(1)] r(1,2) by (auto simp: le)
    qed
    finally have rn: "run (KeepPrev n fuel e v) s = run (walk_end (KeepPrev m fuel e) fuel e ?v) s" .
    obtain t where t: "run (walk_end (KeepPrev m fuel e) fuel e ?v) s = Done (int (early_op False (a_flag e) c)) t"
        "early_outcome b F s z (pre @ x # ds @ (l, key, c) # rst)
          ((cnt (List.tl (pre @ x # ds @ (l, key, c) # rst)))(key := early_op False (a_flag e) c)) t"
      using present_run [OF ok un pos [unfolded hit(1)] hit(2) _ e _ _ _ w(1) [unfolded hit(1)], of fuel "KeepPrev m fuel e" False]
        Cons.prems(2,3,7) ck y hit(1) by auto
    with rn show ?thesis unfolding ck using y hit(1) by (intro exI [of _ t] exI [of _ False]) (simp add: fun_upd_def)
  qed
qed

text \<open>A call of \<open>psly_handle_records\<close> on a well-formed list.\<close>

lemma early_run:
  assumes ok: "ok (early_need (a_flag e) b) F s" and un: "unused L F s" and li: "list_ok L s h z es"
    and dj: "insert h (insert z (locs es)) \<inter> F = {}"
    and e: "early_ok e z key" "a_head e = h" and fuel: "2 ^ (arrNum L + idxNum L) \<le> fuel"
    and max: "a_flag e = RECORD \<Longrightarrow> cnt es key < 2 ^ refNum L - 1"
  shows "\<exists>t d es' F'. run (early_handle_records fuel e) s = Done (int (early_op d (a_flag e) (cnt es key))) t \<and>
    list_ok L t h z es' \<and> ok b F' t \<and> unused L F' t \<and> locs es' \<union> F' = locs es \<union> F \<and>
    insert h (insert z (locs es')) \<inter> F' = {} \<and> keeps (insert h (locs es \<union> F)) s t \<and>
    cnt es' = (cnt es)(key := early_op d (a_flag e) (cnt es key)) \<and> (live es \<longrightarrow> live es' \<and> \<not> d)"
proof -
  obtain k c where ch: "chain L s z ((h, k, c) # es)" using li by (auto simp: list_ok_def)
  then obtain w where w: "view h s = Some (w, k)" "refc L w = c" "seg L s (loc_of L w) es z" "0 < c"
    by (auto simp: chain_def)
  let ?v = "\<lparr>v_my = None, v_localN = 0, v_removed = False, v_prev = h, v_prevNext = w, v_curr = loc_of L w, v_found = None, v_foundNext = 0\<rparr>"
  have pos: "position L s z (sint key) [] (h, k, c) [] es ?v"
    using ch w(1,4) seg_start [OF w(3)] by (simp add: position_def)
  have len: "length es + 2 \<le> fuel" using list_length [OF li] fuel by simp
  obtain r where "rget h s = Some r" "r_nextRecord r = w" using w(1) by (auto simp: view_Some)
  then have "run (early_handle_records fuel e) s = run (KeepPrev fuel fuel e ?v) s"
    by (simp add: early_handle_records_def goto_Restart_def e(2) early_okD(1) [OF e(1)])
  moreover have "\<exists>t d. run (KeepPrev fuel fuel e ?v) s = Done (int (early_op d (a_flag e) (cnt (List.tl ([] @ (h, k, c) # [] @ es)) key))) t \<and>
    early_outcome b F s z ([] @ (h, k, c) # [] @ es) ((cnt (List.tl ([] @ (h, k, c) # [] @ es)))
      (key := early_op d (a_flag e) (cnt (List.tl ([] @ (h, k, c) # [] @ es)) key))) t \<and> (d \<longrightarrow> \<not> live ([] @ (h, k, c) # [] @ es))"
    by (rule early_loop_run [OF ok un pos _ e(1)]) (use dj len max in auto)
  ultimately obtain t d where t: "run (early_handle_records fuel e) s = Done (int (early_op d (a_flag e) (cnt es key))) t"
      "early_outcome b F s z ((h, k, c) # es) ((cnt es)(key := early_op d (a_flag e) (cnt es key))) t" "d \<longrightarrow> \<not> live es"
    using w(4) by auto
  from t(2) obtain es1 F' where o: "chain L t z es1" "hd es1 = (h, k, c)" "ok b F' t" "unused L F' t"
      "locs es1 \<union> F' = insert h (locs es) \<union> F" "locs es1 \<inter> F' = {}" "keeps (insert h (locs es \<union> F)) s t"
      "cnt (List.tl es1) = (cnt es)(key := early_op d (a_flag e) (cnt es key))" "live es \<longrightarrow> live es1"
    unfolding early_outcome_def using w(4) by auto
  then obtain es' where es': "es1 = (h, k, c) # es'" by (cases es1) (auto simp: chain_def)
  have "h \<notin> locs es'" "z \<notin> locs es" "h \<noteq> z" "z \<notin> locs es'" "h \<notin> locs es" using o(1) ch by (auto simp: chain_def es')
  then have "insert h (insert z (locs es')) \<inter> F' = {}" "locs es' \<union> F' = locs es \<union> F"
    using o(5,6) dj unfolding es' by auto
  moreover have "list_ok L t h z es'" using o(1) unfolding list_ok_def es' by blast
  moreover have "live es \<longrightarrow> live es' \<and> \<not> d" using o(9) t(3) by (auto simp: es')
  ultimately show ?thesis using t(1) o(3,4,7,8) unfolding es' by (intro exI [of _ t] exI [of _ d] exI [of _ es'] exI [of _ F']) simp
qed

end

end
