(* ===== verification/EarlyMap.thy ===== *)
theory EarlyMap
  imports MapProgram EarlyList
begin

text \<open>
  The map of the earlier files over the list of \<^verbatim>\<open>EarlyList\<close> and the pool of
  \<^verbatim>\<open>RecordPool\<close>, for any layout and any number of lists. There are two generations of it.
  In the first (\<^verbatim>\<open>simple64.c\<close> and its copies) a compare-and-swap tells only whether it
  succeeded, a new record adds one to the count it finds, and \<open>INIT\<close> links the head of a list in
  two writes. In the second (\<^verbatim>\<open>simple64T.c\<close>, \<^verbatim>\<open>lockfreelist_before.c\<close>) a compare-and-swap
  returns the word it found and a new record has count one.
\<close>

unbundle bit_operations_syntax

section \<open>What the files differ in\<close>

text \<open>The words, as the first generation writes them.\<close>

definition early_nxtAddrV :: "layout \<Rightarrow> 64 word \<Rightarrow> 32 word \<Rightarrow> 64 word" where
  "early_nxtAddrV L old self = (old AND REFCBITS L) OR (old AND NODEBITS L) OR ((old + NEXTONE L) AND NEXTBITS L) OR
     ((scast self AND scast (push_bit (idxNum L) (push_bit (arrNum L) 1 - 1) :: 32 word)) OR
      (scast self AND scast (push_bit (idxNum L) 1 - 1 :: 32 word)))"

definition early_nxtAddr :: "layout \<Rightarrow> 64 word \<Rightarrow> 32 word \<Rightarrow> 64 word" where
  "early_nxtAddr L old self = (old AND NOT (ARRIDXBITL L)) OR
     ((scast self AND scast (push_bit (idxNum L) (push_bit (arrNum L) 1 - 1) :: 32 word)) OR
      (scast self AND scast (push_bit (idxNum L) 1 - 1 :: 32 word)))"

definition early_newNext :: "layout \<Rightarrow> 64 word \<Rightarrow> 32 word \<Rightarrow> 64 word" where
  "early_newNext L old self = ((old + REFONE L) AND REFCBITS L) OR ((old + NODEONE L) AND NODEBITS L) OR
     (old AND NEXTBITS L) OR (scast self AND ARRIDXBITL L)"

text \<open>How a record given back is cleared and read, and how one that could not be linked is restored.\<close>

definition clear_first :: "loc \<Rightarrow> (64 word \<Rightarrow> (('c, 'z) pool_scheme, int) prog) \<Rightarrow> (('c, 'z) pool_scheme, int) prog" where
  "clear_first first k = wr (set_pointer 0) first (rd r_nextRecord first k)"

definition read_first :: "loc \<Rightarrow> (64 word \<Rightarrow> (('c, 'z) pool_scheme, int) prog) \<Rightarrow> (('c, 'z) pool_scheme, int) prog" where
  "read_first first k = rd r_nextRecord first (\<lambda>local. wr (set_pointer 0) first (k local))"

definition undo_next :: "loc \<Rightarrow> 64 word \<Rightarrow> 64 word \<Rightarrow> (('c, 'z) pool_scheme, int) prog \<Rightarrow> (('c, 'z) pool_scheme, int) prog" where
  "undo_next my localN b k = wr (set_nextRecord localN) my k"

definition undo_both :: "loc \<Rightarrow> 64 word \<Rightarrow> 64 word \<Rightarrow> (('c, 'z) pool_scheme, int) prog \<Rightarrow> (('c, 'z) pool_scheme, int) prog" where
  "undo_both my localN b k = wr (set_nextRecord localN) my (wr (set_pointer b) my k)"

definition undo_null :: "loc \<Rightarrow> 64 word \<Rightarrow> 64 word \<Rightarrow> (('c, 'z) pool_scheme, int) prog \<Rightarrow> (('c, 'z) pool_scheme, int) prog" where
  "undo_null my localN b k = wr (set_pointer 0) my (wr (set_nextRecord localN) my k)"

text \<open>\<^verbatim>\<open>hazardloop.c\<close> writes the word of a record it gives back as it finds it, and restores the word of a
  record that could not be linked through an \<open>int\<close>, which loses its upper half.\<close>

definition clear_keep :: "loc \<Rightarrow> (64 word \<Rightarrow> (('c, 'z) pool_scheme, int) prog) \<Rightarrow> (('c, 'z) pool_scheme, int) prog" where
  "clear_keep first k =
    rd r_nextRecord first (\<lambda>local.
    wr (set_pointer 0) first (
    rd r_nextRecord first (\<lambda>jjj.
    wr (set_nextRecord jjj) first (k local))))"

definition undo_int :: "loc \<Rightarrow> 64 word \<Rightarrow> 64 word \<Rightarrow> (('c, 'z) pool_scheme, int) prog \<Rightarrow> (('c, 'z) pool_scheme, int) prog" where
  "undo_int my localN b k = wr (set_pointer 0) my (wr (set_nextRecord (scast (ucast localN :: 32 word))) my k)"

text \<open>\<open>INIT\<close>: the word the records of the first generation start with is the argument \<open>W\<close>; the lists of the second
  generation are those of \<open>init_lists\<close>.\<close>

definition blank_rec :: "64 word \<Rightarrow> nat \<Rightarrow> nat \<Rightarrow> nat \<Rightarrow> rec" where
  "blank_rec W n i j =
    (if j < 2 ^ n - 1
     then \<lparr>r_next = of_nat (j + 1), r_self = push_bit n (of_nat i) OR of_nat j, r_nextRecord = W, r_pointer = 0\<rparr>
     else \<lparr>r_next = NEXTTAILBIT n, r_self = push_bit n (of_nat i) OR (push_bit n 1 - 1), r_nextRecord = W, r_pointer = 0\<rparr>)"

definition blank_pool :: "64 word \<Rightarrow> nat \<Rightarrow> nat \<Rightarrow> ('c, 'z) pool_scheme \<Rightarrow> ('c, 'z) pool_scheme" where
  "blank_pool W n m s = s\<lparr>
     Records := (\<lambda>i. if i < 2 ^ m then Some (blank_rec W n i) else Records s i),
     qhead := (\<lambda>i. if i < 2 ^ m then 0 else qhead s i),
     qtail := (\<lambda>i. if i < 2 ^ m then push_bit n 1 - 1 else qtail s i)\<rparr>"

fun link_lists :: "layout \<Rightarrow> (('c, 'z) map_pool_scheme, loc option) prog \<Rightarrow> nat list \<Rightarrow> (('c, 'z) map_pool_scheme, unit) prog" where
  "link_lists L get [] = Ret ()"
| "link_lists L get (i # is) =
    bind get (\<lambda>r. case r of None \<Rightarrow> Crash | Some head \<Rightarrow>
    bind get (\<lambda>r. case r of None \<Rightarrow> Crash | Some tail \<Rightarrow>
    rd r_nextRecord head (\<lambda>old.
    wr (set_nextRecord (plusRecord L old)) head (
    rd r_nextRecord head (\<lambda>old.
    rd r_self tail (\<lambda>self.
    wr (set_nextRecord (early_nxtAddr L old self)) head (
    st (\<lambda>s. s\<lparr>lists := (lists s)(i \<mapsto> (head, tail))\<rparr>) (
    link_lists L get is))))))))"

text \<open>\<open>UNINIT\<close> of the second generation frees the arrays and the lists.\<close>

definition free_all :: "nat \<Rightarrow> nat \<Rightarrow> ('c, 'z) map_pool_scheme \<Rightarrow> ('c, 'z) map_pool_scheme" where
  "free_all m listNum s = s\<lparr>
     Records := (\<lambda>i. if i < 2 ^ m then None else Records s i),
     lists := (\<lambda>i. if i < listNum then None else lists s i)\<rparr>"

text \<open>What \<open>main\<close> counts at the end: from the head of each list up to its tail, the head included. It
  prints whether the sum is the number of lists. (\<^verbatim>\<open>lockfreelist_before.c\<close> starts behind the
  head, as \<open>count_lists\<close> does, but compares with the number of lists too.)\<close>

fun count_heads :: "nat \<Rightarrow> layout \<Rightarrow> ('c, 'z) map_pool_scheme \<Rightarrow> nat list \<Rightarrow> nat option" where
  "count_heads fuel L s [] = Some 0"
| "count_heads fuel L s (i # is) =
    (case lists s i of None \<Rightarrow> None | Some (head, tail) \<Rightarrow>
     case count_list fuel L s head tail of None \<Rightarrow> None | Some k \<Rightarrow>
     map_option ((+) k) (count_heads fuel L s is))"

section \<open>The operations\<close>

definition early_env1 :: "layout \<Rightarrow> nat \<Rightarrow> nat \<Rightarrow> 64 word \<Rightarrow> flag \<Rightarrow> loc \<Rightarrow> loc \<Rightarrow> (32 word, 'z) map_pool_scheme early_env" where
  "early_env1 L fuel tid pointer f h z =
     \<lparr>a_layout = L, a_head = h, a_tail = z, a_pointer = pointer, a_flag = f,
      a_get = get_Record fuel (idxNum L) (arrNum L) tid, a_return = return_Record fuel (idxNum L) (arrNum L) tid,
      a_newNext = early_newNext L, a_val = False, a_fetch = read_first, a_undo = undo_null\<rparr>"

definition early_env2 :: "layout \<Rightarrow> (loc \<Rightarrow> 64 word \<Rightarrow> 64 word \<Rightarrow> ((32 word, 'z) map_pool_scheme, int) prog \<Rightarrow> ((32 word, 'z) map_pool_scheme, int) prog) \<Rightarrow> nat \<Rightarrow> nat \<Rightarrow> 64 word \<Rightarrow> flag \<Rightarrow> loc \<Rightarrow> loc \<Rightarrow> (32 word, 'z) map_pool_scheme early_env" where
  "early_env2 L undo fuel tid pointer f h z =
     \<lparr>a_layout = L, a_head = h, a_tail = z, a_pointer = pointer, a_flag = f,
      a_get = get_Record fuel (idxNum L) (arrNum L) tid, a_return = return_Record fuel (idxNum L) (arrNum L) tid,
      a_newNext = newNext L, a_val = True, a_fetch = clear_first, a_undo = undo\<rparr>"

definition early_env3 :: "layout \<Rightarrow> nat \<Rightarrow> nat \<Rightarrow> 64 word \<Rightarrow> flag \<Rightarrow> loc \<Rightarrow> loc \<Rightarrow> (32 word, 'z) map_pool_scheme early_env" where
  "early_env3 L fuel tid pointer f h z =
     \<lparr>a_layout = L, a_head = h, a_tail = z, a_pointer = pointer, a_flag = f,
      a_get = get_Record fuel (idxNum L) (arrNum L) tid, a_return = return_Record fuel (idxNum L) (arrNum L) tid,
      a_newNext = newNext L, a_val = False, a_fetch = clear_keep, a_undo = undo_int\<rparr>"

definition early_op_on :: "nat \<Rightarrow> (64 word \<Rightarrow> flag \<Rightarrow> loc \<Rightarrow> loc \<Rightarrow> ('c, 'z) map_pool_scheme early_env) \<Rightarrow> nat \<Rightarrow> flag \<Rightarrow> 64 word \<Rightarrow> (('c, 'z) map_pool_scheme, int) prog" where
  "early_op_on fuel mk listNum f p = ldp (\<lambda>s. lists s (bucket listNum p)) (\<lambda>(h, z). early_handle_records fuel (mk p f h z))"

section \<open>The words\<close>

lemma self_masks: "(x AND scast (push_bit (idxNum L) (push_bit (arrNum L) 1 - 1) :: 32 word)) OR (x AND scast (push_bit (idxNum L) 1 - 1 :: 32 word))
    = x AND ARRIDXBITL L"
  unfolding ARRIDXBITL_def
  by (rule bit_word_eqI) (auto simp: bit_simps)

lemma early_nxtAddrV: "early_nxtAddrV L = nxtAddrV L"
  by (intro ext) (simp only: early_nxtAddrV_def nxtAddrV_def self_masks)

lemma early_nxtAddr_fields:
  assumes "layout_ok L"
  shows "refc L (early_nxtAddr L old self) = refc L old"
    and "loc_of L (early_nxtAddr L old self) = loc_of L (scast self)"
proof -
  note p = layout_pos [OF assms]
  have e: "early_nxtAddr L old self = (old AND NOT (ARRIDXBITL L)) OR (scast self AND ARRIDXBITL L)"
    by (simp only: early_nxtAddr_def self_masks)
  show "refc L (early_nxtAddr L old self) = refc L old"
    unfolding e layout_bits [OF assms] using p by (intro refc_cong) (auto simp: bit_simps)
  show "loc_of L (early_nxtAddr L old self) = loc_of L (scast self)"
    unfolding e layout_bits [OF assms] using p by (intro loc_of_cong [OF assms]) (auto simp: bit_simps)
qed

lemma early_newNext_fields:
  assumes "layout_ok L" and "refc L old = 0"
  shows "refc L (early_newNext L old self) = 1"
    and "loc_of L (early_newNext L old self) = loc_of L (scast self)"
proof -
  note p = layout_pos [OF assms(1)] and b = layout_bits [OF assms(1)]
  have "(2 :: nat) ^ 1 \<le> 2 ^ refNum L" using assms(1) by (intro power_increasing) (simp_all add: layout_ok_def)
  then have "refc L (old + REFONE L) = 1" using assms(2) by (simp add: refc_plus_one [OF assms(1)])
  moreover have "refc L (early_newNext L old self) = refc L (old + REFONE L)"
    unfolding early_newNext_def b using p by (intro refc_cong) (auto simp: bit_simps)
  ultimately show "refc L (early_newNext L old self) = 1" by simp
  show "loc_of L (early_newNext L old self) = loc_of L (scast self)"
    unfolding early_newNext_def b using p by (intro loc_of_cong [OF assms(1)]) (auto simp: bit_simps)
qed

section \<open>The map over any pool\<close>

text \<open>What the map does to the counts of its keys, and what it returns, when no deleted record is in
  its lists.\<close>

fun early_counter :: "(flag \<times> 64 word) list \<Rightarrow> (64 word \<Rightarrow> nat) \<Rightarrow> int list" where
  "early_counter [] g = []"
| "early_counter ((f, p) # ops) g = int (early_op False f (g p)) # early_counter ops (g(p := early_op False f (g p)))"

fun early_end :: "(flag \<times> 64 word) list \<Rightarrow> (64 word \<Rightarrow> nat) \<Rightarrow> 64 word \<Rightarrow> nat" where
  "early_end [] g = g"
| "early_end ((f, p) # ops) g = early_end ops (g(p := early_op False f (g p)))"

text \<open>Every \<open>REMOVE\<close> is of a key that is there.\<close>

fun removes_present :: "(flag \<times> 64 word) list \<Rightarrow> (64 word \<Rightarrow> nat) \<Rightarrow> bool" where
  "removes_present [] g = True"
| "removes_present ((f, p) # ops) g = ((f = REMOVE \<longrightarrow> 0 < g p) \<and> removes_present ops (g(p := op_count f (g p))))"

definition early_inserts :: "(flag \<times> 64 word) list \<Rightarrow> nat" where
  "early_inserts ops = length (filter (\<lambda>x. fst x \<noteq> SEARCH) ops)"

lemma early_inserts_simps [simp]: "early_inserts [] = 0" "early_inserts ((f, p) # ops) = early_need f (early_inserts ops)"
  by (simp_all add: early_inserts_def early_need_def)

lemma early_inserts_le: "early_inserts ops \<le> length ops"
  by (simp add: early_inserts_def)

lemma early_counter_present: "removes_present ops g \<Longrightarrow> early_counter ops g = counter ops g \<and> early_end ops g = counter_end ops g"
proof (induction ops arbitrary: g)
  case (Cons fp ops)
  obtain f p where fp: "fp = (f, p)" by (cases fp)
  have "early_op False f (g p) = op_count f (g p)"
    using Cons.prems by (cases f) (auto simp: fp op_count_def)
  with Cons.IH [of "g(p := op_count f (g p))"] Cons.prems show ?case by (simp add: fp fun_upd_def)
qed simp

lemma set_nextRecord_twice [simp]:
  "rset l (set_nextRecord w) (rset l (set_nextRecord v) s) = rset l (set_nextRecord w) (s :: ('c, 'z) pool_scheme)"
  by (cases "Records s (fst l)") (simp_all add: rset_def set_nextRecord_def)

lemma set_nextRecord_get [simp]: "r_nextRecord (set_nextRecord w r) = w"
  by (simp add: set_nextRecord_def)

lemma unused_lists [simp]: "unused L F (s\<lparr>lists := x\<rparr>) = unused L F s"
  by (simp add: unused_def)

text \<open>No list has deleted records, and each key is in its list.\<close>

definition tidy :: "(64 word \<Rightarrow> nat) \<Rightarrow> nat \<Rightarrow> (nat \<Rightarrow> entry list) \<Rightarrow> bool" where
  "tidy hash listNum E \<longleftrightarrow> (\<forall>i < listNum. live (E i) \<and> (\<forall>p. cnt (E i) p \<noteq> 0 \<longrightarrow> hash p = i))"

context record_map
begin

lemma early_op_run:
  assumes mo: "lists_ok L (ok (early_need f b)) {..<listNum} F E s" and un: "unused L F s"
    and opn: "\<And>h z. lists s (bucket key) = Some (h, z) \<Longrightarrow> run opn s = run (early_handle_records fuel (mk h z)) s"
    and e: "\<And>h z. early_ok (mk h z) z key \<and> a_head (mk h z) = h \<and> a_flag (mk h z) = f"
    and fuel: "2 ^ (arrNum L + idxNum L) \<le> fuel"
    and max: "f = RECORD \<Longrightarrow> mcnt bucket E key < 2 ^ refNum L - 1"
  shows "\<exists>t E' F' d. run opn s = Done (int (early_op d f (mcnt bucket E key))) t \<and> lists_ok L (ok b) {..<listNum} F' E' t \<and> unused L F' t \<and>
    mcnt bucket E' = (mcnt bucket E)(key := early_op d f (mcnt bucket E key)) \<and>
    (\<Union>i<listNum. nodes t E' i) \<union> F' = (\<Union>i<listNum. nodes s E i) \<union> F \<and> (tidy bucket listNum E \<longrightarrow> tidy bucket listNum E' \<and> \<not> d)"
proof -
  let ?b = "bucket key"
  have b: "?b \<in> {..<listNum}" using bucket_lt by simp
  from mo b obtain h z where hz: "lists s ?b = Some (h, z)" "list_ok L s h z (E ?b)"
    unfolding lists_ok_def by blast
  have ok: "ok (early_need f b) F s" using mo by (simp add: lists_ok_def)
  have "nodes s E ?b \<inter> F = {}" using mo b unfolding lists_ok_def by blast
  with hz(1) have dj: "insert h (insert z (locs (E ?b))) \<inter> F = {}" by (simp add: nodes_def)
  obtain t d es' F' where o: "run (early_handle_records fuel (mk h z)) s = Done (int (early_op d f (cnt (E ?b) key))) t"
      "list_ok L t h z es'" "ok b F' t" "unused L F' t" "locs es' \<union> F' = locs (E ?b) \<union> F"
      "insert h (insert z (locs es')) \<inter> F' = {}" "keeps (insert h (locs (E ?b) \<union> F)) s t"
      "cnt es' = (cnt (E ?b))(key := early_op d f (cnt (E ?b) key))" "live (E ?b) \<longrightarrow> live es' \<and> \<not> d"
    using early_run [where e = "mk h z" and key = key and b = b, OF _ un hz(2) dj _ _ fuel] ok e [of h z] max unfolding mcnt_def by auto
  have "mcnt bucket (E(?b := es')) = (mcnt bucket E)(key := early_op d f (mcnt bucket E key))"
    by (rule ext) (auto simp: mcnt_def o(8))
  moreover have "run opn s = Done (int (early_op d f (mcnt bucket E key))) t"
    using o(1) opn [OF hz(1)] by (simp add: mcnt_def)
  moreover have "tidy bucket listNum E \<longrightarrow> tidy bucket listNum (E(?b := es')) \<and> \<not> d"
    using o(8,9) b unfolding tidy_def by auto
  moreover note map_step [where P' = "ok b", OF mo bucket_lt hz(1) o(2,3,5-7)]
  ultimately show ?thesis using o(4) by (intro exI [of _ t] exI [of _ "E(?b := es')"] exI [of _ F'] exI [of _ d]) simp
qed

lemma early_script_run:
  assumes "lists_ok L (ok (b + early_inserts ops)) {..<listNum} F E s" and "unused L F s" and "tidy bucket listNum E"
    and "2 ^ (arrNum L + idxNum L) \<le> fuel" and "\<And>k. mcnt bucket E k + length ops < 2 ^ refNum L"
    and opn: "\<And>f p s h z. lists s (bucket p) = Some (h, z) \<Longrightarrow> run (opn f p) s = run (early_handle_records fuel (mk f p h z)) s"
    and e: "\<And>f key h z. early_ok (mk f key h z) z key \<and> a_head (mk f key h z) = h \<and> a_flag (mk f key h z) = f"
  shows "\<exists>t E' F'. run (script opn ops) s = Done (early_counter ops (mcnt bucket E)) t \<and>
    lists_ok L (ok b) {..<listNum} F' E' t \<and> unused L F' t \<and> tidy bucket listNum E' \<and> mcnt bucket E' = early_end ops (mcnt bucket E) \<and>
    (\<Union>i<listNum. nodes t E' i) \<union> F' = (\<Union>i<listNum. nodes s E i) \<union> F"
  using assms(1-3,5)
proof (induction ops arbitrary: s E F)
  case Nil
  then show ?case by auto
next
  case (Cons fp ops)
  obtain f p where fp: "fp = (f, p)" by (cases fp)
  have c: "mcnt bucket E p < 2 ^ refNum L - 1" using Cons.prems(4) [of p] by simp
  have s: "lists_ok L (ok (early_need f (b + early_inserts ops))) {..<listNum} F E s"
    using Cons.prems(1) by (simp add: fp early_need_def split: if_splits)
  from early_op_run [where opn = "opn f p" and mk = "mk f p" and key = p and f = f, OF s Cons.prems(2) opn e assms(4) c] Cons.prems(3) obtain t E' F' where
    t: "run (opn f p) s = Done (int (early_op False f (mcnt bucket E p))) t"
      "lists_ok L (ok (b + early_inserts ops)) {..<listNum} F' E' t" "unused L F' t" "tidy bucket listNum E'"
      "mcnt bucket E' = (mcnt bucket E)(p := early_op False f (mcnt bucket E p))"
      "(\<Union>i<listNum. nodes t E' i) \<union> F' = (\<Union>i<listNum. nodes s E i) \<union> F" by auto
  have "mcnt bucket E' k + length ops < 2 ^ refNum L" for k
    using Cons.prems(4) [of k] by (auto simp: t(5) early_op_def split: flag.split)
  from Cons.IH [OF t(2-4) this] obtain u E'' F'' where
    u: "run (script opn ops) t = Done (early_counter ops (mcnt bucket E')) u"
      "lists_ok L (ok b) {..<listNum} F'' E'' u" "unused L F'' u" "tidy bucket listNum E''" "mcnt bucket E'' = early_end ops (mcnt bucket E')"
      "(\<Union>i<listNum. nodes u E'' i) \<union> F'' = (\<Union>i<listNum. nodes t E' i) \<union> F'" by blast
  show ?case using t(1,6) u unfolding t(5) fp by (intro exI [of _ u] exI [of _ E''] exI [of _ F'']) simp
qed

text \<open>The loop that creates the lists, as a program \<open>P\<close> on the lists still to create, each turn of
  which links a head to a tail by some word with a positive count.\<close>

lemma create_run:
  assumes "lists_ok L (ok (b + 2 * length is)) I F E s" and "unused L F s" and "set is \<inter> I = {}" and "distinct is"
    and "\<forall>i \<in> set is. E i = []" and nil: "P [] = Ret ()"
    and step: "\<And>i is s h z s1 s2 rh rz. run get s = Done (Some h) s1 \<Longrightarrow> run get s1 = Done (Some z) s2 \<Longrightarrow>
      is_loc L z \<Longrightarrow> rget h s2 = Some rh \<Longrightarrow> refc L (r_nextRecord rh) = 0 \<Longrightarrow> rget z s2 = Some rz \<Longrightarrow> h \<noteq> z \<Longrightarrow>
      r_self rz = self_word (idxNum L) z \<Longrightarrow> (\<And>f. lists (rset h f s2) = lists s2) \<Longrightarrow>
      \<exists>w. run (P (i # is)) s = run (P is) ((rset h (set_nextRecord w) s2)\<lparr>lists := (lists s2)(i \<mapsto> (h, z))\<rparr>) \<and>
        0 < refc L w \<and> loc_of L w = z"
  shows "\<exists>t F'. run (P is) s = Done () t \<and> lists_ok L (ok b) (I \<union> set is) F' E t \<and> unused L F' t \<and>
    (\<Union>j\<in>I \<union> set is. nodes t E j) \<union> F' = (\<Union>j\<in>I. nodes s E j) \<union> F"
  using assms(1-5)
proof (induction "is" arbitrary: s I F)
  case Nil
  then show ?case by (auto simp: nil)
next
  case (Cons i "is")
  from Cons.prems init_step [of "b + 2 * length is" I F E s i] obtain h z s1 s2 rh rz where
    g: "run get s = Done (Some h) s1" "run get s1 = Done (Some z) s2" "is_loc L z" "rget h s2 = Some rh" "rget z s2 = Some rz"
      "r_self rz = self_word (idxNum L) z" "keeps {} s s2" "h \<in> F" "z \<in> F - {h}" and
    st: "\<And>w t. t = (rset h (set_nextRecord w) s2)\<lparr>lists := (lists s2)(i \<mapsto> (h, z))\<rparr> \<and> 0 < refc L w \<and> loc_of L w = z \<Longrightarrow>
       lists_ok L (ok (b + 2 * length is)) (insert i I) (F - {h} - {z}) E t \<and>
       (\<Union>j\<in>insert i I. nodes t E j) \<union> (F - {h} - {z}) = (\<Union>j\<in>I. nodes s E j) \<union> F" by auto
  have u2: "unused L F s2" by (rule unused_keeps [OF Cons.prems(2) g(7)]) simp
  then have r0: "refc L (r_nextRecord rh) = 0" using g(4,8) by (force simp: unused_def view_Some)
  have "h \<noteq> z" using g(9) by blast
  from step [OF g(1-4) r0 g(5) this g(6) keeps_lists [OF keeps_rset], of i "is"] obtain w where
    w: "run (P (i # is)) s = run (P is) ((rset h (set_nextRecord w) s2)\<lparr>lists := (lists s2)(i \<mapsto> (h, z))\<rparr>)"
      "0 < refc L w" "loc_of L w = z" by blast
  let ?t = "(rset h (set_nextRecord w) s2)\<lparr>lists := (lists s2)(i \<mapsto> (h, z))\<rparr>"
  from st [of ?t w] w(2,3) have l: "lists_ok L (ok (b + 2 * length is)) (insert i I) (F - {h} - {z}) E ?t"
      "(\<Union>j\<in>insert i I. nodes ?t E j) \<union> (F - {h} - {z}) = (\<Union>j\<in>I. nodes s E j) \<union> F" by simp_all
  have "unused L (F - {h} - {z}) (rset h (set_nextRecord w) s2)"
    by (rule unused_keeps [OF unused_subset [OF u2] keeps_rset]) auto
  then have u: "unused L (F - {h} - {z}) ?t" by simp
  have "\<exists>t F'. run (P is) ?t = Done () t \<and> lists_ok L (ok b) (insert i I \<union> set is) F' E t \<and> unused L F' t \<and>
      (\<Union>j\<in>insert i I \<union> set is. nodes t E j) \<union> F' = (\<Union>j\<in>insert i I. nodes ?t E j) \<union> (F - {h} - {z})"
    by (rule Cons.IH [OF l(1) u]) (use Cons.prems in auto)
  moreover have "insert i I \<union> set is = I \<union> set (i # is)" by simp
  ultimately show ?case unfolding l(2) w(1) by (simp only:)
qed

lemma init_lists_link:
  assumes "run get s = Done (Some h) s1" and "run get s1 = Done (Some z) s2"
    and "is_loc L z" and "rget h s2 = Some rh" and "rget z s2 = Some rz"
    and "r_self rz = self_word (idxNum L) z" and "\<And>f. lists (rset h f s2) = lists s2"
  shows "\<exists>w. run (init_lists L get (i # is)) s = run (init_lists L get is) ((rset h (set_nextRecord w) s2)\<lparr>lists := (lists s2)(i \<mapsto> (h, z))\<rparr>) \<and>
    0 < refc L w \<and> loc_of L w = z"
  using assms loc_of_self [OF layout assms(3)]
  by (intro exI [of _ "newNext L (r_nextRecord rh) (r_self rz)"]) (simp add: newNext_fields [OF layout] loc_of_scast [OF layout])

lemma link_lists_link:
  assumes "run get s = Done (Some h) s1" and "run get s1 = Done (Some z) s2"
    and "is_loc L z" and "rget h s2 = Some rh" and "refc L (r_nextRecord rh) = 0" and "rget z s2 = Some rz" and "h \<noteq> z"
    and "r_self rz = self_word (idxNum L) z" and "\<And>f. lists (rset h f s2) = lists s2"
  shows "\<exists>w. run (link_lists L get (i # is)) s = run (link_lists L get is) ((rset h (set_nextRecord w) s2)\<lparr>lists := (lists s2)(i \<mapsto> (h, z))\<rparr>) \<and>
    0 < refc L w \<and> loc_of L w = z"
proof -
  let ?w = "early_nxtAddr L (plusRecord L (r_nextRecord rh)) (r_self rz)"
  have "(2 :: nat) ^ 1 \<le> 2 ^ refNum L" using layout by (intro power_increasing) (simp_all add: layout_ok_def)
  then have "refc L ?w = 1" "loc_of L ?w = z"
    using assms(5) loc_of_self [OF layout assms(3)]
    by (simp_all add: early_nxtAddr_fields [OF layout] plusRecord_fields [OF layout] assms(8))
  then show ?thesis using assms
    by (intro exI [of _ ?w]) simp
qed

end

section \<open>The programs\<close>

text \<open>The state of such a map: as that of the later files, with every free record of count 0.\<close>

abbreviation early_map_ok :: "layout \<Rightarrow> nat \<Rightarrow> nat \<Rightarrow> loc set \<Rightarrow> (nat \<Rightarrow> entry list) \<Rightarrow> (32 word, 'z) map_pool_scheme \<Rightarrow> bool" where
  "early_map_ok L k b F E s \<equiv> map_ok False L k b F E s \<and> unused L F s"

definition early_env_ok :: "layout \<Rightarrow> nat \<Rightarrow> nat \<Rightarrow> (64 word \<Rightarrow> flag \<Rightarrow> loc \<Rightarrow> loc \<Rightarrow> (32 word, 'z) map_pool_scheme early_env) \<Rightarrow> bool" where
  "early_env_ok L fuel tid mk \<longleftrightarrow> (\<forall>p f h z.
     record_pool.early_ok L (get_Record fuel (idxNum L) (arrNum L) tid) (return_Record fuel (idxNum L) (arrNum L) tid) (mk p f h z) z p \<and>
     a_head (mk p f h z) = h \<and> a_flag (mk p f h z) = f)"

lemma set_pointer_next [simp]: "r_nextRecord (set_pointer p r) = r_nextRecord r"
  by (simp add: set_pointer_def)

lemma rset_again [simp]: "rget l s = Some r \<Longrightarrow> rset l (set_nextRecord (r_nextRecord r)) (rset l (set_pointer p) s) = rset l (set_pointer p) s"
  by (auto simp: rset_def rget_def set_nextRecord_def set_pointer_def fun_eq_iff split: option.splits intro!: arg_cong [where f = "\<lambda>m. s\<lparr>Records := m\<rparr>"])

lemma run_a_fetch:
  "rget first s = Some r \<Longrightarrow> run (clear_first first k) s = run (k (r_nextRecord r)) (rset first (set_pointer 0) s)"
  "rget first s = Some r \<Longrightarrow> run (read_first first k) s = run (k (r_nextRecord r)) (rset first (set_pointer 0) s)"
  "rget first s = Some r \<Longrightarrow> run (clear_keep first k) s = run (k (r_nextRecord r)) (rset first (set_pointer 0) s)"
  by (simp_all add: clear_first_def read_first_def set_pointer_def) (simp add: clear_keep_def)

lemma early_envs_ok:
  assumes "layout_ok L"
  shows "early_env_ok L (Suc (Suc g)) tid (early_env1 L (Suc (Suc g)) tid)"
    and "early_env_ok L (Suc (Suc g)) tid (early_env2 L undo (Suc (Suc g)) tid)"
    and "early_env_ok L (Suc (Suc g)) tid (early_env3 L (Suc (Suc g)) tid)"
proof -
  have idx: "idx_Record (idxNum L) (arrNum L) (self_word (idxNum L) l) = l" if "is_loc L l" for l
    using loc_of_self [OF assms that] by (simp only: loc_of_scast [OF assms])
  have new: "refc L (early_newNext L w (self_word (idxNum L) l)) = 1 \<and> loc_of L (early_newNext L w (self_word (idxNum L) l)) = l"
    "refc L (newNext L w (self_word (idxNum L) l)) = 1 \<and> loc_of L (newNext L w (self_word (idxNum L) l)) = l"
    if "refc L w = 0" "is_loc L l" for w l
    using that by (simp_all only: early_newNext_fields [OF assms] newNext_fields [OF assms] loc_of_scast [OF assms] idx simp_thms)
  show "early_env_ok L (Suc (Suc g)) tid (early_env1 L (Suc (Suc g)) tid)"
    unfolding early_env_ok_def record_pool.early_ok_def [OF record_pool_pro [OF assms, of g tid]] early_env1_def
    using new(1) by (simp add: run_a_fetch)
  show "early_env_ok L (Suc (Suc g)) tid (early_env2 L undo (Suc (Suc g)) tid)"
    unfolding early_env_ok_def record_pool.early_ok_def [OF record_pool_pro [OF assms, of g tid]] early_env2_def
    using new(2) by (simp add: run_a_fetch)
  show "early_env_ok L (Suc (Suc g)) tid (early_env3 L (Suc (Suc g)) tid)"
    unfolding early_env_ok_def record_pool.early_ok_def [OF record_pool_pro [OF assms, of g tid]] early_env3_def
    using new(2) by (simp add: run_a_fetch)
qed

lemma early_op_step:
  assumes L: "layout_ok L" and k: "k \<le> 64" and m: "early_map_ok L k (early_need f b) F E s"
    and fuel: "2 ^ (arrNum L + idxNum L) \<le> fuel" and e: "early_env_ok L fuel tid mk"
    and c: "f = RECORD \<Longrightarrow> map_count k E p < 2 ^ refNum L - 1"
  shows "\<exists>t E' F' d. run (early_op_on fuel mk (2 ^ k) f p) s = Done (int (early_op d f (map_count k E p))) t \<and>
    early_map_ok L k b F' E' t \<and> map_count k E' = (map_count k E)(p := early_op d f (map_count k E p)) \<and>
    (\<Union>i<2 ^ k. nodes t E' i) \<union> F' = (\<Union>i<2 ^ k. nodes s E i) \<union> F \<and>
    (tidy (bucket (2 ^ k)) (2 ^ k) E \<longrightarrow> tidy (bucket (2 ^ k)) (2 ^ k) E' \<and> \<not> d)"
proof -
  obtain g where g: "fuel = Suc (Suc g)" using two_le_pow [OF L fuel] by blast
  have "run (early_op_on fuel mk (2 ^ k) f p) s = run (early_handle_records fuel (mk p f h z)) s"
    if "lists s (bucket (2 ^ k) p) = Some (h, z)" for h z using that by (simp add: early_op_on_def)
  from record_map.early_op_run [OF record_map_pro [OF L k, where fuel = g and tid = tid and lag = False, folded g],
      where mk = "mk p f" and opn = "early_op_on fuel mk (2 ^ k) f p" and key = p and f = f, OF conjunct1 [OF m] conjunct2 [OF m] this _ fuel c] e
  show ?thesis unfolding early_env_ok_def by blast
qed

lemma early_script:
  assumes L: "layout_ok L" and k: "k \<le> 64" and m: "early_map_ok L k (b + early_inserts ops) F E s"
    and fuel: "2 ^ (arrNum L + idxNum L) \<le> fuel" and e: "early_env_ok L fuel tid mk"
    and c: "\<And>p. map_count k E p + length ops < 2 ^ refNum L" and v: "tidy (bucket (2 ^ k)) (2 ^ k) E"
  shows "\<exists>t E' F'. run (script (early_op_on fuel mk (2 ^ k)) ops) s = Done (early_counter ops (map_count k E)) t \<and>
    early_map_ok L k b F' E' t \<and> tidy (bucket (2 ^ k)) (2 ^ k) E' \<and> map_count k E' = early_end ops (map_count k E) \<and>
    (\<Union>i<2 ^ k. nodes t E' i) \<union> F' = (\<Union>i<2 ^ k. nodes s E i) \<union> F"
proof -
  obtain g where g: "fuel = Suc (Suc g)" using two_le_pow [OF L fuel] by blast
  have "run (early_op_on fuel mk (2 ^ k) f p) s = run (early_handle_records fuel (mk p f h z)) s"
    if "lists s (bucket (2 ^ k) p) = Some (h, z)" for f p h z and s :: "(32 word, 'a) map_pool_scheme"
    using that by (simp add: early_op_on_def)
  from record_map.early_script_run [OF record_map_pro [OF L k, where fuel = g and tid = tid and lag = False, folded g],
      where mk = "\<lambda>f p. mk p f", OF conjunct1 [OF m] conjunct2 [OF m] v fuel c this] e
  show ?thesis unfolding early_env_ok_def by blast
qed

lemma blank_rec: "blank_rec W n i j = (init_rec n i j)\<lparr>r_nextRecord := W\<rparr>"
  by (simp add: blank_rec_def init_rec_def)

lemma blank_pool_lists: "n < 32 \<Longrightarrow> pool_ok lag n (2 ^ m) (\<lambda>_. [0..<2 ^ n]) (blank_pool W n m s)"
proof -
  assume n: "n < 32"
  have "linked n (blank_rec W n i) [0..<2 ^ n]" for i
    using linked_upt [of 0 n i] n by (subst linked_cong [of _ _ "init_rec n i"]) (simp_all add: blank_rec)
  then show ?thesis using n
    by (auto simp: pool_ok_def free_queue_def blank_pool_def blank_rec init_rec_self hd_upt last_upt)
qed

lemma small_refc: "layout_ok L \<Longrightarrow> w = 0 \<or> width L = 64 \<and> unat w < 2 ^ 32 \<Longrightarrow> refc L w = 0"
proof (elim disjE conjE)
  assume L: "layout_ok L" and w: "unat w < 2 ^ 32" and "width L = 64"
  then have "32 \<le> RECBW L" using L unfolding RECBW_def layout_ok_def by linarith
  then have "(2 :: nat) ^ 32 \<le> 2 ^ RECBW L" by (intro power_increasing) simp_all
  with w show ?thesis by (simp add: refc_div)
qed (simp add: refc_div)

lemma all_records_free: "free_set (arrNum L) (\<lambda>_. [0..<2 ^ idxNum L]) = all_records L"
  by (auto simp: free_set_def all_records_def)

lemma blank_unused: "layout_ok L \<Longrightarrow> W = 0 \<or> width L = 64 \<and> unat W < 2 ^ 32 \<Longrightarrow> unused L (all_records L) (blank_pool W (idxNum L) (arrNum L) s)"
  by (auto simp: unused_def all_records_def is_loc_def view_def rget_def blank_pool_def blank_rec small_refc)

lemma init_unused: "layout_ok L \<Longrightarrow> width L = 64 \<Longrightarrow> unused L (all_records L) (init_pool (idxNum L) (arrNum L) s)"
  by (auto simp: unused_def all_records_def is_loc_def view_def rget_def init_pool_def init_rec_def small_refc)

text \<open>The ways the programs start.\<close>

lemma empty_map_ok:
  assumes r: "room L k b" and p: "pool_ok False (idxNum L) (2 ^ arrNum L) (\<lambda>_. [0..<2 ^ idxNum L]) s"
  shows "lists_ok L (pro_ok False L (b + 2 * length [0..<2 ^ k])) {} (all_records L) (\<lambda>_. []) s"
proof -
  have "card (all_records L) = 2 ^ (arrNum L + idxNum L)" by (simp add: all_records_def card_cartesian_product power_add)
  then show ?thesis using r p all_records_free [of L] unfolding lists_ok_def pro_ok_def room_def by fastforce
qed

lemma early_starts:
  assumes r: "room L k b" and fuel: "2 ^ (arrNum L + idxNum L) \<le> fuel"
  shows "W = 0 \<or> width L = 64 \<and> unat W < 2 ^ 32 \<Longrightarrow>
      \<exists>t F. run (st (blank_pool W (idxNum L) (arrNum L)) (link_lists L (get_Record fuel (idxNum L) (arrNum L) tid) [0..<2 ^ k])) s = Done () t \<and>
        early_map_ok L k b F (\<lambda>_. []) t \<and> (\<Union>i<2 ^ k. nodes t (\<lambda>_. []) i) \<union> F = all_records L" (is "?W \<Longrightarrow> ?A")
    and "width L = 64 \<Longrightarrow> \<exists>t F. run (INIT_RESOURCE L (2 ^ k) fuel tid) s = Done () t \<and>
        early_map_ok L k b F (\<lambda>_. []) t \<and> (\<Union>i<2 ^ k. nodes t (\<lambda>_. []) i) \<union> F = all_records L" (is "?V \<Longrightarrow> ?B")
    and "W = 0 \<or> width L = 64 \<and> unat W < 2 ^ 32 \<Longrightarrow>
      \<exists>t F. run (st (blank_pool W (idxNum L) (arrNum L)) (init_lists L (get_Record fuel (idxNum L) (arrNum L) tid) [0..<2 ^ k])) s = Done () t \<and>
        early_map_ok L k b F (\<lambda>_. []) t \<and> (\<Union>i<2 ^ k. nodes t (\<lambda>_. []) i) \<union> F = all_records L" (is "?U \<Longrightarrow> ?D")
proof -
  have L: "layout_ok L" and k: "k \<le> 64" using r by (simp_all add: room_def)
  then have n: "idxNum L < 32" by (simp add: layout_ok_def)
  obtain g where g: "fuel = Suc (Suc g)" using two_le_pow [OF L fuel] by blast
  note R = record_map_pro [OF L k, where fuel = g and tid = tid and lag = False, folded g]
  have e: "{} \<union> set [0..<2 ^ k] = {..<2 ^ k :: nat}" by auto
  let ?get = "get_Record fuel (idxNum L) (arrNum L) tid"
  let ?C = "\<lambda>P s. \<exists>t F'. run (P [0..<2 ^ k]) s = Done () t \<and>
      lists_ok L (pro_ok False L b) ({} \<union> set [0..<2 ^ k]) F' (\<lambda>_. []) t \<and> unused L F' t \<and>
      (\<Union>j\<in>{} \<union> set [0..<2 ^ k]. nodes t (\<lambda>_. []) j) \<union> F' = (\<Union>j\<in>{}. nodes s (\<lambda>_. []) j) \<union> all_records L"
  show ?A if W: ?W
  proof -
    have "?C (link_lists L ?get) (blank_pool W (idxNum L) (arrNum L) s)"
      by (rule record_map.create_run [where P = "link_lists L ?get", OF R empty_map_ok [OF r blank_pool_lists [OF n]] blank_unused [OF L W]])
        (simp, simp, simp, simp, rule record_map.link_lists_link [OF R])
    then show ?thesis unfolding e by auto
  qed
  show ?B if V: ?V
  proof -
    have "?C (init_lists L ?get) (init_pool (idxNum L) (arrNum L) s)"
      by (rule record_map.create_run [where P = "init_lists L ?get", OF R empty_map_ok [OF r init_pool_lists [OF n]] init_unused [OF L V]])
        (simp, simp, simp, simp, rule record_map.init_lists_link [OF R])
    then show ?thesis unfolding e by (auto simp: INIT_RESOURCE_def)
  qed
  show ?D if W: ?U
  proof -
    have "?C (init_lists L ?get) (blank_pool W (idxNum L) (arrNum L) s)"
      by (rule record_map.create_run [where P = "init_lists L ?get", OF R empty_map_ok [OF r blank_pool_lists [OF n]] blank_unused [OF L W]])
        (simp, simp, simp, simp, rule record_map.init_lists_link [OF R])
    then show ?thesis unfolding e by auto
  qed
qed

text \<open>A whole program: \<open>INIT\<close>, then any sequence of calls.\<close>

lemma early_program:
  assumes r: "room L k (b + early_inserts ops)" and fuel: "2 ^ (arrNum L + idxNum L) \<le> fuel" and n: "length ops < 2 ^ refNum L"
    and e: "early_env_ok L fuel tid mk"
    and init: "\<exists>t F. run init s = Done () t \<and> early_map_ok L k (b + early_inserts ops) F (\<lambda>_. []) t \<and>
      (\<Union>i<2 ^ k. nodes t (\<lambda>_. []) i) \<union> F = all_records L"
  shows "\<exists>t E F. run (bind init (\<lambda>_. script (early_op_on fuel mk (2 ^ k)) ops)) s = Done (early_counter ops (\<lambda>_. 0)) t \<and>
    early_map_ok L k b F E t \<and> tidy (bucket (2 ^ k)) (2 ^ k) E \<and> map_count k E = early_end ops (\<lambda>_. 0) \<and>
    (\<Union>i<2 ^ k. nodes t E i) \<union> F = all_records L"
proof -
  have L: "layout_ok L" and k: "k \<le> 64" using r by (simp_all add: room_def)
  from init obtain s1 F where s: "run init s = Done () s1" "early_map_ok L k (b + early_inserts ops) F (\<lambda>_. []) s1"
      "(\<Union>i<2 ^ k. nodes s1 (\<lambda>_. []) i) \<union> F = all_records L" by blast
  have "map_count k (\<lambda>_. []) p + length ops < 2 ^ refNum L" for p using n by simp
  from early_script [OF L k s(2) fuel e this] s(1,3) show ?thesis unfolding mcnt_empty by (auto simp: tidy_def)
qed

text \<open>The count at the end is the number of lists just when no key is counted.\<close>

lemma count_heads_sum:
  assumes "\<And>i. i \<in> set is \<Longrightarrow> \<exists>h z. lists s i = Some (h, z) \<and> list_ok L s h z (E i) \<and> Suc (length (E i)) < fuel"
  shows "count_heads fuel L s is = Some (\<Sum>i\<leftarrow>is. Suc (length (E i)))"
  using assms
proof (induction "is")
  case (Cons i "is")
  from Cons.prems [of i] obtain h z where hz: "lists s i = Some (h, z)" "list_ok L s h z (E i)" "Suc (length (E i)) < fuel" by auto
  then obtain k c where "seg L s h ((h, k, c) # E i) z" "z \<notin> locs ((h, k, c) # E i)"
    by (auto simp: list_ok_def chain_def)
  from count_list_seg [OF this, of fuel] hz(1,3) Cons show ?case by simp
qed simp

lemma cnt_zero: "live es \<Longrightarrow> (\<forall>p. cnt es p = 0) \<longleftrightarrow> es = []"
proof (cases es)
  case (Cons x es')
  assume "live es"
  then have "cnt es (fst (snd x)) \<noteq> 0" unfolding Cons by (cases x) simp
  with Cons show ?thesis by auto
qed simp

lemma final_count:
  assumes m: "map_ok False L k b F E t" and t: "tidy (bucket (2 ^ k)) (2 ^ k) E" and k: "k \<le> 64"
    and fuel: "2 ^ (arrNum L + idxNum L) \<le> fuel"
  shows "\<exists>n. count_heads fuel L t [0..<2 ^ k] = Some (2 ^ k + n) \<and> count_lists fuel L t [0..<2 ^ k] = Some n \<and>
    (n = 0 \<longleftrightarrow> (\<forall>p. map_count k E p = 0))"
proof -
  have li: "\<exists>h z. lists t i = Some (h, z) \<and> list_ok L t h z (E i) \<and> Suc (length (E i)) < fuel" if "i \<in> set [0..<2 ^ k]" for i
  proof -
    from that have "i \<in> {..<2 ^ k}" by simp
    with m obtain h z where "lists t i = Some (h, z)" "list_ok L t h z (E i)" unfolding lists_ok_def by blast
    with list_length [of L t h z "E i"] fuel show ?thesis by fastforce
  qed
  then have li': "\<exists>h z. lists t i = Some (h, z) \<and> list_ok L t h z (E i) \<and> length (E i) < fuel" if "i \<in> set [0..<2 ^ k]" for i
    using that Suc_lessD by blast
  let ?n = "\<Sum>i<2 ^ k. length (E i)"
  have "(\<Sum>i<2 ^ k. Suc (length (E i))) = 2 ^ k + ?n" using sum.distrib [of "\<lambda>_. 1" "\<lambda>i. length (E i)" "{..<2 ^ k :: nat}"] by simp
  then have "count_heads fuel L t [0..<2 ^ k] = Some (2 ^ k + ?n)"
    using count_heads_sum [where E = E and fuel = fuel and s = t and L = L, of "[0..<2 ^ k]"] li
    by (simp add: interv_sum_list_conv_sum_set_nat atLeast0LessThan)
  moreover have "count_lists fuel L t [0..<2 ^ k] = Some ?n"
    using count_lists_sum [where E = E and fuel = fuel and s = t and L = L, of "[0..<2 ^ k]"] li'
    by (simp add: interv_sum_list_conv_sum_set_nat atLeast0LessThan)
  moreover have "?n = 0 \<longleftrightarrow> (\<forall>i < 2 ^ k. E i = [])" by auto
  moreover have "(\<forall>i < 2 ^ k. E i = []) \<longleftrightarrow> (\<forall>p. map_count k E p = 0)"
  proof
    assume z: "\<forall>p. map_count k E p = 0"
    show "\<forall>i < 2 ^ k. E i = []"
    proof (intro allI impI)
      fix i :: nat
      assume i: "i < 2 ^ k"
      have "cnt (E i) p = 0" for p
      proof (rule ccontr)
        assume c: "cnt (E i) p \<noteq> 0"
        then have "bucket (2 ^ k) p = i" using t i by (simp add: tidy_def)
        with z c show False by (auto simp: mcnt_def)
      qed
      with cnt_zero [of "E i"] t i show "E i = []" by (simp add: tidy_def)
    qed
  qed (use bucket_lt [OF k] in \<open>simp add: mcnt_def\<close>)
  ultimately show ?thesis by (intro exI [of _ "?n"]) simp
qed

end
