(* ===== verification/EarlyFiles.thy ===== *)
theory EarlyFiles
  imports EarlyMap MapFiles
begin

text \<open>
  The earlier files with the map of \<^verbatim>\<open>EarlyMap\<close>, most of them in \<^verbatim>\<open>fast\<close> and below it. First generation: the
  four files whose link words are \<open>int\<close>s, \<^verbatim>\<open>fast/psly_hazard_pointer.c\<close> (prefix \<open>i32\<close>),
  \<^verbatim>\<open>fast/fast64bitversion/psly_hazard_pointer.c\<close> (\<open>w32\<close>), \<^verbatim>\<open>psly_hazard_pointer_2.c\<close> beside it (\<open>l32\<close>) and
  \<^verbatim>\<open>hazardP/psly_hazard_pointer_32bit.c\<close> (\<open>m32\<close>); and with \<open>long\<close>s, in \<^verbatim>\<open>hazardP\<close>, \<^verbatim>\<open>simple64.c\<close> (\<open>s64\<close>),
  \<^verbatim>\<open>simpTTT.c\<close> (\<open>ttt\<close>), \<^verbatim>\<open>test64.c\<close> (\<open>t64\<close>) and \<^verbatim>\<open>psly_hazard_pointer_64bit.c\<close> (\<open>b64\<close>).
  Second generation: \<^verbatim>\<open>compare_LockFreeList/lockfreelist_before.c\<close> (\<open>bef\<close>) and \<^verbatim>\<open>simple64T.c\<close>
  (\<open>s6t\<close>). Between the two, the map of \<^verbatim>\<open>hazardloop.c\<close> (\<open>lp\<close>), whose queue is in \<^verbatim>\<open>LoopQueue\<close>. They differ in the widths of the words, the number of lists, the word a record starts
  with and how a record that could not be linked is restored. The reads of
  \<^verbatim>\<open>simple64T.c\<close> that only feed its diagnostic output (\<open>changeFrom39417\<close>, the second read of
  \<open>pointer\<close>), the loop counters and \<open>contract\<close> of the files with \<open>int\<close>s, which are only printed, the counts and checks \<^verbatim>\<open>hazardloop.c\<close> prints, and the
  fences of \<^verbatim>\<open>simpTTT.c\<close> are left out.
\<close>

definition layout_16 :: layout where
  "layout_16 = \<lparr>width = 64, refNum = 16, idxNum = 16, arrNum = 4\<rparr>"

definition layout_10 :: layout where
  "layout_10 = \<lparr>width = 64, refNum = 10, idxNum = 16, arrNum = 4\<rparr>"

definition layout_32 :: layout where
  "layout_32 = \<lparr>width = 32, refNum = 10, idxNum = 10, arrNum = 2\<rparr>"

definition layout_32w :: layout where
  "layout_32w = \<lparr>width = 32, refNum = 10, idxNum = 11, arrNum = 3\<rparr>"

lemmas early_layout_defs = layout_16_def layout_10_def layout_32_def layout_32w_def

lemma early_layouts [simp]: "layout_ok layout_16" "layout_ok layout_10" "layout_ok layout_32" "layout_ok layout_32w"
  by (simp_all add: layout_ok_def early_layout_defs)

text \<open>The versions of the files with \<open>int\<close>s have 5 bits each (4 in \<^verbatim>\<open>fast/fast64bitversion/psly_hazard_pointer.c\<close>), as
  their constants \<open>NODEB\<close> and \<open>NEXTB\<close> say.\<close>

lemma int_versions: "NODEB layout_32 = 5" "NODEB layout_32w = 4" "RECBW layout_32 = 22"
  by (simp_all add: NODEB_def RECBW_def early_layout_defs)

text \<open>The layouts with the numbers of lists they are used for (as exponents of 2).\<close>

definition early_size :: "layout \<Rightarrow> nat \<Rightarrow> bool" where
  "early_size L k \<longleftrightarrow> (L, k) \<in> {(layout_16, 9), (layout_16, 10), (layout_16, 12), (layout_10, 9), (layout_32, 9), (layout_32, 10), (layout_32w, 11)}"

lemma early_widths [simp]: "width layout_16 = 64" "width layout_10 = 64"
  by (simp_all add: layout_16_def layout_10_def)

lemma early_rooms:
  assumes "length ops < 1024" and "early_size L k"
  shows "room L k (0 + early_inserts ops)"
  using assms early_inserts_le [of ops] by (auto simp: early_size_def room_def early_layout_defs layout_ok_def)

lemma early_file:
  assumes n: "length ops < 1024" and fuel: "2 ^ 20 \<le> fuel" and L: "early_size L k"
    and e: "\<And>g. early_env_ok L (Suc (Suc g)) tid (mk (Suc (Suc g)))"
    and init: "\<And>s. room L k (0 + early_inserts ops) \<Longrightarrow> \<exists>t F. run init s = Done () t \<and> early_map_ok L k (0 + early_inserts ops) F (\<lambda>_. []) t \<and>
      (\<Union>i<2 ^ k. nodes t (\<lambda>_. []) i) \<union> F = all_records L"
  shows "\<exists>t j. run (bind init (\<lambda>_. script (early_op_on fuel (mk fuel) (2 ^ k)) ops)) s = Done (early_counter ops (\<lambda>_. 0)) t \<and>
    count_heads fuel L t [0..<2 ^ k] = Some (2 ^ k + j) \<and> count_lists fuel L t [0..<2 ^ k] = Some j \<and>
    (j = 0 \<longleftrightarrow> (\<forall>p. early_end ops (\<lambda>_. 0) p = 0))"
proof -
  have f: "2 ^ (arrNum L + idxNum L) \<le> fuel" "length ops < 2 ^ refNum L" "k \<le> 64" "layout_ok L"
    using n fuel L by (auto simp: early_size_def early_layout_defs layout_ok_def)
  obtain g where g: "fuel = Suc (Suc g)" using two_le_pow [OF f(4,1)] by blast
  have r: "room L k (0 + early_inserts ops)" by (rule early_rooms [OF n L])
  from early_program [OF r f(1,2) e [of g, folded g] init [OF r, of s]] obtain t E F where
    t: "run (bind init (\<lambda>_. script (early_op_on fuel (mk fuel) (2 ^ k)) ops)) s = Done (early_counter ops (\<lambda>_. 0)) t"
      "map_ok False L k 0 F E t" "tidy (bucket (2 ^ k)) (2 ^ k) E" "map_count k E = early_end ops (\<lambda>_. 0)" by blast
  from final_count [OF t(2,3) f(3,1)] t(1) show ?thesis unfolding t(4) by blast
qed

section \<open>\<^verbatim>\<open>fast/psly_hazard_pointer.c\<close>\<close>

definition i32_get_Record :: "nat \<Rightarrow> nat \<Rightarrow> ((32 word, 'z) map_pool_scheme, loc option) prog" where
  "i32_get_Record fuel tid = get_Record fuel 10 2 tid"

definition i32_return_Record :: "nat \<Rightarrow> nat \<Rightarrow> loc \<Rightarrow> ((32 word, 'z) map_pool_scheme, unit) prog" where
  "i32_return_Record fuel tid record = return_Record fuel 10 2 tid record"

definition i32_handle_records :: "nat \<Rightarrow> nat \<Rightarrow> 64 word \<Rightarrow> flag \<Rightarrow> loc \<Rightarrow> loc \<Rightarrow> ((32 word, 'z) map_pool_scheme, int) prog" where
  "i32_handle_records fuel tid pointer flag head tail = early_handle_records fuel
     \<lparr>a_layout = layout_32, a_head = head, a_tail = tail, a_pointer = pointer, a_flag = flag,
      a_get = i32_get_Record fuel tid, a_return = i32_return_Record fuel tid,
      a_newNext = early_newNext layout_32, a_val = False, a_fetch = read_first, a_undo = undo_null\<rparr>"

definition i32_psly_record :: "nat \<Rightarrow> nat \<Rightarrow> 64 word \<Rightarrow> ((32 word, 'z) map_pool_scheme, int) prog" where
  "i32_psly_record fuel tid pointer = ldp (\<lambda>s. lists s (bucket 1024 pointer)) (\<lambda>(head, tail).
     i32_handle_records fuel tid pointer RECORD head tail)"

definition i32_psly_remove :: "nat \<Rightarrow> nat \<Rightarrow> 64 word \<Rightarrow> ((32 word, 'z) map_pool_scheme, int) prog" where
  "i32_psly_remove fuel tid pointer = ldp (\<lambda>s. lists s (bucket 1024 pointer)) (\<lambda>(head, tail).
     i32_handle_records fuel tid pointer REMOVE head tail)"

definition i32_psly_search :: "nat \<Rightarrow> nat \<Rightarrow> 64 word \<Rightarrow> ((32 word, 'z) map_pool_scheme, int) prog" where
  "i32_psly_search fuel tid pointer = ldp (\<lambda>s. lists s (bucket 1024 pointer)) (\<lambda>(head, tail).
     i32_handle_records fuel tid pointer SEARCH head tail)"

definition i32_INIT :: "nat \<Rightarrow> nat \<Rightarrow> ((32 word, 'z) map_pool_scheme, unit) prog" where
  "i32_INIT fuel tid = st (blank_pool 0 10 2) (link_lists layout_32 (i32_get_Record fuel tid) [0..<1024])"

definition i32_op :: "nat \<Rightarrow> nat \<Rightarrow> flag \<Rightarrow> 64 word \<Rightarrow> ((32 word, 'z) map_pool_scheme, int) prog" where
  "i32_op fuel tid f p = (case f of RECORD \<Rightarrow> i32_psly_record fuel tid p
     | SEARCH \<Rightarrow> i32_psly_search fuel tid p | REMOVE \<Rightarrow> i32_psly_remove fuel tid p)"

lemma i32_same: "i32_op fuel tid = early_op_on fuel (early_env1 layout_32 fuel tid) (2 ^ 10)"
  by (intro ext) (simp add: i32_op_def i32_psly_record_def i32_psly_remove_def i32_psly_search_def early_op_on_def
      i32_handle_records_def early_env1_def i32_get_Record_def [abs_def] i32_return_Record_def [abs_def] layout_32_def split: flag.split)

lemma i32_run:
  assumes "length ops < 1024" and "2 ^ 20 \<le> fuel"
  shows "\<exists>t j. run (bind (i32_INIT fuel tid) (\<lambda>_. script (i32_op fuel tid) ops)) s = Done (early_counter ops (\<lambda>_. 0)) t \<and>
    count_heads fuel layout_32 t [0..<1024] = Some j \<and> (j = 1024 \<longleftrightarrow> (\<forall>p. early_end ops (\<lambda>_. 0) p = 0))"
proof -
  have i: "i32_INIT fuel tid = st (blank_pool 0 (idxNum layout_32) (arrNum layout_32)) (link_lists layout_32 (get_Record fuel (idxNum layout_32) (arrNum layout_32) tid) [0..<2 ^ 10])"
    by (simp add: i32_INIT_def i32_get_Record_def layout_32_def)
  have f: "2 ^ (arrNum layout_32 + idxNum layout_32) \<le> fuel" using assms(2) by (simp add: layout_32_def)
  have "\<exists>t j. run (bind (st (blank_pool 0 (idxNum layout_32) (arrNum layout_32)) (link_lists layout_32 (get_Record fuel (idxNum layout_32) (arrNum layout_32) tid) [0..<2 ^ 10])) (\<lambda>_. script (early_op_on fuel (early_env1 layout_32 fuel tid) (2 ^ 10)) ops)) s = Done (early_counter ops (\<lambda>_. 0)) t \<and>
      count_heads fuel layout_32 t [0..<2 ^ 10] = Some (2 ^ 10 + j) \<and> count_lists fuel layout_32 t [0..<2 ^ 10] = Some j \<and>
      (j = 0 \<longleftrightarrow> (\<forall>p. early_end ops (\<lambda>_. 0) p = 0))"
  proof (rule early_file [where mk = "\<lambda>fuel. early_env1 layout_32 fuel tid" and tid = tid, OF assms])
    show "early_env_ok layout_32 (Suc (Suc g)) tid (early_env1 layout_32 (Suc (Suc g)) tid)" for g by (rule early_envs_ok(1)) simp
    show "\<exists>t F. run (st (blank_pool 0 (idxNum layout_32) (arrNum layout_32)) (link_lists layout_32 (get_Record fuel (idxNum layout_32) (arrNum layout_32) tid) [0..<2 ^ 10])) s = Done () t \<and> early_map_ok layout_32 10 (0 + early_inserts ops) F (\<lambda>_. []) t \<and>
      (\<Union>i<2 ^ 10. nodes t (\<lambda>_. []) i) \<union> F = all_records layout_32" if "room layout_32 10 (0 + early_inserts ops)" for s :: "(32 word, 'a) map_pool_scheme"
      using early_starts(1) [OF that f, of 0] by simp
  qed (simp_all add: early_size_def)
  then show ?thesis unfolding i32_same i by auto
qed

section \<open>\<^verbatim>\<open>fast/fast64bitversion/psly_hazard_pointer.c\<close>\<close>

definition w32_get_Record :: "nat \<Rightarrow> nat \<Rightarrow> ((32 word, 'z) map_pool_scheme, loc option) prog" where
  "w32_get_Record fuel tid = get_Record fuel 11 3 tid"

definition w32_return_Record :: "nat \<Rightarrow> nat \<Rightarrow> loc \<Rightarrow> ((32 word, 'z) map_pool_scheme, unit) prog" where
  "w32_return_Record fuel tid record = return_Record fuel 11 3 tid record"

definition w32_handle_records :: "nat \<Rightarrow> nat \<Rightarrow> 64 word \<Rightarrow> flag \<Rightarrow> loc \<Rightarrow> loc \<Rightarrow> ((32 word, 'z) map_pool_scheme, int) prog" where
  "w32_handle_records fuel tid pointer flag head tail = early_handle_records fuel
     \<lparr>a_layout = layout_32w, a_head = head, a_tail = tail, a_pointer = pointer, a_flag = flag,
      a_get = w32_get_Record fuel tid, a_return = w32_return_Record fuel tid,
      a_newNext = early_newNext layout_32w, a_val = False, a_fetch = read_first, a_undo = undo_null\<rparr>"

definition w32_psly_record :: "nat \<Rightarrow> nat \<Rightarrow> 64 word \<Rightarrow> ((32 word, 'z) map_pool_scheme, int) prog" where
  "w32_psly_record fuel tid pointer = ldp (\<lambda>s. lists s (bucket 2048 pointer)) (\<lambda>(head, tail).
     w32_handle_records fuel tid pointer RECORD head tail)"

definition w32_psly_remove :: "nat \<Rightarrow> nat \<Rightarrow> 64 word \<Rightarrow> ((32 word, 'z) map_pool_scheme, int) prog" where
  "w32_psly_remove fuel tid pointer = ldp (\<lambda>s. lists s (bucket 2048 pointer)) (\<lambda>(head, tail).
     w32_handle_records fuel tid pointer REMOVE head tail)"

definition w32_psly_search :: "nat \<Rightarrow> nat \<Rightarrow> 64 word \<Rightarrow> ((32 word, 'z) map_pool_scheme, int) prog" where
  "w32_psly_search fuel tid pointer = ldp (\<lambda>s. lists s (bucket 2048 pointer)) (\<lambda>(head, tail).
     w32_handle_records fuel tid pointer SEARCH head tail)"

definition w32_INIT :: "nat \<Rightarrow> nat \<Rightarrow> ((32 word, 'z) map_pool_scheme, unit) prog" where
  "w32_INIT fuel tid = st (blank_pool 0 11 3) (link_lists layout_32w (w32_get_Record fuel tid) [0..<2048])"

definition w32_op :: "nat \<Rightarrow> nat \<Rightarrow> flag \<Rightarrow> 64 word \<Rightarrow> ((32 word, 'z) map_pool_scheme, int) prog" where
  "w32_op fuel tid f p = (case f of RECORD \<Rightarrow> w32_psly_record fuel tid p
     | SEARCH \<Rightarrow> w32_psly_search fuel tid p | REMOVE \<Rightarrow> w32_psly_remove fuel tid p)"

lemma w32_same: "w32_op fuel tid = early_op_on fuel (early_env1 layout_32w fuel tid) (2 ^ 11)"
  by (intro ext) (simp add: w32_op_def w32_psly_record_def w32_psly_remove_def w32_psly_search_def early_op_on_def
      w32_handle_records_def early_env1_def w32_get_Record_def [abs_def] w32_return_Record_def [abs_def] layout_32w_def split: flag.split)

lemma w32_run:
  assumes "length ops < 1024" and "2 ^ 20 \<le> fuel"
  shows "\<exists>t j. run (bind (w32_INIT fuel tid) (\<lambda>_. script (w32_op fuel tid) ops)) s = Done (early_counter ops (\<lambda>_. 0)) t \<and>
    count_heads fuel layout_32w t [0..<2048] = Some j \<and> (j = 2048 \<longleftrightarrow> (\<forall>p. early_end ops (\<lambda>_. 0) p = 0))"
proof -
  have i: "w32_INIT fuel tid = st (blank_pool 0 (idxNum layout_32w) (arrNum layout_32w)) (link_lists layout_32w (get_Record fuel (idxNum layout_32w) (arrNum layout_32w) tid) [0..<2 ^ 11])"
    by (simp add: w32_INIT_def w32_get_Record_def layout_32w_def)
  have f: "2 ^ (arrNum layout_32w + idxNum layout_32w) \<le> fuel" using assms(2) by (simp add: layout_32w_def)
  have "\<exists>t j. run (bind (st (blank_pool 0 (idxNum layout_32w) (arrNum layout_32w)) (link_lists layout_32w (get_Record fuel (idxNum layout_32w) (arrNum layout_32w) tid) [0..<2 ^ 11])) (\<lambda>_. script (early_op_on fuel (early_env1 layout_32w fuel tid) (2 ^ 11)) ops)) s = Done (early_counter ops (\<lambda>_. 0)) t \<and>
      count_heads fuel layout_32w t [0..<2 ^ 11] = Some (2 ^ 11 + j) \<and> count_lists fuel layout_32w t [0..<2 ^ 11] = Some j \<and>
      (j = 0 \<longleftrightarrow> (\<forall>p. early_end ops (\<lambda>_. 0) p = 0))"
  proof (rule early_file [where mk = "\<lambda>fuel. early_env1 layout_32w fuel tid" and tid = tid, OF assms])
    show "early_env_ok layout_32w (Suc (Suc g)) tid (early_env1 layout_32w (Suc (Suc g)) tid)" for g by (rule early_envs_ok(1)) simp
    show "\<exists>t F. run (st (blank_pool 0 (idxNum layout_32w) (arrNum layout_32w)) (link_lists layout_32w (get_Record fuel (idxNum layout_32w) (arrNum layout_32w) tid) [0..<2 ^ 11])) s = Done () t \<and> early_map_ok layout_32w 11 (0 + early_inserts ops) F (\<lambda>_. []) t \<and>
      (\<Union>i<2 ^ 11. nodes t (\<lambda>_. []) i) \<union> F = all_records layout_32w" if "room layout_32w 11 (0 + early_inserts ops)" for s :: "(32 word, 'a) map_pool_scheme"
      using early_starts(1) [OF that f, of 0] by simp
  qed (simp_all add: early_size_def)
  then show ?thesis unfolding w32_same i by auto
qed

section \<open>\<^verbatim>\<open>fast/fast64bitversion/psly_hazard_pointer_2.c\<close>\<close>

definition l32_get_Record :: "nat \<Rightarrow> nat \<Rightarrow> ((32 word, 'z) map_pool_scheme, loc option) prog" where
  "l32_get_Record fuel tid = get_Record fuel 10 2 tid"

definition l32_return_Record :: "nat \<Rightarrow> nat \<Rightarrow> loc \<Rightarrow> ((32 word, 'z) map_pool_scheme, unit) prog" where
  "l32_return_Record fuel tid record = return_Record fuel 10 2 tid record"

definition l32_handle_records :: "nat \<Rightarrow> nat \<Rightarrow> 64 word \<Rightarrow> flag \<Rightarrow> loc \<Rightarrow> loc \<Rightarrow> ((32 word, 'z) map_pool_scheme, int) prog" where
  "l32_handle_records fuel tid pointer flag head tail = early_handle_records fuel
     \<lparr>a_layout = layout_32, a_head = head, a_tail = tail, a_pointer = pointer, a_flag = flag,
      a_get = l32_get_Record fuel tid, a_return = l32_return_Record fuel tid,
      a_newNext = early_newNext layout_32, a_val = False, a_fetch = read_first, a_undo = undo_null\<rparr>"

definition l32_psly_record :: "nat \<Rightarrow> nat \<Rightarrow> 64 word \<Rightarrow> ((32 word, 'z) map_pool_scheme, int) prog" where
  "l32_psly_record fuel tid pointer = ldp (\<lambda>s. lists s (bucket 512 pointer)) (\<lambda>(head, tail).
     l32_handle_records fuel tid pointer RECORD head tail)"

definition l32_psly_remove :: "nat \<Rightarrow> nat \<Rightarrow> 64 word \<Rightarrow> ((32 word, 'z) map_pool_scheme, int) prog" where
  "l32_psly_remove fuel tid pointer = ldp (\<lambda>s. lists s (bucket 512 pointer)) (\<lambda>(head, tail).
     l32_handle_records fuel tid pointer REMOVE head tail)"

definition l32_psly_search :: "nat \<Rightarrow> nat \<Rightarrow> 64 word \<Rightarrow> ((32 word, 'z) map_pool_scheme, int) prog" where
  "l32_psly_search fuel tid pointer = ldp (\<lambda>s. lists s (bucket 512 pointer)) (\<lambda>(head, tail).
     l32_handle_records fuel tid pointer SEARCH head tail)"

definition l32_INIT :: "nat \<Rightarrow> nat \<Rightarrow> ((32 word, 'z) map_pool_scheme, unit) prog" where
  "l32_INIT fuel tid = st (blank_pool 0 10 2) (link_lists layout_32 (l32_get_Record fuel tid) [0..<512])"

definition l32_main_count :: "nat \<Rightarrow> ('c, 'z) map_pool_scheme \<Rightarrow> nat option" where
  "l32_main_count fuel s = count_heads fuel layout_32 s [0..<512]"

definition l32_op :: "nat \<Rightarrow> nat \<Rightarrow> flag \<Rightarrow> 64 word \<Rightarrow> ((32 word, 'z) map_pool_scheme, int) prog" where
  "l32_op fuel tid f p = (case f of RECORD \<Rightarrow> l32_psly_record fuel tid p
     | SEARCH \<Rightarrow> l32_psly_search fuel tid p | REMOVE \<Rightarrow> l32_psly_remove fuel tid p)"

lemma l32_same: "l32_op fuel tid = early_op_on fuel (early_env1 layout_32 fuel tid) (2 ^ 9)"
  by (intro ext) (simp add: l32_op_def l32_psly_record_def l32_psly_remove_def l32_psly_search_def early_op_on_def
      l32_handle_records_def early_env1_def l32_get_Record_def [abs_def] l32_return_Record_def [abs_def] layout_32_def split: flag.split)

lemma l32_run:
  assumes "length ops < 1024" and "2 ^ 20 \<le> fuel"
  shows "\<exists>t j. run (bind (l32_INIT fuel tid) (\<lambda>_. script (l32_op fuel tid) ops)) s = Done (early_counter ops (\<lambda>_. 0)) t \<and>
    l32_main_count fuel t = Some j \<and> (j = 512 \<longleftrightarrow> (\<forall>p. early_end ops (\<lambda>_. 0) p = 0))"
proof -
  have i: "l32_INIT fuel tid = st (blank_pool 0 (idxNum layout_32) (arrNum layout_32)) (link_lists layout_32 (get_Record fuel (idxNum layout_32) (arrNum layout_32) tid) [0..<2 ^ 9])"
    by (simp add: l32_INIT_def l32_get_Record_def layout_32_def)
  have f: "2 ^ (arrNum layout_32 + idxNum layout_32) \<le> fuel" using assms(2) by (simp add: layout_32_def)
  have "\<exists>t j. run (bind (st (blank_pool 0 (idxNum layout_32) (arrNum layout_32)) (link_lists layout_32 (get_Record fuel (idxNum layout_32) (arrNum layout_32) tid) [0..<2 ^ 9])) (\<lambda>_. script (early_op_on fuel (early_env1 layout_32 fuel tid) (2 ^ 9)) ops)) s = Done (early_counter ops (\<lambda>_. 0)) t \<and>
      count_heads fuel layout_32 t [0..<2 ^ 9] = Some (2 ^ 9 + j) \<and> count_lists fuel layout_32 t [0..<2 ^ 9] = Some j \<and>
      (j = 0 \<longleftrightarrow> (\<forall>p. early_end ops (\<lambda>_. 0) p = 0))"
  proof (rule early_file [where mk = "\<lambda>fuel. early_env1 layout_32 fuel tid" and tid = tid, OF assms])
    show "early_env_ok layout_32 (Suc (Suc g)) tid (early_env1 layout_32 (Suc (Suc g)) tid)" for g by (rule early_envs_ok(1)) simp
    show "\<exists>t F. run (st (blank_pool 0 (idxNum layout_32) (arrNum layout_32)) (link_lists layout_32 (get_Record fuel (idxNum layout_32) (arrNum layout_32) tid) [0..<2 ^ 9])) s = Done () t \<and> early_map_ok layout_32 9 (0 + early_inserts ops) F (\<lambda>_. []) t \<and>
      (\<Union>i<2 ^ 9. nodes t (\<lambda>_. []) i) \<union> F = all_records layout_32" if "room layout_32 9 (0 + early_inserts ops)" for s :: "(32 word, 'a) map_pool_scheme"
      using early_starts(1) [OF that f, of 0] by simp
  qed (simp_all add: early_size_def)
  then show ?thesis unfolding l32_same i l32_main_count_def by auto
qed

section \<open>\<^verbatim>\<open>fast/fast64bitversion/hazardP/psly_hazard_pointer_32bit.c\<close>\<close>

definition m32_get_Record :: "nat \<Rightarrow> nat \<Rightarrow> ((32 word, 'z) map_pool_scheme, loc option) prog" where
  "m32_get_Record fuel tid = get_Record fuel 10 2 tid"

definition m32_return_Record :: "nat \<Rightarrow> nat \<Rightarrow> loc \<Rightarrow> ((32 word, 'z) map_pool_scheme, unit) prog" where
  "m32_return_Record fuel tid record = return_Record fuel 10 2 tid record"

definition m32_handle_records :: "nat \<Rightarrow> nat \<Rightarrow> 64 word \<Rightarrow> flag \<Rightarrow> loc \<Rightarrow> loc \<Rightarrow> ((32 word, 'z) map_pool_scheme, int) prog" where
  "m32_handle_records fuel tid pointer flag head tail = early_handle_records fuel
     \<lparr>a_layout = layout_32, a_head = head, a_tail = tail, a_pointer = pointer, a_flag = flag,
      a_get = m32_get_Record fuel tid, a_return = m32_return_Record fuel tid,
      a_newNext = early_newNext layout_32, a_val = False, a_fetch = read_first, a_undo = undo_null\<rparr>"

definition m32_psly_record :: "nat \<Rightarrow> nat \<Rightarrow> 64 word \<Rightarrow> ((32 word, 'z) map_pool_scheme, int) prog" where
  "m32_psly_record fuel tid pointer = ldp (\<lambda>s. lists s (bucket 512 pointer)) (\<lambda>(head, tail).
     m32_handle_records fuel tid pointer RECORD head tail)"

definition m32_psly_remove :: "nat \<Rightarrow> nat \<Rightarrow> 64 word \<Rightarrow> ((32 word, 'z) map_pool_scheme, int) prog" where
  "m32_psly_remove fuel tid pointer = ldp (\<lambda>s. lists s (bucket 512 pointer)) (\<lambda>(head, tail).
     m32_handle_records fuel tid pointer REMOVE head tail)"

definition m32_psly_search :: "nat \<Rightarrow> nat \<Rightarrow> 64 word \<Rightarrow> ((32 word, 'z) map_pool_scheme, int) prog" where
  "m32_psly_search fuel tid pointer = ldp (\<lambda>s. lists s (bucket 512 pointer)) (\<lambda>(head, tail).
     m32_handle_records fuel tid pointer SEARCH head tail)"

definition m32_INIT :: "nat \<Rightarrow> nat \<Rightarrow> ((32 word, 'z) map_pool_scheme, unit) prog" where
  "m32_INIT fuel tid = st (blank_pool 0 10 2) (link_lists layout_32 (m32_get_Record fuel tid) [0..<512])"

definition m32_main_count :: "nat \<Rightarrow> ('c, 'z) map_pool_scheme \<Rightarrow> nat option" where
  "m32_main_count fuel s = count_heads fuel layout_32 s [0..<512]"

definition m32_op :: "nat \<Rightarrow> nat \<Rightarrow> flag \<Rightarrow> 64 word \<Rightarrow> ((32 word, 'z) map_pool_scheme, int) prog" where
  "m32_op fuel tid f p = (case f of RECORD \<Rightarrow> m32_psly_record fuel tid p
     | SEARCH \<Rightarrow> m32_psly_search fuel tid p | REMOVE \<Rightarrow> m32_psly_remove fuel tid p)"

lemma m32_same: "m32_op fuel tid = early_op_on fuel (early_env1 layout_32 fuel tid) (2 ^ 9)"
  by (intro ext) (simp add: m32_op_def m32_psly_record_def m32_psly_remove_def m32_psly_search_def early_op_on_def
      m32_handle_records_def early_env1_def m32_get_Record_def [abs_def] m32_return_Record_def [abs_def] layout_32_def split: flag.split)

lemma m32_run:
  assumes "length ops < 1024" and "2 ^ 20 \<le> fuel"
  shows "\<exists>t j. run (bind (m32_INIT fuel tid) (\<lambda>_. script (m32_op fuel tid) ops)) s = Done (early_counter ops (\<lambda>_. 0)) t \<and>
    m32_main_count fuel t = Some j \<and> (j = 512 \<longleftrightarrow> (\<forall>p. early_end ops (\<lambda>_. 0) p = 0))"
proof -
  have i: "m32_INIT fuel tid = st (blank_pool 0 (idxNum layout_32) (arrNum layout_32)) (link_lists layout_32 (get_Record fuel (idxNum layout_32) (arrNum layout_32) tid) [0..<2 ^ 9])"
    by (simp add: m32_INIT_def m32_get_Record_def layout_32_def)
  have f: "2 ^ (arrNum layout_32 + idxNum layout_32) \<le> fuel" using assms(2) by (simp add: layout_32_def)
  have "\<exists>t j. run (bind (st (blank_pool 0 (idxNum layout_32) (arrNum layout_32)) (link_lists layout_32 (get_Record fuel (idxNum layout_32) (arrNum layout_32) tid) [0..<2 ^ 9])) (\<lambda>_. script (early_op_on fuel (early_env1 layout_32 fuel tid) (2 ^ 9)) ops)) s = Done (early_counter ops (\<lambda>_. 0)) t \<and>
      count_heads fuel layout_32 t [0..<2 ^ 9] = Some (2 ^ 9 + j) \<and> count_lists fuel layout_32 t [0..<2 ^ 9] = Some j \<and>
      (j = 0 \<longleftrightarrow> (\<forall>p. early_end ops (\<lambda>_. 0) p = 0))"
  proof (rule early_file [where mk = "\<lambda>fuel. early_env1 layout_32 fuel tid" and tid = tid, OF assms])
    show "early_env_ok layout_32 (Suc (Suc g)) tid (early_env1 layout_32 (Suc (Suc g)) tid)" for g by (rule early_envs_ok(1)) simp
    show "\<exists>t F. run (st (blank_pool 0 (idxNum layout_32) (arrNum layout_32)) (link_lists layout_32 (get_Record fuel (idxNum layout_32) (arrNum layout_32) tid) [0..<2 ^ 9])) s = Done () t \<and> early_map_ok layout_32 9 (0 + early_inserts ops) F (\<lambda>_. []) t \<and>
      (\<Union>i<2 ^ 9. nodes t (\<lambda>_. []) i) \<union> F = all_records layout_32" if "room layout_32 9 (0 + early_inserts ops)" for s :: "(32 word, 'a) map_pool_scheme"
      using early_starts(1) [OF that f, of 0] by simp
  qed (simp_all add: early_size_def)
  then show ?thesis unfolding m32_same i m32_main_count_def by auto
qed

section \<open>\<^verbatim>\<open>fast/fast64bitversion/hazardP/simple64.c\<close>\<close>

definition s64_get_Record :: "nat \<Rightarrow> nat \<Rightarrow> ((32 word, 'z) map_pool_scheme, loc option) prog" where
  "s64_get_Record fuel tid = get_Record fuel 16 4 tid"

definition s64_return_Record :: "nat \<Rightarrow> nat \<Rightarrow> loc \<Rightarrow> ((32 word, 'z) map_pool_scheme, unit) prog" where
  "s64_return_Record fuel tid record = return_Record fuel 16 4 tid record"

definition s64_handle_records :: "nat \<Rightarrow> nat \<Rightarrow> 64 word \<Rightarrow> flag \<Rightarrow> loc \<Rightarrow> loc \<Rightarrow> ((32 word, 'z) map_pool_scheme, int) prog" where
  "s64_handle_records fuel tid pointer flag head tail = early_handle_records fuel
     \<lparr>a_layout = layout_16, a_head = head, a_tail = tail, a_pointer = pointer, a_flag = flag,
      a_get = s64_get_Record fuel tid, a_return = s64_return_Record fuel tid,
      a_newNext = early_newNext layout_16, a_val = False, a_fetch = read_first, a_undo = undo_null\<rparr>"

definition s64_psly_record :: "nat \<Rightarrow> nat \<Rightarrow> 64 word \<Rightarrow> ((32 word, 'z) map_pool_scheme, int) prog" where
  "s64_psly_record fuel tid pointer = ldp (\<lambda>s. lists s (bucket 512 pointer)) (\<lambda>(head, tail).
     s64_handle_records fuel tid pointer RECORD head tail)"

definition s64_psly_remove :: "nat \<Rightarrow> nat \<Rightarrow> 64 word \<Rightarrow> ((32 word, 'z) map_pool_scheme, int) prog" where
  "s64_psly_remove fuel tid pointer = ldp (\<lambda>s. lists s (bucket 512 pointer)) (\<lambda>(head, tail).
     s64_handle_records fuel tid pointer REMOVE head tail)"

definition s64_psly_search :: "nat \<Rightarrow> nat \<Rightarrow> 64 word \<Rightarrow> ((32 word, 'z) map_pool_scheme, int) prog" where
  "s64_psly_search fuel tid pointer = ldp (\<lambda>s. lists s (bucket 512 pointer)) (\<lambda>(head, tail).
     s64_handle_records fuel tid pointer SEARCH head tail)"

definition s64_INIT :: "nat \<Rightarrow> nat \<Rightarrow> ((32 word, 'z) map_pool_scheme, unit) prog" where
  "s64_INIT fuel tid = st (blank_pool 0 16 4) (link_lists layout_16 (s64_get_Record fuel tid) [0..<512])"

definition s64_main_count :: "nat \<Rightarrow> ('c, 'z) map_pool_scheme \<Rightarrow> nat option" where
  "s64_main_count fuel s = count_heads fuel layout_16 s [0..<512]"

definition s64_op :: "nat \<Rightarrow> nat \<Rightarrow> flag \<Rightarrow> 64 word \<Rightarrow> ((32 word, 'z) map_pool_scheme, int) prog" where
  "s64_op fuel tid f p = (case f of RECORD \<Rightarrow> s64_psly_record fuel tid p
     | SEARCH \<Rightarrow> s64_psly_search fuel tid p | REMOVE \<Rightarrow> s64_psly_remove fuel tid p)"

lemma s64_same: "s64_op fuel tid = early_op_on fuel (early_env1 layout_16 fuel tid) (2 ^ 9)"
  by (intro ext) (simp add: s64_op_def s64_psly_record_def s64_psly_remove_def s64_psly_search_def early_op_on_def
      s64_handle_records_def early_env1_def s64_get_Record_def [abs_def] s64_return_Record_def [abs_def] layout_16_def split: flag.split)

lemma s64_run:
  assumes "length ops < 1024" and "2 ^ 20 \<le> fuel"
  shows "\<exists>t j. run (bind (s64_INIT fuel tid) (\<lambda>_. script (s64_op fuel tid) ops)) s = Done (early_counter ops (\<lambda>_. 0)) t \<and>
    s64_main_count fuel t = Some j \<and> (j = 512 \<longleftrightarrow> (\<forall>p. early_end ops (\<lambda>_. 0) p = 0))"
proof -
  have i: "s64_INIT fuel tid = st (blank_pool 0 (idxNum layout_16) (arrNum layout_16)) (link_lists layout_16 (get_Record fuel (idxNum layout_16) (arrNum layout_16) tid) [0..<2 ^ 9])"
    by (simp add: s64_INIT_def s64_get_Record_def layout_16_def)
  have f: "2 ^ (arrNum layout_16 + idxNum layout_16) \<le> fuel" using assms(2) by (simp add: layout_16_def)
  have "\<exists>t j. run (bind (st (blank_pool 0 (idxNum layout_16) (arrNum layout_16)) (link_lists layout_16 (get_Record fuel (idxNum layout_16) (arrNum layout_16) tid) [0..<2 ^ 9])) (\<lambda>_. script (early_op_on fuel (early_env1 layout_16 fuel tid) (2 ^ 9)) ops)) s = Done (early_counter ops (\<lambda>_. 0)) t \<and>
      count_heads fuel layout_16 t [0..<2 ^ 9] = Some (2 ^ 9 + j) \<and> count_lists fuel layout_16 t [0..<2 ^ 9] = Some j \<and>
      (j = 0 \<longleftrightarrow> (\<forall>p. early_end ops (\<lambda>_. 0) p = 0))"
  proof (rule early_file [where mk = "\<lambda>fuel. early_env1 layout_16 fuel tid" and tid = tid, OF assms])
    show "early_env_ok layout_16 (Suc (Suc g)) tid (early_env1 layout_16 (Suc (Suc g)) tid)" for g by (rule early_envs_ok(1)) simp
    show "\<exists>t F. run (st (blank_pool 0 (idxNum layout_16) (arrNum layout_16)) (link_lists layout_16 (get_Record fuel (idxNum layout_16) (arrNum layout_16) tid) [0..<2 ^ 9])) s = Done () t \<and> early_map_ok layout_16 9 (0 + early_inserts ops) F (\<lambda>_. []) t \<and>
      (\<Union>i<2 ^ 9. nodes t (\<lambda>_. []) i) \<union> F = all_records layout_16" if "room layout_16 9 (0 + early_inserts ops)" for s :: "(32 word, 'a) map_pool_scheme"
      using early_starts(1) [OF that f, of 0] by simp
  qed (simp_all add: early_size_def)
  then show ?thesis unfolding s64_same i s64_main_count_def by auto
qed

section \<open>\<^verbatim>\<open>fast/fast64bitversion/hazardP/simpTTT.c\<close>\<close>

definition ttt_get_Record :: "nat \<Rightarrow> nat \<Rightarrow> ((32 word, 'z) map_pool_scheme, loc option) prog" where
  "ttt_get_Record fuel tid = get_Record fuel 16 4 tid"

definition ttt_return_Record :: "nat \<Rightarrow> nat \<Rightarrow> loc \<Rightarrow> ((32 word, 'z) map_pool_scheme, unit) prog" where
  "ttt_return_Record fuel tid record = return_Record fuel 16 4 tid record"

definition ttt_handle_records :: "nat \<Rightarrow> nat \<Rightarrow> 64 word \<Rightarrow> flag \<Rightarrow> loc \<Rightarrow> loc \<Rightarrow> ((32 word, 'z) map_pool_scheme, int) prog" where
  "ttt_handle_records fuel tid pointer flag head tail = early_handle_records fuel
     \<lparr>a_layout = layout_16, a_head = head, a_tail = tail, a_pointer = pointer, a_flag = flag,
      a_get = ttt_get_Record fuel tid, a_return = ttt_return_Record fuel tid,
      a_newNext = early_newNext layout_16, a_val = False, a_fetch = read_first, a_undo = undo_null\<rparr>"

definition ttt_psly_record :: "nat \<Rightarrow> nat \<Rightarrow> 64 word \<Rightarrow> ((32 word, 'z) map_pool_scheme, int) prog" where
  "ttt_psly_record fuel tid pointer = ldp (\<lambda>s. lists s (bucket 512 pointer)) (\<lambda>(head, tail).
     ttt_handle_records fuel tid pointer RECORD head tail)"

definition ttt_psly_remove :: "nat \<Rightarrow> nat \<Rightarrow> 64 word \<Rightarrow> ((32 word, 'z) map_pool_scheme, int) prog" where
  "ttt_psly_remove fuel tid pointer = ldp (\<lambda>s. lists s (bucket 512 pointer)) (\<lambda>(head, tail).
     ttt_handle_records fuel tid pointer REMOVE head tail)"

definition ttt_psly_search :: "nat \<Rightarrow> nat \<Rightarrow> 64 word \<Rightarrow> ((32 word, 'z) map_pool_scheme, int) prog" where
  "ttt_psly_search fuel tid pointer = ldp (\<lambda>s. lists s (bucket 512 pointer)) (\<lambda>(head, tail).
     ttt_handle_records fuel tid pointer SEARCH head tail)"

definition ttt_INIT :: "nat \<Rightarrow> nat \<Rightarrow> ((32 word, 'z) map_pool_scheme, unit) prog" where
  "ttt_INIT fuel tid = st (blank_pool 97861 16 4) (link_lists layout_16 (ttt_get_Record fuel tid) [0..<512])"

definition ttt_main_count :: "nat \<Rightarrow> ('c, 'z) map_pool_scheme \<Rightarrow> nat option" where
  "ttt_main_count fuel s = count_heads fuel layout_16 s [0..<512]"

definition ttt_op :: "nat \<Rightarrow> nat \<Rightarrow> flag \<Rightarrow> 64 word \<Rightarrow> ((32 word, 'z) map_pool_scheme, int) prog" where
  "ttt_op fuel tid f p = (case f of RECORD \<Rightarrow> ttt_psly_record fuel tid p
     | SEARCH \<Rightarrow> ttt_psly_search fuel tid p | REMOVE \<Rightarrow> ttt_psly_remove fuel tid p)"

lemma ttt_same: "ttt_op fuel tid = early_op_on fuel (early_env1 layout_16 fuel tid) (2 ^ 9)"
  by (intro ext) (simp add: ttt_op_def ttt_psly_record_def ttt_psly_remove_def ttt_psly_search_def early_op_on_def
      ttt_handle_records_def early_env1_def ttt_get_Record_def [abs_def] ttt_return_Record_def [abs_def] layout_16_def split: flag.split)

lemma ttt_run:
  assumes "length ops < 1024" and "2 ^ 20 \<le> fuel"
  shows "\<exists>t j. run (bind (ttt_INIT fuel tid) (\<lambda>_. script (ttt_op fuel tid) ops)) s = Done (early_counter ops (\<lambda>_. 0)) t \<and>
    ttt_main_count fuel t = Some j \<and> (j = 512 \<longleftrightarrow> (\<forall>p. early_end ops (\<lambda>_. 0) p = 0))"
proof -
  have i: "ttt_INIT fuel tid = st (blank_pool 97861 (idxNum layout_16) (arrNum layout_16)) (link_lists layout_16 (get_Record fuel (idxNum layout_16) (arrNum layout_16) tid) [0..<2 ^ 9])"
    by (simp add: ttt_INIT_def ttt_get_Record_def layout_16_def)
  have f: "2 ^ (arrNum layout_16 + idxNum layout_16) \<le> fuel" using assms(2) by (simp add: layout_16_def)
  have "\<exists>t j. run (bind (st (blank_pool 97861 (idxNum layout_16) (arrNum layout_16)) (link_lists layout_16 (get_Record fuel (idxNum layout_16) (arrNum layout_16) tid) [0..<2 ^ 9])) (\<lambda>_. script (early_op_on fuel (early_env1 layout_16 fuel tid) (2 ^ 9)) ops)) s = Done (early_counter ops (\<lambda>_. 0)) t \<and>
      count_heads fuel layout_16 t [0..<2 ^ 9] = Some (2 ^ 9 + j) \<and> count_lists fuel layout_16 t [0..<2 ^ 9] = Some j \<and>
      (j = 0 \<longleftrightarrow> (\<forall>p. early_end ops (\<lambda>_. 0) p = 0))"
  proof (rule early_file [where mk = "\<lambda>fuel. early_env1 layout_16 fuel tid" and tid = tid, OF assms])
    show "early_env_ok layout_16 (Suc (Suc g)) tid (early_env1 layout_16 (Suc (Suc g)) tid)" for g by (rule early_envs_ok(1)) simp
    show "\<exists>t F. run (st (blank_pool 97861 (idxNum layout_16) (arrNum layout_16)) (link_lists layout_16 (get_Record fuel (idxNum layout_16) (arrNum layout_16) tid) [0..<2 ^ 9])) s = Done () t \<and> early_map_ok layout_16 9 (0 + early_inserts ops) F (\<lambda>_. []) t \<and>
      (\<Union>i<2 ^ 9. nodes t (\<lambda>_. []) i) \<union> F = all_records layout_16" if "room layout_16 9 (0 + early_inserts ops)" for s :: "(32 word, 'a) map_pool_scheme"
      using early_starts(1) [OF that f, of 97861] by simp
  qed (simp_all add: early_size_def)
  then show ?thesis unfolding ttt_same i ttt_main_count_def by auto
qed

section \<open>\<^verbatim>\<open>fast/fast64bitversion/hazardP/test64.c\<close>\<close>

definition t64_get_Record :: "nat \<Rightarrow> nat \<Rightarrow> ((32 word, 'z) map_pool_scheme, loc option) prog" where
  "t64_get_Record fuel tid = get_Record fuel 16 4 tid"

definition t64_return_Record :: "nat \<Rightarrow> nat \<Rightarrow> loc \<Rightarrow> ((32 word, 'z) map_pool_scheme, unit) prog" where
  "t64_return_Record fuel tid record = return_Record fuel 16 4 tid record"

definition t64_handle_records :: "nat \<Rightarrow> nat \<Rightarrow> 64 word \<Rightarrow> flag \<Rightarrow> loc \<Rightarrow> loc \<Rightarrow> ((32 word, 'z) map_pool_scheme, int) prog" where
  "t64_handle_records fuel tid pointer flag head tail = early_handle_records fuel
     \<lparr>a_layout = layout_10, a_head = head, a_tail = tail, a_pointer = pointer, a_flag = flag,
      a_get = t64_get_Record fuel tid, a_return = t64_return_Record fuel tid,
      a_newNext = early_newNext layout_10, a_val = False, a_fetch = read_first, a_undo = undo_null\<rparr>"

definition t64_psly_record :: "nat \<Rightarrow> nat \<Rightarrow> 64 word \<Rightarrow> ((32 word, 'z) map_pool_scheme, int) prog" where
  "t64_psly_record fuel tid pointer = ldp (\<lambda>s. lists s (bucket 512 pointer)) (\<lambda>(head, tail).
     t64_handle_records fuel tid pointer RECORD head tail)"

definition t64_psly_remove :: "nat \<Rightarrow> nat \<Rightarrow> 64 word \<Rightarrow> ((32 word, 'z) map_pool_scheme, int) prog" where
  "t64_psly_remove fuel tid pointer = ldp (\<lambda>s. lists s (bucket 512 pointer)) (\<lambda>(head, tail).
     t64_handle_records fuel tid pointer REMOVE head tail)"

definition t64_psly_search :: "nat \<Rightarrow> nat \<Rightarrow> 64 word \<Rightarrow> ((32 word, 'z) map_pool_scheme, int) prog" where
  "t64_psly_search fuel tid pointer = ldp (\<lambda>s. lists s (bucket 512 pointer)) (\<lambda>(head, tail).
     t64_handle_records fuel tid pointer SEARCH head tail)"

definition t64_INIT :: "nat \<Rightarrow> nat \<Rightarrow> ((32 word, 'z) map_pool_scheme, unit) prog" where
  "t64_INIT fuel tid = st (blank_pool 0 16 4) (link_lists layout_10 (t64_get_Record fuel tid) [0..<512])"

definition t64_main_count :: "nat \<Rightarrow> ('c, 'z) map_pool_scheme \<Rightarrow> nat option" where
  "t64_main_count fuel s = count_heads fuel layout_10 s [0..<512]"

definition t64_op :: "nat \<Rightarrow> nat \<Rightarrow> flag \<Rightarrow> 64 word \<Rightarrow> ((32 word, 'z) map_pool_scheme, int) prog" where
  "t64_op fuel tid f p = (case f of RECORD \<Rightarrow> t64_psly_record fuel tid p
     | SEARCH \<Rightarrow> t64_psly_search fuel tid p | REMOVE \<Rightarrow> t64_psly_remove fuel tid p)"

lemma t64_same: "t64_op fuel tid = early_op_on fuel (early_env1 layout_10 fuel tid) (2 ^ 9)"
  by (intro ext) (simp add: t64_op_def t64_psly_record_def t64_psly_remove_def t64_psly_search_def early_op_on_def
      t64_handle_records_def early_env1_def t64_get_Record_def [abs_def] t64_return_Record_def [abs_def] layout_10_def split: flag.split)

lemma t64_run:
  assumes "length ops < 1024" and "2 ^ 20 \<le> fuel"
  shows "\<exists>t j. run (bind (t64_INIT fuel tid) (\<lambda>_. script (t64_op fuel tid) ops)) s = Done (early_counter ops (\<lambda>_. 0)) t \<and>
    t64_main_count fuel t = Some j \<and> (j = 512 \<longleftrightarrow> (\<forall>p. early_end ops (\<lambda>_. 0) p = 0))"
proof -
  have i: "t64_INIT fuel tid = st (blank_pool 0 (idxNum layout_10) (arrNum layout_10)) (link_lists layout_10 (get_Record fuel (idxNum layout_10) (arrNum layout_10) tid) [0..<2 ^ 9])"
    by (simp add: t64_INIT_def t64_get_Record_def layout_10_def)
  have f: "2 ^ (arrNum layout_10 + idxNum layout_10) \<le> fuel" using assms(2) by (simp add: layout_10_def)
  have "\<exists>t j. run (bind (st (blank_pool 0 (idxNum layout_10) (arrNum layout_10)) (link_lists layout_10 (get_Record fuel (idxNum layout_10) (arrNum layout_10) tid) [0..<2 ^ 9])) (\<lambda>_. script (early_op_on fuel (early_env1 layout_10 fuel tid) (2 ^ 9)) ops)) s = Done (early_counter ops (\<lambda>_. 0)) t \<and>
      count_heads fuel layout_10 t [0..<2 ^ 9] = Some (2 ^ 9 + j) \<and> count_lists fuel layout_10 t [0..<2 ^ 9] = Some j \<and>
      (j = 0 \<longleftrightarrow> (\<forall>p. early_end ops (\<lambda>_. 0) p = 0))"
  proof (rule early_file [where mk = "\<lambda>fuel. early_env1 layout_10 fuel tid" and tid = tid, OF assms])
    show "early_env_ok layout_10 (Suc (Suc g)) tid (early_env1 layout_10 (Suc (Suc g)) tid)" for g by (rule early_envs_ok(1)) simp
    show "\<exists>t F. run (st (blank_pool 0 (idxNum layout_10) (arrNum layout_10)) (link_lists layout_10 (get_Record fuel (idxNum layout_10) (arrNum layout_10) tid) [0..<2 ^ 9])) s = Done () t \<and> early_map_ok layout_10 9 (0 + early_inserts ops) F (\<lambda>_. []) t \<and>
      (\<Union>i<2 ^ 9. nodes t (\<lambda>_. []) i) \<union> F = all_records layout_10" if "room layout_10 9 (0 + early_inserts ops)" for s :: "(32 word, 'a) map_pool_scheme"
      using early_starts(1) [OF that f, of 0] by simp
  qed (simp_all add: early_size_def)
  then show ?thesis unfolding t64_same i t64_main_count_def by auto
qed

section \<open>\<^verbatim>\<open>fast/fast64bitversion/hazardP/psly_hazard_pointer_64bit.c\<close>\<close>

definition b64_get_Record :: "nat \<Rightarrow> nat \<Rightarrow> ((32 word, 'z) map_pool_scheme, loc option) prog" where
  "b64_get_Record fuel tid = get_Record fuel 16 4 tid"

definition b64_return_Record :: "nat \<Rightarrow> nat \<Rightarrow> loc \<Rightarrow> ((32 word, 'z) map_pool_scheme, unit) prog" where
  "b64_return_Record fuel tid record = return_Record fuel 16 4 tid record"

definition b64_handle_records :: "nat \<Rightarrow> nat \<Rightarrow> 64 word \<Rightarrow> flag \<Rightarrow> loc \<Rightarrow> loc \<Rightarrow> ((32 word, 'z) map_pool_scheme, int) prog" where
  "b64_handle_records fuel tid pointer flag head tail = early_handle_records fuel
     \<lparr>a_layout = layout_10, a_head = head, a_tail = tail, a_pointer = pointer, a_flag = flag,
      a_get = b64_get_Record fuel tid, a_return = b64_return_Record fuel tid,
      a_newNext = early_newNext layout_10, a_val = False, a_fetch = read_first, a_undo = undo_null\<rparr>"

definition b64_psly_record :: "nat \<Rightarrow> nat \<Rightarrow> 64 word \<Rightarrow> ((32 word, 'z) map_pool_scheme, int) prog" where
  "b64_psly_record fuel tid pointer = ldp (\<lambda>s. lists s (bucket 512 pointer)) (\<lambda>(head, tail).
     b64_handle_records fuel tid pointer RECORD head tail)"

definition b64_psly_remove :: "nat \<Rightarrow> nat \<Rightarrow> 64 word \<Rightarrow> ((32 word, 'z) map_pool_scheme, int) prog" where
  "b64_psly_remove fuel tid pointer = ldp (\<lambda>s. lists s (bucket 512 pointer)) (\<lambda>(head, tail).
     b64_handle_records fuel tid pointer REMOVE head tail)"

definition b64_psly_search :: "nat \<Rightarrow> nat \<Rightarrow> 64 word \<Rightarrow> ((32 word, 'z) map_pool_scheme, int) prog" where
  "b64_psly_search fuel tid pointer = ldp (\<lambda>s. lists s (bucket 512 pointer)) (\<lambda>(head, tail).
     b64_handle_records fuel tid pointer SEARCH head tail)"

definition b64_INIT :: "nat \<Rightarrow> nat \<Rightarrow> ((32 word, 'z) map_pool_scheme, unit) prog" where
  "b64_INIT fuel tid = st (blank_pool 0 16 4) (link_lists layout_10 (b64_get_Record fuel tid) [0..<512])"

definition b64_main_count :: "nat \<Rightarrow> ('c, 'z) map_pool_scheme \<Rightarrow> nat option" where
  "b64_main_count fuel s = count_heads fuel layout_10 s [0..<512]"

definition b64_op :: "nat \<Rightarrow> nat \<Rightarrow> flag \<Rightarrow> 64 word \<Rightarrow> ((32 word, 'z) map_pool_scheme, int) prog" where
  "b64_op fuel tid f p = (case f of RECORD \<Rightarrow> b64_psly_record fuel tid p
     | SEARCH \<Rightarrow> b64_psly_search fuel tid p | REMOVE \<Rightarrow> b64_psly_remove fuel tid p)"

lemma b64_same: "b64_op fuel tid = early_op_on fuel (early_env1 layout_10 fuel tid) (2 ^ 9)"
  by (intro ext) (simp add: b64_op_def b64_psly_record_def b64_psly_remove_def b64_psly_search_def early_op_on_def
      b64_handle_records_def early_env1_def b64_get_Record_def [abs_def] b64_return_Record_def [abs_def] layout_10_def split: flag.split)

lemma b64_run:
  assumes "length ops < 1024" and "2 ^ 20 \<le> fuel"
  shows "\<exists>t j. run (bind (b64_INIT fuel tid) (\<lambda>_. script (b64_op fuel tid) ops)) s = Done (early_counter ops (\<lambda>_. 0)) t \<and>
    b64_main_count fuel t = Some j \<and> (j = 512 \<longleftrightarrow> (\<forall>p. early_end ops (\<lambda>_. 0) p = 0))"
proof -
  have i: "b64_INIT fuel tid = st (blank_pool 0 (idxNum layout_10) (arrNum layout_10)) (link_lists layout_10 (get_Record fuel (idxNum layout_10) (arrNum layout_10) tid) [0..<2 ^ 9])"
    by (simp add: b64_INIT_def b64_get_Record_def layout_10_def)
  have f: "2 ^ (arrNum layout_10 + idxNum layout_10) \<le> fuel" using assms(2) by (simp add: layout_10_def)
  have "\<exists>t j. run (bind (st (blank_pool 0 (idxNum layout_10) (arrNum layout_10)) (link_lists layout_10 (get_Record fuel (idxNum layout_10) (arrNum layout_10) tid) [0..<2 ^ 9])) (\<lambda>_. script (early_op_on fuel (early_env1 layout_10 fuel tid) (2 ^ 9)) ops)) s = Done (early_counter ops (\<lambda>_. 0)) t \<and>
      count_heads fuel layout_10 t [0..<2 ^ 9] = Some (2 ^ 9 + j) \<and> count_lists fuel layout_10 t [0..<2 ^ 9] = Some j \<and>
      (j = 0 \<longleftrightarrow> (\<forall>p. early_end ops (\<lambda>_. 0) p = 0))"
  proof (rule early_file [where mk = "\<lambda>fuel. early_env1 layout_10 fuel tid" and tid = tid, OF assms])
    show "early_env_ok layout_10 (Suc (Suc g)) tid (early_env1 layout_10 (Suc (Suc g)) tid)" for g by (rule early_envs_ok(1)) simp
    show "\<exists>t F. run (st (blank_pool 0 (idxNum layout_10) (arrNum layout_10)) (link_lists layout_10 (get_Record fuel (idxNum layout_10) (arrNum layout_10) tid) [0..<2 ^ 9])) s = Done () t \<and> early_map_ok layout_10 9 (0 + early_inserts ops) F (\<lambda>_. []) t \<and>
      (\<Union>i<2 ^ 9. nodes t (\<lambda>_. []) i) \<union> F = all_records layout_10" if "room layout_10 9 (0 + early_inserts ops)" for s :: "(32 word, 'a) map_pool_scheme"
      using early_starts(1) [OF that f, of 0] by simp
  qed (simp_all add: early_size_def)
  then show ?thesis unfolding b64_same i b64_main_count_def by auto
qed

section \<open>\<^verbatim>\<open>fast/fast64bitversion/hazardP/compare_LockFreeList/lockfreelist_before.c\<close>\<close>

definition bef_get_Record :: "nat \<Rightarrow> nat \<Rightarrow> ((32 word, 'z) map_pool_scheme, loc option) prog" where
  "bef_get_Record fuel tid = get_Record fuel 16 4 tid"

definition bef_return_Record :: "nat \<Rightarrow> nat \<Rightarrow> loc \<Rightarrow> ((32 word, 'z) map_pool_scheme, unit) prog" where
  "bef_return_Record fuel tid record = return_Record fuel 16 4 tid record"

definition bef_handle_records :: "nat \<Rightarrow> nat \<Rightarrow> 64 word \<Rightarrow> flag \<Rightarrow> loc \<Rightarrow> loc \<Rightarrow> ((32 word, 'z) map_pool_scheme, int) prog" where
  "bef_handle_records fuel tid pointer flag head tail = early_handle_records fuel
     \<lparr>a_layout = layout_16, a_head = head, a_tail = tail, a_pointer = pointer, a_flag = flag,
      a_get = bef_get_Record fuel tid, a_return = bef_return_Record fuel tid,
      a_newNext = newNext layout_16, a_val = True, a_fetch = clear_first, a_undo = undo_next\<rparr>"

definition bef_psly_record :: "nat \<Rightarrow> nat \<Rightarrow> 64 word \<Rightarrow> ((32 word, 'z) map_pool_scheme, int) prog" where
  "bef_psly_record fuel tid pointer = ldp (\<lambda>s. lists s (bucket 1024 pointer)) (\<lambda>(head, tail).
     bef_handle_records fuel tid pointer RECORD head tail)"

definition bef_psly_remove :: "nat \<Rightarrow> nat \<Rightarrow> 64 word \<Rightarrow> ((32 word, 'z) map_pool_scheme, int) prog" where
  "bef_psly_remove fuel tid pointer = ldp (\<lambda>s. lists s (bucket 1024 pointer)) (\<lambda>(head, tail).
     bef_handle_records fuel tid pointer REMOVE head tail)"

definition bef_psly_search :: "nat \<Rightarrow> nat \<Rightarrow> 64 word \<Rightarrow> ((32 word, 'z) map_pool_scheme, int) prog" where
  "bef_psly_search fuel tid pointer = ldp (\<lambda>s. lists s (bucket 1024 pointer)) (\<lambda>(head, tail).
     bef_handle_records fuel tid pointer SEARCH head tail)"

definition bef_INIT :: "nat \<Rightarrow> nat \<Rightarrow> ((32 word, 'z) map_pool_scheme, unit) prog" where
  "bef_INIT fuel tid = st (init_pool 16 4) (init_lists layout_16 (bef_get_Record fuel tid) [0..<1024])"

definition bef_UNINIT :: "('c, 'z) map_pool_scheme \<Rightarrow> ('c, 'z) map_pool_scheme" where
  "bef_UNINIT s = free_all 4 1024 s"

definition bef_main_count :: "nat \<Rightarrow> ('c, 'z) map_pool_scheme \<Rightarrow> nat option" where
  "bef_main_count fuel s = count_lists fuel layout_16 s [0..<1024]"

definition bef_op :: "nat \<Rightarrow> nat \<Rightarrow> flag \<Rightarrow> 64 word \<Rightarrow> ((32 word, 'z) map_pool_scheme, int) prog" where
  "bef_op fuel tid f p = (case f of RECORD \<Rightarrow> bef_psly_record fuel tid p
     | SEARCH \<Rightarrow> bef_psly_search fuel tid p | REMOVE \<Rightarrow> bef_psly_remove fuel tid p)"

lemma bef_same: "bef_op fuel tid = early_op_on fuel (early_env2 layout_16 undo_next fuel tid) (2 ^ 10)"
  by (intro ext) (simp add: bef_op_def bef_psly_record_def bef_psly_remove_def bef_psly_search_def early_op_on_def
      bef_handle_records_def early_env2_def bef_get_Record_def [abs_def] bef_return_Record_def [abs_def] layout_16_def split: flag.split)

lemma bef_run:
  assumes "length ops < 1024" and "2 ^ 20 \<le> fuel"
  shows "\<exists>t j. run (bind (bef_INIT fuel tid) (\<lambda>_. script (bef_op fuel tid) ops)) s = Done (early_counter ops (\<lambda>_. 0)) t \<and>
    bef_main_count fuel t = Some j \<and> (j = 0 \<longleftrightarrow> (\<forall>p. early_end ops (\<lambda>_. 0) p = 0))"
proof -
  have i: "bef_INIT fuel tid = INIT_RESOURCE layout_16 (2 ^ 10) fuel tid"
    by (simp add: bef_INIT_def bef_get_Record_def layout_16_def INIT_RESOURCE_def)
  have f: "2 ^ (arrNum layout_16 + idxNum layout_16) \<le> fuel" using assms(2) by (simp add: layout_16_def)
  have "\<exists>t j. run (bind (INIT_RESOURCE layout_16 (2 ^ 10) fuel tid) (\<lambda>_. script (early_op_on fuel (early_env2 layout_16 undo_next fuel tid) (2 ^ 10)) ops)) s = Done (early_counter ops (\<lambda>_. 0)) t \<and>
      count_heads fuel layout_16 t [0..<2 ^ 10] = Some (2 ^ 10 + j) \<and> count_lists fuel layout_16 t [0..<2 ^ 10] = Some j \<and>
      (j = 0 \<longleftrightarrow> (\<forall>p. early_end ops (\<lambda>_. 0) p = 0))"
  proof (rule early_file [where mk = "\<lambda>fuel. early_env2 layout_16 undo_next fuel tid" and tid = tid, OF assms])
    show "early_env_ok layout_16 (Suc (Suc g)) tid (early_env2 layout_16 undo_next (Suc (Suc g)) tid)" for g by (rule early_envs_ok(2)) simp
    show "\<exists>t F. run (INIT_RESOURCE layout_16 (2 ^ 10) fuel tid) s = Done () t \<and> early_map_ok layout_16 10 (0 + early_inserts ops) F (\<lambda>_. []) t \<and>
      (\<Union>i<2 ^ 10. nodes t (\<lambda>_. []) i) \<union> F = all_records layout_16" if "room layout_16 10 (0 + early_inserts ops)" for s :: "(32 word, 'a) map_pool_scheme"
      using early_starts(2) [OF that f] by simp
  qed (simp_all add: early_size_def)
  then show ?thesis unfolding bef_same i bef_main_count_def by auto
qed

section \<open>\<^verbatim>\<open>fast/fast64bitversion/hazardP/simple64T.c\<close>\<close>

definition s6t_get_Record :: "nat \<Rightarrow> nat \<Rightarrow> ((32 word, 'z) map_pool_scheme, loc option) prog" where
  "s6t_get_Record fuel tid = get_Record fuel 16 4 tid"

definition s6t_return_Record :: "nat \<Rightarrow> nat \<Rightarrow> loc \<Rightarrow> ((32 word, 'z) map_pool_scheme, unit) prog" where
  "s6t_return_Record fuel tid record = return_Record fuel 16 4 tid record"

definition s6t_handle_records :: "nat \<Rightarrow> nat \<Rightarrow> 64 word \<Rightarrow> flag \<Rightarrow> loc \<Rightarrow> loc \<Rightarrow> ((32 word, 'z) map_pool_scheme, int) prog" where
  "s6t_handle_records fuel tid pointer flag head tail = early_handle_records fuel
     \<lparr>a_layout = layout_16, a_head = head, a_tail = tail, a_pointer = pointer, a_flag = flag,
      a_get = s6t_get_Record fuel tid, a_return = s6t_return_Record fuel tid,
      a_newNext = newNext layout_16, a_val = True, a_fetch = clear_first, a_undo = undo_both\<rparr>"

definition s6t_psly_record :: "nat \<Rightarrow> nat \<Rightarrow> 64 word \<Rightarrow> ((32 word, 'z) map_pool_scheme, int) prog" where
  "s6t_psly_record fuel tid pointer = ldp (\<lambda>s. lists s (bucket 512 pointer)) (\<lambda>(head, tail).
     s6t_handle_records fuel tid pointer RECORD head tail)"

definition s6t_psly_remove :: "nat \<Rightarrow> nat \<Rightarrow> 64 word \<Rightarrow> ((32 word, 'z) map_pool_scheme, int) prog" where
  "s6t_psly_remove fuel tid pointer = ldp (\<lambda>s. lists s (bucket 512 pointer)) (\<lambda>(head, tail).
     s6t_handle_records fuel tid pointer REMOVE head tail)"

definition s6t_psly_search :: "nat \<Rightarrow> nat \<Rightarrow> 64 word \<Rightarrow> ((32 word, 'z) map_pool_scheme, int) prog" where
  "s6t_psly_search fuel tid pointer = ldp (\<lambda>s. lists s (bucket 512 pointer)) (\<lambda>(head, tail).
     s6t_handle_records fuel tid pointer SEARCH head tail)"

definition s6t_INIT :: "nat \<Rightarrow> nat \<Rightarrow> ((32 word, 'z) map_pool_scheme, unit) prog" where
  "s6t_INIT fuel tid = st (init_pool 16 4) (init_lists layout_16 (s6t_get_Record fuel tid) [0..<512])"

definition s6t_UNINIT :: "('c, 'z) map_pool_scheme \<Rightarrow> ('c, 'z) map_pool_scheme" where
  "s6t_UNINIT s = free_all 4 512 s"

definition s6t_main_count :: "nat \<Rightarrow> ('c, 'z) map_pool_scheme \<Rightarrow> nat option" where
  "s6t_main_count fuel s = count_heads fuel layout_16 s [0..<512]"

definition s6t_op :: "nat \<Rightarrow> nat \<Rightarrow> flag \<Rightarrow> 64 word \<Rightarrow> ((32 word, 'z) map_pool_scheme, int) prog" where
  "s6t_op fuel tid f p = (case f of RECORD \<Rightarrow> s6t_psly_record fuel tid p
     | SEARCH \<Rightarrow> s6t_psly_search fuel tid p | REMOVE \<Rightarrow> s6t_psly_remove fuel tid p)"

lemma s6t_same: "s6t_op fuel tid = early_op_on fuel (early_env2 layout_16 undo_both fuel tid) (2 ^ 9)"
  by (intro ext) (simp add: s6t_op_def s6t_psly_record_def s6t_psly_remove_def s6t_psly_search_def early_op_on_def
      s6t_handle_records_def early_env2_def s6t_get_Record_def [abs_def] s6t_return_Record_def [abs_def] layout_16_def split: flag.split)

lemma s6t_run:
  assumes "length ops < 1024" and "2 ^ 20 \<le> fuel"
  shows "\<exists>t j. run (bind (s6t_INIT fuel tid) (\<lambda>_. script (s6t_op fuel tid) ops)) s = Done (early_counter ops (\<lambda>_. 0)) t \<and>
    s6t_main_count fuel t = Some j \<and> (j = 512 \<longleftrightarrow> (\<forall>p. early_end ops (\<lambda>_. 0) p = 0))"
proof -
  have i: "s6t_INIT fuel tid = INIT_RESOURCE layout_16 (2 ^ 9) fuel tid"
    by (simp add: s6t_INIT_def s6t_get_Record_def layout_16_def INIT_RESOURCE_def)
  have f: "2 ^ (arrNum layout_16 + idxNum layout_16) \<le> fuel" using assms(2) by (simp add: layout_16_def)
  have "\<exists>t j. run (bind (INIT_RESOURCE layout_16 (2 ^ 9) fuel tid) (\<lambda>_. script (early_op_on fuel (early_env2 layout_16 undo_both fuel tid) (2 ^ 9)) ops)) s = Done (early_counter ops (\<lambda>_. 0)) t \<and>
      count_heads fuel layout_16 t [0..<2 ^ 9] = Some (2 ^ 9 + j) \<and> count_lists fuel layout_16 t [0..<2 ^ 9] = Some j \<and>
      (j = 0 \<longleftrightarrow> (\<forall>p. early_end ops (\<lambda>_. 0) p = 0))"
  proof (rule early_file [where mk = "\<lambda>fuel. early_env2 layout_16 undo_both fuel tid" and tid = tid, OF assms])
    show "early_env_ok layout_16 (Suc (Suc g)) tid (early_env2 layout_16 undo_both (Suc (Suc g)) tid)" for g by (rule early_envs_ok(2)) simp
    show "\<exists>t F. run (INIT_RESOURCE layout_16 (2 ^ 9) fuel tid) s = Done () t \<and> early_map_ok layout_16 9 (0 + early_inserts ops) F (\<lambda>_. []) t \<and>
      (\<Union>i<2 ^ 9. nodes t (\<lambda>_. []) i) \<union> F = all_records layout_16" if "room layout_16 9 (0 + early_inserts ops)" for s :: "(32 word, 'a) map_pool_scheme"
      using early_starts(2) [OF that f] by simp
  qed (simp_all add: early_size_def)
  then show ?thesis unfolding s6t_same i s6t_main_count_def by auto
qed

section \<open>\<^verbatim>\<open>hazardloop.c\<close>\<close>

definition lp_get_Record :: "nat \<Rightarrow> nat \<Rightarrow> ((32 word, 'z) map_pool_scheme, loc option) prog" where
  "lp_get_Record fuel tid = get_Record fuel 16 4 tid"

definition lp_return_Record :: "nat \<Rightarrow> nat \<Rightarrow> loc \<Rightarrow> ((32 word, 'z) map_pool_scheme, unit) prog" where
  "lp_return_Record fuel tid record = return_Record fuel 16 4 tid record"

definition lp_handle_records :: "nat \<Rightarrow> nat \<Rightarrow> 64 word \<Rightarrow> flag \<Rightarrow> loc \<Rightarrow> loc \<Rightarrow> ((32 word, 'z) map_pool_scheme, int) prog" where
  "lp_handle_records fuel tid pointer flag head tail = early_handle_records fuel
     \<lparr>a_layout = layout_16, a_head = head, a_tail = tail, a_pointer = pointer, a_flag = flag,
      a_get = lp_get_Record fuel tid, a_return = lp_return_Record fuel tid,
      a_newNext = newNext layout_16, a_val = False, a_fetch = clear_keep, a_undo = undo_int\<rparr>"

definition lp_psly_record :: "nat \<Rightarrow> nat \<Rightarrow> 64 word \<Rightarrow> ((32 word, 'z) map_pool_scheme, int) prog" where
  "lp_psly_record fuel tid pointer = ldp (\<lambda>s. lists s (bucket 4096 pointer)) (\<lambda>(head, tail).
     lp_handle_records fuel tid pointer RECORD head tail)"

definition lp_psly_remove :: "nat \<Rightarrow> nat \<Rightarrow> 64 word \<Rightarrow> ((32 word, 'z) map_pool_scheme, int) prog" where
  "lp_psly_remove fuel tid pointer = ldp (\<lambda>s. lists s (bucket 4096 pointer)) (\<lambda>(head, tail).
     lp_handle_records fuel tid pointer REMOVE head tail)"

definition lp_psly_search :: "nat \<Rightarrow> nat \<Rightarrow> 64 word \<Rightarrow> ((32 word, 'z) map_pool_scheme, int) prog" where
  "lp_psly_search fuel tid pointer = ldp (\<lambda>s. lists s (bucket 4096 pointer)) (\<lambda>(head, tail).
     lp_handle_records fuel tid pointer SEARCH head tail)"

definition lp_INIT :: "nat \<Rightarrow> nat \<Rightarrow> ((32 word, 'z) map_pool_scheme, unit) prog" where
  "lp_INIT fuel tid = st (blank_pool 77777 16 4) (init_lists layout_16 (lp_get_Record fuel tid) [0..<4096])"

definition lp_op :: "nat \<Rightarrow> nat \<Rightarrow> flag \<Rightarrow> 64 word \<Rightarrow> ((32 word, 'z) map_pool_scheme, int) prog" where
  "lp_op fuel tid f p = (case f of RECORD \<Rightarrow> lp_psly_record fuel tid p
     | SEARCH \<Rightarrow> lp_psly_search fuel tid p | REMOVE \<Rightarrow> lp_psly_remove fuel tid p)"

lemma lp_same: "lp_op fuel tid = early_op_on fuel (early_env3 layout_16 fuel tid) (2 ^ 12)"
  by (intro ext) (simp add: lp_op_def lp_psly_record_def lp_psly_remove_def lp_psly_search_def early_op_on_def
      lp_handle_records_def early_env3_def lp_get_Record_def [abs_def] lp_return_Record_def [abs_def] layout_16_def split: flag.split)

lemma lp_run:
  assumes "length ops < 1024" and "2 ^ 20 \<le> fuel"
  shows "\<exists>t j. run (bind (lp_INIT fuel tid) (\<lambda>_. script (lp_op fuel tid) ops)) s = Done (early_counter ops (\<lambda>_. 0)) t \<and>
    count_heads fuel layout_16 t [0..<4096] = Some j \<and> (j = 4096 \<longleftrightarrow> (\<forall>p. early_end ops (\<lambda>_. 0) p = 0))"
proof -
  have i: "lp_INIT fuel tid = st (blank_pool 77777 (idxNum layout_16) (arrNum layout_16)) (init_lists layout_16 (get_Record fuel (idxNum layout_16) (arrNum layout_16) tid) [0..<2 ^ 12])"
    by (simp add: lp_INIT_def lp_get_Record_def layout_16_def)
  have f: "2 ^ (arrNum layout_16 + idxNum layout_16) \<le> fuel" using assms(2) by (simp add: layout_16_def)
  have "\<exists>t j. run (bind (st (blank_pool 77777 (idxNum layout_16) (arrNum layout_16)) (init_lists layout_16 (get_Record fuel (idxNum layout_16) (arrNum layout_16) tid) [0..<2 ^ 12])) (\<lambda>_. script (early_op_on fuel (early_env3 layout_16 fuel tid) (2 ^ 12)) ops)) s = Done (early_counter ops (\<lambda>_. 0)) t \<and>
      count_heads fuel layout_16 t [0..<2 ^ 12] = Some (2 ^ 12 + j) \<and> count_lists fuel layout_16 t [0..<2 ^ 12] = Some j \<and>
      (j = 0 \<longleftrightarrow> (\<forall>p. early_end ops (\<lambda>_. 0) p = 0))"
  proof (rule early_file [where mk = "\<lambda>fuel. early_env3 layout_16 fuel tid" and tid = tid, OF assms])
    show "early_env_ok layout_16 (Suc (Suc g)) tid (early_env3 layout_16 (Suc (Suc g)) tid)" for g by (rule early_envs_ok(3)) simp
    show "\<exists>t F. run (st (blank_pool 77777 (idxNum layout_16) (arrNum layout_16)) (init_lists layout_16 (get_Record fuel (idxNum layout_16) (arrNum layout_16) tid) [0..<2 ^ 12])) s = Done () t \<and> early_map_ok layout_16 12 (0 + early_inserts ops) F (\<lambda>_. []) t \<and>
      (\<Union>i<2 ^ 12. nodes t (\<lambda>_. []) i) \<union> F = all_records layout_16" if "room layout_16 12 (0 + early_inserts ops)" for s :: "(32 word, 'a) map_pool_scheme"
      using early_starts(3) [OF that f, of 77777] by simp
  qed (simp_all add: early_size_def)
  then show ?thesis unfolding lp_same i by auto
qed

section \<open>The eleven files\<close>

text \<open>C26: after its \<open>INIT\<close>, the map of each of the eleven files returns for any sequence of fewer than 1024
  calls what a counter of keys returns whose \<open>REMOVE\<close> counts an absent key up to one. In the
  eight files whose \<open>main\<close> counts the records that are left, that count is, just when every key is
  counted 0, the number of the records it meets on empty lists: 512, one head per list, in seven of
  them, and 0 in \<^verbatim>\<open>lockfreelist_before.c\<close>, where \<open>main\<close> starts behind the heads. The two
  files named \<^verbatim>\<open>psly_hazard_pointer.c\<close> and \<^verbatim>\<open>hazardloop.c\<close> have no such count in \<open>main\<close>.\<close>

theorem early_files_count:
  assumes "length ops < 1024" and "2 ^ 20 \<le> fuel"
    and "(init, opr, counted) \<in> {(i32_INIT fuel tid, i32_op fuel tid, None),
      (w32_INIT fuel tid, w32_op fuel tid, None),
      (l32_INIT fuel tid, l32_op fuel tid, Some (l32_main_count fuel, 512)),
      (m32_INIT fuel tid, m32_op fuel tid, Some (m32_main_count fuel, 512)),
      (s64_INIT fuel tid, s64_op fuel tid, Some (s64_main_count fuel, 512)),
      (ttt_INIT fuel tid, ttt_op fuel tid, Some (ttt_main_count fuel, 512)),
      (t64_INIT fuel tid, t64_op fuel tid, Some (t64_main_count fuel, 512)),
      (b64_INIT fuel tid, b64_op fuel tid, Some (b64_main_count fuel, 512)),
      (bef_INIT fuel tid, bef_op fuel tid, Some (bef_main_count fuel, 0)),
      (s6t_INIT fuel tid, s6t_op fuel tid, Some (s6t_main_count fuel, 512)),
      (lp_INIT fuel tid, lp_op fuel tid, None)}"
  shows "\<exists>t. run (bind init (\<lambda>_. script opr ops)) s = Done (early_counter ops (\<lambda>_. 0)) t \<and>
    (case counted of None \<Rightarrow> True
     | Some (main_count, N) \<Rightarrow> \<exists>j. main_count t = Some j \<and> (j = N \<longleftrightarrow> (\<forall>p. early_end ops (\<lambda>_. 0) p = 0)))"
  using assms(3) i32_run [OF assms(1,2), of tid s] w32_run [OF assms(1,2), of tid s] l32_run [OF assms(1,2), of tid s] m32_run [OF assms(1,2), of tid s] s64_run [OF assms(1,2), of tid s] ttt_run [OF assms(1,2), of tid s] t64_run [OF assms(1,2), of tid s] b64_run [OF assms(1,2), of tid s] bef_run [OF assms(1,2), of tid s] s6t_run [OF assms(1,2), of tid s] lp_run [OF assms(1,2), of tid s]
  by auto

theorem early_files_count_witness:
  "\<exists>t j. run (bind (s64_INIT (2 ^ 20) 0) (\<lambda>_. script (s64_op (2 ^ 20) 0) [(RECORD, 5), (RECORD, 5), (REMOVE, 5), (SEARCH, 5), (SEARCH, 6)])) empty_map
      = Done [1, 2, 1, 1, 0] t \<and> s64_main_count (2 ^ 20) t = Some j \<and> j \<noteq> 512"
proof -
  let ?ops = "[(RECORD, 5), (RECORD, 5), (REMOVE, 5), (SEARCH, 5), (SEARCH, 6)] :: (flag \<times> 64 word) list"
  have c: "early_counter ?ops (\<lambda>_. 0) = [1, 2, 1, 1, 0]" "early_end ?ops (\<lambda>_. 0) 5 \<noteq> 0" by (simp_all add: early_op_def)
  have "\<exists>t. run (bind (s64_INIT (2 ^ 20) 0) (\<lambda>_. script (s64_op (2 ^ 20) 0) ?ops)) empty_map = Done (early_counter ?ops (\<lambda>_. 0)) t \<and>
      (case Some (s64_main_count (2 ^ 20), 512) of None \<Rightarrow> True
       | Some (main_count, N) \<Rightarrow> \<exists>j. main_count t = Some j \<and> (j = N \<longleftrightarrow> (\<forall>p. early_end ?ops (\<lambda>_. 0) p = 0)))"
    by (rule early_files_count [where tid = 0 and fuel = "2 ^ 20"]) simp_all
  then show ?thesis unfolding c(1) option.case prod.case using c(2)
    by (elim exE conjE) (intro exI conjI, assumption, assumption, metis)
qed

lemma early_counter_append: "early_counter (ops @ ops') g = early_counter ops g @ early_counter ops' (early_end ops g)"
  by (induction ops arbitrary: g) auto

text \<open>C27: \<open>psly_remove\<close> of a key that is not counted inserts it: in each of the eleven files, after any
  sequence of calls that leaves the key absent, \<open>psly_remove\<close> returns 1 and a \<open>psly_search\<close> behind
  it finds the key, with count 1.\<close>

theorem early_remove_inserts:
  assumes "length ops < 1022" and "2 ^ 20 \<le> fuel" and "early_end ops (\<lambda>_. 0) p = 0"
    and "(init, opr) \<in> {(i32_INIT fuel tid, i32_op fuel tid),
      (w32_INIT fuel tid, w32_op fuel tid),
      (l32_INIT fuel tid, l32_op fuel tid),
      (m32_INIT fuel tid, m32_op fuel tid),
      (s64_INIT fuel tid, s64_op fuel tid),
      (ttt_INIT fuel tid, ttt_op fuel tid),
      (t64_INIT fuel tid, t64_op fuel tid),
      (b64_INIT fuel tid, b64_op fuel tid),
      (bef_INIT fuel tid, bef_op fuel tid),
      (s6t_INIT fuel tid, s6t_op fuel tid),
      (lp_INIT fuel tid, lp_op fuel tid)}"
  shows "\<exists>t rs. run (bind init (\<lambda>_. script opr (ops @ [(REMOVE, p), (SEARCH, p)]))) s = Done (rs @ [1, 1]) t"
proof -
  let ?ops = "ops @ [(REMOVE, p), (SEARCH, p)]"
  have n: "length ?ops < 1024" using assms(1) by simp
  have "early_counter ?ops (\<lambda>_. 0) = early_counter ops (\<lambda>_. 0) @ [1, 1]"
    using assms(3) by (simp add: early_counter_append)
  then show ?thesis using assms(4) i32_run [OF n assms(2), of tid s] w32_run [OF n assms(2), of tid s] l32_run [OF n assms(2), of tid s] m32_run [OF n assms(2), of tid s] s64_run [OF n assms(2), of tid s] ttt_run [OF n assms(2), of tid s] t64_run [OF n assms(2), of tid s] b64_run [OF n assms(2), of tid s] bef_run [OF n assms(2), of tid s] s6t_run [OF n assms(2), of tid s] lp_run [OF n assms(2), of tid s]
    by auto
qed

theorem early_remove_inserts_witness:
  "\<exists>t rs. run (bind (s6t_INIT (2 ^ 20) 0) (\<lambda>_. script (s6t_op (2 ^ 20) 0) [(RECORD, 5), (REMOVE, 5), (REMOVE, 5), (SEARCH, 5)])) empty_map
      = Done (rs @ [1, 1]) t"
  using early_remove_inserts [where ops = "[(RECORD, 5), (REMOVE, 5)]" and fuel = "2 ^ 20" and tid = 0 and p = 5
    and init = "s6t_INIT (2 ^ 20) 0" and opr = "s6t_op (2 ^ 20) 0" and s = empty_map]
  by (simp add: early_op_def)

text \<open>C28: for a sequence of calls that removes only keys that are counted, each of the eleven files returns
  exactly what \<^verbatim>\<open>mayijin/lockfreePro.c\<close> returns, although their lists work differently.\<close>

theorem early_files_agree:
  assumes "length ops < 1024" and "2 ^ 22 \<le> fuel" and "removes_present ops (\<lambda>_. 0)"
    and "(init, opr) \<in> {(i32_INIT fuel tid, i32_op fuel tid),
      (w32_INIT fuel tid, w32_op fuel tid),
      (l32_INIT fuel tid, l32_op fuel tid),
      (m32_INIT fuel tid, m32_op fuel tid),
      (s64_INIT fuel tid, s64_op fuel tid),
      (ttt_INIT fuel tid, ttt_op fuel tid),
      (t64_INIT fuel tid, t64_op fuel tid),
      (b64_INIT fuel tid, b64_op fuel tid),
      (bef_INIT fuel tid, bef_op fuel tid),
      (s6t_INIT fuel tid, s6t_op fuel tid),
      (lp_INIT fuel tid, lp_op fuel tid)}"
  shows "\<exists>t t' rs. run (bind init (\<lambda>_. script opr ops)) s = Done rs t \<and>
    run (bind (INIT_RESOURCE layout_pro 65536 fuel tid) (\<lambda>_. script (map_op layout_pro 65536 fuel tid) ops)) s = Done rs t'"
proof -
  have f: "2 ^ 20 \<le> fuel" "length ops < 65536" using assms(1,2) by simp_all
  obtain t' where t': "run (bind (INIT_RESOURCE layout_pro 65536 fuel tid) (\<lambda>_. script (map_op layout_pro 65536 fuel tid) ops)) s
      = Done (counter ops (\<lambda>_. 0)) t'" using pro_program [OF f(2) assms(2), of tid s] by blast
  have "early_counter ops (\<lambda>_. 0) = counter ops (\<lambda>_. 0)" using early_counter_present [OF assms(3)] by simp
  with assms(4) i32_run [OF assms(1) f(1), of tid s] w32_run [OF assms(1) f(1), of tid s] l32_run [OF assms(1) f(1), of tid s] m32_run [OF assms(1) f(1), of tid s] s64_run [OF assms(1) f(1), of tid s] ttt_run [OF assms(1) f(1), of tid s] t64_run [OF assms(1) f(1), of tid s] b64_run [OF assms(1) f(1), of tid s] bef_run [OF assms(1) f(1), of tid s] s6t_run [OF assms(1) f(1), of tid s] lp_run [OF assms(1) f(1), of tid s]
  have "\<exists>t. run (bind init (\<lambda>_. script opr ops)) s = Done (counter ops (\<lambda>_. 0)) t" by auto
  with t' show ?thesis by blast
qed

theorem early_files_agree_witness:
  "\<exists>t t' rs. run (bind (bef_INIT (2 ^ 22) 0) (\<lambda>_. script (bef_op (2 ^ 22) 0) [(RECORD, 5), (REMOVE, 5), (SEARCH, 5)])) empty_map = Done rs t \<and>
    run (bind (INIT_RESOURCE layout_pro 65536 (2 ^ 22) 0) (\<lambda>_. script (map_op layout_pro 65536 (2 ^ 22) 0) [(RECORD, 5), (REMOVE, 5), (SEARCH, 5)])) empty_map
      = Done rs t'"
  using early_files_agree [where ops = "[(RECORD, 5), (REMOVE, 5), (SEARCH, 5)]" and fuel = "2 ^ 22" and tid = 0
    and init = "bef_INIT (2 ^ 22) 0" and opr = "bef_op (2 ^ 22) 0" and s = empty_map]
  by (simp add: op_count_def)

end
