(* ===== verification/LoopQueue.thy ===== *)
theory LoopQueue
  imports FastQueues EarlyFiles
begin

text \<open>
  The queue of \<^verbatim>\<open>hazardloop.c\<close> (prefix \<open>lp\<close>) over the map of the same file (\<^verbatim>\<open>EarlyFiles\<close>). \<open>enqueue\<close> counts
  \<open>Tail\<close> until it has moved it. \<open>dequeue\<close> counts the head and the node behind it one after the other, and
  releases both before it moves \<open>Head\<close>: alone it is first in first out (\<open>loop_queue_fifo\<close>), but
  two threads can take the same number and leave \<open>Head\<close> in freed memory (\<open>loop_released_early\<close>).
\<close>

section \<open>The operations\<close>

fun lp_enqueue_loop :: "(flag \<Rightarrow> addr \<Rightarrow> ('m, int) prog) \<Rightarrow> nat \<Rightarrow> addr \<Rightarrow> ('m mapq, addr) prog" where
  "lp_enqueue_loop opn 0 node = Spin"
| "lp_enqueue_loop opn (Suc fuel) node =
    ld Tail (\<lambda>t.
    bind (on_map (opn RECORD t)) (\<lambda>_.
    ld Tail (\<lambda>t'.
    if t' \<noteq> t then bind (on_map (opn REMOVE t)) (\<lambda>_. lp_enqueue_loop opn fuel node) else
    ld_next t (\<lambda>next.
    ld Tail (\<lambda>t'.
    if t' \<noteq> t then bind (on_map (opn REMOVE t)) (\<lambda>_. lp_enqueue_loop opn fuel node) else
    if next \<noteq> 0 then
      cas (\<lambda>s. Tail s = t) (\<lambda>s. s\<lparr>Tail := next\<rparr>) (\<lambda>_.
      bind (on_map (opn REMOVE t)) (\<lambda>_. lp_enqueue_loop opn fuel node)) else
    casp (\<lambda>s. map_option n_next (node_at s t)) 0 (\<lambda>s. the (set_node t (\<lambda>n. n\<lparr>n_next := node\<rparr>) s)) (\<lambda>ok.
    if ok then Ret t else bind (on_map (opn REMOVE t)) (\<lambda>_. lp_enqueue_loop opn fuel node)))))))"

definition lp_enqueue_on :: "(flag \<Rightarrow> addr \<Rightarrow> ('m, int) prog) \<Rightarrow> queue_cfg \<Rightarrow> nat \<Rightarrow> 32 word \<Rightarrow> ('m mapq, unit) prog" where
  "lp_enqueue_on opn c fuel value =
    new_node c value (\<lambda>node.
    bind (lp_enqueue_loop opn fuel node) (\<lambda>t.
    cas (\<lambda>s. Tail s = t) (\<lambda>s. s\<lparr>Tail := node\<rparr>) (\<lambda>_.
    bind (on_map (opn REMOVE t)) (\<lambda>_. Ret ()))))"

text \<open>A turn of the loop of \<open>dequeue\<close> up to the compare-and-swap on \<open>Head\<close>: it has to be repeated, the queue
  is empty, or it has found the head, the node behind it and its value.\<close>

datatype lp_look = Retry | Nothing | Found addr addr "32 word"

definition lp_dequeue_look :: "(flag \<Rightarrow> addr \<Rightarrow> ('m, int) prog) \<Rightarrow> ('m mapq, lp_look) prog" where
  "lp_dequeue_look opn =
    ld Head (\<lambda>h.
    bind (on_map (opn RECORD h)) (\<lambda>_.
    ld Head (\<lambda>h'.
    if h' \<noteq> h then bind (on_map (opn REMOVE h)) (\<lambda>_. Ret Retry) else
    ld Tail (\<lambda>t.
    ld_next h (\<lambda>next.
    bind (on_map (opn REMOVE h)) (\<lambda>_.
    if next = 0 then Ret Nothing else
    bind (on_map (opn RECORD next)) (\<lambda>_.
    ld Head (\<lambda>h'.
    if h' \<noteq> h then bind (on_map (opn REMOVE next)) (\<lambda>_. Ret Retry) else
    if h = t then
      cas (\<lambda>s. Tail s = t) (\<lambda>s. s\<lparr>Tail := next\<rparr>) (\<lambda>_.
      bind (on_map (opn REMOVE next)) (\<lambda>_. Ret Retry)) else
    ldp (\<lambda>s. map_option n_value (node_at s next)) (\<lambda>data.
    bind (on_map (opn REMOVE next)) (\<lambda>_. Ret (Found h next data)))))))))))"

fun lp_dequeue_loop :: "(flag \<Rightarrow> addr \<Rightarrow> ('m, int) prog) \<Rightarrow> nat \<Rightarrow> ('m mapq, (32 word \<times> addr) option) prog" where
  "lp_dequeue_loop opn 0 = Spin"
| "lp_dequeue_loop opn (Suc fuel) =
    bind (lp_dequeue_look opn) (\<lambda>seen. case seen of
      Retry \<Rightarrow> lp_dequeue_loop opn fuel
    | Nothing \<Rightarrow> Ret None
    | Found h next data \<Rightarrow>
        cas (\<lambda>s. Head s = h) (\<lambda>s. s\<lparr>Head := next\<rparr>) (\<lambda>ok.
        if ok then Ret (Some (data, h)) else lp_dequeue_loop opn fuel))"

definition lp_dequeue_on :: "(flag \<Rightarrow> addr \<Rightarrow> ('m, int) prog) \<Rightarrow> queue_cfg \<Rightarrow> nat \<Rightarrow> nat \<Rightarrow> ('m mapq, 32 word) prog" where
  "lp_dequeue_on opn c fuel tid = bind (lp_dequeue_loop opn fuel) (mq_retire opn c fuel tid)"

subsection \<open>Over the map of the file\<close>

definition lp_allocateHPRec :: "nat \<Rightarrow> queue_cfg \<Rightarrow> nat \<Rightarrow> (32 word map_pool mapq, unit) prog" where
  "lp_allocateHPRec fuel c tid = allocateHPRec fuel c tid"

definition lp_retireHPrec :: "nat \<Rightarrow> (32 word map_pool mapq, unit) prog" where
  "lp_retireHPrec tid = retireHPrec tid"

definition lp_isIn :: "nat \<Rightarrow> nat \<Rightarrow> addr \<Rightarrow> (32 word map_pool mapq, bool) prog" where
  "lp_isIn fuel tid = mq_isIn (lp_op fuel tid)"

definition lp_scan :: "nat \<Rightarrow> nat \<Rightarrow> nat \<Rightarrow> (32 word map_pool mapq, unit) prog" where
  "lp_scan fuel tid local = scan (lp_isIn fuel tid) fuel local"

definition lp_retireNode :: "queue_cfg \<Rightarrow> nat \<Rightarrow> nat \<Rightarrow> addr \<Rightarrow> (32 word map_pool mapq, unit) prog" where
  "lp_retireNode c fuel tid node = retireNode (lp_isIn fuel tid) c fuel tid node"

definition lp_enqueue :: "queue_cfg \<Rightarrow> nat \<Rightarrow> nat \<Rightarrow> 32 word \<Rightarrow> (32 word map_pool mapq, unit) prog" where
  "lp_enqueue c fuel tid = lp_enqueue_on (lp_op fuel tid) c fuel"

definition lp_dequeue :: "queue_cfg \<Rightarrow> nat \<Rightarrow> nat \<Rightarrow> (32 word map_pool mapq, 32 word) prog" where
  "lp_dequeue c fuel tid = lp_dequeue_on (lp_op fuel tid) c fuel tid"

text \<open>A thread queues \<open>argv\<close> numbers, takes until the queue is empty, and sweeps its list.\<close>

definition lp_thread_routine :: "queue_cfg \<Rightarrow> nat \<Rightarrow> nat \<Rightarrow> nat \<Rightarrow> (32 word map_pool mapq, 32 word list) prog" where
  "lp_thread_routine c fuel tid argv =
    bind (lp_allocateHPRec fuel c tid) (\<lambda>_.
    bind (enqueue_all (lp_enqueue c fuel tid) (map of_nat [100..<100 + argv])) (\<lambda>_.
    bind (dequeue_all fuel (lp_dequeue c fuel tid) []) (\<lambda>taken.
    bind (with_rec tid (\<lambda>r. lp_scan fuel tid r)) (\<lambda>_. Ret taken))))"

section \<open>Alone\<close>

context key_counter
begin

lemma lp_enqueue_loop_run:
  assumes "queue_ok (node_at s) (Head s) (Tail s) ns" and "ns = xs @ (Tail s, v) # ys" and "length ys < fuel"
    and "minv (b + Suc (length ys)) g (qmap s)" and "\<forall>p. g p < top"
  shows "\<exists>m n. run (lp_enqueue_loop opn fuel a) s =
      Done (fst (last ns)) (s\<lparr>node_at := (node_at s)(fst (last ns) \<mapsto> n\<lparr>n_next := a\<rparr>), Tail := fst (last ns), qmap := m\<rparr>) \<and>
    node_at s (fst (last ns)) = Some n \<and> n_next n = 0 \<and> minv b (g(fst (last ns) := Suc (g (fst (last ns))))) m"
  using assms
proof (induction fuel arbitrary: s xs v ys)
  case (Suc fuel)
  from queue_place [of "node_at s" "Head s" "Tail s" xs v ys] Suc.prems(1,2) obtain n where
    n: "node_at s (Tail s) = Some n" "nseg (node_at s) (n_next n) ys 0" by auto
  have "minv (Suc (b + length ys)) g (qmap s)" "g (Tail s) < top" using Suc.prems(4,5) by simp_all
  from record_run [OF this] obtain m where
    m: "run (on_map (opn RECORD (Tail s))) s = Done (int (Suc (g (Tail s)))) (s\<lparr>qmap := m\<rparr>)" "minv (b + length ys) (g(Tail s := Suc (g (Tail s)))) m"
    by blast
  show ?case
  proof (cases ys)
    case Nil
    with n have z: "n_next n = 0" by simp
    have l: "fst (last ns) = Tail s" using Nil Suc.prems(2) by simp
    have "minv b (g(Tail s := Suc (g (Tail s)))) m" using m(2) Nil by simp
    with m(1) n(1) z l show ?thesis
      by (intro exI [of _ m] exI [of _ n]) (simp add: set_node_the fun_upd_def del: run_on_map)
  next
    case (Cons y zs)
    obtain q w where y: "y = (q, w)" by (cases y)
    with n Cons have q: "n_next n = q" "q \<noteq> 0" by auto
    let ?s = "s\<lparr>Tail := q, qmap := m\<rparr>"
    have "minv (b + length ys) (g(Tail s := Suc (g (Tail s)))) (qmap ?s)" using m(2) by simp
    from remove_again [OF this] obtain m' where
      m': "run (on_map (opn REMOVE (Tail s))) ?s = Done (int (g (Tail s))) (?s\<lparr>qmap := m'\<rparr>)" "minv (b + length ys) g m'" by blast
    let ?t = "s\<lparr>Tail := q, qmap := m'\<rparr>"
    have "run (lp_enqueue_loop opn (Suc fuel) a) s = run (lp_enqueue_loop opn fuel a) ?t"
      using m(1) m'(1) n(1) q by (simp del: run_on_map)
    moreover have "queue_ok (node_at ?t) (Head ?t) (Tail ?t) ns" using queue_advance [OF Suc.prems(1) n(1)] q by simp
    moreover have "ns = (xs @ [(Tail s, v)]) @ (Tail ?t, w) # zs" "length zs < fuel" using Suc.prems(2,3) Cons y by simp_all
    moreover have "minv (b + Suc (length zs)) g (qmap ?t)" using m'(2) Cons by simp
    ultimately show ?thesis using Suc.IH [of ?t "xs @ [(Tail s, v)]" w zs] Suc.prems(5) by auto
  qed
qed simp

lemma lp_enqueue_run:
  assumes q: "cq_state k c tid g (Suc b) ns R s" and m: "malloc_ok (q_malloc c)" "q_malloc c (node_at s) \<noteq> 0" "fits k (q_malloc c (node_at s))"
    and f: "length ns \<le> fuel" and top: "\<forall>p. g p < top"
  shows "\<exists>t. run (lp_enqueue_on opn c fuel v) s = Done () t \<and> cq_state k c tid g b (ns @ [(q_malloc c (node_at s), v)]) R t \<and>
    dom (node_at t) = insert (q_malloc c (node_at s)) (dom (node_at s))"
proof -
  let ?a = "q_malloc c (node_at s)" and ?z = "fst (last ns)"
  let ?s = "s\<lparr>node_at := (node_at s)(?a \<mapsto> \<lparr>n_value = v, n_next = 0\<rparr>)\<rparr>"
  note fr = cq_fresh [OF q m(1) refl m(2,3)]
  from q obtain xs w ys where ns: "ns = xs @ (Tail s, w) # ys" "minv (Suc b + length ys) g (qmap s)" by (auto simp: cq_state_def)
  from lp_enqueue_loop_run [of ?s ns xs w ys fuel b g ?a] fr(1) ns f top obtain M n where
    e: "run (lp_enqueue_loop opn fuel ?a) ?s = Done ?z (?s\<lparr>node_at := (node_at ?s)(?z \<mapsto> n\<lparr>n_next := ?a\<rparr>), Tail := ?z, qmap := M\<rparr>)"
      "node_at ?s ?z = Some n" "n_next n = 0" "minv b (g(?z := Suc (g ?z))) M" by auto
  let ?u = "s\<lparr>node_at := linked_in ?a v ns n (node_at s), Tail := ?a, qmap := M\<rparr>"
  have "minv b (g(?z := Suc (g ?z))) (qmap ?u)" using e(4) by simp
  from remove_again [OF this] obtain M' where
    r: "run (on_map (opn REMOVE ?z)) ?u = Done (int (g ?z)) (s\<lparr>node_at := linked_in ?a v ns n (node_at s), Tail := ?a, qmap := M'\<rparr>)" "minv b g M'" by auto
  have n: "((node_at s)(?a \<mapsto> \<lparr>n_value = v, n_next = 0\<rparr>)) ?z = Some n" using e(2) by simp
  have "run (lp_enqueue_on opn c fuel v) s = run (bind (lp_enqueue_loop opn fuel ?a) (\<lambda>t.
    cas (\<lambda>s. Tail s = t) (\<lambda>s. s\<lparr>Tail := ?a\<rparr>) (\<lambda>_. bind (on_map (opn REMOVE t)) (\<lambda>_. Ret ())))) ?s"
    using m(2) by (simp add: lp_enqueue_on_def new_node_def set_node_at del: run_on_map)
  also have "\<dots> = Done () (s\<lparr>node_at := linked_in ?a v ns n (node_at s), Tail := ?a, qmap := M'\<rparr>)"
    using e(1) r(1) by (simp add: linked_in_def del: run_on_map)
  finally have run: "run (lp_enqueue_on opn c fuel v) s = \<dots>" .
  note l = cq_link [OF q m(1) refl m(2,3) n e(3) r(2)]
  have "node_at (s\<lparr>node_at := linked_in ?a v ns n (node_at s), Tail := ?a, qmap := M'\<rparr>) = linked_in ?a v ns n (node_at s)" by simp
  then show ?thesis using run l(1) l(2) by metis
qed

lemma lp_look_empty:
  assumes "queue_ok (node_at s) (Head s) (Tail s) ns" and "queue_values ns = []" and "minv (Suc b) g (qmap s)" and "\<forall>p. g p < top"
  shows "\<exists>m. run (lp_dequeue_look opn) s = Done Nothing (s\<lparr>qmap := m\<rparr>) \<and> minv b g m"
proof -
  from queue_head [OF assms(1)] obtain n where n: "node_at s (Head s) = Some n" by blast
  with queue_empty [OF assms(1)] assms(2) have z: "n_next n = 0" by blast
  from record_run [OF assms(3) spec [OF assms(4)], of "Head s"] obtain m where
    m: "run (on_map (opn RECORD (Head s))) s = Done (int (Suc (g (Head s)))) (s\<lparr>qmap := m\<rparr>)" "minv b (g(Head s := Suc (g (Head s)))) m" by blast
  have "minv b (g(Head s := Suc (g (Head s)))) (qmap (s\<lparr>qmap := m\<rparr>))" using m(2) by simp
  from remove_again [OF this] m(1) n z show ?thesis by (auto simp: lp_dequeue_look_def simp del: run_on_map)
qed

text \<open>With a value to take: \<open>Tail\<close> is moved when it is behind, otherwise the value is found.\<close>

lemma lp_look_some:
  assumes "queue_ok (node_at s) (Head s) (Tail s) ns" and "queue_values ns = v # vs" and "minv (Suc (Suc b)) g (qmap s)" and "\<forall>p. g p < top"
  shows "\<exists>m n. node_at s (Head s) = Some n \<and> n_next n \<noteq> 0 \<and> minv b g m \<and>
    run (lp_dequeue_look opn) s = (if Tail s = Head s then Done Retry (s\<lparr>Tail := n_next n, qmap := m\<rparr>)
      else Done (Found (Head s) (n_next n) v) (s\<lparr>qmap := m\<rparr>))"
proof -
  from queue_head [OF assms(1)] obtain n where n: "node_at s (Head s) = Some n" by blast
  with queue_empty [OF assms(1)] assms(2) have nz: "n_next n \<noteq> 0" by auto
  let ?h = "Head s" and ?x = "n_next n"
  from record_run [OF assms(3) spec [OF assms(4)], of ?h] obtain m1 where
    m1: "run (on_map (opn RECORD ?h)) s = Done (int (Suc (g ?h))) (s\<lparr>qmap := m1\<rparr>)" "minv (Suc b) (g(?h := Suc (g ?h))) m1" by blast
  have "minv (Suc b) (g(?h := Suc (g ?h))) (qmap (s\<lparr>qmap := m1\<rparr>))" using m1(2) by simp
  from remove_again [OF this] obtain m2 where
    m2: "run (on_map (opn REMOVE ?h)) (s\<lparr>qmap := m1\<rparr>) = Done (int (g ?h)) (s\<lparr>qmap := m2\<rparr>)" "minv (Suc b) g m2" by auto
  have "minv (Suc b) g (qmap (s\<lparr>qmap := m2\<rparr>))" using m2(2) by simp
  from record_run [OF this spec [OF assms(4)], of ?x] obtain m3 where
    m3: "run (on_map (opn RECORD ?x)) (s\<lparr>qmap := m2\<rparr>) = Done (int (Suc (g ?x))) (s\<lparr>qmap := m3\<rparr>)" "minv b (g(?x := Suc (g ?x))) m3" by auto
  show ?thesis
  proof (cases "Tail s = Head s")
    case True
    have "minv b (g(?x := Suc (g ?x))) (qmap (s\<lparr>Tail := ?x, qmap := m3\<rparr>))" using m3(2) by simp
    from remove_again [OF this] obtain m4 where
      m4: "run (on_map (opn REMOVE ?x)) (s\<lparr>Tail := ?x, qmap := m3\<rparr>) = Done (int (g ?x)) (s\<lparr>Tail := ?x, qmap := m4\<rparr>)" "minv b g m4" by auto
    have "run (lp_dequeue_look opn) s = Done Retry (s\<lparr>Tail := ?x, qmap := m4\<rparr>)"
      using m1(1) m2(1) m3(1) m4(1) n nz True by (simp add: lp_dequeue_look_def del: run_on_map)
    with m4(2) n nz True show ?thesis by auto
  next
    case False
    from queue_pop [OF assms(1) n nz False] assms(2) obtain q where q: "node_at s ?x = Some q" "n_value q = v" by auto
    have "minv b (g(?x := Suc (g ?x))) (qmap (s\<lparr>qmap := m3\<rparr>))" using m3(2) by simp
    from remove_again [OF this] obtain m4 where
      m4: "run (on_map (opn REMOVE ?x)) (s\<lparr>qmap := m3\<rparr>) = Done (int (g ?x)) (s\<lparr>qmap := m4\<rparr>)" "minv b g m4" by auto
    have "run (lp_dequeue_look opn) s = Done (Found ?h ?x v) (s\<lparr>qmap := m4\<rparr>)"
      using m1(1) m2(1) m3(1) m4(1) n nz False q by (simp add: lp_dequeue_look_def del: run_on_map)
    with m4(2) n nz False show ?thesis by auto
  qed
qed

lemma lp_dequeue_loop_take:
  assumes "queue_ok (node_at s) (Head s) (Tail s) ns" and "queue_values ns = v # vs" and "Tail s \<noteq> Head s"
    and "minv (Suc (Suc b)) g (qmap s)" and "\<forall>p. g p < top"
  shows "\<exists>m h. run (lp_dequeue_loop opn (Suc fuel)) s = Done (Some (v, Head s)) (s\<lparr>Head := h, qmap := m\<rparr>) \<and>
    minv b g m \<and> queue_ok (node_at s) h (Tail s) (List.tl ns)"
proof -
  from lp_look_some [OF assms(1,2,4,5)] assms(3) obtain m n where
    m: "node_at s (Head s) = Some n" "n_next n \<noteq> 0" "minv b g m" "run (lp_dequeue_look opn) s = Done (Found (Head s) (n_next n) v) (s\<lparr>qmap := m\<rparr>)"
    by auto
  from queue_pop [OF assms(1) m(1,2) assms(3)] have "queue_ok (node_at s) (n_next n) (Tail s) (List.tl ns)" by auto
  with m(3,4) show ?thesis by auto
qed

lemma lp_dequeue_loop_run:
  assumes "queue_ok (node_at s) (Head s) (Tail s) ns" and "queue_values ns = v # vs"
    and "ns = xs @ (Tail s, w) # ys" and "minv (b + 4 + length ys) g (qmap s)" and "\<forall>p. g p < top"
  shows "\<exists>m h t xs' w' ys'. run (lp_dequeue_loop opn (Suc (Suc fuel))) s = Done (Some (v, Head s)) (s\<lparr>Head := h, Tail := t, qmap := m\<rparr>) \<and>
    queue_ok (node_at s) h t (List.tl ns) \<and> List.tl ns = xs' @ (t, w') # ys' \<and> minv (b + length ys') g m"
proof (cases "Tail s = Head s")
  case False
  have "minv (Suc (Suc (b + length ys))) g (qmap s)" by (rule minv_le [OF assms(4)]) simp
  from lp_dequeue_loop_take [OF assms(1,2) False this assms(5), of "Suc fuel"] obtain m h where
    m: "run (lp_dequeue_loop opn (Suc (Suc fuel))) s = Done (Some (v, Head s)) (s\<lparr>Head := h, qmap := m\<rparr>)"
      "minv (b + length ys) g m" "queue_ok (node_at s) h (Tail s) (List.tl ns)" by blast
  moreover have "s\<lparr>Head := h, Tail := Tail s, qmap := m\<rparr> = s\<lparr>Head := h, qmap := m\<rparr>" by simp
  ultimately show ?thesis using tail_behind [OF assms(1,3) False] by metis
next
  case True
  have "minv (Suc (Suc (Suc (Suc (b + length ys))))) g (qmap s)" by (rule minv_le [OF assms(4)]) simp
  from lp_look_some [OF assms(1,2) this assms(5)] True obtain m n where
    m: "node_at s (Head s) = Some n" "n_next n \<noteq> 0" "minv (Suc (Suc (b + length ys))) g m"
      "run (lp_dequeue_look opn) s = Done Retry (s\<lparr>Tail := n_next n, qmap := m\<rparr>)" by auto
  from tail_at_head [of "node_at s" "Head s" ns xs w ys n] assms(1,3) m(1,2) True obtain u zs where
    ys: "ys = (n_next n, u) # zs" "List.tl ns = ys" and ne: "Head s \<noteq> n_next n" by auto
  let ?s = "s\<lparr>Tail := n_next n, qmap := m\<rparr>"
  have q: "queue_ok (node_at ?s) (Head ?s) (Tail ?s) ns" using queue_advance [OF assms(1), of n] m(1,2) True by simp
  have t: "Tail ?s \<noteq> Head ?s" "minv (Suc (Suc (b + length ys))) g (qmap ?s)" using ne m(3) by simp_all
  from lp_dequeue_loop_take [OF q assms(2) t assms(5), of fuel] obtain m' h where
    f: "run (lp_dequeue_loop opn (Suc fuel)) ?s = Done (Some (v, Head ?s)) (?s\<lparr>Head := h, qmap := m'\<rparr>)"
      "minv (b + length ys) g m'" "queue_ok (node_at ?s) h (Tail ?s) (List.tl ns)" by blast
  have "run (lp_dequeue_loop opn (Suc (Suc fuel))) s = Done (Some (v, Head s)) (s\<lparr>Head := h, Tail := n_next n, qmap := m'\<rparr>)"
    using m(4) f(1) by (simp del: lp_dequeue_loop.simps add: lp_dequeue_loop.simps(2) [of _ "Suc fuel"])
  moreover have "List.tl ns = [] @ (n_next n, u) # zs" using ys by simp
  moreover have "minv (b + length zs) g m'" by (rule minv_le [OF f(2)]) (simp add: ys)
  moreover have "queue_ok (node_at s) h (n_next n) (List.tl ns)" using f(3) by simp
  ultimately show ?thesis by blast
qed

lemma lp_dequeue_empty_run:
  assumes "cq_state k c tid g (b + 2) ns R s" and "queue_values ns = []" and "0 < fuel" and "\<forall>p. g p < top"
  shows "\<exists>t. run (lp_dequeue_on opn c fuel tid) s = Done EMPTY t \<and> cq_state k c tid g b ns R t \<and> node_at t = node_at s"
proof -
  obtain f where f: "fuel = Suc f" using assms(3) by (cases fuel) auto
  from assms(1) obtain xs w ys where ns: "ns = xs @ (Tail s, w) # ys" "minv (b + 2 + length ys) g (qmap s)" by (auto simp: cq_state_def)
  have "queue_ok (node_at s) (Head s) (Tail s) ns" using assms(1) by (simp add: cq_state_def hp_queue_def)
  moreover have "minv (Suc (b + length ys)) g (qmap s)" by (rule minv_le [OF ns(2)]) simp
  ultimately obtain m where "run (lp_dequeue_look opn) s = Done Nothing (s\<lparr>qmap := m\<rparr>)" "minv (b + length ys) g m"
    using lp_look_empty assms(2,4) by blast
  with assms(1) ns(1) show ?thesis
    by (intro exI [of _ "s\<lparr>qmap := m\<rparr>"]) (auto simp: lp_dequeue_on_def mq_retire_def cq_state_def f)
qed

lemma lp_dequeue_run:
  assumes q: "cq_state k c tid g (b + 4) ns R s" and v: "queue_values ns = v # vs" and f: "2 \<le> fuel" "MAXTHRES c < fuel"
    and few: "few_guards c g" and top: "\<forall>p. g p < top"
  shows "\<exists>t R'. run (lp_dequeue_on opn c fuel tid) s = Done v t \<and> cq_state k c tid g b (List.tl ns) R' t \<and>
    counted_post c g (insert (Head s) R) s R' t"
proof -
  from q obtain xs w ys where ns: "queue_ok (node_at s) (Head s) (Tail s) ns"
    "ns = xs @ (Tail s, w) # ys" "minv (b + 4 + length ys) g (qmap s)" by (auto simp: cq_state_def hp_queue_def)
  obtain f' where f': "fuel = Suc (Suc f')" using f(1) by (metis Suc_le_D numeral_2_eq_2 Suc_le_mono)
  from lp_dequeue_loop_run [OF ns(1) v ns(2,3) top, of f'] obtain m h t xs' w' ys' where
    "run (lp_dequeue_loop opn fuel) s = Done (Some (v, Head s)) (s\<lparr>Head := h, Tail := t, qmap := m\<rparr>)"
    "queue_ok (node_at s) h t (List.tl ns)" "List.tl ns = xs' @ (t, w') # ys'" "minv (b + length ys') g m" unfolding f' by blast
  from cq_retire_run [OF q this f few] show ?thesis by (simp add: lp_dequeue_on_def)
qed

sublocale lp: counted_queue opn minv top "lp_enqueue_on opn c fuel" "lp_dequeue_on opn c fuel tid" k c fuel tid for k c fuel tid
  by unfold_locales (rule lp_enqueue_run lp_dequeue_empty_run lp_dequeue_run; assumption)+

end

section \<open>The map counts keys\<close>

text \<open>A \<open>psly_remove\<close> of the early list may need a record, which the call of \<open>psly_record\<close> before it has to pay
  for: the pool has room for two records per call, and one more for everything that is counted.\<close>

definition lp_minv :: "nat \<Rightarrow> nat \<Rightarrow> (addr \<Rightarrow> nat) \<Rightarrow> 32 word map_pool \<Rightarrow> bool" where
  "lp_minv fuel b g m \<longleftrightarrow> 2 ^ 20 \<le> fuel \<and> (\<exists>F E. early_map_ok layout_16 12 (2 * b + sum g UNIV) F E m \<and>
     map_count 12 E = g \<and> tidy (bucket (2 ^ 12)) (2 ^ 12) E)"

lemma sum_upd: "sum (g(p := x)) UNIV + g p = sum g UNIV + (x :: nat)" for g :: "addr \<Rightarrow> nat"
  by (simp add: sum.remove [of UNIV p])

lemma lp_fuel: "2 ^ 20 \<le> fuel \<Longrightarrow> 2 ^ (arrNum layout_16 + idxNum layout_16) \<le> fuel"
  by (simp add: layout_16_def)

lemma lp_env_ok: "2 ^ 20 \<le> fuel \<Longrightarrow> early_env_ok layout_16 fuel tid (early_env3 layout_16 fuel tid)"
  using fuel_2 [of fuel] early_envs_ok(3) [of layout_16 _ tid] by auto

interpretation lp_keys: key_counter "lp_op fuel tid" "lp_minv fuel" 65535 for fuel tid
proof (unfold_locales, goal_cases)
  case (1 f b g m p)
  let ?g = "g(p := op_count f (g p))"
  from 1(1) obtain F E where m: "early_map_ok layout_16 12 (2 * need f b + sum g UNIV) F E m" "map_count 12 E = g"
    "tidy (bucket (2 ^ 12)) (2 ^ 12) E" and fuel: "2 ^ 20 \<le> fuel" by (auto simp: lp_minv_def)
  have op: "early_op False f (g p) = op_count f (g p)" using 1(3) by (cases f) (auto simp: early_op_def op_count_def)
  have "sum ?g UNIV + g p = sum g UNIV + op_count f (g p)" by (rule sum_upd)
  then have "early_need f (2 * b + sum ?g UNIV) = 2 * need f b + sum g UNIV"
    using 1(3) by (cases f) (simp_all add: early_need_def op_count_def)
  then have "early_map_ok layout_16 12 (early_need f (2 * b + sum ?g UNIV)) F E m" using m(1) by simp
  moreover have "f = RECORD \<Longrightarrow> map_count 12 E p < 2 ^ refNum layout_16 - 1" unfolding m(2) using 1(2) by (simp add: layout_16_def)
  moreover have "layout_ok layout_16" "(12 :: nat) \<le> 64" by simp_all
  ultimately obtain t E' F' d where "run (lp_op fuel tid f p) m = Done (int (early_op d f (g p))) t"
    "early_map_ok layout_16 12 (2 * b + sum ?g UNIV) F' E' t" "map_count 12 E' = g(p := early_op d f (g p))"
    "tidy (bucket (2 ^ 12)) (2 ^ 12) E'" "\<not> d"
    using early_op_step [OF _ _ _ lp_fuel [OF fuel] lp_env_ok [OF fuel], where f = f and p = p and s = m and k = 12] m(2,3)
    unfolding lp_same by metis
  then show ?case using fuel op unfolding lp_minv_def by auto
next
  case (2 b g m)
  then obtain F E where m: "early_map_ok layout_16 12 (2 * Suc b + sum g UNIV) F E m" "map_count 12 E = g"
    "tidy (bucket (2 ^ 12)) (2 ^ 12) E" and fuel: "2 ^ 20 \<le> fuel" by (auto simp: lp_minv_def)
  have "pro_ok False layout_16 (2 * b + sum g UNIV) F m" using m(1) by (auto simp: lists_ok_def pro_ok_def)
  from lists_ok_mono [OF conjunct1 [OF m(1)], of "pro_ok False layout_16 (2 * b + sum g UNIV)", OF this] m fuel
  show ?case unfolding lp_minv_def by blast
qed

lemma lp_init_run:
  assumes fuel: "2 ^ 20 \<le> fuel" and b: "b \<le> 520184"
  shows "\<exists>m. run (lp_INIT fuel tid) s = Done () m \<and> lp_minv fuel b (\<lambda>_. 0) m"
proof -
  have r: "room layout_16 12 (2 * b)" using b by (simp add: room_def) (simp add: layout_16_def)
  have i: "lp_INIT fuel tid = st (blank_pool 77777 (idxNum layout_16) (arrNum layout_16))
      (init_lists layout_16 (get_Record fuel (idxNum layout_16) (arrNum layout_16) tid) [0..<2 ^ 12])"
    by (simp add: lp_INIT_def lp_get_Record_def layout_16_def)
  from early_starts(3) [OF r lp_fuel [OF fuel], of 77777 tid s] obtain m F where
    m: "run (lp_INIT fuel tid) s = Done () m" "early_map_ok layout_16 12 (2 * b) F (\<lambda>_. []) m" unfolding i by auto
  have "lp_minv fuel b (\<lambda>_. 0) m" using m(2) fuel mcnt_empty unfolding lp_minv_def by (intro conjI exI) (auto simp: tidy_def)
  with m(1) show ?thesis by blast
qed

lemma lp_queue_run:
  assumes fuel: "2 ^ 20 \<le> fuel" and b: "b \<le> 520184"
    and go: "\<And>m. lp_minv fuel b (\<lambda>_. 0) m \<Longrightarrow> \<exists>t. run body (s\<lparr>qmap := m\<rparr>) = Done x t \<and> lp_minv fuel 0 (\<lambda>_. 0) (qmap t)"
  shows "\<exists>t. run (bind (on_map (lp_INIT fuel tid)) (\<lambda>_. body)) s = Done x t \<and> (\<forall>p. \<exists>u. run (lp_isIn fuel tid p) t = Done False u)"
proof -
  from lp_init_run [OF assms(1,2)] obtain m where m: "run (lp_INIT fuel tid) (qmap s) = Done () m" "lp_minv fuel b (\<lambda>_. 0) m" by blast
  from go [OF m(2)] obtain t where t: "run body (s\<lparr>qmap := m\<rparr>) = Done x t" "lp_minv fuel 0 (\<lambda>_. 0) (qmap t)" by blast
  have "\<exists>u. run (lp_isIn fuel tid p) t = Done False u" for p
    using lp_keys.cq_isIn_run [OF t(2), of tid p] by (auto simp: lp_isIn_def)
  with m(1) t(1) show ?thesis by auto
qed

section \<open>The queue\<close>

text \<open>C24: the queue of \<^verbatim>\<open>hazardloop.c\<close>, used by one thread from the start of \<open>main\<close> on, is first in first out and
  leaves no node counted in the map; and so does a whole \<open>thread_routine\<close>, which takes what was in
  the queue and then its own numbers.\<close>

theorem loop_queue_fifo:
  assumes "2 ^ 20 \<le> fuel" and "0 < MAXTHRES c" and "4 * length ops + length ns \<le> 520184" and "8 * n + 5 * length ns \<le> 520184"
    and "thread_start Plain c fuel N ns (puts ops + n) s" and "EMPTY \<notin> set (queue_values ns)"
  shows "\<exists>t u. run (bind (on_map (lp_INIT fuel tid)) (\<lambda>_. bind (lp_allocateHPRec fuel c tid)
      (\<lambda>_. qscript (lp_enqueue c fuel tid) (lp_dequeue c fuel tid) ops))) s = Done (fifo ops (queue_values ns)) t \<and>
    run (bind (on_map (lp_INIT fuel tid)) (\<lambda>_. lp_thread_routine c fuel tid n)) s = Done (queue_values ns @ map of_nat [100..<100 + n]) u \<and>
    (\<forall>p. (\<exists>x. run (lp_isIn fuel tid p) t = Done False x) \<and> (\<exists>x. run (lp_isIn fuel tid p) u = Done False x))"
proof -
  have st: "thread_start Plain c fuel N ns (puts ops) s" "thread_start Plain c fuel N ns n s"
    using assms(5) by (simp_all add: thread_start_def)
  have al: "aligned Plain (fst ` set ns)" by (simp add: aligned_def)
  have "n < 2 ^ 31" using assms(4) by simp
  then have e: "EMPTY \<notin> set (queue_values ns) \<union> set (map of_nat [100..<100 + n])" using assms(6) EMPTY_own by blast
  have "\<exists>t. run (bind (on_map (lp_INIT fuel tid)) (\<lambda>_. bind (lp_allocateHPRec fuel c tid)
      (\<lambda>_. qscript (lp_enqueue c fuel tid) (lp_dequeue c fuel tid) ops))) s = Done (fifo ops (queue_values ns)) t \<and>
      (\<forall>p. \<exists>u. run (lp_isIn fuel tid p) t = Done False u)"
    unfolding lp_enqueue_def lp_dequeue_def lp_allocateHPRec_def
    by (rule lp_queue_run [OF assms(1,3)], rule lp_keys.lp.cq_program_run [OF _ al]) (use assms(2) few_none st(1) in simp_all)
  moreover have "\<exists>u. run (bind (on_map (lp_INIT fuel tid)) (\<lambda>_. lp_thread_routine c fuel tid n)) s = Done (queue_values ns @ map of_nat [100..<100 + n]) u \<and>
      (\<forall>p. \<exists>x. run (lp_isIn fuel tid p) u = Done False x)"
    unfolding lp_thread_routine_def lp_enqueue_def [abs_def] lp_dequeue_def lp_allocateHPRec_def lp_scan_def lp_isIn_def [of fuel tid, abs_def]
    by (rule lp_queue_run [OF assms(1,4), unfolded lp_isIn_def], rule lp_keys.lp.thread_run [OF _ al, where f = "\<lambda>x. x"]) (use assms(2) few_none st(2) e in simp_all)
  ultimately show ?thesis by blast
qed

theorem loop_queue_fifo_witness:
  "\<exists>t u. run (bind (on_map (lp_INIT (2 ^ 20) 0)) (\<lambda>_. bind (lp_allocateHPRec (2 ^ 20) mq_cfg 0)
      (\<lambda>_. qscript (lp_enqueue mq_cfg (2 ^ 20) 0) (lp_dequeue mq_cfg (2 ^ 20) 0) [Enqueue 7, Dequeue, Dequeue]))) (mq_empty empty_map)
      = Done [7, EMPTY] t \<and>
    run (bind (on_map (lp_INIT (2 ^ 20) 0)) (\<lambda>_. lp_thread_routine mq_cfg (2 ^ 20) 0 2)) (mq_empty empty_map) = Done [100, 101] u"
proof -
  have "0 < MAXTHRES mq_cfg" by (simp add: mq_cfg_def)
  from loop_queue_fifo [OF _ this _ _ mq_empty_start [of _ _ empty_map], where tid = 0 and n = 2 and ops = "[Enqueue 7, Dequeue, Dequeue]"]
  show ?thesis by (auto simp: queue_values_def upt_rec numeral_2_eq_2)
qed

section \<open>Released too early\<close>

text \<open>Two threads. The first has read the head, the node behind it and its value, and has released both.
  The second takes two values, which frees the old head, queues one, for which \<open>malloc\<close> returns
  that address again, and takes it. Then the first moves the head to a node that is freed.\<close>

definition loop_start :: "32 word map_pool \<Rightarrow> 32 word map_pool mapq" where
  "loop_start m = \<lparr>node_at = node_at aba_start, Head = Head aba_start, Tail = Tail aba_start, GlobalHP = GlobalHP aba_start, HPnum = HPnum aba_start,
     recs = recs aba_start, hp_head = hp_head aba_start, myhprec = myhprec aba_start, numOfRetire = 0, qmap = m\<rparr>"

definition loop_script :: "nat \<Rightarrow> nat \<Rightarrow> qop list \<Rightarrow> (32 word map_pool mapq, 32 word list) prog" where
  "loop_script fuel tid ops = qscript (lp_enqueue aba_cfg fuel tid) (lp_dequeue aba_cfg fuel tid) ops"

abbreviation loop_queue :: "nat \<Rightarrow> nat \<Rightarrow> (addr \<times> 32 word) list \<Rightarrow> 32 word map_pool mapq \<Rightarrow> bool" where
  "loop_queue fuel b ns s \<equiv> lp_keys.cq_state fuel Plain aba_cfg 1 (\<lambda>_. 0) b ns {} s"

lemma loop_drop:
  assumes "counted_post aba_cfg (\<lambda>_. 0) R s R' t" and "finite R"
  shows "R' = {} \<and> node_at t = (\<lambda>a. if a \<in> R then None else node_at s a)"
proof -
  have "R' \<subseteq> R" "card R' < 1 \<or> R' = {}" "node_at t = (\<lambda>a. if a \<in> R - R' then None else node_at s a)"
    using assms(1) by (auto simp: counted_post_def aba_cfg_def)
  moreover from this have "R' = {}" using assms(2) by (auto dest: finite_subset)
  ultimately show ?thesis by auto
qed

lemma loop_take:
  assumes "loop_queue fuel (b + 4) ((a, w) # (a', v) # ns) s" and "5 < fuel"
  shows "\<exists>t. run (lp_dequeue aba_cfg fuel 1) s = Done v t \<and> loop_queue fuel b ((a', v) # ns) t \<and> Head s = a \<and>
    node_at t = (node_at s)(a := None)"
proof -
  have few: "few_guards aba_cfg (\<lambda>_. 0)" by (rule few_none) (simp add: aba_cfg_def)
  have "queue_ok (node_at s) (Head s) (Tail s) ((a, w) # (a', v) # ns)" using assms(1) by (simp add: lp_keys.cq_state_def hp_queue_def)
  then have h: "Head s = a" by (simp add: queue_ok_def)
  have "\<exists>t R'. run (lp_dequeue_on (lp_op fuel 1) aba_cfg fuel 1) s = Done v t \<and>
      lp_keys.cq_state fuel Plain aba_cfg 1 (\<lambda>_. 0) b (List.tl ((a, w) # (a', v) # ns)) R' t \<and> counted_post aba_cfg (\<lambda>_. 0) (insert (Head s) {}) s R' t"
    by (rule lp_keys.lp_dequeue_run [OF assms(1) _ _ _ few, where vs = "map snd ns"]) (use assms(2) in \<open>simp_all add: queue_values_def aba_cfg_def\<close>)
  then obtain t R' where t: "run (lp_dequeue aba_cfg fuel 1) s = Done v t" "lp_keys.cq_state fuel Plain aba_cfg 1 (\<lambda>_. 0) b ((a', v) # ns) R' t"
      "counted_post aba_cfg (\<lambda>_. 0) {a} s R' t" unfolding h lp_dequeue_def by auto
  from loop_drop [OF t(3)] t(1,2) h show ?thesis by (auto simp: fun_upd_def)
qed

lemma loop_put:
  assumes "loop_queue fuel (Suc b) ns s" and "node_at s 64 = None" and "length ns \<le> fuel"
  shows "\<exists>t. run (lp_enqueue aba_cfg fuel 1 v) s = Done () t \<and> loop_queue fuel b (ns @ [(64, v)]) t \<and>
    dom (node_at t) = insert 64 (dom (node_at s))"
proof -
  have "q_malloc aba_cfg (node_at s) = 64" "malloc_ok (q_malloc aba_cfg)" using assms(2) by (simp_all add: aba_cfg_def malloc_ok_def)
  moreover from this have "\<exists>t. run (lp_enqueue_on (lp_op fuel 1) aba_cfg fuel v) s = Done () t \<and>
      loop_queue fuel b (ns @ [(q_malloc aba_cfg (node_at s), v)]) t \<and> dom (node_at t) = insert (q_malloc aba_cfg (node_at s)) (dom (node_at s))"
    by (intro lp_keys.lp_enqueue_run [OF assms(1)]) (use assms(3) in \<open>simp_all add: fits_def\<close>)
  ultimately show ?thesis by (simp only: lp_enqueue_def)
qed

lemma loop_second:
  assumes "loop_queue fuel 20 [(64, w), (128, 10), (192, 20)] s" and "5 < fuel"
  shows "\<exists>t. run (loop_script fuel 1 [Dequeue, Dequeue, Enqueue 30, Dequeue]) s = Done [10, 20, 30] t \<and> loop_queue fuel 7 [(64, 30)] t \<and>
    node_at t 128 = None"
proof -
  from loop_take [of fuel 16 64 w 128 10 "[(192, 20)]" s] assms obtain t1 where
    t1: "run (lp_dequeue aba_cfg fuel 1) s = Done 10 t1" "loop_queue fuel 16 [(128, 10), (192, 20)] t1" "node_at t1 = (node_at s)(64 := None)" by auto
  from loop_take [of fuel 12 128 10 192 20 "[]" t1] t1(2) assms(2) obtain t2 where
    t2: "run (lp_dequeue aba_cfg fuel 1) t1 = Done 20 t2" "loop_queue fuel 12 [(192, 20)] t2" "node_at t2 = (node_at t1)(128 := None)" by auto
  from loop_put [of fuel 11 "[(192, 20)]" t2 30] t2(2,3) t1(3) assms(2) obtain t3 where
    t3: "run (lp_enqueue aba_cfg fuel 1 30) t2 = Done () t3" "loop_queue fuel 11 [(192, 20), (64, 30)] t3"
      "dom (node_at t3) = insert 64 (dom (node_at t2))" by auto
  have "(128 :: addr) \<notin> insert 64 (dom (node_at t2))" using t2(3) by (simp add: domIff)
  then have "128 \<notin> dom (node_at t3)" by (simp only: t3(3) not_False_eq_True)
  then have n: "node_at t3 128 = None" by (simp add: domIff)
  from loop_take [of fuel 7 192 20 64 30 "[]" t3] t3(2) assms(2) obtain t4 where
    t4: "run (lp_dequeue aba_cfg fuel 1) t3 = Done 30 t4" "loop_queue fuel 7 [(64, 30)] t4" "node_at t4 = (node_at t3)(192 := None)" by auto
  have "node_at t4 128 = None" using t4(3) n by simp
  moreover have "run (loop_script fuel 1 [Dequeue, Dequeue, Enqueue 30, Dequeue]) s = Done [10, 20, 30] t4"
    using t1(1) t2(1) t3(1) t4(1) by (simp add: loop_script_def)
  ultimately show ?thesis using t4(2) by blast
qed

lemma loop_crash:
  assumes "loop_queue fuel 7 ns t" and "node_at t 128 = None" and "0 < fuel"
  shows "\<exists>u. run (lp_dequeue aba_cfg fuel 1) (t\<lparr>Head := 128\<rparr>) = Crashed u"
proof -
  obtain f where f: "fuel = Suc f" using assms(3) by (cases fuel) auto
  from assms(1) obtain b where "lp_minv fuel (7 + b) (\<lambda>_. 0) (qmap t)" by (auto simp: lp_keys.cq_state_def)
  then have "lp_minv fuel (Suc 0) (\<lambda>_. 0) (qmap (t\<lparr>Head := 128\<rparr>))" using lp_keys.minv_le [of fuel "7 + b" _ _ "Suc 0"] by simp
  from lp_keys.record_run [OF this, of 1 128] obtain m where
    "run (on_map (lp_op fuel 1 RECORD 128)) (t\<lparr>Head := 128\<rparr>) = Done 1 ((t\<lparr>Head := 128\<rparr>)\<lparr>qmap := m\<rparr>)" by auto
  with assms(2) show ?thesis unfolding lp_dequeue_def lp_dequeue_on_def by (simp add: f lp_dequeue_look_def del: run_on_map)
qed

lemma loop_first:
  assumes "lp_minv fuel 22 (\<lambda>_. 0) m" and "0 < fuel"
  shows "\<exists>m' n. exec (replicate n 0) (loop_start m, [loop_script fuel 0 [Dequeue], q]) = ((loop_start m)\<lparr>qmap := m'\<rparr>,
      [cas (\<lambda>s. Head s = 64) (\<lambda>s. s\<lparr>Head := 128\<rparr>) (\<lambda>ok. bind (bind (if ok then Ret (Some (10, 64)) else lp_dequeue_loop (lp_op fuel 0) (fuel - 1))
        (mq_retire (lp_op fuel 0) aba_cfg fuel 0)) (\<lambda>x. Ret [x])), q]) \<and>
    loop_queue fuel 20 [(64, - 1), (128, 10), (192, 20)] ((loop_start m)\<lparr>qmap := m'\<rparr>)"
proof -
  let ?s = "loop_start m" and ?ns = "[(64, - 1), (128, 10), (192, 20)] :: (addr \<times> 32 word) list"
  obtain f where f: "fuel = Suc f" using assms(2) by (cases fuel) auto
  have q: "queue_ok (node_at ?s) (Head ?s) (Tail ?s) ?ns" by (simp add: queue_ok_def loop_start_def aba_start_def)
  have "lp_minv fuel (Suc (Suc 20)) (\<lambda>_. 0) (qmap ?s)" using assms(1) by (simp add: loop_start_def)
  from lp_keys.lp_look_some [OF q _ this, of 10 "[20]" 0] obtain m' where
    m': "lp_minv fuel 20 (\<lambda>_. 0) m'" "run (lp_dequeue_look (lp_op fuel 0)) ?s = Done (Found 64 128 10) (?s\<lparr>qmap := m'\<rparr>)"
    by (auto simp: queue_values_def loop_start_def aba_start_def)
  let ?K = "\<lambda>seen. bind (bind (case seen of Retry \<Rightarrow> lp_dequeue_loop (lp_op fuel 0) f | Nothing \<Rightarrow> Ret None
    | Found h next data \<Rightarrow> cas (\<lambda>s. Head s = h) (\<lambda>s. s\<lparr>Head := next\<rparr>) (\<lambda>ok. if ok then Ret (Some (data, h)) else lp_dequeue_loop (lp_op fuel 0) f))
    (mq_retire (lp_op fuel 0) aba_cfg fuel 0)) (\<lambda>x. Ret [x])"
  have "loop_script fuel 0 [Dequeue] = bind (lp_dequeue_look (lp_op fuel 0)) ?K"
    unfolding loop_script_def lp_dequeue_def lp_dequeue_on_def f by (simp add: bind_assoc)
  then have ts: "[loop_script fuel 0 [Dequeue], q] ! 0 = bind (lp_dequeue_look (lp_op fuel 0)) ?K" by simp
  from run_exec_bind [OF m'(2) _ ts] obtain n where
    "exec (replicate n 0) (?s, [loop_script fuel 0 [Dequeue], q]) = (?s\<lparr>qmap := m'\<rparr>, [?K (Found 64 128 10), q])" by auto
  moreover have "hp_queue aba_cfg 1 ?ns {} (?s\<lparr>qmap := m'\<rparr>)"
    using q by (auto simp: hp_queue_def loop_start_def aba_start_def rec_at_def HPK_def MAXTHREADS_def list_inv_def retired_def occupied_def aba_cfg_def nth_Cons split: nat.splits)
  then have "loop_queue fuel 20 ?ns (?s\<lparr>qmap := m'\<rparr>)" using m'(1) unfolding lp_keys.cq_state_def
    by (auto simp: aligned_def loop_start_def aba_start_def intro: exI [of _ "[(64, - 1), (128, 10)]"])
  moreover have "fuel - 1 = f" by (simp add: f)
  ultimately show ?thesis unfolding \<open>fuel - 1 = f\<close> by (auto simp: bind_prims)
qed

text \<open>C25: \<open>dequeue\<close> of \<^verbatim>\<open>hazardloop.c\<close> releases both nodes before the compare-and-swap on \<open>Head\<close>: there is a
  schedule of two threads, from a queue of two numbers and the map as \<open>main\<close> leaves it, in which both
  take the value 10 and \<open>Head\<close> is left pointing to freed memory, where the next \<open>dequeue\<close> reads.\<close>

theorem loop_released_early:
  "\<exists>m sch s. run (lp_INIT (2 ^ 20) 0) empty_map = Done () m \<and>
    exec sch (loop_start m, [loop_script (2 ^ 20) 0 [Dequeue], loop_script (2 ^ 20) 1 [Dequeue, Dequeue, Enqueue 30, Dequeue]]) =
      (s, [bind (mq_retire (lp_op (2 ^ 20) 0) aba_cfg (2 ^ 20) 0 (Some (10, 64))) (\<lambda>x. Ret [x]), Ret [10, 20, 30]]) \<and>
    node_at s (Head s) = None \<and> (\<exists>t. run (lp_dequeue aba_cfg (2 ^ 20) 1) s = Crashed t)"
proof -
  define fuel :: nat where "fuel = 2 ^ 20"
  then have fuel: "2 ^ 20 \<le> fuel" "0 < fuel" "5 < fuel" by simp_all
  let ?q = "loop_script fuel 1 [Dequeue, Dequeue, Enqueue 30, Dequeue]"
  from lp_init_run [OF fuel(1), of 22 0 empty_map] obtain m where m: "run (lp_INIT fuel 0) empty_map = Done () m" "lp_minv fuel 22 (\<lambda>_. 0) m" by auto
  from loop_first [OF m(2) fuel(2), of ?q] obtain m' n where
    n: "exec (replicate n 0) (loop_start m, [loop_script fuel 0 [Dequeue], ?q]) = ((loop_start m)\<lparr>qmap := m'\<rparr>,
      [cas (\<lambda>s. Head s = 64) (\<lambda>s. s\<lparr>Head := 128\<rparr>) (\<lambda>ok. bind (bind (if ok then Ret (Some (10, 64)) else lp_dequeue_loop (lp_op fuel 0) (fuel - 1))
        (mq_retire (lp_op fuel 0) aba_cfg fuel 0)) (\<lambda>x. Ret [x])), ?q])" (is "_ = (?s, [?p, _])")
      "loop_queue fuel 20 [(64, - 1), (128, 10), (192, 20)] ((loop_start m)\<lparr>qmap := m'\<rparr>)" by blast
  from loop_second [OF n(2) fuel(3)] obtain t where
    t: "run ?q ?s = Done [10, 20, 30] t" "loop_queue fuel 7 [(64, 30)] t" "node_at t 128 = None" by blast
  from run_exec [OF t(1), of 1 "[?p, ?q]"] obtain k where k: "exec (replicate k 1) (?s, [?p, ?q]) = (t, [?p, Ret [10, 20, 30]])" by auto
  let ?t = "t\<lparr>Head := 128\<rparr>" and ?r = "bind (mq_retire (lp_op fuel 0) aba_cfg fuel 0 (Some (10, 64))) (\<lambda>x. Ret [x])"
  have "Head t = 64" using t(2) by (auto simp: lp_keys.cq_state_def hp_queue_def queue_ok_def)
  then have "exec [0] (t, [?p, Ret [10, 20, 30]]) = (?t, [?r, Ret [10, 20, 30]])" by (simp add: sched_step_def cas_def)
  with n(1) k have e: "exec (replicate n 0 @ replicate k 1 @ [0]) (loop_start m, [loop_script fuel 0 [Dequeue], ?q]) = (?t, [?r, Ret [10, 20, 30]])"
    by (simp only: exec_append)
  moreover have "\<exists>u. run (lp_dequeue aba_cfg fuel 1) ?t = Crashed u" by (rule loop_crash [OF t(2,3) fuel(2)])
  moreover have "node_at ?t (Head ?t) = None" using t(3) by simp
  ultimately show ?thesis unfolding fuel_def [symmetric] using m(1) by blast
qed

end
