(* ===== verification/LateSearch.thy ===== *)
theory LateSearch
  imports MapProgram
begin

text \<open>
  The list of \<^verbatim>\<open>simple64T2.c\<close>. Its loop differs from that of \<^verbatim>\<open>RecordList\<close> in two places: the count is
  returned to \<open>SEARCH\<close> only after the record was read again and found not to be deleted, and the
  part marked \<open>CasAppend\<close> writes the word of the record to insert again on every attempt. Run alone
  both make no difference to the lists this map builds, which is what this theory proves:
  \<open>RECORD\<close> and \<open>REMOVE\<close> do step for step what the loop of \<^verbatim>\<open>RecordList\<close> does, and \<open>SEARCH\<close> returns
  the count.
\<close>

unbundle bit_operations_syntax

section \<open>The loop\<close>

text \<open>Which record to link behind \<open>prev\<close>: one of its own for \<open>RECORD\<close>, with a new word, else \<open>curr\<close>.\<close>

definition t2_append :: "('c, 'z) pool_scheme env \<Rightarrow> locals \<Rightarrow> (loc \<Rightarrow> locals \<Rightarrow> (('c, 'z) pool_scheme, int) prog) \<Rightarrow> (('c, 'z) pool_scheme, int) prog" where
  "t2_append e v k =
    (if e_flag e = RECORD then
       let write = (\<lambda>my v.
         rd r_self (v_curr v) (\<lambda>self.
         wr (set_nextRecord (newNext (e_layout e) (v_localN v) self)) my (k my v))) in
       (case v_my v of
         None \<Rightarrow>
           bind (e_get e) (\<lambda>r. case r of None \<Rightarrow> Crash | Some my \<Rightarrow>
           rd r_nextRecord my (\<lambda>localN.
           wr (set_pointer (e_pointer e)) my (
           write my (v\<lparr>v_my := Some my, v_localN := localN\<rparr>))))
       | Some my \<Rightarrow> write my v)
     else k (v_curr v) v)"

definition t2_cas :: "(locals \<Rightarrow> (('c, 'z) pool_scheme, int) prog) \<Rightarrow> nat \<Rightarrow> ('c, 'z) pool_scheme env \<Rightarrow>
    (locals \<Rightarrow> (('c, 'z) pool_scheme, int) prog) \<Rightarrow> loc \<Rightarrow> locals \<Rightarrow> (('c, 'z) pool_scheme, int) prog" where
  "t2_cas kp fuel e again app v =
    rd r_self app (\<lambda>self.
    vcas_next (v_prev v) (v_prevNext v) (nxtAddrV (e_layout e) (v_prevNext v) self) (\<lambda>prevBefore.
    if prevBefore = v_prevNext v then
      reclaim fuel e (v_curr v) (v_prevNext v) (Ret (if e_flag e = RECORD then 1 else 0))
    else
      let New = prevBefore in
      if stale (e_layout e) (v_prevNext v) New then e_restart e v kp
      else if moved (e_layout e) (v_prevNext v) New then kp (goto_New (e_layout e) New v)
      else again (v\<lparr>v_prevNext := New\<rparr>)))"

fun t2_CasAppend :: "(locals \<Rightarrow> (('c, 'z) pool_scheme, int) prog) \<Rightarrow> nat \<Rightarrow> nat \<Rightarrow> ('c, 'z) pool_scheme env \<Rightarrow> locals \<Rightarrow> (('c, 'z) pool_scheme, int) prog" where
  "t2_CasAppend kp fuel 0 e v = Spin"
| "t2_CasAppend kp fuel (Suc n) e v = t2_append e v (t2_cas kp fuel e (t2_CasAppend kp fuel n e))"

definition t2_pass :: "(locals \<Rightarrow> (('c, 'z) pool_scheme, int) prog) \<Rightarrow> nat \<Rightarrow> ('c, 'z) pool_scheme env \<Rightarrow> 64 word \<Rightarrow> 64 word \<Rightarrow> locals \<Rightarrow> (('c, 'z) pool_scheme, int) prog" where
  "t2_pass kp fuel e currKey currNext v =
    rd r_nextRecord (v_curr v) (\<lambda>New.
    if currNext AND NODEBITS (e_layout e) \<noteq> New AND NODEBITS (e_layout e) then
      rd r_nextRecord (v_prev v) (\<lambda>New.
      if stale (e_layout e) (v_prevNext v) New then e_restart e v kp
      else kp (goto_New (e_layout e) New v))
    else
      let currNext = New in
      if currNext AND REFCBITS (e_layout e) = DELETED then kp (v\<lparr>v_curr := loc_of (e_layout e) currNext\<rparr>)
      else if currKey \<noteq> e_pointer e then
        kp (v\<lparr>v_prev := v_curr v, v_prevNext := currNext, v_curr := loc_of (e_layout e) currNext\<rparr>)
      else if e_flag e = SEARCH then Ret (count_of (e_layout e) currNext)
      else at_key kp fuel e currNext v)"

definition t2_body :: "(locals \<Rightarrow> (('c, 'z) pool_scheme, int) prog) \<Rightarrow> nat \<Rightarrow> ('c, 'z) pool_scheme env \<Rightarrow> locals \<Rightarrow> (('c, 'z) pool_scheme, int) prog" where
  "t2_body kp fuel e v =
    rd r_nextRecord (v_curr v) (\<lambda>currNext.
    rd r_pointer (v_curr v) (\<lambda>currKey.
    rd r_nextRecord (v_prev v) (\<lambda>New.
    if stale (e_layout e) (v_prevNext v) New then e_restart e v kp
    else if moved (e_layout e) (v_prevNext v) New then kp (goto_New (e_layout e) New v)
    else
      let v = v\<lparr>v_prevNext := New\<rparr> in
      if v_curr v = e_tail e \<or> sint (e_pointer e) < sint currKey then
        if e_flag e = SEARCH then Ret 0
        else if e_flag e = REMOVE then
          rd r_self (v_curr v) (\<lambda>self.
          if v_prevNext v AND ARRIDXBITL (e_layout e) = scast self AND ARRIDXBITL (e_layout e) then Ret 0
          else t2_CasAppend kp fuel fuel e v)
        else t2_CasAppend kp fuel fuel e v
      else t2_pass kp fuel e currKey currNext v)))"

fun t2_KeepPrev :: "nat \<Rightarrow> nat \<Rightarrow> ('c, 'z) pool_scheme env \<Rightarrow> locals \<Rightarrow> (('c, 'z) pool_scheme, int) prog" where
  "t2_KeepPrev 0 fuel e v = Spin"
| "t2_KeepPrev (Suc n) fuel e v = t2_body (t2_KeepPrev n fuel e) fuel e v"

definition t2_handle_records :: "nat \<Rightarrow> ('c, 'z) pool_scheme env \<Rightarrow> (('c, 'z) pool_scheme, int) prog" where
  "t2_handle_records fuel e =
    rd r_nextRecord (e_head e) (\<lambda>prevNext.
    t2_KeepPrev fuel fuel e
      \<lparr>v_my = None, v_localN = 0, v_removed = False, v_prev = e_head e, v_prevNext = prevNext,
       v_curr = loc_of (e_layout e) prevNext\<rparr>)"

section \<open>\<open>RECORD\<close> and \<open>REMOVE\<close>: step for step the loop of \<^verbatim>\<open>RecordList\<close>\<close>

lemma rset_same:
  assumes "rget l s = Some r" and "f r = r"
  shows "rset l f s = s"
proof -
  obtain a i where l: "l = (a, i)" by (cases l)
  from assms(1) obtain arr where arr: "Records s a = Some arr" "arr i = r" by (auto simp: l rget_def split: option.splits)
  then have "arr(i := f (arr i)) = arr" using assms(2) by auto
  with arr(1) show ?thesis by (simp add: l rset_def map_upd_triv)
qed

lemma rget_set [simp]: "rget l (rset l f s) = map_option f (rget l s)"
  by (simp add: rget_rset)

definition same_kp :: "(locals \<Rightarrow> ('s, int) prog) \<Rightarrow> (locals \<Rightarrow> ('s, int) prog) \<Rightarrow> bool" where
  "same_kp kp kp' \<longleftrightarrow> (\<forall>v s. run (kp v) s = run (kp' v) s)"

lemma same_kpD: "same_kp kp kp' \<Longrightarrow> run (kp v) s = run (kp' v) s"
  by (simp add: same_kp_def)

lemma same_restart:
  assumes "same_kp kp kp'" and "e_restart e = restart_head L h"
  shows "run (e_restart e v kp) s = run (e_restart e v kp') s"
  using assms by (simp add: restart_head_def same_kp_def split: option.split)

text \<open>The record to link is ready: it has the word that a further attempt would write again.\<close>

definition ready :: "('c, 'z) pool_scheme env \<Rightarrow> ('c, 'z) pool_scheme \<Rightarrow> loc \<Rightarrow> locals \<Rightarrow> bool" where
  "ready e s app v \<longleftrightarrow> (if e_flag e = RECORD then v_my v = Some app \<and> (\<exists>r rc. rget app s = Some r \<and> rget (v_curr v) s = Some rc \<and>
     r_nextRecord r = newNext (e_layout e) (v_localN v) (r_self rc)) else app = v_curr v)"

lemma ready_append: "ready e s app v \<Longrightarrow> run (t2_append e v k) s = run (k app v) s"
proof (cases "e_flag e = RECORD")
  case True
  assume "ready e s app v"
  with True obtain r rc where r: "v_my v = Some app" "rget app s = Some r" "rget (v_curr v) s = Some rc"
      "r_nextRecord r = newNext (e_layout e) (v_localN v) (r_self rc)" by (auto simp: ready_def)
  have "rset app (set_nextRecord (newNext (e_layout e) (v_localN v) (r_self rc))) s = s"
    by (rule rset_same [OF r(2)]) (simp add: r(4) [symmetric] set_nextRecord_def)
  with True r(1-3) show ?thesis by (simp add: t2_append_def)
qed (auto simp: ready_def t2_append_def)

lemma t2_cas_same:
  assumes kp: "same_kp kp kp'" and e: "e_restart e = restart_head L h" and r: "ready e s app v"
  shows "run (t2_cas kp fuel e (t2_CasAppend kp fuel n e) app v) s = run (append_loop kp' fuel (Suc n) e app v) s"
  using r
proof (induction n arbitrary: v)
  case 0
  then show ?case
    by (simp add: t2_cas_def Let_def same_kpD [OF kp] same_restart [OF kp e] split: option.split)
next
  case (Suc n)
  have "ready e s app (v\<lparr>v_prevNext := w\<rparr>)" for w using Suc.prems by (simp add: ready_def split: if_splits)
  note IH = Suc.IH [OF this] and re = ready_append [OF this]
  show ?case unfolding t2_cas_def [of kp fuel e "t2_CasAppend kp fuel (Suc n) e"] append_loop.simps(2) [of kp' fuel "Suc n"]
    by (simp add: Let_def same_kpD [OF kp] same_restart [OF kp e] re IH del: append_loop.simps split: option.split)
qed

lemma t2_append_same:
  assumes kp: "same_kp kp kp'" and e: "e_restart e = restart_head L h"
  shows "run (t2_CasAppend kp (Suc n) (Suc n) e v) s = run (cas_append kp' (Suc n) e v) s"
proof (cases "e_flag e = RECORD")
  case True
  have my: "run (t2_cas kp (Suc n) e (t2_CasAppend kp (Suc n) n e) my u) (rset my (set_nextRecord (newNext (e_layout e) m w)) t)
      = run (append_loop kp' (Suc n) (Suc n) e my u) (rset my (set_nextRecord (newNext (e_layout e) m w)) t)"
    if "v_localN u = m" "v_my u = Some my" "rget my t \<noteq> None" "map_option r_self (rget (v_curr u) t) = Some w" for u my t w m
    by (rule t2_cas_same [OF kp e]) (use that True in \<open>auto simp: ready_def rget_rset set_nextRecord_def\<close>)
  show ?thesis
  proof (cases "v_my v")
    case None
    show ?thesis
    proof (cases "run (e_get e) s")
      case (Done r t)
      show ?thesis
      proof (cases r)
        case (Some l)
        show ?thesis using True None Done Some
          by (cases "rget l t"; cases "rget (v_curr v) (rset l (set_pointer (e_pointer e)) t)")
            (auto simp: t2_append_def cas_append_def link_my_def my simp del: append_loop.simps rget_rset)
      qed (use True None Done in \<open>simp add: t2_append_def cas_append_def\<close>)
    qed (use True None in \<open>simp_all add: t2_append_def cas_append_def\<close>)
  next
    case (Some l)
    then show ?thesis using True
      by (cases "rget l s"; cases "rget (v_curr v) s") (simp_all add: t2_append_def cas_append_def link_my_def my del: append_loop.simps)
  qed
next
  case False
  then have "ready e s (v_curr v) v" by (simp add: ready_def)
  from t2_cas_same [OF kp e this] False show ?thesis by (simp add: t2_append_def cas_append_def del: append_loop.simps)
qed

lemma plus_loop_same:
  assumes kp: "same_kp kp kp'" and e: "e_restart e = restart_head L h"
  shows "run (plus_loop kp n e found w v) s = run (plus_loop kp' n e found w v) s"
  by (induction n arbitrary: w s) (auto simp: Let_def same_kpD [OF kp] same_restart [OF kp e] split: option.split)

lemma at_key_same:
  assumes kp: "same_kp kp kp'" and e: "e_restart e = restart_head L h"
  shows "run (at_key kp fuel e w v) s = run (at_key kp' fuel e w v) s"
  by (simp add: at_key_def same_kpD [OF kp] plus_loop_same [OF kp e] split: option.split prod.split)

lemma rd_same:
  "(\<And>w. run (k w) s = run (k' w) s) \<Longrightarrow> run (rd f l k) s = run (rd f l k') s"
  by (simp split: option.split)

lemma rd_next:
  "(\<And>r. rget l s = Some r \<Longrightarrow> run (k (f r)) s = run (k' (f r)) s) \<Longrightarrow> run (rd f l k) s = run (rd f l k') s"
  by (simp split: option.split)

lemma if_same: "(c \<Longrightarrow> run p s = run p' s) \<Longrightarrow> (\<not> c \<Longrightarrow> run q s = run q' s) \<Longrightarrow>
    run (if c then p else q) s = run (if c then p' else q') s"
  by simp

lemma t2_pass_same:
  assumes kp: "same_kp kp kp'" and e: "e_restart e = restart_head L h" "e_note e = (\<lambda>_ k. k)" "e_flag e \<noteq> SEARCH"
  shows "run (t2_pass kp fuel e key w v) s = run (pass_or_hit kp' fuel e key w v) s"
  unfolding t2_pass_def pass_or_hit_def Let_def e(2) using e(3)
  by (simp del: run_rd, intro rd_same if_same) (simp_all only: if_False same_kpD [OF kp] same_restart [OF kp e(1)] at_key_same [OF kp e(1)])

lemma t2_body_same:
  assumes kp: "same_kp kp kp'" and e: "e_restart e = restart_head L h" "e_note e = (\<lambda>_ k. k)" "e_flag e \<noteq> SEARCH"
  shows "run (t2_body kp (Suc n) e v) s = run (loop_body kp' (Suc n) e v) s"
  unfolding t2_body_def loop_body_def Let_def
  by (intro rd_same if_same)
    (simp_all only: same_kpD [OF kp] same_restart [OF kp e(1)] t2_append_same [OF kp e(1)] t2_pass_same [OF kp e])

lemma t2_KeepPrev_same:
  assumes "e_restart e = restart_head L h" and "e_note e = (\<lambda>_ k. k)" and "e_flag e \<noteq> SEARCH"
  shows "run (t2_KeepPrev n (Suc fuel) e v) s = run (keep_prev n (Suc fuel) e v) s"
proof (induction n arbitrary: v s)
  case (Suc n)
  then have "same_kp (t2_KeepPrev n (Suc fuel) e) (keep_prev n (Suc fuel) e)" by (simp add: same_kp_def)
  from t2_body_same [OF this assms] show ?case by simp
qed simp

lemma t2_same:
  assumes "e_restart e = restart_head L h" and "e_note e = (\<lambda>_ k. k)" and "e_flag e \<noteq> SEARCH"
  shows "run (t2_handle_records (Suc fuel) e) s = run (handle_records (Suc fuel) e) s"
  by (simp add: t2_handle_records_def handle_records_def t2_KeepPrev_same [OF assms] del: t2_KeepPrev.simps keep_prev.simps split: option.split)

section \<open>\<open>SEARCH\<close> returns the count\<close>

context record_pool
begin

lemma t2_run_body:
  assumes pos: "position L s z K pre (x, k, c) ds rst v"
    and e: "e_layout e = L" "e_tail e = z" "sint (e_pointer e) = K" "e_flag e = SEARCH" and cur: "rget (v_curr v) s = Some r"
  shows "run (t2_body kp fuel e v) s = (if rst = [] \<or> K < sint (r_pointer r) then Done 0 s
     else run (t2_pass kp fuel e (r_pointer r) (r_nextRecord r) v) s)"
proof -
  from pos have v: "v_prev v = x" "view x s = Some (v_prevNext v, k)" "0 < c" "v_curr v = start rst z"
      "distinct (z # map fst (pre @ (x, k, c) # ds @ rst))"
    by (simp_all add: position_def chain_def)
  have c: "v_prevNext v AND REFCBITS L \<noteq> DELETED" using positionD(4) [OF pos] v(3) by (simp add: deleted_iff [OF layout])
  have end_iff: "v_curr v = z \<longleftrightarrow> rst = []" using v(4,5) by (cases rst) (auto simp: start_def)
  have id: "v\<lparr>v_prevNext := v_prevNext v\<rparr> = v" by simp
  obtain rp where rp: "rget x s = Some rp" "r_nextRecord rp = v_prevNext v" using v(2) by (auto simp: view_Some)
  show ?thesis
    using cur rp c e v(1) by (simp add: t2_body_def stale_def moved_def Let_def id end_iff)
qed

lemma t2_search_run:
  assumes pos: "position L s z (sint key) pre x ds rst v" and e: "env_ok e z key" "e_flag e = SEARCH"
    and len: "length rst < n"
  shows "run (t2_KeepPrev n fuel e v) s = Done (int (cnt (List.tl (pre @ x # ds @ rst)) key)) s"
  using pos len
proof (induction rst arbitrary: n pre x ds v)
  case Nil
  then obtain m where n: "n = Suc m" by (cases n) auto
  obtain r where r: "rget (v_curr v) s = Some r" using position_curr(3) [OF Nil.prems(1)] by auto
  have le: "e_layout e = L" "e_tail e = z" "sint (e_pointer e) = sint key" using e by (simp_all add: env_ok_def)
  obtain x1 x2 x3 where x: "x = (x1, x2, x3)" by (cases x)
  have "cnt (List.tl (pre @ x # ds @ [])) key = 0" unfolding cnt_position [OF Nil.prems(1)] by simp
  with t2_run_body [OF Nil.prems(1) [unfolded x] le e(2) r] show ?case by (simp add: n)
next
  case (Cons y rst)
  then obtain m where n: "n = Suc m" by (cases n) auto
  obtain x1 x2 x3 where x: "x = (x1, x2, x3)" by (cases x)
  obtain l k c where y: "y = (l, k, c)" by (cases y)
  have le: "e_layout e = L" "e_tail e = z" "e_pointer e = key" "sint (e_pointer e) = sint key" using e by (simp_all add: env_ok_def)
  have pos: "position L s z (sint key) pre x ds ((l, k, c) # rst) v" using Cons.prems(1) by (simp add: y)
  note pr = position_rest [OF pos]
  obtain w where w: "view l s = Some (w, k)" "refc L w = c" "v_curr v = l" "start rst z = loc_of L w" using pr(1) by blast
  obtain r where r: "rget l s = Some r" "r_nextRecord r = w" "r_pointer r = k" using w(1) by (auto simp: view_Some)
  have cur: "rget (v_curr v) s = Some r" using r(1) w(3) by simp
  note body = t2_run_body [OF pos [unfolded x] le(1,2,4) e(2) cur, of "t2_KeepPrev m fuel e" fuel]
  have step: "run (t2_pass (t2_KeepPrev m fuel e) fuel e k w v) s =
      (if c = 0 then run (t2_KeepPrev m fuel e (v\<lparr>v_curr := start rst z\<rparr>)) s
       else if k \<noteq> key then run (t2_KeepPrev m fuel e (v\<lparr>v_prev := l, v_prevNext := w, v_curr := start rst z\<rparr>)) s
       else Done (int c) s)"
    using r w le e(2) by (simp add: t2_pass_def Let_def deleted_iff [OF layout] count_of_refc [OF layout])
  have so: "sorted_wrt (<) (map key_of (y # rst))"
    using Cons.prems(1) unfolding position_def chain_def tl_whole(1) [of pre x "ds @ y # rst"] by (simp add: sorted_wrt_append)
  consider (above) "sint key < sint k" | (deleted) "\<not> sint key < sint k" "c = 0" | (pass) "k \<noteq> key" "sint k < sint key" "0 < c" | (hit) "k = key" "0 < c"
    by (metis linorder_less_linear signed_word_eqI gr0I)
  then show ?case
  proof cases
    case above
    have "cnt (y # rst) key = 0" by (rule cnt_above [OF so]) (use above y in simp)
    with body above r(3) show ?thesis unfolding cnt_position [OF Cons.prems(1)] by (simp add: n)
  next
    case deleted
    have "run (t2_KeepPrev m fuel e (v\<lparr>v_curr := start rst z\<rparr>)) s = Done (int (cnt (List.tl (pre @ x # (ds @ [(l, k, 0)]) @ rst)) key)) s"
      by (rule Cons.IH [OF position_skip [OF pos [unfolded deleted(2)]]]) (use Cons.prems(2) n in simp)
    with body step deleted r(2,3) show ?thesis by (simp add: n y)
  next
    case pass
    have "run (t2_KeepPrev m fuel e (v\<lparr>v_prev := l, v_prevNext := w, v_curr := start rst z\<rparr>)) s =
        Done (int (cnt (List.tl ((pre @ x # ds) @ (l, k, c) # [] @ rst)) key)) s"
      by (rule Cons.IH [OF position_pass [OF pos pass(2,3) w(1)]]) (use Cons.prems(2) n in simp)
    with body step pass r(2,3) show ?thesis by (simp add: n y)
  next
    case hit
    have "cnt (List.tl (pre @ x # ds @ y # rst)) key = c"
      using position_cnt [OF pos [unfolded hit(1)], of c] unfolding y hit(1) by (metis fun_upd_same)
    with body step hit r(2,3) show ?thesis by (simp add: n)
  qed
qed

text \<open>A call of the function on a well-formed list, for any operation.\<close>

lemma t2_handle_run:
  assumes ok: "ok (need (e_flag e) b) F s" and li: "list_ok L s h z es" and dj: "insert h (insert z (locs es)) \<inter> F = {}"
    and e: "env_ok e z key" "e_head e = h" "e_restart e = restart_head L h" "e_note e = (\<lambda>_ k. k)"
    and fuel: "2 ^ (arrNum L + idxNum L) \<le> fuel"
    and max: "e_flag e = RECORD \<Longrightarrow> cnt es key < 2 ^ refNum L - 1"
  shows "\<exists>t. run (t2_handle_records fuel e) s = Done (int (op_count (e_flag e) (cnt es key))) t \<and>
    list_outcome b F s h z es ((cnt es)(key := op_count (e_flag e) (cnt es key))) t"
proof (cases "e_flag e = SEARCH")
  case False
  obtain f where f: "fuel = Suc f" using list_length [OF li] fuel by (cases fuel) auto
  from handle_run [OF ok li dj e(1,2) fuel max] t2_same [OF e(3,4) False, of f s] show ?thesis by (simp add: f)
next
  case True
  obtain k c where ch: "chain L s z ((h, k, c) # es)" using li by (auto simp: list_ok_def)
  then obtain w where w: "view h s = Some (w, k)" "refc L w = c" "seg L s (loc_of L w) es z" "0 < c"
    by (auto simp: chain_def)
  have lay: "e_layout e = L" using e(1) by (simp add: env_ok_def)
  let ?v = "\<lparr>v_my = None, v_localN = 0, v_removed = False, v_prev = h, v_prevNext = w, v_curr = loc_of L w\<rparr>"
  have pos: "position L s z (sint key) [] (h, k, c) [] es ?v"
    using ch w(1,4) seg_start [OF w(3)] by (simp add: position_def)
  have len: "length es < fuel" using list_length [OF li] fuel by simp
  obtain r where "rget h s = Some r" "r_nextRecord r = w" using w(1) by (auto simp: view_Some)
  with t2_search_run [OF pos e(1) True len, of fuel]
  have "run (t2_handle_records fuel e) s = Done (int (cnt es key)) s"
    by (simp add: t2_handle_records_def e(2) lay del: t2_KeepPrev.simps)
  moreover have "list_outcome b F s h z es (cnt es) s"
    unfolding list_outcome_def using li ok True dj keeps_mono [OF keeps_refl, of "insert h (locs es \<union> F)" s]
    by (intro exI [of _ es] exI [of _ F]) simp
  ultimately show ?thesis using True by (simp add: op_count_def)
qed

end

end
