(* ===== verification/OtherMaps.thy ===== *)
theory OtherMaps
  imports EarlyMap HazardLong LateSearch
begin

text \<open>
  Three more files with the list of \<^verbatim>\<open>mayijin/lockfreePro.c\<close> or a variant of it, all in
  \<^verbatim>\<open>fast/fast64bitversion/hazardP\<close>: the header \<^verbatim>\<open>struct/hazard_new.h\<close> (prefix \<open>hn\<close>), a macro whose
  field widths and number of lists its user chooses; \<^verbatim>\<open>simple64T2.c\<close> (\<open>t2\<close>), with the loop of
  \<^verbatim>\<open>LateSearch\<close> and 512 lists; and \<^verbatim>\<open>compare_LockFreeList/locklong.c\<close> (\<open>ll\<close>), which keeps the
  predecessors of \<^verbatim>\<open>PrevsList\<close> in an array of its own on every call. The iteration counters the
  first and the last print a line for are left out.
\<close>

unbundle bit_operations_syntax

section \<open>\<^verbatim>\<open>struct/hazard_new.h\<close>\<close>

definition hn_get_Record :: "layout \<Rightarrow> nat \<Rightarrow> nat \<Rightarrow> ((32 word, 'z) map_pool_scheme, loc option) prog" where
  "hn_get_Record L fuel tid = get_Record fuel (idxNum L) (arrNum L) tid"

definition hn_return_Record :: "layout \<Rightarrow> nat \<Rightarrow> nat \<Rightarrow> loc \<Rightarrow> ((32 word, 'z) map_pool_scheme, unit) prog" where
  "hn_return_Record L fuel tid record = return_Record fuel (idxNum L) (arrNum L) tid record"

definition hn_handle_records :: "layout \<Rightarrow> nat \<Rightarrow> nat \<Rightarrow> 64 word \<Rightarrow> flag \<Rightarrow> loc \<Rightarrow> loc \<Rightarrow> ((32 word, 'z) map_pool_scheme, int) prog" where
  "hn_handle_records L fuel tid pointer flag head tail = handle_records fuel
     \<lparr>e_layout = L, e_head = head, e_tail = tail, e_pointer = pointer, e_flag = flag,
      e_get = hn_get_Record L fuel tid, e_return = hn_return_Record L fuel tid,
      e_restart = restart_head L head, e_note = (\<lambda>_ k. k)\<rparr>"

definition hn_psly_record :: "layout \<Rightarrow> nat \<Rightarrow> nat \<Rightarrow> nat \<Rightarrow> 64 word \<Rightarrow> ((32 word, 'z) map_pool_scheme, int) prog" where
  "hn_psly_record L listNum fuel tid pointer = ldp (\<lambda>s. lists s (bucket listNum pointer)) (\<lambda>(head, tail).
     hn_handle_records L fuel tid pointer RECORD head tail)"

definition hn_psly_remove :: "layout \<Rightarrow> nat \<Rightarrow> nat \<Rightarrow> nat \<Rightarrow> 64 word \<Rightarrow> ((32 word, 'z) map_pool_scheme, int) prog" where
  "hn_psly_remove L listNum fuel tid pointer = ldp (\<lambda>s. lists s (bucket listNum pointer)) (\<lambda>(head, tail).
     hn_handle_records L fuel tid pointer REMOVE head tail)"

definition hn_psly_search :: "layout \<Rightarrow> nat \<Rightarrow> nat \<Rightarrow> nat \<Rightarrow> 64 word \<Rightarrow> ((32 word, 'z) map_pool_scheme, int) prog" where
  "hn_psly_search L listNum fuel tid pointer = ldp (\<lambda>s. lists s (bucket listNum pointer)) (\<lambda>(head, tail).
     hn_handle_records L fuel tid pointer SEARCH head tail)"

definition hn_INIT :: "layout \<Rightarrow> nat \<Rightarrow> nat \<Rightarrow> nat \<Rightarrow> ((32 word, 'z) map_pool_scheme, unit) prog" where
  "hn_INIT L listNum fuel tid = st (init_pool (idxNum L) (arrNum L)) (init_lists L (hn_get_Record L fuel tid) [0..<listNum])"

definition hn_UNINIT :: "layout \<Rightarrow> nat \<Rightarrow> ('c, 'z) map_pool_scheme \<Rightarrow> ('c, 'z) map_pool_scheme" where
  "hn_UNINIT L listNum s = free_all (arrNum L) listNum s"

definition hn_op :: "layout \<Rightarrow> nat \<Rightarrow> nat \<Rightarrow> nat \<Rightarrow> flag \<Rightarrow> 64 word \<Rightarrow> ((32 word, 'z) map_pool_scheme, int) prog" where
  "hn_op L listNum fuel tid f p = (case f of RECORD \<Rightarrow> hn_psly_record L listNum fuel tid p
     | SEARCH \<Rightarrow> hn_psly_search L listNum fuel tid p | REMOVE \<Rightarrow> hn_psly_remove L listNum fuel tid p)"

lemma hn_same: "hn_op L N fuel tid = map_op L N fuel tid" "hn_INIT L N fuel tid = INIT_RESOURCE L N fuel tid"
proof -
  show "hn_op L N fuel tid = map_op L N fuel tid"
    by (intro ext) (simp add: hn_op_def hn_psly_record_def hn_psly_remove_def hn_psly_search_def map_op_on_list on_list_def
      hn_handle_records_def list_env_def hn_get_Record_def [abs_def] hn_return_Record_def [abs_def] split: flag.split)
  show "hn_INIT L N fuel tid = INIT_RESOURCE L N fuel tid"
    by (simp add: hn_INIT_def INIT_RESOURCE_def hn_get_Record_def)
qed

text \<open>What \<open>UNINIT_RESOURCE\<close> frees is there to be freed.\<close>

definition allocated :: "layout \<Rightarrow> nat \<Rightarrow> ('c, 'z) map_pool_scheme \<Rightarrow> bool" where
  "allocated L listNum s \<longleftrightarrow> (\<forall>a < 2 ^ arrNum L. Records s a \<noteq> None) \<and> (\<forall>i < listNum. lists s i \<noteq> None)"

lemma map_allocated: "map_ok lag L k b F E t \<Longrightarrow> allocated L (2 ^ k) t"
proof -
  assume m: "map_ok lag L k b F E t"
  then have "pro_ok lag L b F t" unfolding lists_ok_def by blast
  then obtain Q where Q: "pool_ok lag (idxNum L) (2 ^ arrNum L) Q t" unfolding pro_ok_def by blast
  have "Records t a \<noteq> None" if "a < 2 ^ arrNum L" for a
    using that Q free_queue_alloc [of lag "idxNum L" a "Q a" t 0] by (auto simp: pool_ok_def rget_def)
  moreover have "lists t i \<noteq> None" if "i < 2 ^ k" for i
  proof -
    from that have "i \<in> {..<2 ^ k}" by simp
    with m obtain h z where "lists t i = Some (h, z)" unfolding lists_ok_def by blast
    then show ?thesis by simp
  qed
  ultimately show ?thesis by (simp add: allocated_def)
qed

lemma hn_program:
  assumes "room L k (inserts ops)" and "2 ^ (arrNum L + idxNum L) \<le> fuel" and "length ops < 2 ^ refNum L"
  shows "\<exists>t. run (bind (hn_INIT L (2 ^ k) fuel tid) (\<lambda>_. script (hn_op L (2 ^ k) fuel tid) ops)) s = Done (counter ops (\<lambda>_. 0)) t \<and>
    allocated L (2 ^ k) t"
proof -
  have "room L k (0 + inserts ops)" using assms(1) by simp
  from program_run [OF this assms(2,3), of tid s] obtain t E F where
    t: "run (bind (INIT_RESOURCE L (2 ^ k) fuel tid) (\<lambda>_. script (map_op L (2 ^ k) fuel tid) ops)) s = Done (counter ops (\<lambda>_. 0)) t"
      "map_ok False L k 0 F E t" by blast
  from map_allocated [OF t(2)] t(1) show ?thesis unfolding hn_same by blast
qed

section \<open>\<^verbatim>\<open>simple64T2.c\<close>\<close>

definition t2_get_Record :: "nat \<Rightarrow> nat \<Rightarrow> ((32 word, 'z) map_pool_scheme, loc option) prog" where
  "t2_get_Record fuel tid = get_Record fuel 16 4 tid"

definition t2_return_Record :: "nat \<Rightarrow> nat \<Rightarrow> loc \<Rightarrow> ((32 word, 'z) map_pool_scheme, unit) prog" where
  "t2_return_Record fuel tid record = return_Record fuel 16 4 tid record"

definition t2_env :: "nat \<Rightarrow> nat \<Rightarrow> 64 word \<Rightarrow> flag \<Rightarrow> loc \<Rightarrow> loc \<Rightarrow> (32 word, 'z) map_pool_scheme env" where
  "t2_env fuel tid pointer flag head tail =
     \<lparr>e_layout = layout_map, e_head = head, e_tail = tail, e_pointer = pointer, e_flag = flag,
      e_get = t2_get_Record fuel tid, e_return = t2_return_Record fuel tid,
      e_restart = restart_head layout_map head, e_note = (\<lambda>_ k. k)\<rparr>"

definition t2_psly_record :: "nat \<Rightarrow> nat \<Rightarrow> 64 word \<Rightarrow> ((32 word, 'z) map_pool_scheme, int) prog" where
  "t2_psly_record fuel tid pointer = ldp (\<lambda>s. lists s (bucket 512 pointer)) (\<lambda>(head, tail).
     t2_handle_records fuel (t2_env fuel tid pointer RECORD head tail))"

definition t2_psly_remove :: "nat \<Rightarrow> nat \<Rightarrow> 64 word \<Rightarrow> ((32 word, 'z) map_pool_scheme, int) prog" where
  "t2_psly_remove fuel tid pointer = ldp (\<lambda>s. lists s (bucket 512 pointer)) (\<lambda>(head, tail).
     t2_handle_records fuel (t2_env fuel tid pointer REMOVE head tail))"

definition t2_psly_search :: "nat \<Rightarrow> nat \<Rightarrow> 64 word \<Rightarrow> ((32 word, 'z) map_pool_scheme, int) prog" where
  "t2_psly_search fuel tid pointer = ldp (\<lambda>s. lists s (bucket 512 pointer)) (\<lambda>(head, tail).
     t2_handle_records fuel (t2_env fuel tid pointer SEARCH head tail))"

definition t2_INIT :: "nat \<Rightarrow> nat \<Rightarrow> ((32 word, 'z) map_pool_scheme, unit) prog" where
  "t2_INIT fuel tid = st (init_pool 16 4) (init_lists layout_map (t2_get_Record fuel tid) [0..<512])"

definition t2_UNINIT :: "('c, 'z) map_pool_scheme \<Rightarrow> ('c, 'z) map_pool_scheme" where
  "t2_UNINIT s = free_all 4 512 s"

definition t2_op :: "nat \<Rightarrow> nat \<Rightarrow> flag \<Rightarrow> 64 word \<Rightarrow> ((32 word, 'z) map_pool_scheme, int) prog" where
  "t2_op fuel tid f p = (case f of RECORD \<Rightarrow> t2_psly_record fuel tid p
     | SEARCH \<Rightarrow> t2_psly_search fuel tid p | REMOVE \<Rightarrow> t2_psly_remove fuel tid p)"

lemma t2_op_handle: "lists s (bucket 512 p) = Some (h, z) \<Longrightarrow> run (t2_op fuel tid f p) s = run (t2_handle_records fuel (t2_env fuel tid p f h z)) s"
  by (simp add: t2_op_def t2_psly_record_def t2_psly_remove_def t2_psly_search_def split: flag.split)

lemma t2_env_list: "t2_env fuel tid = list_env layout_map fuel tid"
  by (intro ext) (simp add: t2_env_def list_env_def t2_get_Record_def t2_return_Record_def [abs_def] layout_map_def)

lemma t2_op_step:
  assumes m: "map_ok lag layout_map 9 (need f b) F E s" and c: "f = RECORD \<Longrightarrow> map_count 9 E p < 2 ^ refNum layout_map - 1"
    and fuel: "2 ^ 20 \<le> fuel"
  shows "\<exists>t E' F'. run (t2_op fuel tid f p) s = Done (int (op_count f (map_count 9 E p))) t \<and> map_ok lag layout_map 9 b F' E' t \<and>
    map_count 9 E' = (map_count 9 E)(p := op_count f (map_count 9 E p)) \<and> lists t = lists s \<and>
    (\<Union>i<2 ^ 9. nodes t E' i) \<union> F' = (\<Union>i<2 ^ 9. nodes s E i) \<union> F"
proof -
  obtain g where g: "fuel = Suc (Suc g)" using fuel_2 [OF fuel] by blast
  note L = layout_instances(2)
  have f: "2 ^ (arrNum layout_map + idxNum layout_map) \<le> fuel" using fuel by (simp add: layout_map_def)
  note P = record_pool_pro [OF L, where fuel = g and tid = tid and lag = lag, folded g]
  show ?thesis
  proof (rule record_map.list_step [OF record_map_pro [OF L, of 9, where fuel = g and tid = tid and lag = lag, folded g] m])
    fix h z
    assume a: "lists s (bucket (2 ^ 9) p) = Some (h, z)" "pro_ok lag layout_map (need f b) F s"
      "list_ok layout_map s h z (E (bucket (2 ^ 9) p))" "insert h (insert z (locs (E (bucket (2 ^ 9) p)))) \<inter> F = {}"
    note e = list_env_ok [OF L, where fuel = g and tid = tid and lag = lag and p = p and f = f and h = h and z = z, folded g]
    have "\<exists>t. run (t2_handle_records fuel (list_env layout_map fuel tid p f h z)) s
          = Done (int (op_count f (cnt (E (bucket (2 ^ 9) p)) p))) t \<and>
        record_pool.list_outcome layout_map (pro_ok lag layout_map) pool_keeps b F s h z (E (bucket (2 ^ 9) p))
          ((cnt (E (bucket (2 ^ 9) p)))(p := op_count f (cnt (E (bucket (2 ^ 9) p)) p))) t"
      using record_pool.t2_handle_run [OF P, where e = "list_env layout_map fuel tid p f h z" and b = b, OF _ a(3,4) conjunct1 [OF e] _ _ _ f]
        a(2) e c by (simp add: list_env_def mcnt_def)
    with a(1) show "\<exists>t. run (t2_op fuel tid f p) s = Done (int (op_count f (cnt (E (bucket (2 ^ 9) p)) p))) t \<and>
        record_pool.list_outcome layout_map (pro_ok lag layout_map) pool_keeps b F s h z (E (bucket (2 ^ 9) p))
          ((cnt (E (bucket (2 ^ 9) p)))(p := op_count f (cnt (E (bucket (2 ^ 9) p)) p))) t"
      by (simp add: t2_op_handle t2_env_list)
  qed simp
qed

lemma t2_program:
  assumes n: "length ops < 65536" and fuel: "2 ^ 20 \<le> fuel"
  shows "\<exists>t. run (bind (t2_INIT fuel tid) (\<lambda>_. script (t2_op fuel tid) ops)) s = Done (counter ops (\<lambda>_. 0)) t \<and>
    allocated layout_map 512 t"
proof -
  obtain g where g: "fuel = Suc (Suc g)" using fuel_2 [OF fuel] by blast
  have f: "2 ^ (arrNum layout_map + idxNum layout_map) \<le> fuel" using fuel by (simp add: layout_map_def)
  have r: "room layout_map 9 (0 + inserts ops)" using inserts_le [of ops] n layout_instances(2) by (simp add: room_def layout_map_def)
  have i: "t2_INIT fuel tid = INIT_RESOURCE layout_map (2 ^ 9) fuel tid"
    by (simp add: t2_INIT_def INIT_RESOURCE_def t2_get_Record_def layout_map_def)
  from init_map_run [OF r f] obtain s1 F where s: "run (t2_INIT fuel tid) s = Done () s1"
      "map_ok False layout_map 9 (0 + inserts ops) F (\<lambda>_. []) s1" unfolding i by blast
  have c: "map_count 9 (\<lambda>_. []) p + length ops < 2 ^ refNum layout_map" for p using n by (simp add: layout_map_def)
  have "\<exists>t E' F'. run (script (t2_op fuel tid) ops) s1 = Done (counter ops (map_count 9 (\<lambda>_. []))) t \<and>
      map_ok False layout_map 9 0 F' E' t \<and> map_count 9 E' = counter_end ops (map_count 9 (\<lambda>_. [])) \<and>
      (\<Union>i<2 ^ 9. nodes t E' i) \<union> F' = (\<Union>i<2 ^ 9. nodes s1 (\<lambda>_. []) i) \<union> F"
  proof (rule record_map.script_steps [OF record_map_pro [OF layout_instances(2), of 9, where fuel = g and tid = tid and lag = False, folded g] s(2) c])
    fix f p b F E and s :: "(32 word, 'a) map_pool_scheme"
    assume "map_ok False layout_map 9 (need f b) F E s" and "f = RECORD \<Longrightarrow> map_count 9 E p < 2 ^ refNum layout_map - 1"
    from t2_op_step [OF this fuel, of tid]
    show "\<exists>t E' F'. run (t2_op fuel tid f p) s = Done (int (op_count f (map_count 9 E p))) t \<and> map_ok False layout_map 9 b F' E' t \<and>
      map_count 9 E' = (map_count 9 E)(p := op_count f (map_count 9 E p)) \<and>
      (\<Union>i<2 ^ 9. nodes t E' i) \<union> F' = (\<Union>i<2 ^ 9. nodes s E i) \<union> F" by blast
  qed simp
  then obtain t E' F' where t: "run (script (t2_op fuel tid) ops) s1 = Done (counter ops (\<lambda>_. 0)) t" "map_ok False layout_map 9 0 F' E' t"
    unfolding mcnt_empty by blast
  from map_allocated [OF t(2)] s(1) t(1) show ?thesis by auto
qed

section \<open>\<^verbatim>\<open>compare_LockFreeList/locklong.c\<close>\<close>

text \<open>The array \<open>prevs_\<close> and \<open>steps\<close> are variables of the call: every call starts with them empty. They are
  those of \<^verbatim>\<open>PrevsList\<close> under the number of the calling thread, which runs one call at a time. A record is
  noted only where its place holds another one.\<close>

definition ll_start :: "nat \<Rightarrow> ('c, 'z) prevs_map_scheme \<Rightarrow> ('c, 'z) prevs_map_scheme" where
  "ll_start tid s = s\<lparr>prevs := (prevs s)(tid := (\<lambda>i. if int i < MAXPREV then (None, 0) else prevs s tid i)),
     steps := (steps s)(tid := 0)\<rparr>"

definition ll_note :: "nat \<Rightarrow> locals \<Rightarrow> (('c, 'z) prevs_map_scheme, int) prog \<Rightarrow> (('c, 'z) prevs_map_scheme, int) prog" where
  "ll_note tid v k =
    ld (\<lambda>s. steps s tid) (\<lambda>st0.
    let bkt = drop_bit STEPBIT st0 in
    if st0 AND STEPMASK = 0 \<and> bkt < MAXPREV then
      ld (\<lambda>s. prevs s tid (nat bkt)) (\<lambda>(r, rNext).
      if r \<noteq> Some (v_prev v) then
        stp (set_prev tid bkt (Some (v_prev v), v_prevNext v)) (st (add_steps tid 1) k)
      else st (add_steps tid 1) k)
    else st (add_steps tid 1) k)"

definition ll_get_Record :: "nat \<Rightarrow> nat \<Rightarrow> ((32 word, 'z) prevs_map_scheme, loc option) prog" where
  "ll_get_Record fuel tid = get_Record fuel 16 6 tid"

definition ll_return_Record :: "nat \<Rightarrow> nat \<Rightarrow> loc \<Rightarrow> ((32 word, 'z) prevs_map_scheme, unit) prog" where
  "ll_return_Record fuel tid record = return_Record fuel 16 6 tid record"

definition ll_env :: "nat \<Rightarrow> nat \<Rightarrow> 64 word \<Rightarrow> flag \<Rightarrow> loc \<Rightarrow> loc \<Rightarrow> (32 word, 'z) prevs_map_scheme env" where
  "ll_env fuel tid pointer flag head tail =
     \<lparr>e_layout = layout_pro, e_head = head, e_tail = tail, e_pointer = pointer, e_flag = flag,
      e_get = ll_get_Record fuel tid, e_return = ll_return_Record fuel tid,
      e_restart = restart_prevs fuel tid layout_pro, e_note = ll_note tid\<rparr>"

definition ll_handle_records :: "nat \<Rightarrow> nat \<Rightarrow> 64 word \<Rightarrow> flag \<Rightarrow> loc \<Rightarrow> loc \<Rightarrow> ((32 word, 'z) prevs_map_scheme, int) prog" where
  "ll_handle_records fuel tid pointer flag head tail =
     st (ll_start tid) (handle_records fuel (ll_env fuel tid pointer flag head tail))"

definition ll_psly_record :: "nat \<Rightarrow> nat \<Rightarrow> 64 word \<Rightarrow> ((32 word, 'z) prevs_map_scheme, int) prog" where
  "ll_psly_record fuel tid pointer = ldp (\<lambda>s. lists s (bucket 65536 pointer)) (\<lambda>(head, tail).
     ll_handle_records fuel tid pointer RECORD head tail)"

definition ll_psly_remove :: "nat \<Rightarrow> nat \<Rightarrow> 64 word \<Rightarrow> ((32 word, 'z) prevs_map_scheme, int) prog" where
  "ll_psly_remove fuel tid pointer = ldp (\<lambda>s. lists s (bucket 65536 pointer)) (\<lambda>(head, tail).
     ll_handle_records fuel tid pointer REMOVE head tail)"

definition ll_psly_search :: "nat \<Rightarrow> nat \<Rightarrow> 64 word \<Rightarrow> ((32 word, 'z) prevs_map_scheme, int) prog" where
  "ll_psly_search fuel tid pointer = ldp (\<lambda>s. lists s (bucket 65536 pointer)) (\<lambda>(head, tail).
     ll_handle_records fuel tid pointer SEARCH head tail)"

definition ll_INIT :: "nat \<Rightarrow> nat \<Rightarrow> ((32 word, 'z) prevs_map_scheme, unit) prog" where
  "ll_INIT fuel tid = st (init_pool 16 6) (init_lists layout_pro (ll_get_Record fuel tid) [0..<65536])"

definition ll_UNINIT :: "nat \<Rightarrow> ('c, 'z) pool_scheme \<Rightarrow> bool option" where
  "ll_UNINIT num s = map_option (\<lambda>count. count + num + 65536 * 2 \<noteq> 2 ^ (16 + 6)) (count_free 16 s [0..<2 ^ 6])"

definition ll_op :: "nat \<Rightarrow> nat \<Rightarrow> flag \<Rightarrow> 64 word \<Rightarrow> ((32 word, 'z) prevs_map_scheme, int) prog" where
  "ll_op fuel tid f p = (case f of RECORD \<Rightarrow> ll_psly_record fuel tid p
     | SEARCH \<Rightarrow> ll_psly_search fuel tid p | REMOVE \<Rightarrow> ll_psly_remove fuel tid p)"

interpretation ll: cached_records layout_pro "get_Record (Suc (Suc u)) 16 6 tid :: ((32 word, 'z) prevs_map_scheme, loc option) prog"
  "return_Record (Suc (Suc u)) 16 6 tid" "pro_ok lag layout_pro" tid for u tid lag
  using cached_records_pro [OF layout_instances(1), where u = u and tid = tid and lag = lag] by (simp add: layout_pro_def)

abbreviation ll_map_ok :: "nat \<Rightarrow> nat \<Rightarrow> loc set \<Rightarrow> (nat \<Rightarrow> entry list) \<Rightarrow> (32 word, 'z) prevs_map_scheme \<Rightarrow> bool" where
  "ll_map_ok tid b \<equiv> lists_ok layout_pro (ll.ok' False tid b) {..<2 ^ 16}"

lemma ll_map: "record_map layout_pro (get_Record (Suc (Suc u)) 16 6 tid :: ((32 word, 'z) prevs_map_scheme, loc option) prog)
    (return_Record (Suc (Suc u)) 16 6 tid) (ll.ok' False tid) map_keeps (bucket (2 ^ 16)) (2 ^ 16)"
  by (rule ll.serves_map) (rule bucket_lt, simp)

lemma ll_note_run:
  assumes "ll.ok' False tid b F s"
  shows "\<exists>t. run (ll_note tid v k) s = run k t \<and> map_keeps {} s t \<and> ll.ok' False tid b F t"
  using assms unfolding ll.ok'_def ll_note_def
  by (auto simp: Let_def set_prev_def add_steps_def map_keeps_updates ll.cache_ok split: prod.split)

lemma ll_env_ok: "ll.env_ok u tid False (ll_env (Suc (Suc u)) tid p f h z) z p \<and>
    e_head (ll_env (Suc (Suc u)) tid p f h z) = h \<and> e_flag (ll_env (Suc (Suc u)) tid p f h z) = f"
  unfolding ll.env_ok_def
  by (simp add: ll_env_def ll_get_Record_def ll_return_Record_def [abs_def]) (blast intro: ll_note_run)

lemma ll_start_ok: "ll.ok' False tid b F s \<Longrightarrow> map_keeps {} s (ll_start tid s) \<and> ll.ok' False tid b F (ll_start tid s)"
  by (simp add: ll.ok'_def ll_start_def map_keeps_updates ll.cache_ok)

lemma ll_program:
  assumes n: "length ops < 65536" and fuel: "2 ^ 22 \<le> fuel" and st: "steps s tid = 0"
  shows "\<exists>t num. run (bind (ll_INIT fuel tid) (\<lambda>_. script (ll_op fuel tid) ops)) s = Done (counter ops (\<lambda>_. 0)) t \<and>
    count_lists fuel layout_pro t [0..<65536] = Some num \<and> ll_UNINIT num t = Some False"
proof -
  obtain g where g: "fuel = Suc (Suc g)" using fuel_2 [of fuel] fuel by auto
  note R = ll_map [where u = g and tid = tid, folded g]
  have f: "2 ^ (arrNum layout_pro + idxNum layout_pro) \<le> fuel" using fuel by (simp add: layout_pro_def)
  have all: "free_set 6 (\<lambda>_. [0..<2 ^ 16]) = all_records layout_pro" using all_records_free [of layout_pro] by (simp add: layout_pro_def)
  let ?s = "init_pool 16 6 s"
  have r: "room layout_pro 16 (0 + inserts ops)" using inserts_le [of ops] n by (intro pro_room) simp
  have "pool_ok False (idxNum layout_pro) (2 ^ arrNum layout_pro) (\<lambda>_. [0..<2 ^ idxNum layout_pro]) ?s"
    using init_pool_lists [of 16 False 6 s] by (simp add: layout_pro_def)
  from empty_map_ok [OF r this]
  have "lists_ok layout_pro (ll.ok' False tid (0 + inserts ops + 2 * length [0..<2 ^ 16])) {} (all_records layout_pro) (\<lambda>_. []) ?s"
    using st by (simp add: lists_ok_def ll.ok'_def init_pool_def)
  from record_map.init_run [OF R this] obtain s1 F where
    s1: "run (ll_INIT fuel tid) s = Done () s1" "ll_map_ok tid (0 + inserts ops) F (\<lambda>_. []) s1"
      "(\<Union>i<2 ^ 16. nodes s1 (\<lambda>_. []) i) \<union> F = all_records layout_pro"
    by (auto simp: ll_INIT_def ll_get_Record_def lessThan_atLeast0)
  have c: "map_count 16 (\<lambda>_. []) p + length ops < 2 ^ refNum layout_pro" for p using n by (simp add: layout_pro_def)
  have o: "run (ll_op fuel tid f p) s = run (handle_records fuel (ll_env fuel tid p f h z)) (ll_start tid s)"
    if "lists s (bucket (2 ^ 16) p) = Some (h, z)" for f p h z and s :: "(32 word, 'a) prevs_map_scheme"
    using that by (simp add: ll_op_def ll_psly_record_def ll_psly_remove_def ll_psly_search_def ll_handle_records_def split: flag.split)
  from record_map.script_run [where mk = "\<lambda>f p. ll_env fuel tid p f" and pre = "ll_start tid", OF R s1(2) f c o ll_start_ok
      ll_env_ok [where u = g, folded g]] s1(1,3) obtain t E F' where
    t: "run (bind (ll_INIT fuel tid) (\<lambda>_. script (ll_op fuel tid) ops)) s = Done (counter ops (\<lambda>_. 0)) t"
      "ll_map_ok tid 0 F' E t" "(\<Union>i<2 ^ 16. nodes t E i) \<union> F' = all_records layout_pro"
    by (auto simp: mcnt_empty)
  have "map_ok False layout_pro 16 0 F' E t" using t(2) by (simp add: lists_ok_def ll.ok'_def)
  from leak_check [OF this t(3) f] t(1) show ?thesis by (auto simp: ll_UNINIT_def UNINIT_RESOURCE_def layout_pro_def)
qed

section \<open>The three maps\<close>

text \<open>C30: the maps of the three files return what a counter of keys returns, for any sequence of calls from
  \<open>INIT_RESOURCE\<close> on that is shorter than the largest count: the header for every layout and number of
  lists its records have room for, \<^verbatim>\<open>simple64T2.c\<close> and \<^verbatim>\<open>locklong.c\<close> for fewer than 65536 calls. At the end
  the arrays and lists that \<open>UNINIT_RESOURCE\<close> of the first two frees are all allocated, and the leak
  check of the third passes.\<close>

theorem other_maps_count:
  assumes "length ops < 65536" and "2 ^ 22 \<le> fuel" and "steps v tid = 0"
    and "room L k (inserts ops)" and "2 ^ (arrNum L + idxNum L) \<le> fuel" and "length ops < 2 ^ refNum L"
  shows "(\<exists>t. run (bind (hn_INIT L (2 ^ k) fuel tid) (\<lambda>_. script (hn_op L (2 ^ k) fuel tid) ops)) s = Done (counter ops (\<lambda>_. 0)) t \<and>
      allocated L (2 ^ k) t) \<and>
    (\<exists>t. run (bind (t2_INIT fuel tid) (\<lambda>_. script (t2_op fuel tid) ops)) u = Done (counter ops (\<lambda>_. 0)) t \<and> allocated layout_map 512 t) \<and>
    (\<exists>t num. run (bind (ll_INIT fuel tid) (\<lambda>_. script (ll_op fuel tid) ops)) v = Done (counter ops (\<lambda>_. 0)) t \<and>
      count_lists fuel layout_pro t [0..<65536] = Some num \<and> ll_UNINIT num t = Some False)"
proof (intro conjI)
  have "2 ^ 20 \<le> fuel" using assms(2) by simp
  then show "\<exists>t. run (bind (t2_INIT fuel tid) (\<lambda>_. script (t2_op fuel tid) ops)) u = Done (counter ops (\<lambda>_. 0)) t \<and> allocated layout_map 512 t"
    by (rule t2_program [OF assms(1)])
qed (rule hn_program [OF assms(4-6)], rule ll_program [OF assms(1-3)])

theorem other_maps_count_witness:
  "(\<exists>t. run (bind (hn_INIT layout_pro (2 ^ 16) (2 ^ 22) 0) (\<lambda>_. script (hn_op layout_pro (2 ^ 16) (2 ^ 22) 0) [(RECORD, 7), (SEARCH, 7)])) empty_map
      = Done [1, 1] t) \<and>
    (\<exists>t. run (bind (ll_INIT (2 ^ 22) 0) (\<lambda>_. script (ll_op (2 ^ 22) 0) [(RECORD, 7), (SEARCH, 7)])) (passed_two\<lparr>steps := \<lambda>_. 0\<rparr>) = Done [1, 1] t)"
proof -
  have r: "room layout_pro 16 (inserts [(RECORD, 7), (SEARCH, 7)])" by (rule pro_room) simp
  show ?thesis
    using other_maps_count [OF _ _ _ r, where fuel = "2 ^ 22" and tid = 0 and s = empty_map and v = "passed_two\<lparr>steps := \<lambda>_. 0\<rparr>"]
    by (fastforce simp: op_count_def layout_pro_def)
qed

end
