(* ===== verification/SlowQueue.thy ===== *)
theory SlowQueue
  imports QueueNodes
begin

text \<open>
  \<^verbatim>\<open>hazardpointerslow.c\<close>: the queue whose threads keep their two hazard pointers in their records.
  A thread that retires a node walks the list of all records, notes what they protect and frees
  its retired nodes that are not among it; then it looks for records left by finished threads
  and takes over their retired nodes. The lists of retired and of noted nodes, which only one
  thread uses at a time, are HOL lists.
\<close>

section \<open>State\<close>

record srec =
  s_HP :: "nat \<Rightarrow> addr"
  s_next :: "nat option"
  s_Active :: bool
  s_rcount :: int
  s_list :: "addr list"

record slowq =
  sq_mem :: node_heap
  sq_Head :: addr
  sq_Tail :: addr
  sq_H :: int
  sq_recs :: "srec list"
  sq_head :: "nat option"
  sq_my :: "nat \<Rightarrow> nat option"
  sq_num :: "32 word"

record slow_cfg =
  sc_malloc :: "node_heap \<Rightarrow> addr"
  sc_flagRet :: bool

definition SLOW_K :: int where "SLOW_K = 2"

definition SLOW_THRESHOLD :: int where "SLOW_THRESHOLD = 1"

definition srec_at :: "nat \<Rightarrow> slowq \<Rightarrow> srec option" where
  "srec_at r s = (if r < length (sq_recs s) then Some (sq_recs s ! r) else None)"

definition srec_upd :: "nat \<Rightarrow> (srec \<Rightarrow> srec) \<Rightarrow> slowq \<Rightarrow> slowq option" where
  "srec_upd r f s = map_option (\<lambda>h. s\<lparr>sq_recs := (sq_recs s)[r := f h]\<rparr>) (srec_at r s)"

definition snode_upd :: "addr \<Rightarrow> (node \<Rightarrow> node) \<Rightarrow> slowq \<Rightarrow> slowq option" where
  "snode_upd a f s = map_option (\<lambda>n. s\<lparr>sq_mem := (sq_mem s)(a \<mapsto> f n)\<rparr>) (sq_mem s a)"

definition snode_free :: "addr \<Rightarrow> slowq \<Rightarrow> slowq option" where
  "snode_free a s = map_option (\<lambda>_. s\<lparr>sq_mem := (sq_mem s)(a := None)\<rparr>) (sq_mem s a)"

abbreviation rd_srec :: "(srec \<Rightarrow> 'v) \<Rightarrow> nat \<Rightarrow> ('v \<Rightarrow> (slowq, 'a) prog) \<Rightarrow> (slowq, 'a) prog" where
  "rd_srec f r k \<equiv> ldp (\<lambda>s. map_option f (srec_at r s)) k"

abbreviation rd_snode :: "(node \<Rightarrow> 'v) \<Rightarrow> addr \<Rightarrow> ('v \<Rightarrow> (slowq, 'a) prog) \<Rightarrow> (slowq, 'a) prog" where
  "rd_snode f a k \<equiv> ldp (\<lambda>s. map_option f (sq_mem s a)) k"

abbreviation st_HP :: "nat \<Rightarrow> nat \<Rightarrow> addr \<Rightarrow> (slowq, 'a) prog \<Rightarrow> (slowq, 'a) prog" where
  "st_HP r j a k \<equiv> stp (srec_upd r (\<lambda>h. h\<lparr>s_HP := (s_HP h)(j := a)\<rparr>)) k"

definition with_srec :: "nat \<Rightarrow> (nat \<Rightarrow> (slowq, 'a) prog) \<Rightarrow> (slowq, 'a) prog" where
  "with_srec tid k = ldp (\<lambda>s. sq_my s tid) k"

section \<open>The records of the threads\<close>

fun slow_find :: "nat \<Rightarrow> nat option \<Rightarrow> (nat option \<Rightarrow> (slowq, unit) prog) \<Rightarrow> (slowq, unit) prog" where
  "slow_find 0 local k = Spin"
| "slow_find (Suc fuel) None k = k None"
| "slow_find (Suc fuel) (Some r) k =
    rd_srec s_Active r (\<lambda>active.
    let go = rd_srec s_next r (\<lambda>n. slow_find fuel n k) in
    if active then go else
    casp (\<lambda>s. map_option s_Active (srec_at r s)) False (\<lambda>s. the (srec_upd r (\<lambda>h. h\<lparr>s_Active := True\<rparr>) s)) (\<lambda>ok.
    if ok then k (Some r) else go))"

fun slow_add_H :: "nat \<Rightarrow> (slowq, unit) prog \<Rightarrow> (slowq, unit) prog" where
  "slow_add_H 0 k = Spin"
| "slow_add_H (Suc fuel) k =
    ld sq_H (\<lambda>oldCount.
    cas (\<lambda>s. sq_H s = oldCount) (\<lambda>s. s\<lparr>sq_H := oldCount + SLOW_K\<rparr>) (\<lambda>ok. if ok then k else slow_add_H fuel k))"

fun slow_push :: "nat \<Rightarrow> nat \<Rightarrow> (slowq, unit) prog \<Rightarrow> (slowq, unit) prog" where
  "slow_push 0 r k = Spin"
| "slow_push (Suc fuel) r k =
    ld sq_head (\<lambda>oldHead.
    stp (srec_upd r (\<lambda>h. h\<lparr>s_next := oldHead\<rparr>)) (
    cas (\<lambda>s. sq_head s = oldHead) (\<lambda>s. s\<lparr>sq_head := Some r\<rparr>) (\<lambda>ok. if ok then k else slow_push fuel r k)))"

text \<open>The fields of a new record are written before it is reachable: one action.\<close>

definition new_srec :: srec where
  "new_srec = \<lparr>s_HP = (\<lambda>_. 0), s_next = None, s_Active = True, s_rcount = 0, s_list = []\<rparr>"

definition slow_allocateHPRec :: "nat \<Rightarrow> nat \<Rightarrow> (slowq, unit) prog" where
  "slow_allocateHPRec fuel tid =
    ld sq_head (\<lambda>local.
    slow_find fuel local (\<lambda>found. case found of
      Some r \<Rightarrow> st (\<lambda>s. s\<lparr>sq_my := (sq_my s)(tid \<mapsto> r)\<rparr>) (Ret ())
    | None \<Rightarrow>
      slow_add_H fuel (
      fetch (\<lambda>s. length (sq_recs s)) (\<lambda>s. s\<lparr>sq_recs := sq_recs s @ [new_srec]\<rparr>) (\<lambda>r.
      slow_push fuel r (
      st (\<lambda>s. s\<lparr>sq_my := (sq_my s)(tid \<mapsto> r)\<rparr>) (Ret ()))))))"

definition slow_retireHPrec :: "nat \<Rightarrow> (slowq, unit) prog" where
  "slow_retireHPrec tid = with_srec tid (\<lambda>r.
    st_HP r 0 0 (
    st_HP r 1 0 (
    stp (srec_upd r (\<lambda>h. h\<lparr>s_Active := False\<rparr>)) (Ret ()))))"

section \<open>Retired nodes\<close>

text \<open>What the records from \<open>hprec\<close> on protect, the own record left out.\<close>

fun slow_collect :: "nat \<Rightarrow> nat \<Rightarrow> nat option \<Rightarrow> addr list \<Rightarrow> (addr list \<Rightarrow> (slowq, 'a) prog) \<Rightarrow> (slowq, 'a) prog" where
  "slow_collect 0 my hprec plist k = Spin"
| "slow_collect (Suc fuel) my None plist k = k plist"
| "slow_collect (Suc fuel) my (Some r) plist k =
    (if r \<noteq> my then
      rd_srec (\<lambda>h. s_HP h 0) r (\<lambda>p. let plist = (if p \<noteq> 0 then p # plist else plist) in
      rd_srec (\<lambda>h. s_HP h 1) r (\<lambda>p. let plist = (if p \<noteq> 0 then p # plist else plist) in
      rd_srec s_next r (\<lambda>n. slow_collect fuel my n plist k)))
    else rd_srec s_next r (\<lambda>n. slow_collect fuel my n plist k))"

definition drop_at :: "nat \<Rightarrow> 'a list \<Rightarrow> 'a list" where
  "drop_at i l = take i l @ drop (Suc i) l"

fun slow_sweep :: "nat \<Rightarrow> nat \<Rightarrow> nat \<Rightarrow> addr list \<Rightarrow> (slowq, 'a) prog \<Rightarrow> (slowq, 'a) prog" where
  "slow_sweep 0 my i plist k = Spin"
| "slow_sweep (Suc fuel) my i plist k =
    rd_srec s_list my (\<lambda>rList.
    if i < length rList then
      if rList ! i \<in> set plist then slow_sweep fuel my (i + 1) plist k
      else
        stp (srec_upd my (\<lambda>h. h\<lparr>s_list := drop_at i (s_list h)\<rparr>)) (
        stp (snode_free (rList ! i)) (
        slow_sweep fuel my i plist k))
    else k)"

definition slow_scan :: "nat \<Rightarrow> nat \<Rightarrow> nat option \<Rightarrow> (slowq, 'a) prog \<Rightarrow> (slowq, 'a) prog" where
  "slow_scan fuel my local k =
    st (\<lambda>s. s\<lparr>sq_num := sq_num s + 1\<rparr>) (
    slow_collect fuel my local [] (\<lambda>plist. slow_sweep fuel my 0 plist k))"

text \<open>A retired node goes to the front of the list.\<close>

definition slow_add :: "nat \<Rightarrow> addr \<Rightarrow> (slowq, 'a) prog \<Rightarrow> (slowq, 'a) prog" where
  "slow_add my node k =
    rd_srec s_list my (\<lambda>l.
    stp (srec_upd my (\<lambda>h. h\<lparr>s_list := node # l\<rparr>)) (
    rd_srec s_rcount my (\<lambda>rcount.
    stp (srec_upd my (\<lambda>h. h\<lparr>s_rcount := rcount + 1\<rparr>)) k)))"

fun slow_take_over :: "nat \<Rightarrow> addr list \<Rightarrow> (slowq, 'a) prog \<Rightarrow> (slowq, 'a) prog" where
  "slow_take_over my [] k = k"
| "slow_take_over my (node # hpList) k = slow_add my node (slow_take_over my hpList k)"

fun slow_helpScan :: "nat \<Rightarrow> nat \<Rightarrow> nat option \<Rightarrow> (slowq, 'a) prog \<Rightarrow> (slowq, 'a) prog" where
  "slow_helpScan 0 my hprec k = Spin"
| "slow_helpScan (Suc fuel) my None k = k"
| "slow_helpScan (Suc fuel) my (Some r) k =
    rd_srec s_Active r (\<lambda>active.
    let go = rd_srec s_next r (\<lambda>n. slow_helpScan fuel my n k) in
    if active then go else
    casp (\<lambda>s. map_option s_Active (srec_at r s)) False (\<lambda>s. the (srec_upd r (\<lambda>h. h\<lparr>s_Active := True\<rparr>) s)) (\<lambda>ok.
    if \<not> ok then go else
    rd_srec s_list r (\<lambda>hpList.
    slow_take_over my hpList (
    rd_srec s_rcount my (\<lambda>rcount.
    let finish = stp (srec_upd r (\<lambda>h. h\<lparr>s_Active := False\<rparr>)) go in
    if SLOW_THRESHOLD \<le> rcount then ld sq_head (\<lambda>head. slow_scan fuel my head finish) else finish)))))"

definition slow_retireNode :: "nat \<Rightarrow> nat \<Rightarrow> addr \<Rightarrow> (slowq, unit) prog" where
  "slow_retireNode fuel my node =
    slow_add my node (
    ld sq_head (\<lambda>local.
    rd_srec s_rcount my (\<lambda>rcount.
    if SLOW_THRESHOLD \<le> rcount then
      slow_scan fuel my local (ld sq_head (\<lambda>hprec. slow_helpScan fuel my hprec (Ret ())))
    else Ret ())))"

section \<open>The queue\<close>

definition slow_new_node :: "slow_cfg \<Rightarrow> 32 word \<Rightarrow> (addr \<Rightarrow> (slowq, 'a) prog) \<Rightarrow> (slowq, 'a) prog" where
  "slow_new_node c value k =
    fetch (\<lambda>s. sc_malloc c (sq_mem s))
      (\<lambda>s. if sc_malloc c (sq_mem s) = 0 then s else s\<lparr>sq_mem := (sq_mem s)(sc_malloc c (sq_mem s) \<mapsto> \<lparr>n_value = 0, n_next = 0\<rparr>)\<rparr>) (\<lambda>node.
    stp (snode_upd node (\<lambda>n. n\<lparr>n_value := value\<rparr>)) (
    stp (snode_upd node (\<lambda>n. n\<lparr>n_next := 0\<rparr>)) (k node)))"

fun slow_enqueue_loop :: "nat \<Rightarrow> nat \<Rightarrow> addr \<Rightarrow> (slowq, addr) prog" where
  "slow_enqueue_loop 0 r node = Spin"
| "slow_enqueue_loop (Suc fuel) r node =
    ld sq_Tail (\<lambda>t.
    st_HP r 0 t (
    ld sq_Tail (\<lambda>t'.
    if t' \<noteq> t then slow_enqueue_loop fuel r node else
    rd_snode n_next t (\<lambda>next.
    ld sq_Tail (\<lambda>t'.
    if t' \<noteq> t then slow_enqueue_loop fuel r node else
    if next \<noteq> 0 then cas (\<lambda>s. sq_Tail s = t) (\<lambda>s. s\<lparr>sq_Tail := next\<rparr>) (\<lambda>_. slow_enqueue_loop fuel r node) else
    casp (\<lambda>s. map_option n_next (sq_mem s t)) 0 (\<lambda>s. the (snode_upd t (\<lambda>n. n\<lparr>n_next := node\<rparr>) s)) (\<lambda>ok.
    if ok then Ret t else slow_enqueue_loop fuel r node))))))"

definition slow_enqueue :: "slow_cfg \<Rightarrow> nat \<Rightarrow> nat \<Rightarrow> 32 word \<Rightarrow> (slowq, unit) prog" where
  "slow_enqueue c fuel tid value =
    with_srec tid (\<lambda>r.
    slow_new_node c value (\<lambda>node.
    bind (slow_enqueue_loop fuel r node) (\<lambda>t.
    cas (\<lambda>s. sq_Tail s = t) (\<lambda>s. s\<lparr>sq_Tail := node\<rparr>) (\<lambda>_.
    st_HP r 0 0 (Ret ())))))"

fun slow_dequeue_loop :: "nat \<Rightarrow> nat \<Rightarrow> (slowq, (32 word \<times> addr) option) prog" where
  "slow_dequeue_loop 0 r = Spin"
| "slow_dequeue_loop (Suc fuel) r =
    ld sq_Head (\<lambda>h.
    st_HP r 0 h (
    ld sq_Head (\<lambda>h'.
    if h' \<noteq> h then slow_dequeue_loop fuel r else
    ld sq_Tail (\<lambda>t.
    rd_snode n_next h (\<lambda>next.
    st_HP r 1 next (
    ld sq_Head (\<lambda>h'.
    if h' \<noteq> h then slow_dequeue_loop fuel r else
    if next = 0 then Ret None else
    if h = t then cas (\<lambda>s. sq_Tail s = t) (\<lambda>s. s\<lparr>sq_Tail := next\<rparr>) (\<lambda>_. slow_dequeue_loop fuel r) else
    rd_snode n_value next (\<lambda>data.
    cas (\<lambda>s. sq_Head s = h) (\<lambda>s. s\<lparr>sq_Head := next\<rparr>) (\<lambda>ok.
    if ok then Ret (Some (data, h)) else slow_dequeue_loop fuel r)))))))))"

definition slow_dequeue :: "slow_cfg \<Rightarrow> nat \<Rightarrow> nat \<Rightarrow> (slowq, 32 word) prog" where
  "slow_dequeue c fuel tid =
    with_srec tid (\<lambda>r.
    bind (slow_dequeue_loop fuel r) (\<lambda>res. case res of None \<Rightarrow> Ret EMPTY
     | Some (data, h) \<Rightarrow>
       st_HP r 0 0 (
       st_HP r 1 0 (
       if sc_flagRet c then bind (slow_retireNode fuel r h) (\<lambda>_. Ret data) else Ret data))))"

definition slow_thread_routine :: "slow_cfg \<Rightarrow> nat \<Rightarrow> nat \<Rightarrow> nat \<Rightarrow> (slowq, 32 word list) prog" where
  "slow_thread_routine c fuel tid argv =
    bind (slow_allocateHPRec fuel tid) (\<lambda>_.
    bind (enqueue_all (slow_enqueue c fuel tid) (map of_nat [100..<100 + argv])) (\<lambda>_.
    dequeue_all fuel (slow_dequeue c fuel tid) []))"

end
