(* ===== verification/GhostRely.thy ===== *)
theory GhostRely
  imports Prelude
begin

text \<open>
  Rely/guarantee reasoning with auxiliary variables. An assertion speaks of a pair: auxiliary state
  that only the proof sees, and the memory the code works on. Each action of the code may be
  accompanied by any change of the auxiliary state; the code itself is not instrumented, since
  \<open>gsafe\<close> only asks that such a change exists.
\<close>

section \<open>Bodies with auxiliary variables\<close>

type_synonym ('g, 's) pair_rel = "'g \<times> 's \<Rightarrow> 'g \<times> 's \<Rightarrow> bool"

inductive gsafe :: "('g, 's) pair_rel \<Rightarrow> ('g, 's) pair_rel \<Rightarrow> ('a \<Rightarrow> 'g \<times> 's \<Rightarrow> bool) \<Rightarrow> ('g \<times> 's \<Rightarrow> bool) \<Rightarrow> ('s, 'a) prog \<Rightarrow> bool"
  for R G Q where
  gsafe_Ret: "rg_stable R P \<Longrightarrow> (\<And>x. P x \<Longrightarrow> Q a x) \<Longrightarrow> gsafe R G Q P (Ret a)"
| gsafe_Spin: "rg_stable R P \<Longrightarrow> gsafe R G Q P Spin"
| gsafe_absurd: "(\<And>x. \<not> P x) \<Longrightarrow> gsafe R G Q P p"
| gsafe_Act: "rg_stable R P \<Longrightarrow>
    (\<And>g s. P (g, s) \<Longrightarrow> \<exists>g' P'. G (g, s) (g', fst (f s)) \<and> P' (g', fst (f s)) \<and> gsafe R G Q P' (snd (f s))) \<Longrightarrow>
    gsafe R G Q P (Act f)"

inductive_cases gsafe_RetE: "gsafe R G Q P (Ret a)"
inductive_cases gsafe_ActE: "gsafe R G Q P (Act f)"
inductive_cases gsafe_CrashE: "gsafe R G Q P Crash"
inductive_cases gsafe_ExitE: "gsafe R G Q P (Exit n)"

lemma gsafe_stable: "gsafe R G Q P p \<Longrightarrow> rg_stable R P"
  by (induction rule: gsafe.cases) (auto simp: rg_stable_def)

subsection \<open>The primitives\<close>

lemma gsafe_ld:
  assumes "rg_stable R P" and "\<And>g s. P (g, s) \<Longrightarrow> \<exists>g'. G (g, s) (g', s) \<and> P' (f s) (g', s)" and "\<And>v. gsafe R G Q (P' v) (k v)"
  shows "gsafe R G Q P (ld f k)"
  unfolding ld_def
proof (rule gsafe_Act [OF assms(1)])
  fix g s assume "P (g, s)"
  with assms(2) obtain g' where "G (g, s) (g', s)" "P' (f s) (g', s)" by blast
  with assms(3) [of "f s"] show "\<exists>g' P'. G (g, s) (g', fst (s, k (f s))) \<and> P' (g', fst (s, k (f s))) \<and> gsafe R G Q P' (snd (s, k (f s)))" by auto
qed

lemma gsafe_st:
  assumes "rg_stable R P" and "\<And>g s. P (g, s) \<Longrightarrow> \<exists>g'. G (g, s) (g', u s) \<and> P' (g', u s)" and "gsafe R G Q P' k"
  shows "gsafe R G Q P (st u k)"
  unfolding st_def
proof (rule gsafe_Act [OF assms(1)])
  fix g s assume "P (g, s)"
  with assms(2) obtain g' where "G (g, s) (g', u s)" "P' (g', u s)" by blast
  with assms(3) show "\<exists>g' P'. G (g, s) (g', fst (u s, k)) \<and> P' (g', fst (u s, k)) \<and> gsafe R G Q P' (snd (u s, k))" by auto
qed

lemma gsafe_cas:
  assumes "rg_stable R P" and "\<And>g s. P (g, s) \<Longrightarrow> c s \<Longrightarrow> \<exists>g'. G (g, s) (g', u s) \<and> PT (g', u s)"
    and "\<And>g s. P (g, s) \<Longrightarrow> \<not> c s \<Longrightarrow> \<exists>g'. G (g, s) (g', s) \<and> PF (g', s)"
    and "gsafe R G Q PT (k True)" and "gsafe R G Q PF (k False)"
  shows "gsafe R G Q P (cas c u k)"
  unfolding cas_def
proof (rule gsafe_Act [OF assms(1)])
  fix g s assume p: "P (g, s)"
  show "\<exists>g' P'. G (g, s) (g', fst (if c s then (u s, k True) else (s, k False))) \<and>
      P' (g', fst (if c s then (u s, k True) else (s, k False))) \<and> gsafe R G Q P' (snd (if c s then (u s, k True) else (s, k False)))"
  proof (cases "c s")
    case True
    with assms(2) p obtain g' where "G (g, s) (g', u s)" "PT (g', u s)" by blast
    with True assms(4) show ?thesis by (intro exI [of _ g'] exI [of _ PT]) simp
  next
    case False
    with assms(3) p obtain g' where "G (g, s) (g', s)" "PF (g', s)" by blast
    with False assms(5) show ?thesis by (intro exI [of _ g'] exI [of _ PF]) simp
  qed
qed

lemma gsafe_fetch:
  assumes "rg_stable R P" and "\<And>g s. P (g, s) \<Longrightarrow> \<exists>g'. G (g, s) (g', u s) \<and> P' (f s) (g', u s)" and "\<And>v. gsafe R G Q (P' v) (k v)"
  shows "gsafe R G Q P (fetch f u k)"
  unfolding fetch_def
proof (rule gsafe_Act [OF assms(1)])
  fix g s assume "P (g, s)"
  with assms(2) obtain g' where "G (g, s) (g', u s)" "P' (f s) (g', u s)" by blast
  with assms(3) [of "f s"] show "\<exists>g' P'. G (g, s) (g', fst (u s, k (f s))) \<and> P' (g', fst (u s, k (f s))) \<and> gsafe R G Q P' (snd (u s, k (f s)))" by auto
qed

lemma gsafe_ldp:
  assumes "rg_stable R P" and "\<And>g s. P (g, s) \<Longrightarrow> \<exists>v g'. f s = Some v \<and> G (g, s) (g', s) \<and> P' v (g', s)"
    and "\<And>v. gsafe R G Q (P' v) (k v)"
  shows "gsafe R G Q P (ldp f k)"
  unfolding ldp_def
proof (rule gsafe_Act [OF assms(1)])
  fix g s assume "P (g, s)"
  with assms(2) obtain v g' where "f s = Some v" "G (g, s) (g', s)" "P' v (g', s)" by blast
  with assms(3) [of v] show "\<exists>g' P'. G (g, s) (g', fst (case f s of None \<Rightarrow> (s, Crash) | Some v \<Rightarrow> (s, k v))) \<and>
      P' (g', fst (case f s of None \<Rightarrow> (s, Crash) | Some v \<Rightarrow> (s, k v))) \<and>
      gsafe R G Q P' (snd (case f s of None \<Rightarrow> (s, Crash) | Some v \<Rightarrow> (s, k v)))" by auto
qed

lemma gsafe_stp:
  assumes "rg_stable R P" and "\<And>g s. P (g, s) \<Longrightarrow> \<exists>t g'. u s = Some t \<and> G (g, s) (g', t) \<and> P' (g', t)"
    and "gsafe R G Q P' k"
  shows "gsafe R G Q P (stp u k)"
  unfolding stp_def
proof (rule gsafe_Act [OF assms(1)])
  fix g s assume "P (g, s)"
  with assms(2) obtain t g' where "u s = Some t" "G (g, s) (g', t)" "P' (g', t)" by blast
  with assms(3) show "\<exists>g' P'. G (g, s) (g', fst (case u s of None \<Rightarrow> (s, Crash) | Some t \<Rightarrow> (t, k))) \<and>
      P' (g', fst (case u s of None \<Rightarrow> (s, Crash) | Some t \<Rightarrow> (t, k))) \<and>
      gsafe R G Q P' (snd (case u s of None \<Rightarrow> (s, Crash) | Some t \<Rightarrow> (t, k)))" by auto
qed

lemma gsafe_casp:
  assumes "rg_stable R P" and "\<And>g s. P (g, s) \<Longrightarrow> f s \<noteq> None"
    and "\<And>g s. P (g, s) \<Longrightarrow> f s = Some old \<Longrightarrow> \<exists>g'. G (g, s) (g', u s) \<and> PT (g', u s)"
    and "\<And>g s v. P (g, s) \<Longrightarrow> f s = Some v \<Longrightarrow> v \<noteq> old \<Longrightarrow> \<exists>g'. G (g, s) (g', s) \<and> PF (g', s)"
    and "gsafe R G Q PT (k True)" and "gsafe R G Q PF (k False)"
  shows "gsafe R G Q P (casp f old u k)"
  unfolding casp_def
proof (rule gsafe_Act [OF assms(1)])
  fix g s assume p: "P (g, s)"
  let ?r = "case f s of None \<Rightarrow> (s, Crash) | Some v \<Rightarrow> if v = old then (u s, k True) else (s, k False)"
  from assms(2) [OF p] obtain v where v: "f s = Some v" by blast
  show "\<exists>g' P'. G (g, s) (g', fst ?r) \<and> P' (g', fst ?r) \<and> gsafe R G Q P' (snd ?r)"
  proof (cases "v = old")
    case True
    with assms(3) [OF p] v obtain g' where "G (g, s) (g', u s)" "PT (g', u s)" by blast
    with True v assms(5) show ?thesis by (intro exI [of _ g'] exI [of _ PT]) simp
  next
    case False
    with assms(4) [OF p v] obtain g' where "G (g, s) (g', s)" "PF (g', s)" by blast
    with False v assms(6) show ?thesis by (intro exI [of _ g'] exI [of _ PF]) simp
  qed
qed

subsection \<open>Assertions\<close>

lemma gsafe_pure: "(\<phi> \<Longrightarrow> gsafe R G Q P p) \<Longrightarrow> gsafe R G Q (\<lambda>x. \<phi> \<and> P x) p"
  by (cases \<phi>) (auto intro: gsafe_absurd)

lemma gsafe_pre:
  assumes "gsafe R G Q P p" and "rg_stable R P'" and "\<And>x. P' x \<Longrightarrow> P x"
  shows "gsafe R G Q P' p"
  using assms(1)
proof (cases rule: gsafe.cases)
  case gsafe_Ret
  with assms show ?thesis by (auto intro: gsafe.gsafe_Ret)
next
  case gsafe_Spin
  with assms show ?thesis by (auto intro: gsafe.gsafe_Spin)
next
  case gsafe_absurd
  with assms(3) show ?thesis by (blast intro: gsafe.gsafe_absurd)
next
  case (gsafe_Act f)
  from gsafe_Act(3) assms(3) show ?thesis unfolding gsafe_Act(1) by (intro gsafe.gsafe_Act [OF assms(2)]) blast
qed

lemma gsafe_post:
  assumes "gsafe R G M P p" and "\<And>a x. M a x \<Longrightarrow> Q a x"
  shows "gsafe R G Q P p"
  using assms(1)
proof (induction rule: gsafe.induct)
  case (gsafe_Act P f)
  show ?case
  proof (rule gsafe.gsafe_Act [OF gsafe_Act.hyps(1)])
    fix g s assume "P (g, s)"
    with gsafe_Act.IH show "\<exists>g' P'. G (g, s) (g', fst (f s)) \<and> P' (g', fst (f s)) \<and> gsafe R G Q P' (snd (f s))" by blast
  qed
qed (auto intro: gsafe.intros simp: assms(2))

lemma gsafe_ex:
  assumes "\<And>v. gsafe R G Q (P v) p"
  shows "gsafe R G Q (\<lambda>x. \<exists>v. P v x) p"
proof -
  have st: "rg_stable R (\<lambda>x. \<exists>v. P v x)" using gsafe_stable [OF assms] unfolding rg_stable_def by blast
  show ?thesis
  proof (cases p)
    case (Ret a)
    with assms st show ?thesis by (auto intro!: gsafe_Ret elim: gsafe_RetE)
  next
    case (Act f)
    show ?thesis
      unfolding Act
    proof (rule gsafe_Act [OF st])
      fix g s assume "\<exists>v. P v (g, s)"
      then obtain v where "P v (g, s)" ..
      with assms [of v] Act show "\<exists>g' P'. G (g, s) (g', fst (f s)) \<and> P' (g', fst (f s)) \<and> gsafe R G Q P' (snd (f s))"
        by (auto elim: gsafe_ActE)
    qed
  next
    case Spin
    with st show ?thesis by (auto intro: gsafe_Spin)
  next
    case (Exit n)
    with assms show ?thesis by (auto intro!: gsafe_absurd elim: gsafe_ExitE)
  next
    case Crash
    with assms show ?thesis by (auto intro!: gsafe_absurd elim: gsafe_CrashE)
  qed
qed

lemma gsafe_bind:
  assumes "gsafe R G M P p" and "\<And>a. gsafe R G Q (M a) (k a)"
  shows "gsafe R G Q P (bind p k)"
  using assms(1)
proof (induction rule: gsafe.induct)
  case (gsafe_Ret P a)
  then show ?case using assms(2) [of a] by (auto intro: gsafe_pre)
next
  case (gsafe_Act P f)
  show ?case
    unfolding bind.simps
  proof (rule gsafe.gsafe_Act [OF gsafe_Act.hyps(1)])
    fix g s
    assume "P (g, s)"
    with gsafe_Act.IH [of g s]
    show "\<exists>g' P'. G (g, s) (g', fst (map_prod id (\<lambda>g. g k) (map_prod id bind (f s)))) \<and>
       P' (g', fst (map_prod id (\<lambda>g. g k) (map_prod id bind (f s)))) \<and>
       gsafe R G Q P' (snd (map_prod id (\<lambda>g. g k) (map_prod id bind (f s))))"
      by (cases "f s") auto
  qed
qed (auto intro: gsafe.intros)

section \<open>Composition over all threads\<close>

locale ghost_rely_guarantee =
  fixes R :: "nat \<Rightarrow> ('g, 's) pair_rel" and G :: "nat \<Rightarrow> ('g, 's) pair_rel"
  assumes compatible: "i \<noteq> j \<Longrightarrow> G j x y \<Longrightarrow> R i x y"
begin

definition gthread_ok :: "('a \<Rightarrow> 'g \<times> 's \<Rightarrow> bool) \<Rightarrow> nat \<Rightarrow> 'g \<times> 's \<Rightarrow> ('s, 'a) prog \<Rightarrow> bool" where
  "gthread_ok Q i x p \<longleftrightarrow> (\<exists>P. P x \<and> gsafe (R i) (G i) Q P p)"

lemma gthread_ok_env: "gthread_ok Q i x p \<Longrightarrow> R i x y \<Longrightarrow> gthread_ok Q i y p"
  unfolding gthread_ok_def by (blast dest: gsafe_stable [unfolded rg_stable_def])

lemma gthread_ok_step:
  assumes "gthread_ok Q i (g, s) p"
  shows "(\<exists>g'. G i (g, s) (g', fst (step_of p s)) \<and> gthread_ok Q i (g', fst (step_of p s)) (snd (step_of p s))) \<or> step_of p s = (s, p)"
proof -
  from assms obtain P where P: "P (g, s)" "gsafe (R i) (G i) Q P p" by (auto simp: gthread_ok_def)
  show ?thesis
  proof (cases p)
    case (Act f)
    with P(2) have "gsafe (R i) (G i) Q P (Act f)" by simp
    from this P(1) show ?thesis unfolding Act gthread_ok_def by (cases rule: gsafe_ActE) auto
  qed auto
qed

text \<open>An invariant that every thread's steps keep holds in every reachable state.\<close>

lemma gsched_step_inv:
  assumes ok: "\<And>i. i < length ts \<Longrightarrow> gthread_ok (Q i) i (g, s) (ts ! i)" and step: "sched_step j (s, ts) = (s', ts')"
    and I: "I (g, s)" and keep: "\<And>i x y. G i x y \<Longrightarrow> I x \<Longrightarrow> I y"
  shows "\<exists>g'. I (g', s') \<and> (\<forall>i < length ts. gthread_ok (Q i) i (g', s') (ts' ! i))"
proof (cases "j < length ts")
  case False
  with step ok I show ?thesis by (auto simp: sched_step_def)
next
  case True
  from gthread_ok_step [OF ok [OF True]] consider
      (act) g' where "G j (g, s) (g', fst (step_of (ts ! j) s))"
        "gthread_ok (Q j) j (g', fst (step_of (ts ! j) s)) (snd (step_of (ts ! j) s))"
    | (idle) "step_of (ts ! j) s = (s, ts ! j)" by blast
  then show ?thesis
  proof cases
    case act
    have eq: "s' = fst (step_of (ts ! j) s)" "ts' = ts[j := snd (step_of (ts ! j) s)]"
      using step True by (auto simp: sched_step_def split: prod.splits)
    have "gthread_ok (Q i) i (g', s') (ts' ! i)" if i: "i < length ts" for i
    proof (cases "i = j")
      case True
      with act eq i show ?thesis by simp
    next
      case False
      with compatible [OF False act(1)] ok [OF i] eq show ?thesis by (auto intro: gthread_ok_env)
    qed
    with keep [OF act(1) I] eq(1) show ?thesis by blast
  next
    case idle
    with step True ok I show ?thesis by (auto simp: sched_step_def)
  qed
qed

lemma gexec_inv:
  assumes "\<And>i. i < length ts \<Longrightarrow> gthread_ok (Q i) i (g, s) (ts ! i)" and "exec sch (s, ts) = (s', ts')"
    and "I (g, s)" and keep: "\<And>i x y. G i x y \<Longrightarrow> I x \<Longrightarrow> I y"
  shows "\<exists>g'. I (g', s') \<and> (\<forall>i < length ts. gthread_ok (Q i) i (g', s') (ts' ! i))"
  using assms(1-3)
proof (induction sch arbitrary: g s ts)
  case Nil
  then show ?case by auto
next
  case (Cons j sch)
  obtain s1 ts1 where c: "sched_step j (s, ts) = (s1, ts1)" by fastforce
  have len: "length ts1 = length ts" using sched_step_length [of j "(s, ts)"] c by simp
  from gsched_step_inv [where Q = Q and I = I, OF Cons.prems(1) c Cons.prems(3)] keep obtain g1 where
    g1: "I (g1, s1)" "\<forall>i < length ts. gthread_ok (Q i) i (g1, s1) (ts1 ! i)" by metis
  then have "\<And>i. i < length ts1 \<Longrightarrow> gthread_ok (Q i) i (g1, s1) (ts1 ! i)" by (simp add: len)
  from Cons.IH [OF this _ g1(1)] Cons.prems(2) c len show ?case by simp
qed

lemma gthread_no_crash: "gthread_ok Q i x p \<Longrightarrow> p \<noteq> Crash \<and> p \<noteq> Exit n"
  by (auto simp: gthread_ok_def elim: gsafe_CrashE gsafe_ExitE)

lemma gthread_returned: "gthread_ok Q i x (Ret a) \<Longrightarrow> Q a x"
  by (auto simp: gthread_ok_def elim: gsafe_RetE)

end

end
