(* ===== verification/SlowInv.thy ===== *)
theory SlowInv
  imports SlowQueue GhostRely
begin

text \<open>
  The invariant under which the threads of \<^verbatim>\<open>hazardpointerslow.c\<close> run at the same time, and what each
  kind of step does to it and to the other threads. The auxiliary state says where each node is
  (in the queue, new in the hands of a thread, or unlinked by a thread and not freed yet),
  which nodes a thread has made sure of (\<open>vouch\<close>: after it published the node it saw it in the
  queue), and what was queued and taken so far.
\<close>

section \<open>Auxiliary state\<close>

datatype place = Nowhere | InQueue | Fresh nat | Limbo nat

record ghost =
  gq :: "(addr \<times> 32 word) list"
  place_of :: "addr \<Rightarrow> place"
  vouch :: "nat \<Rightarrow> nat \<Rightarrow> addr"
  grec :: "nat \<Rightarrow> nat option"
  gchain :: "nat list"
  enqs :: "(nat \<times> 32 word) list"
  deqs :: "(nat \<times> 32 word) list"
  credit :: "nat \<Rightarrow> nat"
  closed :: "nat set"

abbreviation in_limbo :: "ghost \<Rightarrow> addr \<Rightarrow> bool" where
  "in_limbo g a \<equiv> \<exists>k. place_of g a = Limbo k"

section \<open>The invariant\<close>

text \<open>The list of the records, all of them active.\<close>

fun links :: "slowq \<Rightarrow> nat option \<Rightarrow> nat list \<Rightarrow> bool" where
  "links s p [] = (p = None)"
| "links s p (r # rs) = (p = Some r \<and> (\<exists>h. srec_at r s = Some h \<and> s_Active h \<and> links s (s_next h) rs))"

definition heap_inv :: "ghost \<Rightarrow> slowq \<Rightarrow> bool" where
  "heap_inv g s \<longleftrightarrow> queue_ok (sq_mem s) (sq_Head s) (sq_Tail s) (gq g) \<and>
     (\<forall>a. place_of g a = Nowhere \<longleftrightarrow> sq_mem s a = None) \<and> (\<forall>a. place_of g a = InQueue \<longleftrightarrow> a \<in> fst ` set (gq g)) \<and>
     place_of g 0 = Nowhere \<and> (\<forall>a n. in_limbo g a \<longrightarrow> sq_mem s a = Some n \<longrightarrow> n_next n \<noteq> 0)"

definition log_inv :: "ghost \<Rightarrow> bool" where
  "log_inv g \<longleftrightarrow> map snd (enqs g) = map snd (deqs g) @ queue_values (gq g) \<and> EMPTY \<notin> snd ` set (enqs g)"

definition vouch_inv :: "ghost \<Rightarrow> slowq \<Rightarrow> bool" where
  "vouch_inv g s \<longleftrightarrow> (\<forall>k j. vouch g k j \<noteq> 0 \<longrightarrow> j < 2 \<and>
     (\<exists>r h. sq_my s k = Some r \<and> srec_at r s = Some h \<and> s_HP h j = vouch g k j) \<and>
     (place_of g (vouch g k j) = InQueue \<or> in_limbo g (vouch g k j)))"

definition recs_inv :: "ghost \<Rightarrow> slowq \<Rightarrow> bool" where
  "recs_inv g s \<longleftrightarrow> links s (sq_head s) (gchain g) \<and> (\<forall>k r. sq_my s k = Some r \<longrightarrow> grec g k = Some r \<and> r \<in> set (gchain g)) \<and>
     (\<forall>k r. grec g k = Some r \<longrightarrow> (\<exists>h. srec_at r s = Some h \<and> distinct (s_list h) \<and> (\<forall>a \<in> set (s_list h). place_of g a = Limbo k))) \<and>
     (\<forall>k k' r. grec g k = Some r \<longrightarrow> grec g k' = Some r \<longrightarrow> k = k')"

text \<open>What thread \<open>i\<close> contributed to a log.\<close>

definition mine :: "nat \<Rightarrow> (nat \<times> 32 word) list \<Rightarrow> 32 word list" where
  "mine i l = map snd (filter (\<lambda>x. fst x = i) l)"

text \<open>\<open>T ! k\<close> lists the numbers thread \<open>k\<close> is to queue; \<open>N\<close> nodes may be allocated at the same time.
  A thread is closed once it found the queue empty after it had queued all its numbers.\<close>

definition room_inv :: "nat \<Rightarrow> 32 word list list \<Rightarrow> ghost \<Rightarrow> slowq \<Rightarrow> bool" where
  "room_inv N T g s \<longleftrightarrow> card (dom (sq_mem s)) + (\<Sum>k<length T. credit g k) \<le> N \<and>
     (\<forall>x \<in> set (enqs g) \<union> set (deqs g). fst x < length T) \<and> (\<forall>k<length T. \<exists>ws. T ! k = mine k (enqs g) @ ws) \<and>
     (\<forall>k \<in> closed g. k < length T \<and> mine k (enqs g) = T ! k) \<and> ({..<length T} \<subseteq> closed g \<longrightarrow> queue_values (gq g) = [])"

definition sinv :: "nat \<Rightarrow> 32 word list list \<Rightarrow> ghost \<times> slowq \<Rightarrow> bool" where
  "sinv N T x \<longleftrightarrow> (case x of (g, s) \<Rightarrow> heap_inv g s \<and> log_inv g \<and> vouch_inv g s \<and> recs_inv g s \<and> room_inv N T g s)"

section \<open>What other threads leave alone\<close>

text \<open>A node a thread has made sure of: it stays allocated, its value and its successor stay, and the
  head and the tail do not come back to it.\<close>

definition node_kept :: "addr \<Rightarrow> ghost \<times> slowq \<Rightarrow> ghost \<times> slowq \<Rightarrow> bool" where
  "node_kept a x y \<longleftrightarrow> (case (x, y) of ((g, s), (g', s')) \<Rightarrow>
     (\<exists>n n'. sq_mem s a = Some n \<and> sq_mem s' a = Some n' \<and> n_value n' = n_value n \<and> (n_next n \<noteq> 0 \<longrightarrow> n_next n' = n_next n)) \<and>
     (in_limbo g a \<longrightarrow> in_limbo g' a) \<and>
     (sq_Head s = a \<longrightarrow> sq_Head s' = a \<or> in_limbo g' a) \<and>
     (sq_Head s = a \<and> sq_Head s' = a \<and> sq_Tail s \<noteq> a \<longrightarrow> sq_Tail s' \<noteq> a))"

definition spares :: "nat \<Rightarrow> ghost \<times> slowq \<Rightarrow> ghost \<times> slowq \<Rightarrow> bool" where
  "spares i x y \<longleftrightarrow> (case (x, y) of ((g, s), (g', s')) \<Rightarrow>
     sq_my s' i = sq_my s i \<and> grec g' i = grec g i \<and> credit g' i = credit g i \<and> vouch g' i = vouch g i \<and>
     mine i (enqs g') = mine i (enqs g) \<and> mine i (deqs g') = mine i (deqs g) \<and>
     (\<forall>r. grec g i = Some r \<longrightarrow> srec_at r s' = srec_at r s) \<and>
     (\<forall>a. place_of g a = Fresh i \<longrightarrow> place_of g' a = Fresh i \<and> sq_mem s' a = sq_mem s a) \<and>
     (\<forall>a. place_of g a = Limbo i \<longrightarrow> place_of g' a = Limbo i \<and> (\<forall>k j. vouch g' k j = a \<longrightarrow> vouch g k j = a)) \<and>
     (\<forall>j. vouch g i j \<noteq> 0 \<longrightarrow> node_kept (vouch g i j) x y) \<and>
     (\<exists>pre. gchain g' = pre @ gchain g \<and> (\<forall>r. grec g i = Some r \<longrightarrow> r \<notin> set pre)) \<and>
     (\<forall>k r. sq_my s k = Some r \<longrightarrow> sq_my s' k = Some r) \<and> (i \<in> closed g' \<longleftrightarrow> i \<in> closed g))"

definition slow_R :: "nat \<Rightarrow> 32 word list list \<Rightarrow> nat \<Rightarrow> (ghost, slowq) pair_rel" where
  "slow_R N T i x y \<longleftrightarrow> (sinv N T x \<longrightarrow> sinv N T y \<and> spares i x y)"

definition slow_G :: "nat \<Rightarrow> 32 word list list \<Rightarrow> nat \<Rightarrow> (ghost, slowq) pair_rel" where
  "slow_G N T i x y \<longleftrightarrow> (sinv N T x \<longrightarrow> sinv N T y \<and> (\<forall>k. k \<noteq> i \<longrightarrow> spares k x y))"

interpretation slow: ghost_rely_guarantee "slow_R N T" "slow_G N T" for N T
  by unfold_locales (auto simp: slow_R_def slow_G_def)

subsection \<open>Consequences\<close>

lemma vouch_alloc: "heap_inv g s \<Longrightarrow> vouch_inv g s \<Longrightarrow> vouch g k j \<noteq> 0 \<Longrightarrow> \<exists>n. sq_mem s (vouch g k j) = Some n"
  unfolding heap_inv_def vouch_inv_def by (metis not_Some_eq place.distinct(1,5))

lemma node_kept_refl: "heap_inv g s \<Longrightarrow> vouch_inv g s \<Longrightarrow> vouch g k j \<noteq> 0 \<Longrightarrow> node_kept (vouch g k j) (g, s) (g, s)"
  using vouch_alloc [of g s k j] by (auto simp: node_kept_def)

lemma spares_refl: "sinv N T x \<Longrightarrow> spares k x x"
  by (cases x) (auto simp: sinv_def spares_def node_kept_refl)

lemma slow_G_refl: "slow_G N T i x x"
  by (simp add: slow_G_def spares_refl)

lemma links_at: "links s p rs \<Longrightarrow> r \<in> set rs \<Longrightarrow> \<exists>h. srec_at r s = Some h \<and> s_Active h"
  by (induction rs arbitrary: p) auto

lemma links_cong: "(\<And>r. r \<in> set rs \<Longrightarrow> map_option (\<lambda>h. (s_next h, s_Active h)) (srec_at r t) = map_option (\<lambda>h. (s_next h, s_Active h)) (srec_at r s)) \<Longrightarrow>
    links s p rs \<Longrightarrow> links t p rs"
proof (induction rs arbitrary: p)
  case (Cons r rs)
  then obtain h where h: "p = Some r" "srec_at r s = Some h" "s_Active h" "links s (s_next h) rs" by auto
  from Cons.prems(1) [of r] h(2) obtain h' where "srec_at r t = Some h'" "s_next h' = s_next h" "s_Active h' = s_Active h" by auto
  moreover have "links t (s_next h) rs" by (rule Cons.IH [OF _ h(4)]) (use Cons.prems(1) in auto)
  ultimately show ?case using h(1,3) by auto
qed simp

definition ptr :: "nat list \<Rightarrow> nat option" where
  "ptr rs = (case rs of [] \<Rightarrow> None | r # _ \<Rightarrow> Some r)"

lemma ptr_simps [simp]: "ptr [] = None" "ptr (r # rs) = Some r"
  by (simp_all add: ptr_def)

lemma links_ptr: "links s p rs \<Longrightarrow> p = ptr rs"
  by (cases rs) auto

lemma links_append: "links s p (pre @ rs) \<Longrightarrow> links s (ptr rs) rs"
  by (induction pre arbitrary: p) (auto dest: links_ptr)

section \<open>The steps\<close>

lemma slow_GI:
  assumes "heap_inv g s \<Longrightarrow> log_inv g \<Longrightarrow> vouch_inv g s \<Longrightarrow> recs_inv g s \<Longrightarrow> room_inv N T g s \<Longrightarrow>
      heap_inv g' s' \<and> log_inv g' \<and> vouch_inv g' s' \<and> recs_inv g' s' \<and> room_inv N T g' s' \<and> (\<forall>k. k \<noteq> i \<longrightarrow> spares k (g, s) (g', s'))"
  shows "slow_G N T i (g, s) (g', s')"
  using assms unfolding slow_G_def sinv_def by auto

lemma sparesI:
  assumes "sq_my s' i = sq_my s i" and "grec g' i = grec g i" and "credit g' i = credit g i" and "vouch g' i = vouch g i"
    and "mine i (enqs g') = mine i (enqs g)" and "mine i (deqs g') = mine i (deqs g)"
    and "\<And>r. grec g i = Some r \<Longrightarrow> srec_at r s' = srec_at r s"
    and "\<And>a. place_of g a = Fresh i \<Longrightarrow> place_of g' a = Fresh i \<and> sq_mem s' a = sq_mem s a"
    and "\<And>a. place_of g a = Limbo i \<Longrightarrow> place_of g' a = Limbo i"
    and "\<forall>a. place_of g a = Limbo i \<longrightarrow> (\<forall>k j. vouch g' k j = a \<longrightarrow> vouch g k j = a)"
    and "\<And>j. vouch g i j \<noteq> 0 \<Longrightarrow> node_kept (vouch g i j) (g, s) (g', s')"
    and "\<exists>pre. gchain g' = pre @ gchain g \<and> (\<forall>r. grec g i = Some r \<longrightarrow> r \<notin> set pre)"
    and "\<And>k r. sq_my s k = Some r \<Longrightarrow> sq_my s' k = Some r" and "i \<in> closed g' \<longleftrightarrow> i \<in> closed g"
  shows "spares i (g, s) (g', s')"
  unfolding spares_def prod.case using assms by blast

subsection \<open>A thread works on its own record\<close>

lemma srec_at_own: "srec_at r s = Some h \<Longrightarrow>
    srec_at q (s\<lparr>sq_recs := (sq_recs s)[r := h']\<rparr>) = (if q = r then Some h' else srec_at q s)"
  by (auto simp: srec_at_def split: if_splits)

lemma srec_at_updates [simp]:
  "srec_at r (s\<lparr>sq_mem := m\<rparr>) = srec_at r s" "srec_at r (s\<lparr>sq_Head := a\<rparr>) = srec_at r s" "srec_at r (s\<lparr>sq_Tail := a\<rparr>) = srec_at r s"
  "srec_at r (s\<lparr>sq_num := w\<rparr>) = srec_at r s" "srec_at r (s\<lparr>sq_my := f\<rparr>) = srec_at r s" "srec_at r (s\<lparr>sq_head := p\<rparr>) = srec_at r s"
  "srec_at r (s\<lparr>sq_H := j\<rparr>) = srec_at r s"
  by (simp_all add: srec_at_def)

lemma own_step:
  assumes "grec g i = Some r" and "srec_at r s = Some h" and "r \<in> set (gchain g) \<Longrightarrow> s_next h' = s_next h \<and> s_Active h' = s_Active h"
    and "distinct (s_list h')" and "\<forall>a \<in> set (s_list h'). place_of g a = Limbo i"
    and w: "\<And>j. w j \<noteq> 0 \<Longrightarrow> j < 2 \<and> sq_my s i = Some r \<and> s_HP h' j = w j \<and> (w j = vouch g i j \<or> place_of g (w j) = InQueue)"
  shows "slow_G N T i (g, s) (g\<lparr>vouch := (vouch g)(i := w)\<rparr>, s\<lparr>sq_recs := (sq_recs s)[r := h']\<rparr>)" (is "slow_G N T i _ (?g, ?s)")
proof (rule slow_GI)
  assume I: "heap_inv g s" "log_inv g" "vouch_inv g s" "recs_inv g s" "room_inv N T g s"
  have at: "srec_at q ?s = (if q = r then Some h' else srec_at q s)" for q by (rule srec_at_own [OF assms(2)])
  have inj: "grec g k = Some q \<Longrightarrow> k \<noteq> i \<Longrightarrow> q \<noteq> r" for k q using I(4) assms(1) by (auto simp: recs_inv_def)
  have my: "sq_my s k = Some q \<Longrightarrow> k \<noteq> i \<Longrightarrow> q \<noteq> r" for k q using I(4) inj by (auto simp: recs_inv_def)
  have "vouch_inv ?g ?s"
    unfolding vouch_inv_def
  proof (intro allI impI)
    fix k j assume v: "vouch ?g k j \<noteq> 0"
    show "j < 2 \<and> (\<exists>r h. sq_my ?s k = Some r \<and> srec_at r ?s = Some h \<and> s_HP h j = vouch ?g k j) \<and>
        (place_of ?g (vouch ?g k j) = InQueue \<or> in_limbo ?g (vouch ?g k j))"
    proof (cases "k = i")
      case False
      with v have "vouch g k j \<noteq> 0" by simp
      with I(3) obtain q h where q: "j < 2" "sq_my s k = Some q" "srec_at q s = Some h" "s_HP h j = vouch g k j"
        "place_of g (vouch g k j) = InQueue \<or> in_limbo g (vouch g k j)" unfolding vouch_inv_def by blast
      with my [OF q(2) False] False show ?thesis by (auto simp: at)
    next
      case True
      with v have wj: "w j \<noteq> 0" by simp
      from w [OF wj] have "place_of g (w j) = InQueue \<or> in_limbo g (w j)"
        using I(3) wj unfolding vouch_inv_def by metis
      with w [OF wj] True show ?thesis by (simp add: at)
    qed
  qed
  moreover have "links ?s (sq_head s) (gchain g)"
  proof (rule links_cong)
    show "links s (sq_head s) (gchain g)" using I(4) by (simp add: recs_inv_def)
    fix q assume "q \<in> set (gchain g)"
    with assms(2,3) show "map_option (\<lambda>h. (s_next h, s_Active h)) (srec_at q ?s) = map_option (\<lambda>h. (s_next h, s_Active h)) (srec_at q s)"
      by (auto simp: at)
  qed
  moreover have "\<exists>h. srec_at q ?s = Some h \<and> distinct (s_list h) \<and> (\<forall>a \<in> set (s_list h). place_of g a = Limbo k)"
    if q: "grec g k = Some q" for k q
  proof (cases "k = i")
    case True
    with q assms(1) have "q = r" by simp
    moreover have "srec_at r ?s = Some h'" by (simp add: at)
    ultimately show ?thesis using True assms(4,5) by blast
  next
    case False
    with q inj I(4) show ?thesis by (simp add: at recs_inv_def)
  qed
  moreover have "spares k (g, s) (?g, ?s)" if k: "k \<noteq> i" for k
  proof -
    have v: "\<forall>a. place_of g a = Limbo k \<longrightarrow> (\<forall>l j. vouch ?g l j = a \<longrightarrow> vouch g l j = a)"
    proof (intro allI impI)
      fix a l j assume a: "place_of g a = Limbo k" "vouch ?g l j = a"
      have "a \<noteq> 0" using a(1) I(1) by (auto simp: heap_inv_def)
      with a w [of j] show "vouch g l j = a" by (auto split: if_splits)
    qed
    have n: "node_kept (vouch g k j) (g, s) (?g, ?s)" if "vouch g k j \<noteq> 0" for j
      using node_kept_refl [OF I(1,3) that] by (simp add: node_kept_def)
    have r: "srec_at q ?s = srec_at q s" if "grec g k = Some q" for q using inj [OF that k] by (simp add: at)
    show ?thesis by (rule sparesI [OF _ _ _ _ _ _ r _ _ v n]) (simp_all add: k)
  qed
  ultimately show "heap_inv ?g ?s \<and> log_inv ?g \<and> vouch_inv ?g ?s \<and> recs_inv ?g ?s \<and> room_inv N T ?g ?s \<and>
      (\<forall>k. k \<noteq> i \<longrightarrow> spares k (g, s) (?g, ?s))"
    using I by (auto simp: heap_inv_def log_inv_def recs_inv_def room_inv_def)
qed

subsection \<open>A thread works on the nodes\<close>

lemma heap_step:
  assumes I: "heap_inv g s \<Longrightarrow> log_inv g \<Longrightarrow> vouch_inv g s \<Longrightarrow> recs_inv g s \<Longrightarrow> room_inv N T g s \<Longrightarrow>
      heap_inv g' s' \<and> log_inv g' \<and> room_inv N T g' s' \<and>
      (\<forall>k j. vouch g k j \<noteq> 0 \<longrightarrow> (place_of g' (vouch g k j) = InQueue \<or> in_limbo g' (vouch g k j)) \<and> (k \<noteq> i \<longrightarrow> node_kept (vouch g k j) (g, s) (g', s')))"
    and same: "vouch g' = vouch g" "grec g' = grec g" "gchain g' = gchain g" "sq_recs s' = sq_recs s" "sq_head s' = sq_head s" "sq_my s' = sq_my s"
    and pl: "\<And>a k. heap_inv g s \<Longrightarrow> vouch_inv g s \<Longrightarrow> k \<noteq> i \<Longrightarrow> place_of g a = Fresh k \<Longrightarrow> place_of g' a = Fresh k \<and> sq_mem s' a = sq_mem s a"
      "\<And>a k. heap_inv g s \<Longrightarrow> vouch_inv g s \<Longrightarrow> k \<noteq> i \<Longrightarrow> place_of g a = Limbo k \<Longrightarrow> place_of g' a = Limbo k"
    and list: "\<And>r h a. heap_inv g s \<Longrightarrow> grec g i = Some r \<Longrightarrow> srec_at r s = Some h \<Longrightarrow> a \<in> set (s_list h) \<Longrightarrow> place_of g a = Limbo i \<Longrightarrow> place_of g' a = Limbo i"
    and logs: "\<And>k. k \<noteq> i \<Longrightarrow> mine k (enqs g') = mine k (enqs g) \<and> mine k (deqs g') = mine k (deqs g) \<and> credit g' k = credit g k \<and> (k \<in> closed g' \<longleftrightarrow> k \<in> closed g)"
  shows "slow_G N T i (g, s) (g', s')"
proof (rule slow_GI)
  assume J: "heap_inv g s" "log_inv g" "vouch_inv g s" "recs_inv g s" "room_inv N T g s"
  note K = I [OF J]
  have at: "srec_at q s' = srec_at q s" for q by (simp add: srec_at_def same)
  have "vouch_inv g' s'"
    unfolding vouch_inv_def
  proof (intro allI impI)
    fix k j assume "vouch g' k j \<noteq> 0"
    then have v: "vouch g k j \<noteq> 0" by (simp add: same)
    with K have "place_of g' (vouch g k j) = InQueue \<or> in_limbo g' (vouch g k j)" by blast
    with J(3) v show "j < 2 \<and> (\<exists>r h. sq_my s' k = Some r \<and> srec_at r s' = Some h \<and> s_HP h j = vouch g' k j) \<and>
        (place_of g' (vouch g' k j) = InQueue \<or> in_limbo g' (vouch g' k j))" by (simp add: same at vouch_inv_def)
  qed
  moreover have "links s' (sq_head s') (gchain g')"
    unfolding same by (rule links_cong [where s = s]) (use J(4) in \<open>simp_all add: at recs_inv_def\<close>)
  moreover have "\<exists>h. srec_at q s' = Some h \<and> distinct (s_list h) \<and> (\<forall>a \<in> set (s_list h). place_of g' a = Limbo k)"
    if q: "grec g' k = Some q" for k q
  proof -
    from q J(4) obtain h where h: "srec_at q s = Some h" "distinct (s_list h)" "\<forall>a \<in> set (s_list h). place_of g a = Limbo k"
      unfolding same recs_inv_def by blast
    have "\<forall>a \<in> set (s_list h). place_of g' a = Limbo k"
      using h q list [OF J(1)] pl(2) [OF J(1,3)] by (cases "k = i") (auto simp: same)
    with h show ?thesis by (simp add: at)
  qed
  ultimately have "recs_inv g' s'" "vouch_inv g' s'"
    using J(4) by (auto simp: recs_inv_def same)
  moreover have "spares k (g, s) (g', s')" if k: "k \<noteq> i" for k
  proof (rule sparesI [OF _ _ _ _ _ _ _ pl(1) [OF J(1,3) k] pl(2) [OF J(1,3) k]])
    show "node_kept (vouch g k j) (g, s) (g', s')" if "vouch g k j \<noteq> 0" for j using K k that by blast
  qed (simp_all add: same at logs k)
  ultimately show "heap_inv g' s' \<and> log_inv g' \<and> vouch_inv g' s' \<and> recs_inv g' s' \<and> room_inv N T g' s' \<and>
      (\<forall>k. k \<noteq> i \<longrightarrow> spares k (g, s) (g', s'))" using K by blast
qed

subsection \<open>The steps of the queue\<close>

lemma sinvD: "sinv N T (g, s) \<Longrightarrow> heap_inv g s \<and> log_inv g \<and> vouch_inv g s \<and> recs_inv g s \<and> room_inv N T g s"
  by (simp add: sinv_def)

lemma my_rec:
  assumes "sinv N T (g, s)" and "sq_my s i = Some r"
  shows "\<exists>h. grec g i = Some r \<and> srec_at r s = Some h \<and> distinct (s_list h) \<and> (\<forall>a \<in> set (s_list h). place_of g a = Limbo i)"
  using assms unfolding sinv_def recs_inv_def prod.case by blast

lemma srec_at_same: "srec_at r s = Some h \<Longrightarrow> s\<lparr>sq_recs := (sq_recs s)[r := h]\<rparr> = s"
  by (auto simp: srec_at_def split: if_splits)

lemma step_HP:
  assumes "sinv N T (g, s)" and "sq_my s i = Some r" and "srec_at r s = Some h"
  shows "slow_G N T i (g, s) (g\<lparr>vouch := (vouch g)(i := (vouch g i)(j := 0))\<rparr>, s\<lparr>sq_recs := (sq_recs s)[r := h\<lparr>s_HP := (s_HP h)(j := a)\<rparr>]\<rparr>)"
proof -
  from my_rec [OF assms(1,2)] assms(3) have m: "grec g i = Some r" "distinct (s_list h)" "\<forall>a \<in> set (s_list h). place_of g a = Limbo i" by auto
  have v: "vouch_inv g s" using assms(1) by (simp add: sinv_def)
  show ?thesis
  proof (rule own_step [OF m(1) assms(3)])
    fix l assume "((vouch g i)(j := 0)) l \<noteq> 0"
    then have l: "l \<noteq> j" "vouch g i l \<noteq> 0" by (auto split: if_splits)
    with v assms(2,3) show "l < 2 \<and> sq_my s i = Some r \<and> s_HP (h\<lparr>s_HP := (s_HP h)(j := a)\<rparr>) l = ((vouch g i)(j := 0)) l \<and>
        (((vouch g i)(j := 0)) l = vouch g i l \<or> place_of g (((vouch g i)(j := 0)) l) = InQueue)"
      unfolding vouch_inv_def by fastforce
  qed (use m in simp_all)
qed

lemma step_vouch:
  assumes "sinv N T (g, s)" and "sq_my s i = Some r" and "srec_at r s = Some h" and "s_HP h j = a" and "j < 2" and "place_of g a = InQueue"
  shows "slow_G N T i (g, s) (g\<lparr>vouch := (vouch g)(i := (vouch g i)(j := a))\<rparr>, s)"
proof -
  from my_rec [OF assms(1,2)] assms(3) have m: "grec g i = Some r" "distinct (s_list h)" "\<forall>a \<in> set (s_list h). place_of g a = Limbo i" by auto
  have v: "vouch_inv g s" using assms(1) by (simp add: sinv_def)
  have "slow_G N T i (g, s) (g\<lparr>vouch := (vouch g)(i := (vouch g i)(j := a))\<rparr>, s\<lparr>sq_recs := (sq_recs s)[r := h]\<rparr>)"
  proof (rule own_step [OF m(1) assms(3)])
    fix l assume "((vouch g i)(j := a)) l \<noteq> 0"
    with v assms(2-) show "l < 2 \<and> sq_my s i = Some r \<and> s_HP h l = ((vouch g i)(j := a)) l \<and>
        (((vouch g i)(j := a)) l = vouch g i l \<or> place_of g (((vouch g i)(j := a)) l) = InQueue)"
      unfolding vouch_inv_def by (cases "l = j") fastforce+
  qed (use m in simp_all)
  then show ?thesis by (simp add: srec_at_same [OF assms(3)])
qed

lemma step_own:
  assumes "sinv N T (g, s)" and "sq_my s i = Some r" and "srec_at r s = Some h" and "s_next h' = s_next h" and "s_Active h' = s_Active h"
    and "s_HP h' = s_HP h" and "distinct (s_list h')" and "\<forall>a \<in> set (s_list h'). place_of g a = Limbo i"
  shows "slow_G N T i (g, s) (g, s\<lparr>sq_recs := (sq_recs s)[r := h']\<rparr>)"
proof -
  from my_rec [OF assms(1,2)] have m: "grec g i = Some r" by auto
  have v: "vouch_inv g s" using assms(1) by (simp add: sinv_def)
  have "slow_G N T i (g, s) (g\<lparr>vouch := (vouch g)(i := vouch g i)\<rparr>, s\<lparr>sq_recs := (sq_recs s)[r := h']\<rparr>)"
  proof (rule own_step [OF m(1) assms(3)])
    fix l assume "vouch g i l \<noteq> 0"
    with v assms(2,3,6) show "l < 2 \<and> sq_my s i = Some r \<and> s_HP h' l = vouch g i l \<and>
        (vouch g i l = vouch g i l \<or> place_of g (vouch g i l) = InQueue)"
      unfolding vouch_inv_def by fastforce
  qed (use assms in simp_all)
  then show ?thesis by simp
qed

text \<open>A node a thread vouches for is in the queue or unlinked, never new.\<close>

lemma vouch_place: "vouch_inv g s \<Longrightarrow> vouch g k j \<noteq> 0 \<Longrightarrow> place_of g (vouch g k j) = InQueue \<or> in_limbo g (vouch g k j)"
  unfolding vouch_inv_def by blast

lemma queue_next_not_head:
  assumes "queue_ok m h t ns" and "m t = Some n" and "n_next n \<noteq> 0"
  shows "n_next n \<noteq> h"
proof -
  from queue_split [OF assms(1,2)] obtain xs ys where s: "ns = xs @ (t, n_value n) # ys" "nseg m (n_next n) ys 0" by blast
  with assms(3) obtain y zs where y: "ys = y # zs" by (cases ys) auto
  with s(2) have f: "fst y = n_next n" by (cases y) auto
  from queue_head [OF assms(1)] obtain v qs where "ns = (h, v) # qs" by blast
  with s(1) y have "h \<in> fst ` set (xs @ [(t, n_value n)])" by (cases xs) auto
  moreover have "distinct (map fst ns)" using assms(1) by (simp add: queue_ok_def)
  ultimately show ?thesis using s(1) y f by auto
qed

lemma node_kept_same:
  assumes "heap_inv g s" and "vouch_inv g s" and "vouch g k j \<noteq> 0" and "sq_mem s' = sq_mem s" and "sq_Head s' = sq_Head s" and "place_of g' = place_of g"
    and "sq_Head s = vouch g k j \<Longrightarrow> sq_Tail s \<noteq> vouch g k j \<Longrightarrow> sq_Tail s' \<noteq> vouch g k j"
  shows "node_kept (vouch g k j) (g, s) (g', s')"
  using vouch_alloc [OF assms(1-3)] assms(4-) by (auto simp: node_kept_def)

lemma step_tail:
  assumes "sq_mem s (sq_Tail s) = Some n" and "n_next n = a" and "a \<noteq> 0"
  shows "slow_G N T i (g, s) (g, s\<lparr>sq_Tail := a\<rparr>)"
proof (rule heap_step, goal_cases)
  case 1
  then have q: "queue_ok (sq_mem s) (sq_Head s) (sq_Tail s) (gq g)" by (simp add: heap_inv_def)
  have "node_kept (vouch g k j) (g, s) (g, s\<lparr>sq_Tail := a\<rparr>)" if "vouch g k j \<noteq> 0" for k j
    by (rule node_kept_same [OF 1(1,3) that]) (use queue_next_not_head [OF q assms(1)] assms(2,3) in auto)
  moreover have "queue_ok (sq_mem s) (sq_Head s) a (gq g)" using queue_advance [OF q assms(1)] assms(2,3) by simp
  ultimately show ?case using 1(1,2,5) vouch_place [OF 1(3)] by (simp add: heap_inv_def log_inv_def room_inv_def)
qed simp_all

lemma step_quiet: "slow_G N T i (g, s) (g, s\<lparr>sq_num := w\<rparr>)" "slow_G N T i (g, s) (g, s\<lparr>sq_H := z\<rparr>)"
proof -
  have "slow_G N T i (g, s) (g, s')" if "s' = s\<lparr>sq_num := w\<rparr> \<or> s' = s\<lparr>sq_H := z\<rparr>" for s'
  proof (rule heap_step, goal_cases)
    case 1
    have "node_kept (vouch g k j) (g, s) (g, s')" if "vouch g k j \<noteq> 0" for k j
      by (rule node_kept_same [OF 1(1,3) that]) (use \<open>s' = _ \<or> s' = _\<close> in auto)
    then show ?case using 1(1,2,5) vouch_place [OF 1(3)] that by (auto simp: heap_inv_def log_inv_def room_inv_def)
  qed (use that in auto)
  then show "slow_G N T i (g, s) (g, s\<lparr>sq_num := w\<rparr>)" "slow_G N T i (g, s) (g, s\<lparr>sq_H := z\<rparr>)" by blast+
qed


text \<open>A new node is written and then linked behind the last one.\<close>

lemma step_fresh:
  assumes "place_of g a = Fresh i"
  shows "slow_G N T i (g, s) (g, s\<lparr>sq_mem := (sq_mem s)(a \<mapsto> n)\<rparr>)"
proof (rule heap_step, goal_cases)
  case 1
  have a: "a \<notin> fst ` set (gq g)" and dom: "sq_mem s a \<noteq> None" using assms 1(1) unfolding heap_inv_def by (metis place.distinct(7), metis place.distinct(3))
  have d: "dom ((sq_mem s)(a \<mapsto> n)) = dom (sq_mem s)" using dom by auto
  have "node_kept (vouch g k j) (g, s) (g, s\<lparr>sq_mem := (sq_mem s)(a \<mapsto> n)\<rparr>)" if "vouch g k j \<noteq> 0" for k j
  proof -
    have "vouch g k j \<noteq> a" using vouch_place [OF 1(3) that] assms by auto
    with node_kept_refl [OF 1(1,3) that] show ?thesis by (simp add: node_kept_def)
  qed
  moreover have "queue_ok ((sq_mem s)(a \<mapsto> n)) (sq_Head s) (sq_Tail s) (gq g)" using 1(1) a by (simp add: heap_inv_def queue_frame)
  moreover have "\<forall>b. place_of g b = Nowhere \<longleftrightarrow> ((sq_mem s)(a \<mapsto> n)) b = None" using 1(1) assms dom by (auto simp: heap_inv_def)
  moreover have "\<forall>b m. in_limbo g b \<longrightarrow> ((sq_mem s)(a \<mapsto> n)) b = Some m \<longrightarrow> n_next m \<noteq> 0" using 1(1) assms by (auto simp: heap_inv_def)
  moreover have "room_inv N T g (s\<lparr>sq_mem := (sq_mem s)(a \<mapsto> n)\<rparr>)" using 1(5) d by (simp add: room_inv_def)
  moreover have "a \<noteq> 0" using 1(1) assms unfolding heap_inv_def by (metis place.distinct(3))
  ultimately show ?case using 1(1,2) vouch_place [OF 1(3)] assms by (auto simp: heap_inv_def log_inv_def)
qed (use assms in auto)

lemma mine_snoc: "mine k (l @ [(i, v)]) = (if k = i then mine k l @ [v] else mine k l)"
  by (simp add: mine_def)

lemma step_link:
  assumes "place_of g a = Fresh i" and "sq_mem s a = Some \<lparr>n_value = v, n_next = 0\<rparr>" and "vouch g i l = t" and "t \<noteq> 0"
    and "sq_mem s t = Some n" and "n_next n = 0" and "v \<noteq> EMPTY"
    and "i < length T" and "T ! i = mine i (enqs g) @ v # ws"
  shows "slow_G N T i (g, s)
    (g\<lparr>gq := gq g @ [(a, v)], place_of := (place_of g)(a := InQueue), enqs := enqs g @ [(i, v)]\<rparr>,
     s\<lparr>sq_mem := (sq_mem s)(t \<mapsto> n\<lparr>n_next := a\<rparr>)\<rparr>)" (is "slow_G N T i _ (?g, ?s)")
proof -
  have in_queue: "heap_inv g s \<Longrightarrow> vouch_inv g s \<Longrightarrow> place_of g t = InQueue"
    using vouch_place [of g s i l] assms(3-6) by (auto simp: heap_inv_def)
  show ?thesis
proof (rule heap_step, goal_cases)
  case 1
  have t: "place_of g t = InQueue" by (rule in_queue [OF 1(1,3)])
  have q: "queue_ok (sq_mem s) (sq_Head s) (sq_Tail s) (gq g)" using 1(1) by (simp add: heap_inv_def)
  have at: "a \<noteq> t" "a \<notin> fst ` set (gq g)" "t \<in> fst ` set (gq g)" "a \<noteq> 0"
    using t assms(1) 1(1) unfolding heap_inv_def by (metis place.distinct(7), metis place.distinct(7), metis, metis place.distinct(3))
  have "queue_ok (sq_mem s) (sq_Head s) t (gq g)" using q at(3) by (simp add: queue_ok_def)
  from queue_link [OF this assms(5,6,2) at(4,2)] q
  have q': "queue_ok ((sq_mem s)(t \<mapsto> n\<lparr>n_next := a\<rparr>)) (sq_Head s) (sq_Tail s) (gq g @ [(a, v)])" by (auto simp: queue_ok_def)
  have ne: "gq g \<noteq> []" using q by (simp add: queue_ok_def)
  have d: "dom (sq_mem ?s) = dom (sq_mem s)" using assms(5) by auto
  have pl: "place_of ?g (vouch g k j) = place_of g (vouch g k j)" if "vouch g k j \<noteq> 0" for k j
    using vouch_place [OF 1(3) that] assms(1) by auto
  have "node_kept (vouch g k j) (g, s) (?g, ?s)" if "vouch g k j \<noteq> 0" for k j
    using node_kept_refl [OF 1(1,3) that] pl [OF that] assms(5,6) unfolding node_kept_def by auto
  moreover have "heap_inv ?g ?s" using 1(1) q' assms(1,2,5) t at unfolding heap_inv_def by auto
  moreover have "log_inv ?g" using 1(2) assms(7) by (auto simp: log_inv_def queue_values_link [OF ne])
  moreover have "room_inv N T ?g ?s" using 1(5) d assms(8,9) by (auto simp: room_inv_def mine_snoc)
  ultimately show ?case using pl vouch_place [OF 1(3)] by simp
qed (use assms in_queue in \<open>auto simp: mine_snoc\<close>)
qed

text \<open>The head moves on: the old dummy is unlinked.\<close>

lemma head_in_queue: "heap_inv g s \<Longrightarrow> place_of g (sq_Head s) = InQueue"
  using queue_head [of "sq_mem s" "sq_Head s" "sq_Tail s" "gq g"] by (auto simp: heap_inv_def)

lemma step_take:
  assumes "sq_mem s (sq_Head s) = Some n" and "n_next n = a" and "a \<noteq> 0" and "sq_Tail s \<noteq> sq_Head s" and "sq_mem s a = Some k"
    and "i < length T"
  shows "slow_G N T i (g, s)
    (g\<lparr>gq := List.tl (gq g), place_of := (place_of g)(sq_Head s := Limbo i), deqs := deqs g @ [(i, n_value k)]\<rparr>, s\<lparr>sq_Head := a\<rparr>)"
    (is "slow_G N T i _ (?g, ?s)")
proof (rule heap_step, goal_cases)
  case 1
  have q: "queue_ok (sq_mem s) (sq_Head s) (sq_Tail s) (gq g)" using 1(1) by (simp add: heap_inv_def)
  from queue_pop [OF q assms(1)] assms obtain v ms where m: "gq g = (sq_Head s, v) # ms" "queue_ok (sq_mem s) a (sq_Tail s) ms"
    "queue_values (gq g) = n_value k # queue_values ms" by auto
  have h: "place_of g (sq_Head s) = InQueue" "sq_Head s \<notin> fst ` set ms" using 1(1) q m(1) by (auto simp: heap_inv_def queue_ok_def)
  have "queue_ok (sq_mem s) (sq_Head s) (sq_Head s) (gq g)" using q m(1) by (simp add: queue_ok_def)
  from queue_next_not_head [OF this assms(1)] have ha: "a \<noteq> sq_Head s" using assms(2,3) by simp
  have "node_kept (vouch g k j) (g, s) (?g, ?s)" if "vouch g k j \<noteq> 0" for k j
    using node_kept_refl [OF 1(1,3) that] h ha unfolding node_kept_def by auto
  moreover have "heap_inv ?g ?s" using 1(1) m h assms(1-3) ha unfolding heap_inv_def by (auto simp: image_iff)
  moreover have "log_inv ?g" using 1(2) m by (auto simp: log_inv_def)
  moreover have "room_inv N T ?g ?s" using 1(5) assms(6) m(1,3) by (auto simp: room_inv_def)
  ultimately show ?case using vouch_place [OF 1(3)] by auto
qed (auto simp: mine_snoc head_in_queue)


text \<open>A thread that has queued all its numbers finds the queue empty.\<close>

lemma step_close:
  assumes "i < length T" and "mine i (enqs g) = T ! i" and "sq_mem s h = Some n" and "n_next n = 0" and "sq_Head s = h"
  shows "slow_G N T i (g, s) (g\<lparr>closed := insert i (closed g)\<rparr>, s)" (is "slow_G N T i _ (?g, s)")
proof (rule heap_step, goal_cases)
  case 1
  have "queue_values (gq g) = []" using 1(1) assms(3-5) queue_empty [of "sq_mem s" "sq_Head s" "sq_Tail s" "gq g" n] by (simp add: heap_inv_def)
  then have "room_inv N T ?g s" using 1(5) assms(1,2) by (simp add: room_inv_def)
  moreover have "node_kept (vouch g k j) (g, s) (?g, s)" if "vouch g k j \<noteq> 0" for k j
    using node_kept_refl [OF 1(1,3) that] by (simp add: node_kept_def)
  ultimately show ?case using 1(1,2) vouch_place [OF 1(3)] by (simp add: heap_inv_def log_inv_def)
qed simp_all

text \<open>A node nobody has made sure of and that is in no list is freed; a new one is allocated.\<close>

lemma card_dom_free: "card (dom (m(a := None))) \<le> card (dom (m :: node_heap))"
  by (rule card_mono) (auto simp: dom_def)

lemma card_dom_alloc: "card (dom (m(a \<mapsto> x))) \<le> Suc (card (dom (m :: node_heap)))"
  by (simp add: card_insert_if)

lemma step_free:
  assumes "place_of g a = Limbo i" and "\<forall>k j. vouch g k j \<noteq> a" and "\<And>r h. grec g i = Some r \<Longrightarrow> srec_at r s = Some h \<Longrightarrow> a \<notin> set (s_list h)"
  shows "slow_G N T i (g, s) (g\<lparr>place_of := (place_of g)(a := Nowhere)\<rparr>, s\<lparr>sq_mem := (sq_mem s)(a := None)\<rparr>)" (is "slow_G N T i _ (?g, ?s)")
proof (rule heap_step, goal_cases)
  case 1
  have a: "a \<notin> fst ` set (gq g)" using assms(1) 1(1) unfolding heap_inv_def by (metis place.distinct(9))
  have "node_kept (vouch g k j) (g, s) (?g, ?s)" if "vouch g k j \<noteq> 0" for k j
    using node_kept_refl [OF 1(1,3) that] assms(2) unfolding node_kept_def by auto
  moreover have "heap_inv ?g ?s" using 1(1) a assms(1) unfolding heap_inv_def by (auto simp: queue_frame)
  moreover have "room_inv N T ?g ?s" using 1(5) card_dom_free [of "sq_mem s" a] by (simp add: room_inv_def)
  ultimately show ?case using vouch_place [OF 1(3)] 1(2) assms(2) by (auto simp: log_inv_def)
qed (use assms in auto)

lemma not_allocated: "heap_inv g s \<Longrightarrow> sq_mem s a = None \<Longrightarrow> place_of g a = Nowhere"
  by (simp add: heap_inv_def)

lemma step_alloc:
  assumes "sq_mem s a = None" and "a \<noteq> 0" and "credit g i = Suc c" and "i < length T"
  shows "slow_G N T i (g, s)
    (g\<lparr>place_of := (place_of g)(a := Fresh i), credit := (credit g)(i := c)\<rparr>, s\<lparr>sq_mem := (sq_mem s)(a \<mapsto> n)\<rparr>)" (is "slow_G N T i _ (?g, ?s)")
proof (rule heap_step, goal_cases)
  case 1
  have p: "place_of g a = Nowhere" using 1(1) assms(1) by (simp add: heap_inv_def)
  have a: "a \<notin> fst ` set (gq g)" using p 1(1) unfolding heap_inv_def by (metis place.distinct(1))
  have "node_kept (vouch g k j) (g, s) (?g, ?s)" if "vouch g k j \<noteq> 0" for k j
    using node_kept_refl [OF 1(1,3) that] vouch_alloc [OF 1(1,3) that] assms(1) unfolding node_kept_def by auto
  moreover have "heap_inv ?g ?s" using 1(1) a p assms(2) unfolding heap_inv_def by (auto simp: queue_frame)
  moreover have "room_inv N T ?g ?s"
  proof -
    have "(\<Sum>k<length T. credit g k) = Suc (\<Sum>k<length T. credit ?g k)"
      using assms(3,4) by (simp add: sum.remove [of "{..<length T}" i])
    then show ?thesis using 1(5) card_dom_alloc [of "sq_mem s" a n] by (simp add: room_inv_def)
  qed
  ultimately show ?case using vouch_place [OF 1(3)] 1(2) p vouch_alloc [OF 1(1,3)] assms(1) by (fastforce simp: log_inv_def)
qed (use assms in \<open>auto dest: not_allocated\<close>)


subsection \<open>The steps of a new thread\<close>

text \<open>The invariant part about the records, for steps that leave the nodes alone.\<close>

lemma recs_step:
  assumes I: "heap_inv g s \<Longrightarrow> vouch_inv g s \<Longrightarrow> recs_inv g s \<Longrightarrow> recs_inv g' s'"
    and same: "place_of g' = place_of g" "vouch g' = vouch g" "gq g' = gq g" "enqs g' = enqs g" "deqs g' = deqs g" "credit g' = credit g" "closed g' = closed g"
      "sq_mem s' = sq_mem s" "sq_Head s' = sq_Head s" "sq_Tail s' = sq_Tail s"
    and my: "\<And>k r. sq_my s k = Some r \<Longrightarrow> sq_my s' k = Some r" "\<And>k. k \<noteq> i \<Longrightarrow> sq_my s' k = sq_my s k"
    and rec: "\<And>k. k \<noteq> i \<Longrightarrow> grec g' k = grec g k" "\<And>r. recs_inv g s \<Longrightarrow> (\<exists>k. grec g k = Some r \<and> (k \<noteq> i \<or> sq_my s k = Some r)) \<Longrightarrow> srec_at r s' = srec_at r s"
    and ch: "\<And>k. k \<noteq> i \<Longrightarrow> recs_inv g s \<Longrightarrow> \<exists>pre. gchain g' = pre @ gchain g \<and> (\<forall>r. grec g k = Some r \<longrightarrow> r \<notin> set pre)"
  shows "slow_G N T i (g, s) (g', s')"
proof (rule slow_GI)
  assume J: "heap_inv g s" "log_inv g" "vouch_inv g s" "recs_inv g s" "room_inv N T g s"
  have at: "srec_at r s' = srec_at r s" if "sq_my s k = Some r" for k r
    using rec(2) [OF J(4)] that J(4) unfolding recs_inv_def by blast
  have n: "node_kept (vouch g k j) (g, s) (g', s')" if "vouch g k j \<noteq> 0" for k j
    using node_kept_refl [OF J(1,3) that] by (simp add: node_kept_def same)
  have "vouch_inv g' s'"
    unfolding vouch_inv_def same
  proof (intro allI impI)
    fix k j assume "vouch g k j \<noteq> 0"
    with J(3) obtain r h where "j < 2" "sq_my s k = Some r" "srec_at r s = Some h" "s_HP h j = vouch g k j"
      "place_of g (vouch g k j) = InQueue \<or> in_limbo g (vouch g k j)" unfolding vouch_inv_def by blast
    with at [of k r] my(1) [of k r] show "j < 2 \<and> (\<exists>r h. sq_my s' k = Some r \<and> srec_at r s' = Some h \<and> s_HP h j = vouch g k j) \<and>
        (place_of g (vouch g k j) = InQueue \<or> in_limbo g (vouch g k j))" by auto
  qed
  moreover have "spares k (g, s) (g', s')" if k: "k \<noteq> i" for k
    by (rule sparesI [OF _ _ _ _ _ _ _ _ _ _ n ch [OF k J(4)] my(1)]) (use rec(2) [OF J(4)] k in \<open>auto simp: same my(2) rec(1)\<close>)
  ultimately show "heap_inv g' s' \<and> log_inv g' \<and> vouch_inv g' s' \<and> recs_inv g' s' \<and> room_inv N T g' s' \<and>
      (\<forall>k. k \<noteq> i \<longrightarrow> spares k (g, s) (g', s'))"
    using J I by (simp add: heap_inv_def log_inv_def room_inv_def same)
qed

lemma srec_at_snoc: "srec_at r (s\<lparr>sq_recs := sq_recs s @ [h]\<rparr>) = (if r = length (sq_recs s) then Some h else srec_at r s)"
  by (auto simp: srec_at_def nth_append)

lemma recs_bound: "recs_inv g s \<Longrightarrow> grec g k = Some r \<Longrightarrow> r \<noteq> length (sq_recs s)"
  unfolding recs_inv_def by (metis srec_at_def less_irrefl option.distinct(1))

lemma chain_bound: "recs_inv g s \<Longrightarrow> r \<in> set (gchain g) \<Longrightarrow> r \<noteq> length (sq_recs s)"
  unfolding recs_inv_def by (metis links_at srec_at_def less_irrefl option.distinct(1))

lemma step_newrec:
  assumes "grec g i = None" and "s_list h = []"
  shows "slow_G N T i (g, s) (g\<lparr>grec := (grec g)(i \<mapsto> length (sq_recs s))\<rparr>, s\<lparr>sq_recs := sq_recs s @ [h]\<rparr>)" (is "slow_G N T i _ (?g, ?s)")
proof (rule recs_step)
  assume I: "recs_inv g s"
  have at: "srec_at r ?s = srec_at r s" if "r \<noteq> length (sq_recs s)" for r using that by (simp add: srec_at_snoc)
  have l: "links ?s (sq_head s) (gchain g)"
    by (rule links_cong [where s = s]) (use I chain_bound [OF I] in \<open>auto simp: at recs_inv_def\<close>)
  have my: "sq_my s i = None" using I assms(1) unfolding recs_inv_def by (metis not_Some_eq)
  have b: "grec g k = Some r \<Longrightarrow> r \<noteq> length (sq_recs s)" for k r by (rule recs_bound [OF I])
  show "recs_inv ?g ?s"
    using I l my assms(2) b unfolding recs_inv_def by (auto simp: srec_at_snoc)
qed (use assms recs_bound in \<open>auto simp: srec_at_snoc\<close>)

lemma step_next:
  assumes "grec g i = Some r" and "r \<notin> set (gchain g)" and "srec_at r s = Some h"
  shows "slow_G N T i (g, s) (g, s\<lparr>sq_recs := (sq_recs s)[r := h\<lparr>s_next := p\<rparr>]\<rparr>)" (is "slow_G N T i _ (g, ?s)")
proof (rule recs_step)
  assume I: "recs_inv g s"
  have at: "srec_at q ?s = (if q = r then Some (h\<lparr>s_next := p\<rparr>) else srec_at q s)" for q by (rule srec_at_own [OF assms(3)])
  have l: "links ?s (sq_head s) (gchain g)"
    by (rule links_cong [where s = s]) (use I assms(2) in \<open>auto simp: at recs_inv_def\<close>)
  show "recs_inv g ?s"
    using I l assms(3) unfolding recs_inv_def by (fastforce simp: at)
next
  fix q assume "recs_inv g s" "\<exists>k. grec g k = Some q \<and> (k \<noteq> i \<or> sq_my s k = Some q)"
  with assms have "q \<noteq> r" unfolding recs_inv_def by metis
  then show "srec_at q ?s = srec_at q s" by (simp add: srec_at_own [OF assms(3)])
qed simp_all

lemma step_push:
  assumes "grec g i = Some r" and "srec_at r s = Some h" and "s_Active h" and "s_next h = sq_head s"
  shows "slow_G N T i (g, s) (g\<lparr>gchain := r # gchain g\<rparr>, s\<lparr>sq_head := Some r\<rparr>)" (is "slow_G N T i _ (?g, ?s)")
proof (rule recs_step)
  assume I: "recs_inv g s"
  have l: "links ?s (sq_head s) (gchain g)" by (rule links_cong [where s = s]) (use I in \<open>auto simp: recs_inv_def\<close>)
  show "recs_inv ?g ?s" using I l assms unfolding recs_inv_def by auto
next
  fix k assume "k \<noteq> i" "recs_inv g s"
  with assms(1) show "\<exists>pre. gchain ?g = pre @ gchain g \<and> (\<forall>r. grec g k = Some r \<longrightarrow> r \<notin> set pre)"
    by (intro exI [of _ "[r]"]) (auto simp: recs_inv_def)
qed simp_all

lemma step_my:
  assumes "grec g i = Some r" and "r \<in> set (gchain g)" and "sq_my s i = None"
  shows "slow_G N T i (g, s) (g, s\<lparr>sq_my := (sq_my s)(i \<mapsto> r)\<rparr>)" (is "slow_G N T i _ (g, ?s)")
proof (rule recs_step)
  assume I: "recs_inv g s"
  have l: "links ?s (sq_head s) (gchain g)" by (rule links_cong [where s = s]) (use I in \<open>auto simp: recs_inv_def\<close>)
  show "recs_inv g ?s" using I l assms unfolding recs_inv_def by auto
qed (use assms in auto)

end
