(* ===== verification/SlowSafe.thy ===== *)
theory SlowSafe
  imports SlowInv
begin

text \<open>
  The bodies of \<^verbatim>\<open>hazardpointerslow.c\<close> run by several threads: every action of a thread keeps the
  invariant and leaves alone what the others rely on, so no thread ever touches a freed node. The
  assertions of a body are conjunctions of the predicates below, each of which the other threads
  keep.
\<close>

section \<open>Assertions\<close>

definition keeps :: "nat \<Rightarrow> 32 word list list \<Rightarrow> nat \<Rightarrow> (ghost \<times> slowq \<Rightarrow> bool) \<Rightarrow> bool" where
  "keeps N T i P \<longleftrightarrow> (\<forall>x y. sinv N T x \<longrightarrow> sinv N T y \<longrightarrow> spares i x y \<longrightarrow> P x \<longrightarrow> P y)"

definition slow_safe :: "nat \<Rightarrow> 32 word list list \<Rightarrow> nat \<Rightarrow> ('a \<Rightarrow> ghost \<times> slowq \<Rightarrow> bool) \<Rightarrow> (ghost \<times> slowq \<Rightarrow> bool) \<Rightarrow> (slowq, 'a) prog \<Rightarrow> bool" where
  "slow_safe N T i Q P p \<longleftrightarrow> gsafe (slow_R N T i) (slow_G N T i) (\<lambda>a x. sinv N T x \<and> Q a x) (\<lambda>x. sinv N T x \<and> P x) p"

named_theorems keeps_intros

lemma keeps_stable: "keeps N T i P \<Longrightarrow> rg_stable (slow_R N T i) (\<lambda>x. sinv N T x \<and> P x)"
  unfolding keeps_def rg_stable_def slow_R_def by blast

lemma keeps_conj [keeps_intros]: "keeps N T i P \<Longrightarrow> keeps N T i P' \<Longrightarrow> keeps N T i (\<lambda>x. P x \<and> P' x)"
  unfolding keeps_def by blast

lemma keeps_const [keeps_intros]: "keeps N T i (\<lambda>x. \<phi>)"
  by (simp add: keeps_def)

lemma keeps_imp [keeps_intros]: "keeps N T i P \<Longrightarrow> keeps N T i (\<lambda>x. \<phi> \<longrightarrow> P x)"
  unfolding keeps_def by blast

lemma slow_G_sinv: "slow_G N T i x y \<Longrightarrow> sinv N T x \<Longrightarrow> sinv N T y"
  by (simp add: slow_G_def)

subsection \<open>Rules\<close>

lemma ss_Ret:
  assumes "keeps N T i P" and "\<And>x. sinv N T x \<Longrightarrow> P x \<Longrightarrow> Q a x"
  shows "slow_safe N T i Q P (Ret a)"
  unfolding slow_safe_def by (rule gsafe_Ret [OF keeps_stable [OF assms(1)]]) (use assms(2) in simp)

lemma ss_Spin: "keeps N T i P \<Longrightarrow> slow_safe N T i Q P Spin"
  unfolding slow_safe_def by (rule gsafe_Spin [OF keeps_stable])

lemma ss_ld:
  assumes "keeps N T i P" and "\<And>g s. sinv N T (g, s) \<Longrightarrow> P (g, s) \<Longrightarrow> \<exists>g'. slow_G N T i (g, s) (g', s) \<and> P' (f s) (g', s)"
    and "\<And>v. slow_safe N T i Q (P' v) (k v)"
  shows "slow_safe N T i Q P (ld f k)"
  unfolding slow_safe_def
  by (rule gsafe_ld [OF keeps_stable [OF assms(1)] _ assms(3) [unfolded slow_safe_def]]) (use assms(2) slow_G_sinv in blast)

lemma ss_ld0:
  assumes "keeps N T i P" and "\<And>g s. sinv N T (g, s) \<Longrightarrow> P (g, s) \<Longrightarrow> P' (f s) (g, s)" and "\<And>v. slow_safe N T i Q (P' v) (k v)"
  shows "slow_safe N T i Q P (ld f k)"
  by (rule ss_ld [OF assms(1) _ assms(3)]) (use assms(2) slow_G_refl in blast)

lemma ss_ldp0:
  assumes "keeps N T i P" and "\<And>g s. sinv N T (g, s) \<Longrightarrow> P (g, s) \<Longrightarrow> \<exists>v. f s = Some v \<and> P' v (g, s)"
    and "\<And>v. slow_safe N T i Q (P' v) (k v)"
  shows "slow_safe N T i Q P (ldp f k)"
  unfolding slow_safe_def
  by (rule gsafe_ldp [OF keeps_stable [OF assms(1)] _ assms(3) [unfolded slow_safe_def]]) (use assms(2) slow_G_refl in blast)

lemma ss_ldp:
  assumes "keeps N T i P" and "\<And>g s. sinv N T (g, s) \<Longrightarrow> P (g, s) \<Longrightarrow> \<exists>v g'. f s = Some v \<and> slow_G N T i (g, s) (g', s) \<and> P' v (g', s)"
    and "\<And>v. slow_safe N T i Q (P' v) (k v)"
  shows "slow_safe N T i Q P (ldp f k)"
  unfolding slow_safe_def
  by (rule gsafe_ldp [OF keeps_stable [OF assms(1)] _ assms(3) [unfolded slow_safe_def]]) (use assms(2) slow_G_sinv in blast)

lemma ss_st:
  assumes "keeps N T i P" and "\<And>g s. sinv N T (g, s) \<Longrightarrow> P (g, s) \<Longrightarrow> \<exists>g'. slow_G N T i (g, s) (g', u s) \<and> P' (g', u s)"
    and "slow_safe N T i Q P' k"
  shows "slow_safe N T i Q P (st u k)"
  unfolding slow_safe_def
  by (rule gsafe_st [OF keeps_stable [OF assms(1)] _ assms(3) [unfolded slow_safe_def]]) (use assms(2) slow_G_sinv in blast)

lemma ss_stp:
  assumes "keeps N T i P" and "\<And>g s. sinv N T (g, s) \<Longrightarrow> P (g, s) \<Longrightarrow> \<exists>t g'. u s = Some t \<and> slow_G N T i (g, s) (g', t) \<and> P' (g', t)"
    and "slow_safe N T i Q P' k"
  shows "slow_safe N T i Q P (stp u k)"
  unfolding slow_safe_def
  by (rule gsafe_stp [OF keeps_stable [OF assms(1)] _ assms(3) [unfolded slow_safe_def]]) (use assms(2) slow_G_sinv in blast)

lemma ss_fetch:
  assumes "keeps N T i P" and "\<And>g s. sinv N T (g, s) \<Longrightarrow> P (g, s) \<Longrightarrow> \<exists>g'. slow_G N T i (g, s) (g', u s) \<and> P' (f s) (g', u s)"
    and "\<And>v. slow_safe N T i Q (P' v) (k v)"
  shows "slow_safe N T i Q P (fetch f u k)"
  unfolding slow_safe_def
  by (rule gsafe_fetch [OF keeps_stable [OF assms(1)] _ assms(3) [unfolded slow_safe_def]]) (use assms(2) slow_G_sinv in blast)

lemma ss_cas:
  assumes "keeps N T i P" and "\<And>g s. sinv N T (g, s) \<Longrightarrow> P (g, s) \<Longrightarrow> c s \<Longrightarrow> \<exists>g'. slow_G N T i (g, s) (g', u s) \<and> PT (g', u s)"
    and "\<And>x. sinv N T x \<Longrightarrow> P x \<Longrightarrow> PF x" and "slow_safe N T i Q PT (k True)" and "slow_safe N T i Q PF (k False)"
  shows "slow_safe N T i Q P (cas c u k)"
  unfolding slow_safe_def
  by (rule gsafe_cas [OF keeps_stable [OF assms(1)] _ _ assms(4,5) [unfolded slow_safe_def]]) (use assms(2,3) slow_G_sinv slow_G_refl in blast)+

lemma ss_casp:
  assumes "keeps N T i P" and "\<And>g s. sinv N T (g, s) \<Longrightarrow> P (g, s) \<Longrightarrow> f s \<noteq> None"
    and "\<And>g s. sinv N T (g, s) \<Longrightarrow> P (g, s) \<Longrightarrow> f s = Some old \<Longrightarrow> \<exists>g'. slow_G N T i (g, s) (g', u s) \<and> PT (g', u s)"
    and "\<And>x. sinv N T x \<Longrightarrow> P x \<Longrightarrow> PF x" and "slow_safe N T i Q PT (k True)" and "slow_safe N T i Q PF (k False)"
  shows "slow_safe N T i Q P (casp f old u k)"
  unfolding slow_safe_def
  by (rule gsafe_casp [OF keeps_stable [OF assms(1)] _ _ _ assms(5,6) [unfolded slow_safe_def]]) (use assms(2-4) slow_G_sinv slow_G_refl in blast)+

lemma ss_bind: "slow_safe N T i M P p \<Longrightarrow> (\<And>a. slow_safe N T i Q (M a) (k a)) \<Longrightarrow> slow_safe N T i Q P (bind p k)"
  unfolding slow_safe_def by (rule gsafe_bind)

lemma ss_pre: "slow_safe N T i Q P p \<Longrightarrow> keeps N T i P' \<Longrightarrow> (\<And>x. sinv N T x \<Longrightarrow> P' x \<Longrightarrow> P x) \<Longrightarrow> slow_safe N T i Q P' p"
  unfolding slow_safe_def by (erule gsafe_pre [OF _ keeps_stable]) auto

lemma ss_pure: "(\<phi> \<Longrightarrow> slow_safe N T i Q P p) \<Longrightarrow> slow_safe N T i Q (\<lambda>x. \<phi> \<and> P x) p"
  unfolding slow_safe_def by (cases \<phi>) (auto intro: gsafe_absurd)

lemma ss_ex: "(\<And>v. slow_safe N T i Q (P v) p) \<Longrightarrow> slow_safe N T i Q (\<lambda>x. \<exists>v. P v x) p"
  unfolding slow_safe_def using gsafe_ex [of "slow_R N T i" "slow_G N T i" _ "\<lambda>v x. sinv N T x \<and> P v x" p] by simp

subsection \<open>What a body knows\<close>

text \<open>Thread \<open>i\<close> owns record \<open>r\<close>; it queued \<open>E\<close>, took \<open>D\<close> and may still allocate \<open>m\<close> nodes.\<close>

definition works :: "nat \<Rightarrow> nat \<Rightarrow> 32 word list \<Rightarrow> 32 word list \<Rightarrow> nat \<Rightarrow> ghost \<times> slowq \<Rightarrow> bool" where
  "works i r E D m = (\<lambda>(g, s). sq_my s i = Some r \<and> credit g i = m \<and> mine i (enqs g) = E \<and> mine i (deqs g) = D)"

definition has_node :: "nat \<Rightarrow> addr \<Rightarrow> node \<Rightarrow> ghost \<times> slowq \<Rightarrow> bool" where
  "has_node i a n = (\<lambda>(g, s). place_of g a = Fresh i \<and> sq_mem s a = Some n)"

definition published :: "nat \<Rightarrow> nat \<Rightarrow> nat \<Rightarrow> addr \<Rightarrow> ghost \<times> slowq \<Rightarrow> bool" where
  "published i r j a = (\<lambda>(g, s). sq_my s i = Some r \<and> (\<exists>h. srec_at r s = Some h \<and> s_HP h j = a))"

definition sure_of :: "nat \<Rightarrow> nat \<Rightarrow> addr \<Rightarrow> ghost \<times> slowq \<Rightarrow> bool" where
  "sure_of i j a = (\<lambda>(g, s). vouch g i j = a \<and> a \<noteq> 0)"

definition sees_next :: "nat \<Rightarrow> nat \<Rightarrow> addr \<Rightarrow> addr \<Rightarrow> ghost \<times> slowq \<Rightarrow> bool" where
  "sees_next i j a b = (\<lambda>(g, s). vouch g i j = a \<and> a \<noteq> 0 \<and> (b \<noteq> 0 \<longrightarrow> (\<exists>n. sq_mem s a = Some n \<and> n_next n = b)))"

definition sees_value :: "nat \<Rightarrow> nat \<Rightarrow> addr \<Rightarrow> 32 word \<Rightarrow> ghost \<times> slowq \<Rightarrow> bool" where
  "sees_value i j a v = (\<lambda>(g, s). vouch g i j = a \<and> a \<noteq> 0 \<and> (\<exists>n. sq_mem s a = Some n \<and> n_value n = v))"

definition sees_head :: "nat \<Rightarrow> addr \<Rightarrow> ghost \<times> slowq \<Rightarrow> bool" where
  "sees_head i h = (\<lambda>(g, s). vouch g i 0 = h \<and> h \<noteq> 0 \<and> (sq_Head s = h \<or> in_limbo g h))"

definition sees_tail :: "nat \<Rightarrow> addr \<Rightarrow> ghost \<times> slowq \<Rightarrow> bool" where
  "sees_tail i h = (\<lambda>(g, s). vouch g i 0 = h \<and> h \<noteq> 0 \<and> (sq_Head s = h \<and> sq_Tail s \<noteq> h \<or> in_limbo g h))"

definition unlinked :: "nat \<Rightarrow> nat \<Rightarrow> addr \<Rightarrow> ghost \<times> slowq \<Rightarrow> bool" where
  "unlinked i r a = (\<lambda>(g, s). sq_my s i = Some r \<and> place_of g a = Limbo i \<and> (\<exists>h. srec_at r s = Some h \<and> a \<notin> set (s_list h)))"

text \<open>A thread that had queued all its numbers found the queue empty.\<close>

definition saw_empty :: "nat \<Rightarrow> bool \<Rightarrow> ghost \<times> slowq \<Rightarrow> bool" where
  "saw_empty i all = (\<lambda>(g, s). all \<longrightarrow> i \<in> closed g)"

definition at_rest :: "nat \<Rightarrow> ghost \<times> slowq \<Rightarrow> bool" where
  "at_rest i = (\<lambda>(g, s). \<forall>j. vouch g i j = 0)"

lemma spares_my: "sinv N T (g, s) \<Longrightarrow> spares i (g, s) (g', s') \<Longrightarrow> sq_my s i = Some r \<Longrightarrow> srec_at r s' = srec_at r s"
  using my_rec [of N T g s i r] unfolding spares_def prod.case by blast

lemma spares_kept: "spares i (g, s) (g', s') \<Longrightarrow> vouch g i j \<noteq> 0 \<Longrightarrow> node_kept (vouch g i j) (g, s) (g', s')"
  unfolding spares_def prod.case by blast

lemma spares_simps:
  assumes "spares i (g, s) (g', s')"
  shows "sq_my s' i = sq_my s i" "credit g' i = credit g i" "vouch g' i = vouch g i" "mine i (enqs g') = mine i (enqs g)"
    "mine i (deqs g') = mine i (deqs g)" "grec g' i = grec g i"
  using assms unfolding spares_def by simp_all

lemma keepsI: "(\<And>g s g' s'. sinv N T (g, s) \<Longrightarrow> sinv N T (g', s') \<Longrightarrow> spares i (g, s) (g', s') \<Longrightarrow> P (g, s) \<Longrightarrow> P (g', s')) \<Longrightarrow> keeps N T i P"
  unfolding keeps_def by auto

lemma keeps_works [keeps_intros]: "keeps N T i (works i r E D m)"
  by (rule keepsI) (simp add: works_def spares_simps)

lemma keeps_has_node [keeps_intros]: "keeps N T i (has_node i a n)"
  by (rule keepsI) (auto simp: has_node_def spares_def)

lemma keeps_published [keeps_intros]: "keeps N T i (published i r j a)"
  by (rule keepsI) (auto simp: published_def spares_simps spares_my)

lemma keeps_sure_of [keeps_intros]: "keeps N T i (sure_of i j a)"
  by (rule keepsI) (simp add: sure_of_def spares_simps)

lemma keeps_saw_empty [keeps_intros]: "keeps N T i (saw_empty i b)"
  by (rule keepsI) (simp add: saw_empty_def spares_def)

lemma keeps_at_rest [keeps_intros]: "keeps N T i (at_rest i)"
  by (rule keepsI) (simp add: at_rest_def spares_simps)

lemma keeps_unlinked [keeps_intros]: "keeps N T i (unlinked i r a)"
proof (rule keepsI)
  fix g s g' s' assume k: "sinv N T (g, s)" "spares i (g, s) (g', s')" "unlinked i r a (g, s)"
  have "place_of g' a = Limbo i" using k(2,3) unfolding spares_def unlinked_def by blast
  with k spares_my [OF k(1,2)] spares_simps(1) [OF k(2)] show "unlinked i r a (g', s')" by (auto simp: unlinked_def)
qed

lemma keeps_sureI:
  assumes "\<And>g s g' s'. vouch g' i = vouch g i \<Longrightarrow> node_kept (vouch g i j) (g, s) (g', s') \<Longrightarrow> P (g, s) \<Longrightarrow> P (g', s')"
    and "\<And>g s. P (g, s) \<Longrightarrow> vouch g i j \<noteq> 0"
  shows "keeps N T i P"
proof (rule keepsI)
  fix g s g' s' assume s: "spares i (g, s) (g', s')" and P: "P (g, s)"
  show "P (g', s')" by (rule assms(1) [OF spares_simps(3) [OF s] spares_kept [OF s assms(2) [OF P]] P])
qed

lemma keeps_sees_next [keeps_intros]: "keeps N T i (sees_next i j a b)"
  by (rule keeps_sureI [where j = j]) (auto simp: sees_next_def node_kept_def)

lemma keeps_sees_value [keeps_intros]: "keeps N T i (sees_value i j a v)"
  by (rule keeps_sureI [where j = j]) (auto simp: sees_value_def node_kept_def)

lemma keeps_sees_head [keeps_intros]: "keeps N T i (sees_head i h)"
  by (rule keeps_sureI [where j = 0]) (auto simp: sees_head_def node_kept_def)

lemma keeps_sees_tail [keeps_intros]: "keeps N T i (sees_tail i h)"
  by (rule keeps_sureI [where j = 0]) (auto simp: sees_tail_def node_kept_def)


section \<open>The queue\<close>

lemma ss_HP:
  assumes "keeps N T i P" and "\<And>g s. sinv N T (g, s) \<Longrightarrow> P (g, s) \<Longrightarrow> sq_my s i = Some r"
    and "\<And>g s h. sinv N T (g, s) \<Longrightarrow> P (g, s) \<Longrightarrow> srec_at r s = Some h \<Longrightarrow>
      P' (g\<lparr>vouch := (vouch g)(i := (vouch g i)(j := 0))\<rparr>, s\<lparr>sq_recs := (sq_recs s)[r := h\<lparr>s_HP := (s_HP h)(j := a)\<rparr>]\<rparr>)"
    and "slow_safe N T i Q P' k"
  shows "slow_safe N T i Q P (st_HP r j a k)"
proof (rule ss_stp [OF assms(1) _ assms(4)])
  fix g s assume p: "sinv N T (g, s)" "P (g, s)"
  from my_rec [OF p(1) assms(2) [OF p]] obtain h where h: "srec_at r s = Some h" by blast
  with step_HP [OF p(1) assms(2) [OF p] h, of j a] assms(3) [OF p h]
  show "\<exists>t g'. srec_upd r (\<lambda>h. h\<lparr>s_HP := (s_HP h)(j := a)\<rparr>) s = Some t \<and> slow_G N T i (g, s) (g', t) \<and> P' (g', t)"
    by (auto simp: srec_upd_def)
qed

lemma assertion_defs: "works i r E D m (g, s) \<longleftrightarrow> sq_my s i = Some r \<and> credit g i = m \<and> mine i (enqs g) = E \<and> mine i (deqs g) = D"
  "has_node i a n (g, s) \<longleftrightarrow> place_of g a = Fresh i \<and> sq_mem s a = Some n"
  "published i r j a (g, s) \<longleftrightarrow> sq_my s i = Some r \<and> (\<exists>h. srec_at r s = Some h \<and> s_HP h j = a)"
  "sure_of i j a (g, s) \<longleftrightarrow> vouch g i j = a \<and> a \<noteq> 0"
  "sees_next i j a b (g, s) \<longleftrightarrow> vouch g i j = a \<and> a \<noteq> 0 \<and> (b \<noteq> 0 \<longrightarrow> (\<exists>n. sq_mem s a = Some n \<and> n_next n = b))"
  "sees_value i j a v (g, s) \<longleftrightarrow> vouch g i j = a \<and> a \<noteq> 0 \<and> (\<exists>n. sq_mem s a = Some n \<and> n_value n = v)"
  "sees_head i h (g, s) \<longleftrightarrow> vouch g i 0 = h \<and> h \<noteq> 0 \<and> (sq_Head s = h \<or> in_limbo g h)"
  "sees_tail i h (g, s) \<longleftrightarrow> vouch g i 0 = h \<and> h \<noteq> 0 \<and> (sq_Head s = h \<and> sq_Tail s \<noteq> h \<or> in_limbo g h)"
  "unlinked i r a (g, s) \<longleftrightarrow> sq_my s i = Some r \<and> place_of g a = Limbo i \<and> (\<exists>h. srec_at r s = Some h \<and> a \<notin> set (s_list h))"
 "saw_empty i q (g, s) \<longleftrightarrow> (q \<longrightarrow> i \<in> closed g)"
 "at_rest i (g, s) \<longleftrightarrow> (\<forall>j. vouch g i j = 0)"
  by (simp_all add: works_def has_node_def published_def sure_of_def sees_next_def sees_value_def sees_head_def sees_tail_def unlinked_def saw_empty_def at_rest_def)

lemma tail_in_queue: "sinv N T (g, s) \<Longrightarrow> place_of g (sq_Tail s) = InQueue"
  by (auto simp: sinv_def heap_inv_def queue_ok_def)

lemma not_null: "sinv N T (g, s) \<Longrightarrow> place_of g a = InQueue \<or> place_of g a = Fresh k \<Longrightarrow> a \<noteq> 0"
proof -
  assume "sinv N T (g, s)"
  then have "place_of g 0 = Nowhere" by (simp add: sinv_def heap_inv_def)
  then show "place_of g a = InQueue \<or> place_of g a = Fresh k \<Longrightarrow> a \<noteq> 0" by auto
qed

lemma sees_alloc: "sinv N T (g, s) \<Longrightarrow> vouch g i j = a \<Longrightarrow> a \<noteq> 0 \<Longrightarrow> \<exists>n. sq_mem s a = Some n"
  using vouch_alloc [of g s i j] by (auto simp: sinv_def)

text \<open>A thread reads the head or the tail a second time after it published the node.\<close>

lemma ss_seen:
  assumes "keeps N T i P" and "j < 2" and "\<And>g s. sinv N T (g, s) \<Longrightarrow> place_of g (f s) = InQueue"
    and "\<And>x. P x \<Longrightarrow> published i r j a x"
    and "\<And>g s. sinv N T (g, s) \<Longrightarrow> P (g, s) \<Longrightarrow> f s = a \<Longrightarrow> a \<noteq> 0 \<Longrightarrow> place_of g a = InQueue \<Longrightarrow> P' (g\<lparr>vouch := (vouch g)(i := (vouch g i)(j := a))\<rparr>, s)"
    and again: "slow_safe N T i Q P again" and "slow_safe N T i Q P' k"
  shows "slow_safe N T i Q P (ld f (\<lambda>b. if b \<noteq> a then again else k))"
proof (rule ss_ld [where P' = "\<lambda>b x. if b = a then P' x else P x", OF assms(1)])
  fix g s assume p: "sinv N T (g, s)" "P (g, s)"
  show "\<exists>g'. slow_G N T i (g, s) (g', s) \<and> (if f s = a then P' (g', s) else P (g', s))"
  proof (cases "f s = a")
    case True
    with assms(3) [OF p(1)] have q: "place_of g a = InQueue" by simp
    from assms(4) [OF p(2)] obtain h where "sq_my s i = Some r" "srec_at r s = Some h" "s_HP h j = a" by (auto simp: assertion_defs)
    from step_vouch [OF p(1) this assms(2) q] assms(5) [OF p True not_null [OF p(1)] q] q True show ?thesis by auto
  qed (use p slow_G_refl in \<open>auto intro!: exI [of _ g]\<close>)
next
  fix b show "slow_safe N T i Q (\<lambda>x. if b = a then P' x else P x) (if b \<noteq> a then again else k)"
    using again assms(7) by auto
qed

text \<open>A new node is linked behind the node the thread has made sure of, or the tail is helped on.\<close>

lemma ss_link:
  assumes v: "v \<noteq> EMPTY" and plan: "i < length T" "T ! i = E @ v # ws" and again: "slow_safe N T i Q (\<lambda>x. works i r E D m x \<and> has_node i a \<lparr>n_value = v, n_next = 0\<rparr> x) again"
    and linked: "\<And>x. sinv N T x \<Longrightarrow> works i r (E @ [v]) D m x \<Longrightarrow> sees_next i 0 t a x \<Longrightarrow> a \<noteq> 0 \<Longrightarrow> Q t x"
  shows "slow_safe N T i Q (\<lambda>x. (works i r E D m x \<and> has_node i a \<lparr>n_value = v, n_next = 0\<rparr> x) \<and> sees_next i 0 t b x)
    (if b \<noteq> 0 then cas (\<lambda>s. sq_Tail s = t) (\<lambda>s. s\<lparr>sq_Tail := b\<rparr>) (\<lambda>_. again) else
     casp (\<lambda>s. map_option n_next (sq_mem s t)) 0 (\<lambda>s. the (snode_upd t (\<lambda>n. n\<lparr>n_next := a\<rparr>) s)) (\<lambda>ok. if ok then Ret t else again))"
    (is "slow_safe N T i Q (\<lambda>x. ?P x \<and> _ x) (if _ then ?A else ?C)")
proof -
  have "slow_safe N T i Q (\<lambda>x. ?P x \<and> sees_next i 0 t b x) ?C"
  proof (rule ss_casp [where PT = "\<lambda>x. works i r (E @ [v]) D m x \<and> sees_next i 0 t a x \<and> a \<noteq> 0" and PF = ?P], goal_cases)
    case (2 g s)
    with sees_alloc [OF 2(1), of i 0 t] show ?case by (auto simp: assertion_defs)
  next
    case (3 g s)
    then obtain n where n: "sq_mem s t = Some n" "n_next n = 0" by auto
    from 3(2) have "place_of g a = Fresh i" "sq_mem s a = Some \<lparr>n_value = v, n_next = 0\<rparr>" "vouch g i 0 = t" "t \<noteq> 0"
      by (auto simp: assertion_defs)
    from step_link [OF this n v plan(1)] plan(2) n 3(2) not_null [OF 3(1)] show ?case
      by (intro exI conjI, simp add: snode_upd_def) (auto simp: snode_upd_def assertion_defs mine_snoc)
  qed (use again in \<open>auto intro!: ss_Ret keeps_intros linked\<close>)
  moreover have "slow_safe N T i Q (\<lambda>x. ?P x \<and> sees_next i 0 t b x) ?A" if b: "b \<noteq> 0"
  proof (rule ss_cas [where PT = ?P and PF = ?P], goal_cases)
    case (2 g s)
    with b step_tail [of s _ b N T i g] show ?case by (auto intro!: exI [of _ g] simp: assertion_defs)
  qed (use again in \<open>auto intro!: keeps_intros\<close>)
  ultimately show ?thesis by auto
qed

lemma slow_enqueue_loop_safe:
  assumes v: "v \<noteq> EMPTY" and plan: "i < length T" "T ! i = E @ v # ws"
  shows "slow_safe N T i (\<lambda>t x. works i r (E @ [v]) D m x \<and> sees_next i 0 t a x \<and> a \<noteq> 0)
    (\<lambda>x. works i r E D m x \<and> has_node i a \<lparr>n_value = v, n_next = 0\<rparr> x) (slow_enqueue_loop fuel r a)"
proof (induction fuel)
  case 0
  show ?case by (simp add: ss_Spin keeps_intros)
next
  case (Suc fuel)
  let ?P = "\<lambda>x. works i r E D m x \<and> has_node i a \<lparr>n_value = v, n_next = 0\<rparr> x"
  let ?Q = "\<lambda>t x. works i r (E @ [v]) D m x \<and> sees_next i 0 t a x \<and> a \<noteq> 0"
  have again: "slow_safe N T i ?Q P (slow_enqueue_loop fuel r a)" if "keeps N T i P" "\<And>x. P x \<Longrightarrow> ?P x" for P
    by (rule ss_pre [OF Suc that])
  show ?case
    unfolding slow_enqueue_loop.simps
  proof (rule ss_ld0 [where P' = "\<lambda>_. ?P"], goal_cases)
    case (3 t)
    show ?case
    proof (rule ss_HP [where P' = "\<lambda>x. ?P x \<and> published i r 0 t x"], goal_cases)
      case 4
      show ?case
      proof (rule ss_seen [where P' = "\<lambda>x. ?P x \<and> sure_of i 0 t x" and i = i and r = r and j = 0 and a = t], goal_cases)
        case 7
        show ?case
        proof (rule ss_ldp0 [where P' = "\<lambda>b x. ?P x \<and> sees_next i 0 t b x"], goal_cases)
          case (2 g s)
          with sees_alloc [OF 2(1), of i 0 t] show ?case by (auto simp: assertion_defs)
        next
          case (3 b)
          show ?case
          proof (rule ss_ld0 [where P' = "\<lambda>_ x. ?P x \<and> sees_next i 0 t b x"], goal_cases)
            case (3 t')
            show ?case using ss_link [OF v plan Suc, of t b] by (auto intro!: again keeps_intros)
          qed (auto intro!: keeps_intros)
        qed (auto intro!: keeps_intros simp: assertion_defs)
      qed (auto intro!: again keeps_intros tail_in_queue simp: assertion_defs)
    qed (auto intro!: keeps_intros simp: assertion_defs srec_at_own)
  qed (auto intro!: keeps_intros)
qed


text \<open>The head moves to the second node, whose value was read.\<close>

lemma sinv_head: "sinv N T (g, s) \<Longrightarrow> place_of g (sq_Head s) = InQueue"
  using head_in_queue [of g s] by (simp add: sinv_def)

lemma works_not_empty: "sinv N T x \<Longrightarrow> works i r E (D @ [v]) m x \<Longrightarrow> v \<noteq> EMPTY"
proof -
  assume a: "sinv N T x" "works i r E (D @ [v]) m x"
  obtain g s where x: "x = (g, s)" by fastforce
  from a(2) x have "v \<in> set (mine i (deqs g))" by (simp add: works_def)
  then have "v \<in> set (map snd (deqs g))" by (auto simp: mine_def)
  moreover have "map snd (enqs g) = map snd (deqs g) @ queue_values (gq g)" "EMPTY \<notin> snd ` set (enqs g)"
    using a(1) x by (simp_all add: sinv_def log_inv_def)
  ultimately show ?thesis by (metis Un_iff list.set_map set_append)
qed

lemma unlinked_fresh:
  assumes "sinv N T (g, s)" and "sq_my s i = Some r" and "place_of g h = InQueue"
  shows "\<exists>hr. srec_at r s = Some hr \<and> h \<notin> set (s_list hr)"
  using my_rec [OF assms(1,2)] assms(3) by fastforce

lemma ss_take:
  assumes i: "i < length T" and "t \<noteq> h" and "b \<noteq> 0" and again: "slow_safe N T i Q (works i r E D m) again"
    and taken: "\<And>x. sinv N T x \<Longrightarrow> works i r E (D @ [v]) m x \<Longrightarrow> unlinked i r h x \<Longrightarrow> Q (Some (v, h)) x"
  shows "slow_safe N T i Q (\<lambda>x. works i r E D m x \<and> sees_tail i h x \<and> sees_next i 0 h b x \<and> sees_value i 1 b v x)
    (cas (\<lambda>s. sq_Head s = h) (\<lambda>s. s\<lparr>sq_Head := b\<rparr>) (\<lambda>ok. if ok then Ret (Some (v, h)) else again))"
proof (rule ss_cas [where PT = "\<lambda>x. works i r E (D @ [v]) m x \<and> unlinked i r h x" and PF = "works i r E D m"], goal_cases)
  case (2 g s)
  from 2(2) obtain n k where n: "sq_mem s h = Some n" "n_next n = b" "sq_mem s b = Some k" "n_value k = v" "b \<noteq> 0"
    using assms(3) by (auto simp: assertion_defs)
  from sinv_head [OF 2(1)] 2 have hq: "place_of g h = InQueue" "sq_Tail s \<noteq> h" by (auto simp: assertion_defs)
  have "sq_my s i = Some r" using 2(2) by (simp add: assertion_defs)
  from step_take [of s n b k i T N g] i unlinked_fresh [OF 2(1) this hq(1)] n hq 2 show ?case
    by (intro exI conjI, simp) (auto simp: assertion_defs mine_snoc)
qed (use again in \<open>auto intro!: ss_Ret keeps_intros taken\<close>)

lemma second_in_queue:
  assumes "sinv N T (g, s)" and "sq_mem s (sq_Head s) = Some n" and "n_next n = b" and "b \<noteq> 0"
  shows "place_of g b = InQueue"
proof -
  have q: "queue_ok (sq_mem s) (sq_Head s) (sq_Tail s) (gq g)" using assms(1) by (simp add: sinv_def heap_inv_def)
  from queue_head [OF q] assms(2) obtain v ys where y: "gq g = (sq_Head s, v) # ys" "nseg (sq_mem s) (n_next n) ys 0" by auto
  then have "b \<in> fst ` set (gq g)" using assms(3,4) by (cases ys) auto
  then show ?thesis using assms(1) by (simp add: sinv_def heap_inv_def)
qed

lemma ss_finish:
  assumes i: "i < length T" and again: "slow_safe N T i Q (works i r E D m) again"
    and empty: "\<And>x. sinv N T x \<Longrightarrow> works i r E D m x \<Longrightarrow> saw_empty i (E = T ! i) x \<Longrightarrow> Q None x"
    and taken: "\<And>v x. sinv N T x \<Longrightarrow> works i r E (D @ [v]) m x \<Longrightarrow> unlinked i r h x \<Longrightarrow> Q (Some (v, h)) x"
  shows "slow_safe N T i Q (\<lambda>x. works i r E D m x \<and> (t \<noteq> h \<longrightarrow> sees_tail i h x) \<and> sees_next i 0 h b x \<and> (b \<noteq> 0 \<longrightarrow> sure_of i 1 b x) \<and>
      (b = 0 \<longrightarrow> saw_empty i (E = T ! i) x))
    (if b = 0 then Ret None else if h = t then cas (\<lambda>s. sq_Tail s = t) (\<lambda>s. s\<lparr>sq_Tail := b\<rparr>) (\<lambda>_. again) else
     rd_snode n_value b (\<lambda>data. cas (\<lambda>s. sq_Head s = h) (\<lambda>s. s\<lparr>sq_Head := b\<rparr>) (\<lambda>ok. if ok then Ret (Some (data, h)) else again)))"
    (is "slow_safe N T i Q ?P (if _ then _ else if _ then ?A else ?B)")
proof -
  have "slow_safe N T i Q ?P (Ret None)" if "b = 0" using that by (auto intro!: ss_Ret keeps_intros empty)
  moreover have "slow_safe N T i Q ?P ?A" if "b \<noteq> 0" "h = t"
  proof (rule ss_cas [where PT = "works i r E D m" and PF = "works i r E D m"], goal_cases)
    case (2 g s)
    with that step_tail [of s _ b N T i g] show ?case by (auto intro!: exI [of _ g] simp: assertion_defs)
  qed (use again in \<open>auto intro!: keeps_intros\<close>)
  moreover have "slow_safe N T i Q ?P ?B" if b: "b \<noteq> 0" "h \<noteq> t"
  proof (rule ss_ldp0 [where P' = "\<lambda>v x. works i r E D m x \<and> sees_tail i h x \<and> sees_next i 0 h b x \<and> sees_value i 1 b v x"], goal_cases)
    case (2 g s)
    with sees_alloc [OF 2(1), of i 1 b] b show ?case by (auto simp: assertion_defs)
  next
    case (3 v)
    show ?case by (rule ss_take [OF i _ b(1) again taken]) (use b in auto)
  qed (auto intro!: keeps_intros)
  ultimately show ?thesis by auto
qed

text \<open>The head read again, after the successor is published: then the successor is in the queue.\<close>

lemma ss_second:
  assumes i: "i < length T" and again: "slow_safe N T i Q (works i r E D m) again"
    and empty: "\<And>x. sinv N T x \<Longrightarrow> works i r E D m x \<Longrightarrow> saw_empty i (E = T ! i) x \<Longrightarrow> Q None x"
    and taken: "\<And>v x. sinv N T x \<Longrightarrow> works i r E (D @ [v]) m x \<Longrightarrow> unlinked i r h x \<Longrightarrow> Q (Some (v, h)) x"
  shows "slow_safe N T i Q (\<lambda>x. works i r E D m x \<and> (t \<noteq> h \<longrightarrow> sees_tail i h x) \<and> sees_next i 0 h b x \<and> published i r 1 b x \<and>
      (b = 0 \<longrightarrow> saw_empty i (E = T ! i) x))
    (ld sq_Head (\<lambda>h'. if h' \<noteq> h then again else
      if b = 0 then Ret None else if h = t then cas (\<lambda>s. sq_Tail s = t) (\<lambda>s. s\<lparr>sq_Tail := b\<rparr>) (\<lambda>_. again) else
      rd_snode n_value b (\<lambda>data. cas (\<lambda>s. sq_Head s = h) (\<lambda>s. s\<lparr>sq_Head := b\<rparr>) (\<lambda>ok. if ok then Ret (Some (data, h)) else again))))"
    (is "slow_safe N T i Q ?P _")
proof (rule ss_ld [where P' = "\<lambda>h' x. works i r E D m x \<and> (h' = h \<longrightarrow> (t \<noteq> h \<longrightarrow> sees_tail i h x) \<and> sees_next i 0 h b x \<and> (b \<noteq> 0 \<longrightarrow> sure_of i 1 b x) \<and>
    (b = 0 \<longrightarrow> saw_empty i (E = T ! i) x))"], goal_cases)
  case (2 g s)
  show ?case
  proof (cases "sq_Head s = h \<and> b \<noteq> 0")
    case True
    with 2(2) obtain n hr where n: "sq_mem s (sq_Head s) = Some n" "n_next n = b" "sq_my s i = Some r" "srec_at r s = Some hr" "s_HP hr 1 = b"
      by (auto simp: assertion_defs)
    from second_in_queue [OF 2(1) n(1,2)] True step_vouch [OF 2(1) n(3-5)] have
      "slow_G N T i (g, s) (g\<lparr>vouch := (vouch g)(i := (vouch g i)(1 := b))\<rparr>, s)" by simp
    with True 2(2) show ?thesis by (intro exI conjI, blast) (auto simp: assertion_defs)
  qed (use 2 in \<open>auto intro!: exI [of _ g] slow_G_refl\<close>)
next
  case (3 h')
  have "slow_safe N T i Q (\<lambda>x. works i r E D m x \<and> (h' = h \<longrightarrow> (t \<noteq> h \<longrightarrow> sees_tail i h x) \<and> sees_next i 0 h b x \<and> (b \<noteq> 0 \<longrightarrow> sure_of i 1 b x) \<and>
      (b = 0 \<longrightarrow> saw_empty i (E = T ! i) x))) again"
    by (rule ss_pre [OF again]) (auto intro!: keeps_intros)
  then show ?case using ss_finish [where Q = Q and h = h and t = t and b = b, OF i again empty taken] by auto
qed (auto intro!: keeps_intros)

text \<open>The successor of the head is read: when there is none, the queue is empty at this moment.\<close>

lemma read_next:
  assumes "sinv N T (g, s)" and "i < length T" and "works i r E D m (g, s)" and "sees_head i h (g, s)" and "t \<noteq> h \<longrightarrow> sees_tail i h (g, s)"
  shows "\<exists>g'. slow_G N T i (g, s) (g', s) \<and> works i r E D m (g', s) \<and> (t \<noteq> h \<longrightarrow> sees_tail i h (g', s)) \<and>
    (\<exists>n. sq_mem s h = Some n \<and> sees_next i 0 h (n_next n) (g', s) \<and> (n_next n = 0 \<longrightarrow> saw_empty i (E = T ! i) (g', s)))"
proof -
  from assms(4) have h: "vouch g i 0 = h" "h \<noteq> 0" "sq_Head s = h \<or> in_limbo g h" by (auto simp: assertion_defs)
  from sees_alloc [OF assms(1) h(1,2)] obtain n where n: "sq_mem s h = Some n" by blast
  show ?thesis
  proof (cases "n_next n = 0 \<and> E = T ! i")
    case True
    then have "sq_Head s = h" using h(3) n sinvD [OF assms(1)] by (auto simp: heap_inv_def)
    from step_close [OF assms(2) _ n _ this, of g N] True assms(3-5) n h show ?thesis
      by (intro exI [of _ "g\<lparr>closed := insert i (closed g)\<rparr>"]) (auto simp: assertion_defs)
  next
    case False
    with assms(3-5) n h show ?thesis by (intro exI [of _ g]) (auto simp: assertion_defs slow_G_refl)
  qed
qed

lemma slow_dequeue_loop_safe:
  assumes i: "i < length T"
  shows "slow_safe N T i (\<lambda>res x. case res of None \<Rightarrow> works i r E D m x \<and> saw_empty i (E = T ! i) x
      | Some (v, h) \<Rightarrow> works i r E (D @ [v]) m x \<and> unlinked i r h x)
    (works i r E D m) (slow_dequeue_loop fuel r)" (is "slow_safe N T i ?Q ?P _")
proof (induction fuel)
  case 0
  show ?case by (simp add: ss_Spin keeps_intros)
next
  case (Suc fuel)
  have again: "slow_safe N T i ?Q P (slow_dequeue_loop fuel r)" if "keeps N T i P" "\<And>x. P x \<Longrightarrow> ?P x" for P
    by (rule ss_pre [OF Suc that])
  show ?case
    unfolding slow_dequeue_loop.simps
  proof (rule ss_ld0 [where P' = "\<lambda>_. ?P"], goal_cases)
    case (3 h)
    show ?case
    proof (rule ss_HP [where P' = "\<lambda>x. ?P x \<and> published i r 0 h x"], goal_cases)
      case 4
      show ?case
      proof (rule ss_seen [where P' = "\<lambda>x. ?P x \<and> sees_head i h x" and i = i and r = r and j = 0 and a = h], goal_cases)
        case 7
        show ?case
        proof (rule ss_ld0 [where P' = "\<lambda>t x. ?P x \<and> sees_head i h x \<and> (t \<noteq> h \<longrightarrow> sees_tail i h x)"], goal_cases)
          case (3 t)
          show ?case
          proof (rule ss_ldp [where P' = "\<lambda>b x. ?P x \<and> (t \<noteq> h \<longrightarrow> sees_tail i h x) \<and> sees_next i 0 h b x \<and> (b = 0 \<longrightarrow> saw_empty i (E = T ! i) x)"], goal_cases)
            case (2 g s)
            then obtain g' where "slow_G N T i (g, s) (g', s)" "?P (g', s)" "t \<noteq> h \<longrightarrow> sees_tail i h (g', s)"
              "\<exists>n. sq_mem s h = Some n \<and> sees_next i 0 h (n_next n) (g', s) \<and> (n_next n = 0 \<longrightarrow> saw_empty i (E = T ! i) (g', s))"
              using read_next [OF 2(1) i, of r E D m h t] by blast
            then show ?case by auto
          next
            case (3 b)
            show ?case
            proof (rule ss_HP [where P' = "\<lambda>x. ?P x \<and> (t \<noteq> h \<longrightarrow> sees_tail i h x) \<and> sees_next i 0 h b x \<and> published i r 1 b x \<and> (b = 0 \<longrightarrow> saw_empty i (E = T ! i) x)"], goal_cases)
              case 4
              show ?case by (rule ss_second [OF i Suc]) auto
            qed (auto intro!: keeps_intros simp: assertion_defs srec_at_own)
          qed (auto intro!: keeps_intros)
        qed (auto intro!: keeps_intros simp: assertion_defs)
      qed (auto intro!: again keeps_intros sinv_head simp: assertion_defs)
    qed (auto intro!: keeps_intros simp: assertion_defs srec_at_own)
  qed (auto intro!: keeps_intros)
qed

end
