(* ===== verification/SlowThreads.thy ===== *)
theory SlowThreads
  imports SlowSafe "HOL-Library.Multiset"
begin

text \<open>
  The whole program of \<^verbatim>\<open>hazardpointerslow.c\<close>: what retiring, scanning and helping do to the nodes,
  the threads with their records, and what holds at any moment of any interleaving.
\<close>

section \<open>Enqueue\<close>

definition slow_cfg_ok :: "nat \<Rightarrow> slow_cfg \<Rightarrow> bool" where
  "slow_cfg_ok N c \<longleftrightarrow> malloc_room N (sc_malloc c)"

lemma ss_with_srec:
  assumes "keeps N T i P" and "\<And>g s. P (g, s) \<Longrightarrow> sq_my s i = Some r" and "slow_safe N T i Q P (k r)"
  shows "slow_safe N T i Q P (with_srec i k)"
  unfolding with_srec_def
proof (rule ss_ldp0 [where P' = "\<lambda>q x. q = r \<and> P x", OF assms(1)])
  show "slow_safe N T i Q (\<lambda>x. q = r \<and> P x) (k q)" for q by (rule ss_pure) (use assms(3) in simp)
qed (use assms(2) in auto)

lemma room_left:
  assumes "sinv N T (g, s)" and "credit g i = Suc m" and "i < length T"
  shows "card (dom (sq_mem s)) < N"
proof -
  have "credit g i \<le> (\<Sum>k<length T. credit g k)" by (rule member_le_sum) (use assms(3) in simp_all)
  with assms(1,2) show ?thesis by (simp add: sinv_def room_inv_def)
qed

lemma ss_node:
  assumes "i < length T" and "slow_cfg_ok N c"
    and "\<And>a. slow_safe N T i Q (\<lambda>x. works i r E D m x \<and> has_node i a \<lparr>n_value = v, n_next = 0\<rparr> x) (k a)"
  shows "slow_safe N T i Q (works i r E D (Suc m)) (slow_new_node c v k)"
  unfolding slow_new_node_def
proof (rule ss_fetch [where P' = "\<lambda>a x. works i r E D m x \<and> has_node i a \<lparr>n_value = 0, n_next = 0\<rparr> x"], goal_cases)
  case (2 g s)
  let ?a = "sc_malloc c (sq_mem s)"
  have "card (dom (sq_mem s)) < N" using room_left [OF 2(1) _ assms(1)] 2(2) by (simp add: assertion_defs)
  with assms(2) have a: "?a \<noteq> 0" "sq_mem s ?a = None" by (auto simp: slow_cfg_ok_def malloc_room_def malloc_ok_def)
  with step_alloc [OF a(2,1) _ assms(1), of g m N "\<lparr>n_value = 0, n_next = 0\<rparr>"] 2(2) show ?case
    by (intro exI conjI, simp add: assertion_defs) (auto simp: assertion_defs)
next
  case (3 a)
  have w: "slow_safe N T i Q (\<lambda>x. works i r E D m x \<and> has_node i a n x) (stp (snode_upd a f) p)"
    if "slow_safe N T i Q (\<lambda>x. works i r E D m x \<and> has_node i a (f n) x) p" for f n p
  proof (rule ss_stp [OF _ _ that])
    fix g s assume p: "works i r E D m (g, s) \<and> has_node i a n (g, s)"
    then have "place_of g a = Fresh i" by (simp add: assertion_defs)
    from step_fresh [OF this, of N T s "f n"] p
    show "\<exists>t g'. snode_upd a f s = Some t \<and> slow_G N T i (g, s) (g', t) \<and> works i r E D m (g', t) \<and> has_node i a (f n) (g', t)"
      by (auto simp: assertion_defs snode_upd_def)
  qed (auto intro!: keeps_intros)
  show ?case by (rule w, rule w) (use assms(3) in simp)
qed (auto intro!: keeps_intros)

lemma slow_enqueue_safe:
  assumes "i < length T" and "slow_cfg_ok N c" and "v \<noteq> EMPTY" and "T ! i = E @ v # ws"
  shows "slow_safe N T i (\<lambda>_. works i r (E @ [v]) D m) (works i r E D (Suc m)) (slow_enqueue c fuel i v)"
  unfolding slow_enqueue_def
proof (rule ss_with_srec [where r = r], goal_cases)
  case 3
  show ?case
  proof (rule ss_node [OF assms(1,2)], rule ss_bind [OF slow_enqueue_loop_safe [OF assms(3,1,4)]])
    fix a t
    let ?P = "\<lambda>x. works i r (E @ [v]) D m x \<and> sees_next i 0 t a x \<and> a \<noteq> 0"
    have hp: "slow_safe N T i (\<lambda>_. works i r (E @ [v]) D m) (works i r (E @ [v]) D m) (st_HP r 0 0 (Ret ()))"
      by (rule ss_HP [where P' = "works i r (E @ [v]) D m"]) (auto intro!: keeps_intros ss_Ret simp: assertion_defs)
    show "slow_safe N T i (\<lambda>_. works i r (E @ [v]) D m) ?P
        (cas (\<lambda>s. sq_Tail s = t) (\<lambda>s. s\<lparr>sq_Tail := a\<rparr>) (\<lambda>_. st_HP r 0 0 (Ret ())))"
    proof (rule ss_cas [OF _ _ _ hp hp], goal_cases)
      case (2 g s)
      with step_tail [of s _ a N T i g] show ?case by (auto intro!: exI [of _ g] simp: assertion_defs)
    qed (auto intro!: keeps_intros)
  qed
qed (auto intro!: keeps_intros simp: assertion_defs)

section \<open>Retiring\<close>

text \<open>The part of the list of records still to be read, and the protected retired nodes: each is noted
  already or belongs to a slot still to be read.\<close>

definition walks :: "nat list \<Rightarrow> ghost \<times> slowq \<Rightarrow> bool" where
  "walks rs = (\<lambda>(g, s). \<exists>pre. gchain g = pre @ rs)"

definition covers :: "nat \<Rightarrow> nat \<Rightarrow> (nat \<times> nat) set \<Rightarrow> addr set \<Rightarrow> ghost \<times> slowq \<Rightarrow> bool" where
  "covers i r W A = (\<lambda>(g, s). sq_my s i = Some r \<and> (\<exists>h. srec_at r s = Some h \<and>
     (\<forall>a \<in> set (s_list h). \<forall>k j. vouch g k j = a \<longrightarrow> a \<in> A \<or> (\<exists>q. sq_my s k = Some q \<and> (q, j) \<in> W))))"

definition has_list :: "nat \<Rightarrow> nat \<Rightarrow> addr list \<Rightarrow> ghost \<times> slowq \<Rightarrow> bool" where
  "has_list i r l = (\<lambda>(g, s). sq_my s i = Some r \<and> (\<exists>h. srec_at r s = Some h \<and> s_list h = l))"

lemma scan_defs: "walks rs (g, s) \<longleftrightarrow> (\<exists>pre. gchain g = pre @ rs)"
  "covers i r W A (g, s) \<longleftrightarrow> sq_my s i = Some r \<and> (\<exists>h. srec_at r s = Some h \<and>
     (\<forall>a \<in> set (s_list h). \<forall>k j. vouch g k j = a \<longrightarrow> a \<in> A \<or> (\<exists>q. sq_my s k = Some q \<and> (q, j) \<in> W)))"
  "has_list i r l (g, s) \<longleftrightarrow> sq_my s i = Some r \<and> (\<exists>h. srec_at r s = Some h \<and> s_list h = l)"
  by (simp_all add: walks_def covers_def has_list_def)

lemma keeps_walks [keeps_intros]: "keeps N T i (walks rs)"
proof (rule keepsI)
  fix g s g' s' assume "spares i (g, s) (g', s')" "walks rs (g, s)"
  then obtain pre more where "gchain g' = more @ gchain g" "gchain g = pre @ rs" unfolding spares_def walks_def by auto
  then show "walks rs (g', s')" by (intro scan_defs(1) [THEN iffD2] exI [of _ "more @ pre"]) simp
qed

lemma keeps_has_list [keeps_intros]: "keeps N T i (has_list i r l)"
  by (rule keepsI) (auto simp: scan_defs spares_simps spares_my)

lemma keeps_covers [keeps_intros]: "keeps N T i (covers i r W A)"
proof (rule keepsI)
  fix g s g' s' assume k: "sinv N T (g, s)" "sinv N T (g', s')" "spares i (g, s) (g', s')" "covers i r W A (g, s)"
  from k(4) obtain h where h: "sq_my s i = Some r" "srec_at r s = Some h"
    "\<forall>a \<in> set (s_list h). \<forall>k j. vouch g k j = a \<longrightarrow> a \<in> A \<or> (\<exists>q. sq_my s k = Some q \<and> (q, j) \<in> W)" by (auto simp: scan_defs)
  have l: "\<forall>a \<in> set (s_list h). place_of g a = Limbo i" using my_rec [OF k(1) h(1)] h(2) by auto
  have "a \<in> A \<or> (\<exists>q. sq_my s' k = Some q \<and> (q, j) \<in> W)" if a: "a \<in> set (s_list h)" "vouch g' k j = a" for a k j
  proof -
    have "vouch g k j = a" using l a k(3) unfolding spares_def by blast
    with h(3) a(1) have "a \<in> A \<or> (\<exists>q. sq_my s k = Some q \<and> (q, j) \<in> W)" by blast
    with k(3) show ?thesis unfolding spares_def by blast
  qed
  with h(1,2) spares_simps(1) [OF k(3)] spares_my [OF k(1,3) h(1)] show "covers i r W A (g', s')" by (auto simp: scan_defs)
qed


lemma walks_next:
  assumes "sinv N T (g, s)" and "walks (q # rs) (g, s)"
  shows "\<exists>h. srec_at q s = Some h \<and> s_Active h \<and> s_next h = ptr rs"
proof -
  from assms obtain pre where "links s (sq_head s) (pre @ q # rs)" by (auto simp: sinv_def recs_inv_def scan_defs)
  from links_append [OF this] obtain h where "srec_at q s = Some h" "s_Active h" "links s (s_next h) rs" by auto
  then show ?thesis by (auto dest: links_ptr)
qed

lemma walks_tail: "walks (q # rs) x \<Longrightarrow> walks rs x"
proof -
  assume w: "walks (q # rs) x"
  obtain g s where x: "x = (g, s)" by fastforce
  from w x obtain pre where "gchain g = pre @ q # rs" by (auto simp: scan_defs)
  then show "walks rs x" unfolding x scan_defs by (intro exI [of _ "pre @ [q]"]) simp
qed

lemma head_walks: "sinv N T (g, s) \<Longrightarrow> sq_head s = ptr (gchain g) \<and> walks (gchain g) (g, s)"
  by (auto simp: sinv_def recs_inv_def scan_defs dest: links_ptr)

lemma limbo_not_null: "sinv N T (g, s) \<Longrightarrow> place_of g a = Limbo k \<Longrightarrow> a \<noteq> 0"
proof -
  assume "sinv N T (g, s)"
  then have "place_of g 0 = Nowhere" by (simp add: sinv_def heap_inv_def)
  then show "place_of g a = Limbo k \<Longrightarrow> a \<noteq> 0" by auto
qed

lemma vouchD:
  assumes "sinv N T (g, s)" and "vouch g k j \<noteq> 0"
  shows "\<exists>q h. j < 2 \<and> sq_my s k = Some q \<and> srec_at q s = Some h \<and> s_HP h j = vouch g k j \<and> q \<in> set (gchain g)"
proof -
  from sinvD [OF assms(1)] assms(2) obtain q h where q: "j < 2" "sq_my s k = Some q" "srec_at q s = Some h" "s_HP h j = vouch g k j"
    unfolding vouch_inv_def by blast
  with sinvD [OF assms(1)] show ?thesis unfolding recs_inv_def by blast
qed

text \<open>A slot is read: what it protects is noted, if it protects anything.\<close>

lemma covers_change:
  assumes "sinv N T (g, s)" and "covers i r W A (g, s)"
    and "\<And>a k j q h. a \<noteq> 0 \<Longrightarrow> vouch g k j = a \<Longrightarrow> j < 2 \<Longrightarrow> sq_my s k = Some q \<Longrightarrow> srec_at q s = Some h \<Longrightarrow> s_HP h j = a \<Longrightarrow> (q, j) \<in> W \<Longrightarrow>
      a \<in> A' \<or> (q, j) \<in> W'"
    and "A \<subseteq> A'"
  shows "covers i r W' A' (g, s)"
proof -
  from assms(2) obtain h where h: "sq_my s i = Some r" "srec_at r s = Some h"
    "\<forall>a \<in> set (s_list h). \<forall>k j. vouch g k j = a \<longrightarrow> a \<in> A \<or> (\<exists>q. sq_my s k = Some q \<and> (q, j) \<in> W)" by (auto simp: scan_defs)
  have "a \<in> A' \<or> (\<exists>q. sq_my s k = Some q \<and> (q, j) \<in> W')" if a: "a \<in> set (s_list h)" "vouch g k j = a" for a k j
  proof -
    have "a \<noteq> 0" using my_rec [OF assms(1) h(1)] h(2) a(1) limbo_not_null [OF assms(1)] by auto
    moreover from this vouchD [OF assms(1), of k j] a(2) obtain q hq where q: "j < 2" "sq_my s k = Some q" "srec_at q s = Some hq" "s_HP hq j = a"
      by blast
    moreover have "a \<in> A \<or> (q, j) \<in> W" using h(3) [rule_format, OF a] q(2) by auto
    ultimately show ?thesis using assms(3) [of a k j q hq] assms(4) a(2) q(2) by blast
  qed
  with h(1,2) show ?thesis by (auto simp: scan_defs)
qed

lemma covers_start:
  assumes "sinv N T (g, s)" and "sq_my s i = Some r"
  shows "covers i r (set (gchain g) \<times> UNIV) {} (g, s)"
proof -
  from my_rec [OF assms] obtain h where h: "srec_at r s = Some h" "\<forall>a \<in> set (s_list h). place_of g a = Limbo i" by auto
  have "\<exists>q. sq_my s k = Some q \<and> q \<in> set (gchain g)" if "a \<in> set (s_list h)" "vouch g k j = a" for a k j
  proof -
    have "a \<noteq> 0" using h(2) that(1) limbo_not_null [OF assms(1)] by auto
    with that(2) vouchD [OF assms(1), of k j] show ?thesis by blast
  qed
  with h assms(2) show ?thesis by (fastforce simp: scan_defs)
qed

lemma ss_slot:
  assumes "\<And>p. slow_safe N T i Q (\<lambda>x. works i r E D m x \<and> at_rest i x \<and> walks (q # rs) x \<and>
      covers i r (W - {(q, j)}) (set (if p \<noteq> 0 then p # plist else plist)) x) (k p)"
  shows "slow_safe N T i Q (\<lambda>x. works i r E D m x \<and> at_rest i x \<and> walks (q # rs) x \<and> covers i r W (set plist) x)
    (rd_srec (\<lambda>h. s_HP h j) q k)"
proof (rule ss_ldp0 [OF _ _ assms], goal_cases)
  case (2 g s)
  from walks_next [OF 2(1)] 2(2) obtain h where h: "srec_at q s = Some h" by blast
  have "covers i r (W - {(q, j)}) (set (if s_HP h j \<noteq> 0 then s_HP h j # plist else plist)) (g, s)"
    by (rule covers_change [OF 2(1), of i r W "set plist"]) (use 2(2) h in auto)
  with 2(2) h show ?case by auto
qed (auto intro!: keeps_intros)

text \<open>The walk goes on behind a record whose two slots are read, or which is the own one.\<close>

lemma ss_go:
  assumes "\<And>g s a k j p. sinv N T (g, s) \<Longrightarrow> works i r E D m (g, s) \<Longrightarrow> at_rest i (g, s) \<Longrightarrow> a \<noteq> 0 \<Longrightarrow> vouch g k j = a \<Longrightarrow>
      sq_my s k = Some p \<Longrightarrow> j < 2 \<Longrightarrow> (p, j) \<in> W \<Longrightarrow> p \<in> set rs"
    and "slow_safe N T i Q (\<lambda>x. works i r E D m x \<and> at_rest i x \<and> walks rs x \<and> covers i r (set rs \<times> UNIV) (set plist) x) (k (ptr rs))"
  shows "slow_safe N T i Q (\<lambda>x. works i r E D m x \<and> at_rest i x \<and> walks (q # rs) x \<and> covers i r W (set plist) x)
    (rd_srec s_next q k)"
proof (rule ss_ldp0 [where P' = "\<lambda>n x. n = ptr rs \<and> works i r E D m x \<and> at_rest i x \<and> walks rs x \<and> covers i r (set rs \<times> UNIV) (set plist) x"], goal_cases)
  case (2 g s)
  from walks_next [OF 2(1)] 2(2) obtain h where h: "srec_at q s = Some h" "s_next h = ptr rs" by blast
  have "covers i r (set rs \<times> UNIV) (set plist) (g, s)"
    by (rule covers_change [OF 2(1), of i r W "set plist"]) (use 2(2) assms(1) [OF 2(1)] in blast)+
  with 2(2) h show ?case by (auto intro: walks_tail)
next
  case (3 n)
  show ?case by (rule ss_pure) (use assms(2) in simp)
qed (auto intro!: keeps_intros)

lemma my_inj: "sinv N T (g, s) \<Longrightarrow> sq_my s k = Some r \<Longrightarrow> sq_my s i = Some r \<Longrightarrow> k = i"
  using sinvD [of N T g s] unfolding recs_inv_def by blast

lemma slow_collect_safe:
  assumes k: "\<And>plist. slow_safe N T i Q (\<lambda>x. works i r E D m x \<and> at_rest i x \<and> covers i r {} (set plist) x) (k plist)"
  shows "slow_safe N T i Q (\<lambda>x. works i r E D m x \<and> at_rest i x \<and> walks rs x \<and> covers i r (set rs \<times> UNIV) (set plist) x)
    (slow_collect fuel r (ptr rs) plist k)"
proof (induction fuel arbitrary: rs plist)
  case 0
  show ?case by (simp add: ss_Spin keeps_intros)
next
  case (Suc fuel)
  show ?case
  proof (cases rs)
    case Nil
    show ?thesis by (simp add: Nil) (rule ss_pre [OF k], auto intro!: keeps_intros)
  next
    case (Cons q rs')
    have own: "slow_safe N T i Q (\<lambda>x. works i r E D m x \<and> at_rest i x \<and> walks (r # rs') x \<and> covers i r (set (r # rs') \<times> UNIV) (set plist) x)
        (rd_srec s_next r (\<lambda>n. slow_collect fuel r n plist k))"
      by (rule ss_go [where k = "\<lambda>n. slow_collect fuel r n plist k", OF _ Suc]) (auto simp: assertion_defs dest: my_inj)
    have other: "slow_safe N T i Q (\<lambda>x. works i r E D m x \<and> at_rest i x \<and> walks (q # rs') x \<and>
        covers i r (set (q # rs') \<times> UNIV - {(q, 0)} - {(q, 1)}) (set l) x) (rd_srec s_next q (\<lambda>n. slow_collect fuel r n l k))" for l
      by (rule ss_go [where k = "\<lambda>n. slow_collect fuel r n l k", OF _ Suc]) (auto simp: less_2_cases_iff)
    show ?thesis
    proof (cases "q = r")
      case True
      with own show ?thesis by (simp add: Cons)
    next
      case False
      then show ?thesis
        unfolding Cons ptr_simps slow_collect.simps Let_def by (simp only: simp_thms if_True) (rule ss_slot, rule ss_slot, rule other)
    qed
  qed
qed

text \<open>The retired nodes that are not noted are freed: nobody can have made sure of them since.\<close>

definition unseen :: "nat \<Rightarrow> nat \<Rightarrow> addr \<Rightarrow> ghost \<times> slowq \<Rightarrow> bool" where
  "unseen i r a = (\<lambda>(g, s). unlinked i r a (g, s) \<and> (\<forall>k j. vouch g k j \<noteq> a))"

lemma keeps_unseen [keeps_intros]: "keeps N T i (unseen i r a)"
proof (rule keepsI)
  fix g s g' s' assume k: "sinv N T (g, s)" "sinv N T (g', s')" "spares i (g, s) (g', s')" "unseen i r a (g, s)"
  have "unlinked i r a (g', s')" using keeps_unlinked [of N T i r a] k unfolding keeps_def unseen_def by blast
  moreover have "\<forall>k j. vouch g' k j \<noteq> a"
    using k(3,4) unfolding spares_def unseen_def unlinked_def by blast
  ultimately show "unseen i r a (g', s')" by (simp add: unseen_def)
qed

lemma ss_free:
  assumes "slow_safe N T i Q (\<lambda>x. works i r E D m x \<and> at_rest i x \<and> covers i r {} A x) k"
  shows "slow_safe N T i Q (\<lambda>x. works i r E D m x \<and> at_rest i x \<and> covers i r {} A x \<and> unseen i r a x) (stp (snode_free a) k)"
proof (rule ss_stp [OF _ _ assms], goal_cases)
  case (2 g s)
  then have a: "place_of g a = Limbo i" "\<forall>k j. vouch g k j \<noteq> a" "sq_my s i = Some r" and l: "\<And>h. srec_at r s = Some h \<Longrightarrow> a \<notin> set (s_list h)"
    by (auto simp: unseen_def assertion_defs)
  from my_rec [OF 2(1) a(3)] have "grec g i = Some r" by blast
  with l have "slow_G N T i (g, s) (g\<lparr>place_of := (place_of g)(a := Nowhere)\<rparr>, s\<lparr>sq_mem := (sq_mem s)(a := None)\<rparr>)"
    by (intro step_free [OF a(1,2)]) auto
  moreover have "sq_mem s a \<noteq> None" using a(1) sinvD [OF 2(1)] by (metis heap_inv_def place.distinct(5))
  ultimately show ?case using 2(2) by (intro exI conjI, simp add: snode_free_def) (auto simp: snode_free_def assertion_defs scan_defs)
qed (auto intro!: keeps_intros)

lemma drop_at_facts: "distinct l \<Longrightarrow> i < length l \<Longrightarrow> distinct (drop_at i l) \<and> set (drop_at i l) \<subseteq> set l \<and> l ! i \<notin> set (drop_at i l)"
proof -
  assume d: "distinct l" "i < length l"
  have l: "l = take i l @ l ! i # drop (Suc i) l" by (rule id_take_nth_drop [OF d(2)])
  with d(1) have "distinct (take i l @ l ! i # drop (Suc i) l)" by simp
  moreover have "set l = set (take i l @ l ! i # drop (Suc i) l)" using l by simp
  ultimately show ?thesis by (auto simp: drop_at_def)
qed

lemma ss_drop:
  assumes "n < length l" and "l ! n \<notin> A"
    and "slow_safe N T i Q (\<lambda>x. works i r E D m x \<and> at_rest i x \<and> covers i r {} A x \<and> unseen i r (l ! n) x) k"
  shows "slow_safe N T i Q (\<lambda>x. works i r E D m x \<and> at_rest i x \<and> covers i r {} A x \<and> has_list i r l x)
    (stp (srec_upd r (\<lambda>h. h\<lparr>s_list := drop_at n (s_list h)\<rparr>)) k)"
proof (rule ss_stp [OF _ _ assms(3)], goal_cases)
  case (2 g s)
  then obtain h where h: "sq_my s i = Some r" "srec_at r s = Some h" "s_list h = l" by (auto simp: scan_defs)
  from my_rec [OF 2(1) h(1)] h have m: "distinct l" "\<forall>a \<in> set l. place_of g a = Limbo i" by auto
  note d = drop_at_facts [OF m(1) assms(1)]
  have at: "srec_at r (s\<lparr>sq_recs := (sq_recs s)[r := h\<lparr>s_list := drop_at n l\<rparr>]\<rparr>) = Some (h\<lparr>s_list := drop_at n l\<rparr>)"
    by (simp add: srec_at_own [OF h(2)])
  from step_own [OF 2(1) h(1,2), of "h\<lparr>s_list := drop_at n l\<rparr>"] d m
  have G: "slow_G N T i (g, s) (g, s\<lparr>sq_recs := (sq_recs s)[r := h\<lparr>s_list := drop_at n l\<rparr>]\<rparr>)" by auto
  have "\<forall>a \<in> set l. \<forall>k j. vouch g k j = a \<longrightarrow> a \<in> A" using 2(2) h by (auto simp: scan_defs)
  then have "\<forall>a \<in> set (drop_at n l). \<forall>k j. vouch g k j = a \<longrightarrow> a \<in> A" and "\<And>k j. vouch g k j \<noteq> l ! n"
    using assms(2) nth_mem [OF assms(1)] d by blast+
  from this(1) have "covers i r {} A (g, s\<lparr>sq_recs := (sq_recs s)[r := h\<lparr>s_list := drop_at n l\<rparr>]\<rparr>)"
    using h(1) at by (simp add: scan_defs)
  with \<open>\<And>k j. vouch g k j \<noteq> l ! n\<close> 2(2) h at d m nth_mem [OF assms(1)] G show ?case
    by (intro exI conjI, simp add: srec_upd_def) (auto simp: srec_upd_def assertion_defs unseen_def)
qed (auto intro!: keeps_intros)


lemma slow_sweep_safe:
  assumes k: "slow_safe N T i Q (\<lambda>x. works i r E D m x \<and> at_rest i x) k"
  shows "slow_safe N T i Q (\<lambda>x. works i r E D m x \<and> at_rest i x \<and> covers i r {} (set plist) x) (slow_sweep fuel r n plist k)"
proof (induction fuel arbitrary: n)
  case 0
  show ?case by (simp add: ss_Spin keeps_intros)
next
  case (Suc fuel)
  let ?P = "\<lambda>x. works i r E D m x \<and> at_rest i x \<and> covers i r {} (set plist) x"
  show ?case
    unfolding slow_sweep.simps
  proof (rule ss_ldp0 [where P' = "\<lambda>l x. works i r E D m x \<and> at_rest i x \<and> covers i r {} (set plist) x \<and> has_list i r l x"], goal_cases)
    case (3 l)
    have keep: "slow_safe N T i Q (\<lambda>x. works i r E D m x \<and> at_rest i x \<and> covers i r {} (set plist) x \<and> has_list i r l x) p"
      if "slow_safe N T i Q ?P p \<or> slow_safe N T i Q (\<lambda>x. works i r E D m x \<and> at_rest i x) p" for p
      using that by (auto intro!: keeps_intros elim!: ss_pre)
    show ?case
      using ss_drop [where A = "set plist", OF _ _ ss_free [OF Suc]] Suc k by (auto intro!: keep)
  qed (auto intro!: keeps_intros simp: scan_defs)
qed

lemma slow_scan_safe:
  assumes k: "slow_safe N T i Q (\<lambda>x. works i r E D m x \<and> at_rest i x) k"
  shows "slow_safe N T i Q (\<lambda>x. works i r E D m x \<and> at_rest i x \<and> walks rs x \<and> covers i r (set rs \<times> UNIV) {} x) (slow_scan fuel r (ptr rs) k)"
  unfolding slow_scan_def
proof (rule ss_st [where P' = "\<lambda>x. works i r E D m x \<and> at_rest i x \<and> walks rs x \<and> covers i r (set rs \<times> UNIV) {} x"], goal_cases)
  case (2 g s)
  with step_quiet(1) [of N T i g s "sq_num s + 1"] show ?case by (auto simp: assertion_defs scan_defs intro!: exI [of _ g])
next
  case 3
  show ?case using slow_collect_safe [where k = "\<lambda>plist. slow_sweep fuel r 0 plist k" and plist = "[]" and rs = rs, OF slow_sweep_safe [OF k]] by simp
qed (auto intro!: keeps_intros)

lemma slow_add_safe:
  assumes k: "slow_safe N T i Q (\<lambda>x. works i r E D m x \<and> at_rest i x) k"
  shows "slow_safe N T i Q (\<lambda>x. works i r E D m x \<and> at_rest i x \<and> unlinked i r a x) (slow_add r a k)"
  unfolding slow_add_def
proof (rule ss_ldp0 [where P' = "\<lambda>l x. works i r E D m x \<and> at_rest i x \<and> unlinked i r a x \<and> has_list i r l x"], goal_cases)
  case (3 l)
  have count: "slow_safe N T i Q (\<lambda>x. works i r E D m x \<and> at_rest i x)
      (rd_srec s_rcount r (\<lambda>c. stp (srec_upd r (\<lambda>h. h\<lparr>s_rcount := c + 1\<rparr>)) k))"
  proof (rule ss_ldp0 [where P' = "\<lambda>_ x. works i r E D m x \<and> at_rest i x"], goal_cases)
    case (2 g s)
    with my_rec [OF 2(1), of i r] show ?case by (auto simp: assertion_defs)
  next
    case (3 c)
    show ?case
    proof (rule ss_stp [OF _ _ k], goal_cases)
      case (2 g s)
      then have my: "sq_my s i = Some r" by (simp add: assertion_defs)
      from my_rec [OF 2(1) my] obtain h where h: "srec_at r s = Some h" "distinct (s_list h)" "\<forall>a \<in> set (s_list h). place_of g a = Limbo i" by blast
      from step_own [OF 2(1) my h(1), of "h\<lparr>s_rcount := c + 1\<rparr>"] h(2,3) 2(2) show ?case
        by (intro exI conjI, simp add: srec_upd_def h(1)) (auto simp: h(1) srec_upd_def assertion_defs)
    qed (auto intro!: keeps_intros)
  qed (auto intro!: keeps_intros)
  show ?case
  proof (rule ss_stp [OF _ _ count], goal_cases)
    case (2 g s)
    then obtain h where h: "sq_my s i = Some r" "srec_at r s = Some h" "s_list h = l" "a \<notin> set l" "place_of g a = Limbo i"
      by (auto simp: scan_defs assertion_defs)
    with my_rec [OF 2(1) h(1)] step_own [OF 2(1) h(1,2), of "h\<lparr>s_list := a # l\<rparr>"] 2(2) show ?case
      by (intro exI conjI, simp add: srec_upd_def h(2)) (auto simp: srec_upd_def assertion_defs)
  qed (auto intro!: keeps_intros)
qed (auto intro!: keeps_intros simp: scan_defs assertion_defs)

text \<open>Every record of the list is in use, so nothing is taken over.\<close>

lemma ss_active:
  assumes "keeps N T i P" and "\<And>x. sinv N T x \<Longrightarrow> P x \<Longrightarrow> walks (q # rs) x"
    and go: "slow_safe N T i Q P (k (ptr rs))"
  shows "slow_safe N T i Q P (rd_srec s_Active q (\<lambda>active. if active then rd_srec s_next q k else other))"
proof (rule ss_ldp0 [where P' = "\<lambda>active x. active \<and> P x", OF assms(1)], goal_cases)
  case (1 g s)
  with walks_next [OF 1(1) assms(2)] show ?case by auto
next
  case (2 active)
  show ?case
  proof (rule ss_pure, simp)
    show "slow_safe N T i Q P (rd_srec s_next q k)"
    proof (rule ss_ldp0 [where P' = "\<lambda>n x. n = ptr rs \<and> P x", OF assms(1)], goal_cases)
      case (1 g s)
      with walks_next [OF 1(1) assms(2)] show ?case by auto
    next
      case (2 n)
      show ?case by (rule ss_pure) (use go in simp)
    qed
  qed
qed

lemma slow_helpScan_safe:
  assumes k: "slow_safe N T i Q (\<lambda>x. works i r E D m x \<and> at_rest i x) k"
  shows "slow_safe N T i Q (\<lambda>x. works i r E D m x \<and> at_rest i x \<and> walks rs x) (slow_helpScan fuel r (ptr rs) k)"
proof (induction fuel arbitrary: rs)
  case 0
  show ?case by (simp add: ss_Spin keeps_intros)
next
  case (Suc fuel)
  show ?case
  proof (cases rs)
    case Nil
    show ?thesis by (simp add: Nil) (rule ss_pre [OF k], auto intro!: keeps_intros)
  next
    case (Cons q rs')
    have "slow_safe N T i Q (\<lambda>x. works i r E D m x \<and> at_rest i x \<and> walks (q # rs') x) (slow_helpScan fuel r (ptr rs') k)"
      by (rule ss_pre [OF Suc]) (auto intro!: keeps_intros dest: walks_tail)
    then show ?thesis
      unfolding Cons ptr_simps slow_helpScan.simps Let_def
      by (intro ss_active [where k = "\<lambda>n. slow_helpScan fuel r n k" and rs = rs']) (auto intro!: keeps_intros)
  qed
qed


lemma slow_retireNode_safe:
  "slow_safe N T i (\<lambda>_ x. works i r E D m x \<and> at_rest i x) (\<lambda>x. works i r E D m x \<and> at_rest i x \<and> unlinked i r a x) (slow_retireNode fuel r a)"
  unfolding slow_retireNode_def
proof (rule slow_add_safe)
  let ?P = "\<lambda>x. works i r E D m x \<and> at_rest i x" and ?Q = "\<lambda>(_ :: unit) x. works i r E D m x \<and> at_rest i x"
  have ret: "slow_safe N T i ?Q ?P (Ret ())" by (auto intro!: ss_Ret keeps_intros)
  have helped: "slow_safe N T i ?Q ?P (ld sq_head (\<lambda>hprec. slow_helpScan fuel r hprec (Ret ())))"
  proof (rule ss_ld0 [where P' = "\<lambda>p x. \<exists>rs. p = ptr rs \<and> works i r E D m x \<and> at_rest i x \<and> walks rs x"], goal_cases)
    case (3 p)
    show ?case by (intro ss_ex ss_pure, simp, rule slow_helpScan_safe [OF ret])
  qed (auto intro!: keeps_intros dest: head_walks)
  show "slow_safe N T i ?Q ?P (ld sq_head (\<lambda>local. rd_srec s_rcount r (\<lambda>rcount. if SLOW_THRESHOLD \<le> rcount then
      slow_scan fuel r local (ld sq_head (\<lambda>hprec. slow_helpScan fuel r hprec (Ret ()))) else Ret ())))"
  proof (rule ss_ld0 [where P' = "\<lambda>p x. \<exists>rs. p = ptr rs \<and> works i r E D m x \<and> at_rest i x \<and> walks rs x \<and> covers i r (set rs \<times> UNIV) {} x"], goal_cases)
    case (2 g s)
    with head_walks [OF 2(1)] covers_start [OF 2(1), of i r] show ?case by (auto simp: assertion_defs)
  next
    case (3 p)
    show ?case
    proof (intro ss_ex ss_pure)
      fix rs assume p: "p = ptr rs"
      let ?S = "\<lambda>x. works i r E D m x \<and> at_rest i x \<and> walks rs x \<and> covers i r (set rs \<times> UNIV) {} x"
      have "slow_safe N T i ?Q ?S (Ret ())" by (rule ss_pre [OF ret]) (auto intro!: keeps_intros)
      with slow_scan_safe [OF helped, of rs fuel]
      show "slow_safe N T i ?Q ?S (rd_srec s_rcount r (\<lambda>rcount. if SLOW_THRESHOLD \<le> rcount then
          slow_scan fuel r p (ld sq_head (\<lambda>hprec. slow_helpScan fuel r hprec (Ret ()))) else Ret ()))"
        unfolding p by (intro ss_ldp0 [where P' = "\<lambda>_. ?S"]) (auto intro!: keeps_intros simp: scan_defs)
    qed
  qed (auto intro!: keeps_intros)
qed

section \<open>Dequeue\<close>

lemma published_null:
  assumes "sinv N T (g, s)" and "published i r 0 0 (g, s)" and "published i r 1 0 (g, s)"
  shows "at_rest i (g, s)"
  unfolding at_rest_def prod.case
proof
  fix j show "vouch g i j = 0"
  proof (rule ccontr)
    assume v: "vouch g i j \<noteq> 0"
    from vouchD [OF assms(1) v] assms(2,3) v show False by (auto simp: assertion_defs less_2_cases_iff)
  qed
qed

lemma slow_dequeue_safe:
  assumes "i < length T"
  shows "slow_safe N T i (\<lambda>v x. works i r E (if v = EMPTY then D else D @ [v]) m x \<and> (v = EMPTY \<longrightarrow> saw_empty i (E = T ! i) x))
    (works i r E D m) (slow_dequeue c fuel i)"
    (is "slow_safe N T i ?Q _ _")
  unfolding slow_dequeue_def
proof (rule ss_with_srec [where r = r], goal_cases)
  case 3
  show ?case
  proof (rule ss_bind [OF slow_dequeue_loop_safe [OF assms]])
    fix res
    show "slow_safe N T i ?Q (\<lambda>x. case res of None \<Rightarrow> works i r E D m x \<and> saw_empty i (E = T ! i) x | Some (v, h) \<Rightarrow> works i r E (D @ [v]) m x \<and> unlinked i r h x)
      (case res of None \<Rightarrow> Ret EMPTY | Some (data, h) \<Rightarrow> st_HP r 0 0 (st_HP r 1 0 (
        if sc_flagRet c then bind (slow_retireNode fuel r h) (\<lambda>_. Ret data) else Ret data)))"
    proof (cases res)
      case None
      then show ?thesis by (auto intro!: ss_Ret keeps_intros)
    next
      case (Some vh)
      obtain v h where vh: "vh = (v, h)" by fastforce
      let ?W = "\<lambda>x. works i r E (D @ [v]) m x"
      have ret: "slow_safe N T i ?Q (\<lambda>x. ?W x \<and> at_rest i x) (Ret v)"
        by (rule ss_Ret) (auto intro!: keeps_intros dest: works_not_empty)
      have "slow_safe N T i ?Q (\<lambda>x. ?W x \<and> at_rest i x \<and> unlinked i r h x)
          (if sc_flagRet c then bind (slow_retireNode fuel r h) (\<lambda>_. Ret v) else Ret v)"
        using ss_bind [OF slow_retireNode_safe ret] by (auto intro!: ss_pre [OF ret] keeps_intros)
      then have tail: "slow_safe N T i ?Q (\<lambda>x. ?W x \<and> unlinked i r h x \<and> published i r 0 0 x \<and> published i r 1 0 x)
          (if sc_flagRet c then bind (slow_retireNode fuel r h) (\<lambda>_. Ret v) else Ret v)"
        by (rule ss_pre) (auto intro!: keeps_intros published_null)
      show ?thesis
        unfolding Some vh option.case prod.case
      proof (rule ss_HP [where P' = "\<lambda>x. ?W x \<and> unlinked i r h x \<and> published i r 0 0 x"], goal_cases)
        case 4
        show ?case by (rule ss_HP [OF _ _ _ tail]) (auto intro!: keeps_intros simp: assertion_defs srec_at_own)
      qed (auto intro!: keeps_intros simp: assertion_defs srec_at_own)
    qed
  qed
qed (auto intro!: keeps_intros simp: assertion_defs)

section \<open>The record of a new thread\<close>

definition enters :: "nat \<Rightarrow> nat option \<Rightarrow> nat \<Rightarrow> ghost \<times> slowq \<Rightarrow> bool" where
  "enters i R m = (\<lambda>(g, s). sq_my s i = None \<and> grec g i = R \<and> credit g i = m \<and> mine i (enqs g) = [] \<and> mine i (deqs g) = [])"

definition new_record :: "nat \<Rightarrow> nat \<Rightarrow> nat option option \<Rightarrow> ghost \<times> slowq \<Rightarrow> bool" where
  "new_record i r p = (\<lambda>(g, s). grec g i = Some r \<and> r \<notin> set (gchain g) \<and>
     (\<exists>h. srec_at r s = Some h \<and> s_Active h \<and> (\<forall>q. p = Some q \<longrightarrow> s_next h = q)))"

definition listed :: "nat \<Rightarrow> ghost \<times> slowq \<Rightarrow> bool" where
  "listed r = (\<lambda>(g, s). r \<in> set (gchain g))"

lemma enter_defs:
  "enters i R m (g, s) \<longleftrightarrow> sq_my s i = None \<and> grec g i = R \<and> credit g i = m \<and> mine i (enqs g) = [] \<and> mine i (deqs g) = []"
  "new_record i r p (g, s) \<longleftrightarrow> grec g i = Some r \<and> r \<notin> set (gchain g) \<and>
     (\<exists>h. srec_at r s = Some h \<and> s_Active h \<and> (\<forall>q. p = Some q \<longrightarrow> s_next h = q))"
  "listed r (g, s) \<longleftrightarrow> r \<in> set (gchain g)"
  by (simp_all add: enters_def new_record_def listed_def)

lemma keeps_enters [keeps_intros]: "keeps N T i (enters i R m)"
  by (rule keepsI) (simp add: enter_defs spares_simps)

lemma keeps_new_record [keeps_intros]: "keeps N T i (new_record i r p)"
proof (rule keepsI)
  fix g s g' s' assume k: "spares i (g, s) (g', s')" "new_record i r p (g, s)"
  from k(1) have c: "\<exists>pre. gchain g' = pre @ gchain g \<and> (\<forall>q. grec g i = Some q \<longrightarrow> q \<notin> set pre)"
    and r: "\<forall>q. grec g i = Some q \<longrightarrow> srec_at q s' = srec_at q s" and g: "grec g' i = grec g i" by (simp_all add: spares_def)
  from k(2) have n: "grec g i = Some r" "r \<notin> set (gchain g)" by (simp_all add: enter_defs)
  with c have "r \<notin> set (gchain g')" by auto
  with k(2) r g n show "new_record i r p (g', s')" by (auto simp: enter_defs)
qed

lemma keeps_listed [keeps_intros]: "keeps N T i (listed r)"
  by (rule keepsI) (auto simp: enter_defs spares_def)

lemma slow_find_safe:
  assumes "keeps N T i P" and k: "slow_safe N T i Q P (k None)"
  shows "slow_safe N T i Q (\<lambda>x. P x \<and> walks rs x) (slow_find fuel (ptr rs) k)"
proof (induction fuel arbitrary: rs)
  case 0
  show ?case by (simp add: ss_Spin keeps_intros assms(1))
next
  case (Suc fuel)
  show ?case
  proof (cases rs)
    case Nil
    show ?thesis by (simp add: Nil) (rule ss_pre [OF k], auto intro!: keeps_intros assms(1))
  next
    case (Cons q rs')
    have "slow_safe N T i Q (\<lambda>x. P x \<and> walks (q # rs') x) (slow_find fuel (ptr rs') k)"
      by (rule ss_pre [OF Suc]) (auto intro!: keeps_intros assms(1) dest: walks_tail)
    then show ?thesis
      unfolding Cons ptr_simps slow_find.simps Let_def
      by (intro ss_active [where k = "\<lambda>n. slow_find fuel n k" and rs = rs']) (auto intro!: keeps_intros assms(1))
  qed
qed

lemma slow_add_H_safe:
  assumes "slow_safe N T i Q (enters i None m) k"
  shows "slow_safe N T i Q (enters i None m) (slow_add_H fuel k)"
proof (induction fuel)
  case 0
  show ?case by (simp add: ss_Spin keeps_intros)
next
  case (Suc fuel)
  show ?case
    unfolding slow_add_H.simps
  proof (rule ss_ld0 [where P' = "\<lambda>_. enters i None m"], goal_cases)
    case (3 j)
    show ?case
    proof (rule ss_cas [where PT = "enters i None m" and PF = "enters i None m"], goal_cases)
      case (2 g s)
      with step_quiet(2) [of N T i g s "j + SLOW_K"] show ?case by (auto simp: enter_defs intro!: exI [of _ g])
    qed (use assms Suc in \<open>auto intro!: keeps_intros\<close>)
  qed (auto intro!: keeps_intros)
qed

lemma slow_push_safe:
  assumes k: "slow_safe N T i Q (\<lambda>x. enters i (Some r) m x \<and> listed r x) k"
  shows "slow_safe N T i Q (\<lambda>x. enters i (Some r) m x \<and> new_record i r None x) (slow_push fuel r k)"
proof (induction fuel)
  case 0
  show ?case by (simp add: ss_Spin keeps_intros)
next
  case (Suc fuel)
  let ?P = "\<lambda>x. enters i (Some r) m x \<and> new_record i r None x"
  show ?case
    unfolding slow_push.simps
  proof (rule ss_ld0 [where P' = "\<lambda>_. ?P"], goal_cases)
    case (3 p)
    have again: "slow_safe N T i Q (\<lambda>x. enters i (Some r) m x \<and> new_record i r (Some p) x) (slow_push fuel r k)"
      by (rule ss_pre [OF Suc]) (auto intro!: keeps_intros simp: enter_defs)
    show ?case
    proof (rule ss_stp [where P' = "\<lambda>x. enters i (Some r) m x \<and> new_record i r (Some p) x"], goal_cases)
      case (2 g s)
      then obtain h where h: "grec g i = Some r" "r \<notin> set (gchain g)" "srec_at r s = Some h" "s_Active h" by (auto simp: enter_defs)
      from step_next [OF h(1-3), of N T p] 2 h show ?case
        by (intro exI conjI, simp add: srec_upd_def) (auto simp: srec_upd_def enter_defs srec_at_own [OF h(3)])
    next
      case 3
      show ?case
      proof (rule ss_cas [where PT = "\<lambda>x. enters i (Some r) m x \<and> listed r x" and PF = "\<lambda>x. enters i (Some r) m x \<and> new_record i r (Some p) x"], goal_cases)
        case (2 g s)
        then obtain h where h: "grec g i = Some r" "srec_at r s = Some h" "s_Active h" "s_next h = sq_head s" by (auto simp: enter_defs)
        from step_push [OF h, of N T] 2 show ?case by (intro exI conjI, blast) (auto simp: enter_defs)
      qed (use k again in \<open>auto intro!: keeps_intros\<close>)
    qed (auto intro!: keeps_intros)
  qed (auto intro!: keeps_intros)
qed

lemma slow_allocateHPRec_safe:
  "slow_safe N T i (\<lambda>_ x. \<exists>r. works i r [] [] m x) (enters i None m) (slow_allocateHPRec fuel i)" (is "slow_safe N T i ?Q _ _")
  unfolding slow_allocateHPRec_def
proof (rule ss_ld0 [where P' = "\<lambda>p x. \<exists>rs. p = ptr rs \<and> enters i None m x \<and> walks rs x"], goal_cases)
  case (3 p)
  have my: "slow_safe N T i ?Q (\<lambda>x. enters i (Some r) m x \<and> listed r x) (st (\<lambda>s. s\<lparr>sq_my := (sq_my s)(i \<mapsto> r)\<rparr>) (Ret ()))" for r
  proof (rule ss_st [where P' = "works i r [] [] m"], goal_cases)
    case (2 g s)
    with step_my [of g i r s N T] show ?case by (auto simp: enter_defs assertion_defs intro!: exI [of _ g])
  qed (auto intro!: ss_Ret keeps_intros)
  have "slow_safe N T i ?Q (enters i None m) (fetch (\<lambda>s. length (sq_recs s)) (\<lambda>s. s\<lparr>sq_recs := sq_recs s @ [new_srec]\<rparr>) (\<lambda>r.
      slow_push fuel r (st (\<lambda>s. s\<lparr>sq_my := (sq_my s)(i \<mapsto> r)\<rparr>) (Ret ()))))"
  proof (rule ss_fetch [where P' = "\<lambda>r x. enters i (Some r) m x \<and> new_record i r None x"], goal_cases)
    case (2 g s)
    have "length (sq_recs s) \<notin> set (gchain g)" using chain_bound [of g s] sinvD [OF 2(1)] by auto
    with step_newrec [of g i new_srec N T s] 2 show ?case
      by (intro exI conjI, simp add: enter_defs new_srec_def) (auto simp: enter_defs srec_at_snoc new_srec_def)
  qed (auto intro!: keeps_intros slow_push_safe my)
  from slow_add_H_safe [OF this]
  show ?case by (intro ss_ex ss_pure, simp, intro slow_find_safe keeps_intros, simp)
qed (auto intro!: keeps_intros dest: head_walks)


section \<open>The threads\<close>

lemma ss_post:
  assumes "slow_safe N T i M P p" and "\<And>a x. sinv N T x \<Longrightarrow> M a x \<Longrightarrow> Q a x"
  shows "slow_safe N T i Q P p"
  using assms(1) unfolding slow_safe_def by (rule gsafe_post) (use assms(2) in simp)

lemma enqueue_all_safe:
  assumes "i < length T" and "slow_cfg_ok N c"
  shows "EMPTY \<notin> set vs \<Longrightarrow> T ! i = E @ vs @ ws \<Longrightarrow>
    slow_safe N T i (\<lambda>_. works i r (E @ vs) D m) (works i r E D (length vs + m)) (enqueue_all (slow_enqueue c fuel i) vs)"
proof (induction vs arbitrary: E)
  case Nil
  show ?case by (auto intro!: ss_Ret keeps_intros)
next
  case (Cons v vs)
  show ?case
    unfolding enqueue_all.simps
  proof (rule ss_bind)
    show "slow_safe N T i (\<lambda>_. works i r (E @ [v]) D (length vs + m)) (works i r E D (length (v # vs) + m)) (slow_enqueue c fuel i v)"
      using slow_enqueue_safe [OF assms, of v E "vs @ ws" r D "length vs + m" fuel] Cons.prems by auto
    show "slow_safe N T i (\<lambda>_. works i r (E @ v # vs) D m) (works i r (E @ [v]) D (length vs + m)) (enqueue_all (slow_enqueue c fuel i) vs)"
      using Cons.IH [of "E @ [v]"] Cons.prems by auto
  qed
qed

lemma dequeue_all_safe:
  assumes "i < length T"
  shows "slow_safe N T i (\<lambda>l x. works i r E l m x \<and> saw_empty i (E = T ! i) x) (works i r E D m) (dequeue_all n (slow_dequeue c fuel i) D)"
proof (induction n arbitrary: D)
  case 0
  show ?case by (simp add: ss_Spin keeps_intros)
next
  case (Suc n)
  show ?case
    unfolding dequeue_all.simps
  proof (rule ss_bind [OF slow_dequeue_safe [OF assms]])
    fix v
    show "slow_safe N T i (\<lambda>l x. works i r E l m x \<and> saw_empty i (E = T ! i) x)
        (\<lambda>x. works i r E (if v = EMPTY then D else D @ [v]) m x \<and> (v = EMPTY \<longrightarrow> saw_empty i (E = T ! i) x))
        (if v \<noteq> EMPTY then dequeue_all n (slow_dequeue c fuel i) (D @ [v]) else Ret D)"
      by (auto intro!: ss_Ret keeps_intros ss_pre [OF Suc [of "D @ [v]"]])
  qed
qed

lemma slow_thread_safe:
  assumes "i < length T" and "slow_cfg_ok N c" and "T ! i = map of_nat [100..<100 + n]" and "n < 2 ^ 31"
  shows "slow_safe N T i (\<lambda>l x. \<exists>r. works i r (T ! i) l 0 x \<and> saw_empty i True x) (enters i None n) (slow_thread_routine c fuel i n)"
  unfolding slow_thread_routine_def
proof (rule ss_bind [OF slow_allocateHPRec_safe], rule ss_ex)
  fix r
  let ?vs = "map of_nat [100..<100 + n] :: 32 word list"
  have "slow_safe N T i (\<lambda>_. works i r ?vs [] 0) (works i r [] [] n) (enqueue_all (slow_enqueue c fuel i) ?vs)"
    using enqueue_all_safe [OF assms(1,2) EMPTY_own [OF assms(4)], of "[]" "[]" r "[]" 0 fuel] assms(3) by simp
  then show "slow_safe N T i (\<lambda>l x. \<exists>r. works i r (T ! i) l 0 x \<and> saw_empty i True x) (works i r [] [] n)
      (bind (enqueue_all (slow_enqueue c fuel i) ?vs) (\<lambda>_. dequeue_all fuel (slow_dequeue c fuel i) []))"
  proof (rule ss_bind)
    fix u
    show "slow_safe N T i (\<lambda>l x. \<exists>r. works i r (T ! i) l 0 x \<and> saw_empty i True x) (works i r ?vs [] 0) (dequeue_all fuel (slow_dequeue c fuel i) [])"
      by (rule ss_post [OF dequeue_all_safe [OF assms(1)]]) (use assms(3) in auto)
  qed
qed

text \<open>\<open>main\<close>: the dummy node, and \<open>nThread\<close> threads that queue \<open>numItem\<close> numbers each.\<close>

definition slow_start :: "slow_cfg \<Rightarrow> slowq" where
  "slow_start c = (let dummy = sc_malloc c (\<lambda>_. None) in
     \<lparr>sq_mem = [dummy \<mapsto> \<lparr>n_value = - 1, n_next = 0\<rparr>], sq_Head = dummy, sq_Tail = dummy, sq_H = 0, sq_recs = [], sq_head = None,
      sq_my = (\<lambda>_. None), sq_num = 0\<rparr>)"

definition slow_main :: "slow_cfg \<Rightarrow> nat \<Rightarrow> nat \<Rightarrow> nat \<Rightarrow> (slowq, 32 word list) prog list" where
  "slow_main c fuel nThread numItem = map (\<lambda>i. slow_thread_routine c fuel i numItem) [0..<nThread]"

definition start_ghost :: "slow_cfg \<Rightarrow> nat \<Rightarrow> ghost" where
  "start_ghost c n = (let dummy = sc_malloc c (\<lambda>_. None) in
     \<lparr>gq = [(dummy, - 1)], place_of = (\<lambda>_. Nowhere)(dummy := InQueue), vouch = (\<lambda>_ _. 0), grec = (\<lambda>_. None), gchain = [],
      enqs = [], deqs = [], credit = (\<lambda>_. n), closed = {}\<rparr>)"

lemma start_sinv:
  assumes "slow_cfg_ok N c" and "1 + length T * n \<le> N"
  shows "sinv N T (start_ghost c n, slow_start c)"
proof -
  let ?d = "sc_malloc c (\<lambda>_. None)"
  have "card (dom (\<lambda>_. None :: node option)) < N" using assms(2) by simp
  with assms(1) have d: "?d \<noteq> 0" unfolding slow_cfg_ok_def malloc_room_def by metis
  have "heap_inv (start_ghost c n) (slow_start c)"
    using d by (auto simp: heap_inv_def start_ghost_def slow_start_def Let_def queue_ok_def)
  moreover have "room_inv N T (start_ghost c n) (slow_start c)"
    using assms(2) by (simp add: room_inv_def start_ghost_def slow_start_def Let_def mine_def queue_values_def)
  ultimately show ?thesis
    by (simp add: sinv_def log_inv_def vouch_inv_def recs_inv_def start_ghost_def slow_start_def Let_def queue_values_def)
qed

abbreviation numbers :: "nat \<Rightarrow> 32 word list" where
  "numbers n \<equiv> map of_nat [100..<100 + n]"

definition ended :: "nat \<Rightarrow> 32 word list list \<Rightarrow> nat \<Rightarrow> 32 word list \<Rightarrow> ghost \<times> slowq \<Rightarrow> bool" where
  "ended N T i l x \<longleftrightarrow> sinv N T x \<and> (\<exists>r. works i r (T ! i) l 0 x \<and> saw_empty i True x)"

lemma slow_main_ok:
  assumes "slow_cfg_ok N c" and "1 + nThread * n \<le> N" and "n < 2 ^ 31" and "i < nThread"
  defines "T \<equiv> replicate nThread (numbers n)"
  shows "slow.gthread_ok N T (ended N T i) i (start_ghost c n, slow_start c) (slow_main c fuel nThread n ! i)"
proof -
  have I: "sinv N T (start_ghost c n, slow_start c)" by (rule start_sinv [OF assms(1)]) (use assms(2) in \<open>simp add: T_def\<close>)
  have "slow_safe N T i (\<lambda>l x. \<exists>r. works i r (T ! i) l 0 x \<and> saw_empty i True x) (enters i None n) (slow_thread_routine c fuel i n)"
    by (rule slow_thread_safe) (use assms in simp_all)
  moreover have "enters i None n (start_ghost c n, slow_start c)"
    by (simp add: enter_defs start_ghost_def slow_start_def Let_def mine_def)
  ultimately show ?thesis
    using I assms(4) unfolding slow.gthread_ok_def slow_safe_def slow_main_def ended_def [abs_def]
    by (intro exI [of _ "\<lambda>x. sinv N T x \<and> enters i None n x"]) simp
qed

lemma slow_main_exec:
  assumes "slow_cfg_ok N c" and "1 + nThread * n \<le> N" and "n < 2 ^ 31" and "exec sch (slow_start c, slow_main c fuel nThread n) = (s, ts)"
  defines "T \<equiv> replicate nThread (numbers n)"
  shows "\<exists>g. sinv N T (g, s) \<and> (\<forall>i < nThread. slow.gthread_ok N T (ended N T i) i (g, s) (ts ! i))"
proof -
  have I: "sinv N T (start_ghost c n, slow_start c)" by (rule start_sinv [OF assms(1)]) (use assms(2) in \<open>simp add: T_def\<close>)
  have len: "length (slow_main c fuel nThread n) = nThread" by (simp add: slow_main_def)
  have ok: "slow.gthread_ok N T (ended N T i) i (start_ghost c n, slow_start c) (slow_main c fuel nThread n ! i)"
    if "i < length (slow_main c fuel nThread n)" for i unfolding T_def by (rule slow_main_ok) (use assms that len in simp_all)
  have "\<exists>g. sinv N T (g, s) \<and> (\<forall>i < length (slow_main c fuel nThread n). slow.gthread_ok N T (ended N T i) i (g, s) (ts ! i))"
    by (rule slow.gexec_inv [where Q = "ended N T" and I = "sinv N T", OF ok assms(4) I]) (assumption, erule (1) slow_G_sinv)
  then show ?thesis by (simp add: len)
qed

text \<open>A log is made up of what the threads contributed.\<close>

lemma mset_mine: "\<forall>x \<in> set l. fst x < n \<Longrightarrow> mset (concat (map (\<lambda>i. mine i l) [0..<n])) = mset (map snd l)"
proof (induction l)
  case Nil
  have "concat (map (\<lambda>i. mine i []) [0..<n]) = []" by (simp add: mine_def)
  then show ?case by (simp only: list.map mset.simps)
next
  case (Cons x l)
  have "mset (concat (map (\<lambda>i. mine i (x # l)) [0..<n])) =
      (\<Sum>i<n. (if i = fst x then {#snd x#} else {#})) + mset (concat (map (\<lambda>i. mine i l) [0..<n]))"
  proof (induction n)
    case (Suc n)
    then show ?case by (simp add: mine_def)
  qed simp
  with Cons show ?case by simp
qed

text \<open>C2: hazard pointers at work. Whatever the order in which the actions of the threads of
  \<^verbatim>\<open>hazardpointerslow.c\<close> alternate, no thread ever reads, writes or frees a node that was freed, the
  queue stays a chain of live nodes, and queued numbers leave it in the order in which they were
  linked: what the threads linked so far is what they unlinked so far followed by what the queue
  holds. Each thread links its own numbers in order, and one that has ended linked all of them
  and returned what it unlinked.\<close>

theorem slow_threads_fifo:
  assumes "slow_cfg_ok N c" and "1 + nThread * numItem \<le> N" and "numItem < 2 ^ 31"
    and "exec sch (slow_start c, slow_main c fuel nThread numItem) = (s, ts)"
  shows "\<exists>ns E D. queue_ok (sq_mem s) (sq_Head s) (sq_Tail s) ns \<and> map snd E = map snd D @ queue_values ns \<and>
    (\<forall>x \<in> set E \<union> set D. fst x < nThread) \<and>
    (\<forall>i < nThread. (\<exists>rest. numbers numItem = mine i E @ rest) \<and> ts ! i \<noteq> Crash \<and> (\<forall>e. ts ! i \<noteq> Exit e) \<and>
      (\<forall>l. ts ! i = Ret l \<longrightarrow> mine i E = numbers numItem \<and> mine i D = l))"
proof -
  let ?T = "replicate nThread (numbers numItem)"
  from slow_main_exec [OF assms] obtain g where
    g: "sinv N ?T (g, s)" "\<And>i. i < nThread \<Longrightarrow> slow.gthread_ok N ?T (ended N ?T i) i (g, s) (ts ! i)" by blast
  have a: "(\<forall>l. ts ! i = Ret l \<longrightarrow> mine i (enqs g) = numbers numItem \<and> mine i (deqs g) = l) \<and> ts ! i \<noteq> Crash \<and> (\<forall>e. ts ! i \<noteq> Exit e)"
    if i: "i < nThread" for i
    using slow.gthread_returned [of N ?T "ended N ?T i" i "(g, s)"] slow.gthread_no_crash [OF g(2) [OF i]] g(2) [OF i] i
    by (auto simp: ended_def works_def)
  have b: "\<exists>rest. numbers numItem = mine i (enqs g) @ rest" if "i < nThread" for i
    using sinvD [OF g(1)] that by (auto simp: room_inv_def)
  have "queue_ok (sq_mem s) (sq_Head s) (sq_Tail s) (gq g)" "map snd (enqs g) = map snd (deqs g) @ queue_values (gq g)"
    "\<forall>x \<in> set (enqs g) \<union> set (deqs g). fst x < nThread"
    using sinvD [OF g(1)] by (simp_all add: heap_inv_def log_inv_def room_inv_def)
  with a b show ?thesis by (intro exI [of _ "gq g"] exI [of _ "enqs g"] exI [of _ "deqs g"] conjI allI impI) simp_all
qed

text \<open>C5: when every thread of \<^verbatim>\<open>hazardpointerslow.c\<close> has ended, whatever the schedule was, the numbers
  the threads took are exactly the numbers they queued, each taken once, and only the dummy is left
  in the queue: \<open>main\<close> prints \<open>nThread * numItem\<close> dequeues.\<close>

theorem slow_threads_deliver:
  assumes "slow_cfg_ok N c" and "1 + nThread * numItem \<le> N" and "numItem < 2 ^ 31"
    and "exec sch (slow_start c, slow_main c fuel nThread numItem) = (s, ts)" and "\<forall>i < nThread. ts ! i = Ret (taken i)"
  shows "mset (concat (map taken [0..<nThread])) = mset (concat (replicate nThread (numbers numItem))) \<and>
    (\<exists>d. queue_ok (sq_mem s) (sq_Head s) (sq_Tail s) [d])"
proof -
  let ?T = "replicate nThread (numbers numItem)"
  from slow_main_exec [OF assms(1-4)] obtain g where
    g: "sinv N ?T (g, s)" "\<And>i. i < nThread \<Longrightarrow> slow.gthread_ok N ?T (ended N ?T i) i (g, s) (ts ! i)" by blast
  have e: "mine i (enqs g) = numbers numItem \<and> mine i (deqs g) = taken i \<and> i \<in> closed g" if i: "i < nThread" for i
    using slow.gthread_returned [of N ?T "ended N ?T i" i "(g, s)" "taken i"] g(2) [OF i] assms(5) i
    by (auto simp: ended_def works_def saw_empty_def)
  have "queue_values (gq g) = []" using sinvD [OF g(1)] e by (auto simp: room_inv_def)
  moreover have q: "queue_ok (sq_mem s) (sq_Head s) (sq_Tail s) (gq g)" "map snd (enqs g) = map snd (deqs g) @ queue_values (gq g)"
    and x: "\<forall>x \<in> set (enqs g). fst x < nThread" "\<forall>x \<in> set (deqs g). fst x < nThread"
    using sinvD [OF g(1)] by (simp_all add: heap_inv_def log_inv_def room_inv_def)
  ultimately obtain d where "gq g = [d]" by (cases "gq g") (auto simp: queue_ok_def queue_values_def)
  have "mset (concat (map (\<lambda>i. mine i (deqs g)) [0..<nThread])) = mset (concat (map (\<lambda>i. mine i (enqs g)) [0..<nThread]))"
    using q \<open>queue_values (gq g) = []\<close> by (simp add: mset_mine x)
  moreover have "map (\<lambda>i. mine i (deqs g)) [0..<nThread] = map taken [0..<nThread]"
    "map (\<lambda>i. mine i (enqs g)) [0..<nThread] = map (\<lambda>_. numbers numItem) [0..<nThread]" using e by simp_all
  ultimately have "mset (concat (map taken [0..<nThread])) = mset (concat (replicate nThread (numbers numItem)))"
    by (simp add: map_replicate_const)
  with q(1) \<open>gq g = [d]\<close> show ?thesis by (intro conjI exI) simp_all
qed

text \<open>The hypotheses can hold: two threads, their actions alternating, and an allocator that reuses
  addresses at once.\<close>

definition slow_example :: slow_cfg where
  "slow_example = \<lparr>sc_malloc = lowest_free 1000 64, sc_flagRet = True\<rparr>"

lemma slow_example_ok: "slow_cfg_ok 1000 slow_example"
  by (simp add: slow_cfg_ok_def slow_example_def lowest_free_room)

theorem slow_threads_fifo_witness:
  "\<exists>ns E D. let (s, ts) = exec (concat (replicate 100 [0, 1])) (slow_start slow_example, slow_main slow_example 1000 2 3) in
    queue_ok (sq_mem s) (sq_Head s) (sq_Tail s) ns \<and> map snd E = map snd D @ queue_values ns \<and>
    (\<forall>x \<in> set E \<union> set D. fst x < 2) \<and>
    (\<forall>i < 2. (\<exists>rest. numbers 3 = mine i E @ rest) \<and> ts ! i \<noteq> Crash \<and> (\<forall>e. ts ! i \<noteq> Exit e) \<and>
      (\<forall>l. ts ! i = Ret l \<longrightarrow> mine i E = numbers 3 \<and> mine i D = l))"
proof -
  obtain s ts where e: "exec (concat (replicate 100 [0, 1])) (slow_start slow_example, slow_main slow_example 1000 2 3) = (s, ts)" by fastforce
  show ?thesis unfolding e Let_def prod.case by (rule slow_threads_fifo [OF slow_example_ok _ _ e]) simp_all
qed


definition returned :: "(slowq, 'a) prog \<Rightarrow> 'a option" where
  "returned p = (case p of Ret a \<Rightarrow> Some a | _ \<Rightarrow> None)"

lemma returned_Some: "returned p = Some a \<longleftrightarrow> p = Ret a"
  by (cases p) (simp_all add: returned_def)

theorem slow_threads_deliver_witness:
  "case exec (replicate 150 0) (slow_start slow_example, slow_main slow_example 10 1 2) of (s, ts) \<Rightarrow>
    ts ! 0 = Ret [100, 101] \<and> mset (concat (map (\<lambda>_. [100, 101]) [0..<1])) = mset (concat (replicate 1 (numbers 2))) \<and>
    (\<exists>d. queue_ok (sq_mem s) (sq_Head s) (sq_Tail s) [d])"
proof -
  obtain s ts where e: "exec (replicate 150 0) (slow_start slow_example, slow_main slow_example 10 1 2) = (s, ts)" by fastforce
  have "map returned (snd (exec (replicate 150 0) (slow_start slow_example, slow_main slow_example 10 1 2))) = [Some [100, 101]]"
    by code_simp
  then have "map returned ts = [Some [100, 101]]" unfolding e snd_conv .
  then have r: "ts ! 0 = Ret [100, 101]" by (cases ts) (auto simp: returned_Some)
  have "\<forall>i < 1. ts ! i = Ret [100, 101]" using r by simp
  from slow_threads_deliver [OF slow_example_ok _ _ e this] r show ?thesis unfolding e prod.case by simp
qed

section \<open>Records left by finished threads\<close>

text \<open>C38: \<open>helpScan\<close> does not empty the list it takes over. If a record that its thread has given up
  holds a retired node that nothing protects, the first \<open>helpScan\<close> of another thread frees the node and
  leaves it in that list, and the second one frees it again.\<close>

theorem slow_helpScan_double_free:
  assumes "srec_at r s = Some own" and "srec_at q s = Some gone" and "q \<noteq> r" and "sq_head s = Some q"
    and "s_next gone = Some r" and "s_next own = None" and "s_Active own" and "\<not> s_Active gone"
    and "s_list own = []" and "0 \<le> s_rcount own" and "s_list gone = [a]" and "s_HP gone 0 = 0" and "s_HP gone 1 = 0"
    and "sq_mem s a = Some n" and "4 \<le> fuel"
  shows "\<exists>t. run (bind (slow_helpScan fuel r (sq_head s) (Ret ())) (\<lambda>_. slow_helpScan fuel r (sq_head s) (Ret ()))) s = Crashed t"
proof -
  from assms(15) obtain k where "fuel = 4 + k" using le_Suc_ex by blast
  then have f: "fuel = Suc (Suc (Suc (Suc k)))" by simp
  from assms(1-3) have "r < length (sq_recs s)" "q < length (sq_recs s)" "sq_recs s ! r = own" "sq_recs s ! q = gone"
    by (auto simp: srec_at_def split: if_splits)
  with assms(3-14) show ?thesis
    unfolding f by (simp add: srec_at_def srec_upd_def slow_add_def slow_scan_def SLOW_THRESHOLD_def snode_free_def drop_at_def nth_list_update Let_def)
qed

definition left_record :: slowq where
  "left_record = \<lparr>sq_mem = [64 \<mapsto> \<lparr>n_value = 1, n_next = 128\<rparr>, 128 \<mapsto> \<lparr>n_value = 2, n_next = 0\<rparr>], sq_Head = 128, sq_Tail = 128, sq_H = 4,
     sq_recs = [new_srec, new_srec\<lparr>s_next := Some 0, s_Active := False, s_rcount := 1, s_list := [64]\<rparr>], sq_head = Some 1,
     sq_my = [0 \<mapsto> 0], sq_num = 0\<rparr>"

theorem slow_helpScan_double_free_witness:
  "\<exists>t. run (bind (slow_helpScan 10 0 (sq_head left_record) (Ret ())) (\<lambda>_. slow_helpScan 10 0 (sq_head left_record) (Ret ()))) left_record = Crashed t"
  by (rule slow_helpScan_double_free [where q = 1 and a = 64 and own = new_srec and gone = "new_srec\<lparr>s_next := Some 0, s_Active := False, s_rcount := 1, s_list := [64]\<rparr>"])
    (simp_all add: left_record_def srec_at_def new_srec_def)

end
