(* ===== verification/Spec2Isabelle.thy ===== *)
theory Spec2Isabelle
  imports LockFreeAtomic WaitFree MapFiles MapQueues FastQueues LoopQueue OtherMaps SlowThreads
begin

text \<open>
  A verification of the lock-free data structures of the repository: the C files under
  \<^verbatim>\<open>src/cfilesforhazardpointer\<close> (all file names below are relative to it).

  \<^bold>\<open>The program.\<close> The files are generations of one design. A \<^emph>\<open>pool\<close> hands out
  \<open>Record\<close>s from queues of free records and takes them back (\<open>get_Record\<close>, \<open>return_Record\<close>). A
  \<^emph>\<open>list\<close> of records, sorted by key, counts each key in the bits of the link words
  (\<open>psly_handle_records\<close>); a \<^emph>\<open>map\<close> spreads the keys over many lists (\<open>psly_record\<close>,
  \<open>psly_remove\<close>, \<open>psly_search\<close>, \<open>INIT_RESOURCE\<close>, \<open>UNINIT_RESOURCE\<close>). A \<^emph>\<open>queue\<close> of Michael and
  Scott frees its nodes when no thread uses them any more, which a thread tells the others through
  hazard pointers in an array (\<^verbatim>\<open>hazardpointer.c\<close>), in the threads' records
  (\<^verbatim>\<open>hazardpointerslow.c\<close>) or by counting the node's address in the map
  (the files with a map). \<^verbatim>\<open>mayijin/LockFreeAtomic.c\<close> is a counter that packs a handle's index
  and version into one word; \<^verbatim>\<open>mayijin/WaitFreeAtomic.c\<close> adds a slow path in which threads
  help one another.

  \<^bold>\<open>How code is written in HOL.\<close> \<^verbatim>\<open>Prelude\<close>: a function on shared memory is a tree of atomic actions
  (\<open>prog\<close>): one action per read, write, compare-and-swap or fetch-and-add of a shared location, HOL
  for what is local. \<open>run\<close> executes one body alone, \<open>exec\<close> any number of them under a
  schedule. Undefined behaviour is \<open>Crash\<close>, \<open>exit\<close> is \<open>Exit\<close>, and a loop takes fuel: \<open>Spin\<close> says
  that it is still looping when the fuel is spent. Every theorem that a function returns states how
  much fuel is enough, for every larger amount too.

  \<^bold>\<open>The theories.\<close>
  \<^item> \<^verbatim>\<open>LockFreeAtomic\<close>: the counter of \<^verbatim>\<open>mayijin/LockFreeAtomic.c\<close>; any number of threads
    under any schedule get different numbers (rely/guarantee over a log of the
    compare-and-swaps).
  \<^item> \<^verbatim>\<open>WaitFree\<close>: all of \<^verbatim>\<open>mayijin/WaitFreeAtomic.c\<close>: what each function answers when it runs alone, how
    much fuel that takes, and the version from which a request is never answered.
  \<^item> \<^verbatim>\<open>RecordPool\<close>: the pool of \<^verbatim>\<open>mayijin/lockfreePro.c\<close> (\<open>get_Record\<close>, \<open>return_Record\<close>, the queues of
    free records with their version tags) for any \<open>idxNum\<close>, \<open>arrNum\<close>. \<open>pool_ok\<close> is the
    invariant, the free records of each queue the abstract value.
  \<^item> \<^verbatim>\<open>Layout\<close>: the bit fields of \<open>nextRecord\<close> for any widths, read off the macro arguments, in a \<open>long\<close> or an \<open>int\<close>
    (\<open>width\<close>), and the instances the files use.
  \<^item> \<^verbatim>\<open>RecordList\<close>: \<open>psly_handle_records\<close> with every retry, its branches one definition each, over
    the interface \<open>record_pool\<close> (locale): what it needs of any pool. \<open>handle_run\<close>: run alone on any
    well-formed list, deleted records included, it changes the count of its key as the
    operation says and loses no record.
  \<^item> \<^verbatim>\<open>RecordMap\<close>: lists side by side (locale \<open>record_map\<close>, which extends \<open>record_pool\<close>); scripts of calls and
    the counter of keys they refine. \<^verbatim>\<open>MapProgram\<close>: \<^verbatim>\<open>mayijin/lockfreePro.c\<close> itself, from \<open>INIT_RESOURCE\<close>
    to the leak check of \<open>UNINIT_RESOURCE\<close>. \<^verbatim>\<open>MapFiles\<close>: the four other files with that macro.
  \<^item> \<^verbatim>\<open>EarlyList\<close>: the list before \<^verbatim>\<open>lockfreePro.c\<close>, which keeps walking after it has found the key
    (\<open>found\<close>), one definition per label of its loop. \<^verbatim>\<open>EarlyMap\<close>: its map, for both generations of
    it; the counter it refines, whose \<open>REMOVE\<close> of an absent key counts it up to one; and what \<open>main\<close>
    counts at the end in the eight files where it does. \<^verbatim>\<open>EarlyFiles\<close>: the eleven files that have it, \<^verbatim>\<open>hazardloop.c\<close> and ten in \<^verbatim>\<open>fast\<close> and below,
    four of them with \<open>int\<close> words; for calls that remove only counted keys they agree with
    \<^verbatim>\<open>mayijin/lockfreePro.c\<close>.
  \<^item> \<^verbatim>\<open>LateSearch\<close>: the list of \<^verbatim>\<open>simple64T2.c\<close>, which unlinks deleted records on its way and is proved to run
    as that of \<^verbatim>\<open>RecordList\<close>. \<^verbatim>\<open>OtherMaps\<close>: the maps of that file, of the header \<^verbatim>\<open>struct/hazard_new.h\<close> and of
    \<^verbatim>\<open>compare_LockFreeList/locklong.c\<close>.
  \<^item> \<^verbatim>\<open>PrevsList\<close>: the list with a cache of predecessors, over the interfaces \<open>cached_records\<close> and
    \<open>cached_pool\<close>.
    \<^verbatim>\<open>GrowingPool\<close>: the pool that adds arrays on demand, and the map of
    \<^verbatim>\<open>mayijin/mapLockFreeList-concurrentqueues.c\<close>; and that the signed counter of \<open>get_Record\<close> wraps after
    enough calls and then indexes before the first queue. \<^verbatim>\<open>GrowingFiles\<close>: \<^verbatim>\<open>mayijin/hazard_long2.c\<close>, \<^verbatim>\<open>hazard_long2.c\<close>,
    \<^verbatim>\<open>test_C_hazard_map.c\<close>. \<^verbatim>\<open>HazardLong\<close>: \<^verbatim>\<open>hazard_long.c\<close>.
  \<^item> \<^verbatim>\<open>QueueNodes\<close>: the nodes of the queues in memory, \<open>malloc\<close> as a parameter, first-in first-out scripts and
    the contract \<open>fifo_queue\<close> (locale) every queue is shown to meet. \<^verbatim>\<open>RetireList\<close>: the threads'
    records, \<open>scan\<close> and \<open>retireNode\<close>, over the interface \<open>hazard_guards\<close>: how a thread finds out
    whether a node is protected.
  \<^item> \<^verbatim>\<open>HazardQueue\<close>: \<^verbatim>\<open>hazardpointer.c\<close>: first in first out, what \<open>dequeue\<close> may free, that a thread
    returns; and where it fails: a schedule that ends in freed memory, a \<open>retireNode\<close> that never returns.
  \<^item> \<^verbatim>\<open>CountedQueue\<close>: the queue over the map, written once over the interface \<open>key_counter\<close> (what a queue
    needs of a map), and what follows for any queue that keeps the counts (\<open>counted_queue\<close>). \<^verbatim>\<open>MapQueues\<close>: the
    five files that have it, where the map theorems above discharge that interface; \<^verbatim>\<open>FastMaps\<close> and
    \<^verbatim>\<open>FastQueues\<close>: \<^verbatim>\<open>hazardpointer_fast.c\<close> and \<^verbatim>\<open>hazardpointer_fastCopy.c\<close>, maps with a fixed pool and no
    cache, over any choice of the list (locale \<open>fixed_map\<close>), and their queues.
  \<^item> \<^verbatim>\<open>LoopQueue\<close>: the queue of \<^verbatim>\<open>hazardloop.c\<close> over its early map: first in first out for one thread; and the
    schedule of two threads in which it delivers a number twice and ends in freed memory.
  \<^item> \<^verbatim>\<open>SlowQueue\<close>: \<^verbatim>\<open>hazardpointerslow.c\<close>, whose threads allocate, reuse and retire their records.
    \<^verbatim>\<open>GhostRely\<close>: rely/guarantee for \<open>exec\<close> with an auxiliary state that no action reads. \<^verbatim>\<open>SlowInv\<close>:
    the invariant of the queue under interference, and every action that keeps it; \<^verbatim>\<open>SlowSafe\<close>: the
    operations that enqueue and dequeue; \<^verbatim>\<open>SlowThreads\<close>: retiring, scanning, and the whole program: under
    any schedule no thread touches freed memory or fails an assertion, numbers
    leave in the order they entered and each is delivered once; and a thread that helps
    to scan can free a node twice.

  \<^bold>\<open>Bounds.\<close> The lists are proved with fuel at least the number of records there can be (\<open>2 ^ 20\<close> in
  the files); a count stays below the largest (65535 in the files); the scripts are short enough for
  the pool. The queues need fuel for the nodes behind \<open>Tail\<close>, the records of the threads and the
  places of a list of retired nodes.

  \<^bold>\<open>Memory.\<close> The memory is sequentially consistent; the fences of the code are no-ops.
  \<open>malloc\<close> and \<open>posix_memalign\<close> for nodes are a parameter, which returns memory that is not in use;
  memory for records, lists and arrays is taken to be there.

  \<^bold>\<open>Not modelled.\<close> The \<open>main\<close> functions and load generators (they parse arguments, start threads, print
  and measure time), messages printed on the way, code that is commented out or never
  called (\<open>isInpre\<close>, \<open>freeList\<close>, \<open>helpScan\<close> of \<^verbatim>\<open>hazardpointer.c\<close>), the experiments and the Java
  and Rust files. \<^verbatim>\<open>hazard_long_new.c\<close> is unfinished: its constants shift an \<open>int\<close> by more than its width, and
  its map returns pointers through an \<open>int\<close>. \<^verbatim>\<open>fast/psly_hazard_pointer_slow.c\<close> says in its first comment
  that it is a version with known faults, and has a pool and a list of its own that no other
  file shares. \<^verbatim>\<open>hazardP/psly_hazard.c\<close> uses a macro that is not defined, \<^verbatim>\<open>hazardP/struct/hazard.h\<close> is a header
  that no file instantiates, and \<^verbatim>\<open>hazardP/test.c\<close> has constants with which every record counts as
  deleted.
\<close>

end
